(* ===== verification/Prelude.thy ===== *)
theory Prelude
  imports Main "HOL-Library.Word"
begin

text \<open>
  Shared vocabulary of the development: machine integers of the Win32 target, C++ failures as
  values, little-endian object representations, and block reads and writes on byte lists.

  Target. The repository's project files build for Win32: \<open>size_t\<close>, \<open>std::uint32_t\<close>, \<open>DWORD\<close>
  and pointers are 32 bits wide and \<open>wchar_t\<close> is 2 bytes wide; integers are stored little-endian.
\<close>

unbundle bit_operations_syntax

section \<open>Named collections\<close>

named_theorems result_simps \<open>equations of the result monad\<close>
named_theorems byte_simps \<open>equations about object representations and byte blocks\<close>

section \<open>Types\<close>

type_synonym byte = "8 word"
type_synonym u32 = "32 word"
type_synonym bytes = "byte list"

text \<open>
  Every way an operation of the library can leave by a C++ exception, and, as
  \<open>Access_violation\<close>, the accesses outside an object for which C++ gives no result.
\<close>

datatype cxx_error =
    Out_of_range
  | Runtime_error
  | Bad_alloc
  | Length_error
  | Bad_function_call
  | Network_exception
  | Win32_exception
  | Access_violation

type_synonym 'a result = "cxx_error + 'a"

text \<open>\<open>std::string::npos\<close>, the position that no character has.\<close>

definition npos :: nat where
  "npos = 2 ^ 32 - 1"

section \<open>The result monad\<close>

fun bindR :: "'a result \<Rightarrow> ('a \<Rightarrow> 'b result) \<Rightarrow> 'b result" where
  "bindR (Inl e) f = Inl e"
| "bindR (Inr x) f = f x"

fun foldR :: "('a \<Rightarrow> 's \<Rightarrow> 's result) \<Rightarrow> 'a list \<Rightarrow> 's \<Rightarrow> 's result" where
  "foldR f [] s = Inr s"
| "foldR f (x # xs) s = bindR (f x s) (foldR f xs)"

declare bindR.simps [result_simps] foldR.simps [result_simps]

lemma bindR_assoc [result_simps]: "bindR (bindR m f) g = bindR m (\<lambda>x. bindR (f x) g)"
  by (cases m) auto

lemma bindR_Inr_iff: "bindR m f = Inr y \<longleftrightarrow> (\<exists>x. m = Inr x \<and> f x = Inr y)"
  by (cases m) auto

lemma bindR_Inl_iff: "bindR m f = Inl e \<longleftrightarrow> m = Inl e \<or> (\<exists>x. m = Inr x \<and> f x = Inl e)"
  by (cases m) auto

lemma bindR_return [simp]: "bindR m Inr = m"
  by (cases m) auto

lemma foldR_append: "foldR f (xs @ ys) s = bindR (foldR f xs s) (foldR f ys)"
proof (induction xs arbitrary: s)
  case (Cons x xs)
  then show ?case by (cases "f x s") auto
qed simp

lemma foldR_cong_set:
  "(\<And>x s. x \<in> set xs \<Longrightarrow> f x s = g x s) \<Longrightarrow> foldR f xs s = foldR g xs s"
proof (induction xs arbitrary: s)
  case (Cons x xs)
  then show ?case by (cases "g x s") auto
qed simp

lemma foldR_invariant:
  assumes "\<And>x s s'. x \<in> set xs \<Longrightarrow> P s \<Longrightarrow> f x s = Inr s' \<Longrightarrow> P s'"
    and "P s" and "foldR f xs s = Inr s'"
  shows "P s'"
  using assms
proof (induction xs arbitrary: s)
  case (Cons x xs)
  from Cons.prems(3) obtain t where "f x s = Inr t" and "foldR f xs t = Inr s'"
    by (auto simp: bindR_Inr_iff)
  with Cons show ?case by (meson list.set_intros)
qed simp

section \<open>Options\<close>

fun the_default :: "'a \<Rightarrow> 'a option \<Rightarrow> 'a" where
  "the_default d None = d"
| "the_default d (Some x) = x"

section \<open>Words\<close>

lemma unat_of_nat_u32: "n < 2 ^ 32 \<Longrightarrow> unat (of_nat n :: u32) = n"
  by (simp add: unat_of_nat take_bit_nat_eq_self)

lemma unat_u32_lt: "unat (w :: u32) < 2 ^ 32"
  using unsigned_less [of w] by simp

lemma le_u32_max: "t \<le> (2 ^ 32 - 1 :: u32)"
  using unat_u32_lt [of t] by (simp add: word_le_nat_alt)

lemma unat_add_u32: "unat (a :: u32) + unat b < 2 ^ 32 \<Longrightarrow> unat (a + b) = unat a + unat b"
  using unat_add_lem [of a b] by simp

lemma of_nat_unat_add [simp]: "of_nat (unat (a :: u32) + n) = a + of_nat n"
  by simp

section \<open>Object representation of a 32-bit unsigned integer\<close>

definition u32_rep :: "u32 \<Rightarrow> bytes" where
  "u32_rep w = [ucast w, ucast (drop_bit 8 w), ucast (drop_bit 16 w), ucast (drop_bit 24 w)]"

definition rep_u32 :: "bytes \<Rightarrow> u32" where
  "rep_u32 bs = (case bs of
      [a, b, c, d] \<Rightarrow>
        ucast a OR push_bit 8 (ucast b) OR push_bit 16 (ucast c) OR push_bit 24 (ucast d)
    | _ \<Rightarrow> 0)"

lemma length_u32_rep [simp]: "length (u32_rep w) = 4"
  by (simp add: u32_rep_def)

lemma rep_u32_rep [simp]: "rep_u32 (u32_rep w) = w"
proof (rule bit_word_eqI)
  fix n assume "n < LENGTH(32)"
  then show "bit (rep_u32 (u32_rep w)) n = bit w n"
    by (auto simp: rep_u32_def u32_rep_def bit_simps not_le not_less
          simp flip: not_le intro: bit_imp_le_length) 
qed

lemma u32_rep_rep [simp]: "u32_rep (rep_u32 [a, b, c, d]) = [a, b, c, d]"
proof -
  have "ucast (rep_u32 [a, b, c, d]) = a" "ucast (drop_bit 8 (rep_u32 [a, b, c, d])) = b"
    "ucast (drop_bit 16 (rep_u32 [a, b, c, d])) = c" "ucast (drop_bit 24 (rep_u32 [a, b, c, d])) = d"
    by (auto simp: rep_u32_def bit_eq_iff bit_simps dest: bit_imp_le_length)
  then show ?thesis by (simp add: u32_rep_def)
qed

section \<open>Blocks of bytes\<close>

definition put_block :: "nat \<Rightarrow> 'a list \<Rightarrow> 'a list \<Rightarrow> 'a list" where
  "put_block pos src dst = take pos dst @ src @ drop (pos + length src) dst"

definition get_block :: "nat \<Rightarrow> nat \<Rightarrow> 'a list \<Rightarrow> 'a list" where
  "get_block pos len src = take len (drop pos src)"

lemma length_put_block [simp]:
  "pos + length src \<le> length dst \<Longrightarrow> length (put_block pos src dst) = length dst"
  by (simp add: put_block_def)

lemma length_get_block [simp]:
  "pos + len \<le> length src \<Longrightarrow> length (get_block pos len src) = len"
  by (simp add: get_block_def)

lemma put_block_append [byte_simps]:
  assumes "pos + length a + length b \<le> length dst"
  shows "put_block (pos + length a) b (put_block pos a dst) = put_block pos (a @ b) dst"
proof -
  have "take pos (put_block pos a dst) = take pos dst" and "pos \<le> length dst"
    using assms by (auto simp: put_block_def)
  then show ?thesis
    using assms by (simp add: put_block_def ac_simps)
qed

lemma get_put_block [byte_simps]:
  "pos + length src \<le> length dst \<Longrightarrow> get_block pos (length src) (put_block pos src dst) = src"
  by (simp add: get_block_def put_block_def)

lemma put_block_Nil [byte_simps]: "put_block pos [] dst = dst"
  by (simp add: put_block_def)

lemma take_put_block [byte_simps]:
  "pos + length src \<le> length dst \<Longrightarrow> take pos (put_block pos src dst) = take pos dst"
  by (simp add: put_block_def)

lemma drop_put_block [byte_simps]:
  "pos + length src \<le> length dst \<Longrightarrow>
    drop pos (put_block pos src dst) = src @ drop (pos + length src) dst"
  by (simp add: put_block_def)

section \<open>Decimal text of integers\<close>

text \<open>The digits \<open>std::to_string\<close> and \<open>operator<<\<close> of a stream print for an integer.\<close>

definition digit_char :: "nat \<Rightarrow> char" where
  "digit_char d = char_of (48 + d)"

definition char_digit :: "char \<Rightarrow> nat" where
  "char_digit c = of_char c - 48"

fun string_of_nat :: "nat \<Rightarrow> string" where
  "string_of_nat n =
    (if n < 10 then [digit_char n] else string_of_nat (n div 10) @ [digit_char (n mod 10)])"

declare string_of_nat.simps [simp del]

definition string_of_int :: "int \<Rightarrow> string" where
  "string_of_int i = (if i < 0 then CHR ''-'' # string_of_nat (nat (- i)) else string_of_nat (nat i))"

definition dec_value :: "string \<Rightarrow> nat" where
  "dec_value cs = foldl (\<lambda>a c. a * 10 + char_digit c) 0 cs"

definition bytes_of_string :: "string \<Rightarrow> bytes" where
  "bytes_of_string cs = map of_char cs"

lemma length_bytes_of_string [simp]: "length (bytes_of_string cs) = length cs"
  by (simp add: bytes_of_string_def)

lemma digit_char_simps:
  "digit_char 0 = CHR ''0''"
  "digit_char (Suc 0) = CHR ''1''"
  "digit_char 2 = CHR ''2''"
  "digit_char 3 = CHR ''3''"
  "digit_char 4 = CHR ''4''"
  "digit_char 5 = CHR ''5''"
  "digit_char 6 = CHR ''6''"
  "digit_char 7 = CHR ''7''"
  "digit_char 8 = CHR ''8''"
  "digit_char 9 = CHR ''9''"
  by code_simp+

lemma char_digit_digit [simp]: "d < 10 \<Longrightarrow> char_digit (digit_char d) = d"
  by (simp add: char_digit_def digit_char_def)

lemma dec_value_string_of_nat [simp]: "dec_value (string_of_nat n) = n"
proof (induction n rule: string_of_nat.induct)
  case (1 n)
  show ?case
  proof (cases "n < 10")
    case True
    then show ?thesis by (subst string_of_nat.simps) (simp add: dec_value_def)
  next
    case False
    with "1.IH" have "dec_value (string_of_nat (n div 10)) = n div 10" by simp
    with False show ?thesis
      by (subst string_of_nat.simps) (simp add: dec_value_def)
  qed
qed

lemma length_string_of_nat: "length (string_of_nat n) \<le> n + 1"
proof (induction n rule: string_of_nat.induct)
  case (1 n)
  show ?case
  proof (cases "n < 10")
    case True
    then show ?thesis by (subst string_of_nat.simps) simp
  next
    case False
    with "1.IH" have "length (string_of_nat (n div 10)) \<le> n div 10 + 1" by simp
    also have "n div 10 + 1 \<le> n" using False by linarith
    finally show ?thesis using False by (subst string_of_nat.simps) simp
  qed
qed

lemma string_of_nat_not_Nil [simp]: "string_of_nat n \<noteq> []"
  by (subst string_of_nat.simps) simp

end
