(* ===== verification/Ser_Stream.thy ===== *)
theory Ser_Stream
  imports Prelude
begin

text \<open>
  The byte level of the serialisation library: \<open>memory_t\<close> of
  \<open>include/serialize/detail/buffer.hpp\<close>, the writers of \<open>detail/serialize_in.hpp\<close>, the readers
  of \<open>detail/serialize_out.hpp\<close>, and the class \<open>serialize_t\<close> of \<open>serialize.hpp\<close> that holds them
  together, for \<open>CharT = char\<close>.

  A POD value is its object representation, the bytes \<open>reinterpret_cast<const char *>(&val)\<close>
  addresses; \<open>sizeof(T)\<close> is their number. All positions and lengths are 32 bits wide and every
  addition and multiplication of the guards wraps as the code's does. The asserts are those of a
  release build (no effect); each repeats the condition of the \<open>throw\<close> that follows it.
\<close>

section \<open>memory\_t\<close>

record memory_t =
  buf :: bytes
  buf_len :: u32

definition memory_t_make :: "bytes \<Rightarrow> u32 \<Rightarrow> memory_t" where
  "memory_t_make b n = \<lparr>buf = b, buf_len = n\<rparr>"

definition buffer_length :: "memory_t \<Rightarrow> u32" where
  "buffer_length m = buf_len m"

text \<open>
  \<open>memmove\<close> between the caller's object and the buffer: outside either object there is no
  result, which the model reports as \<open>Access_violation\<close>.
\<close>

definition memory_read :: "u32 \<Rightarrow> u32 \<Rightarrow> memory_t \<Rightarrow> bytes result" where
  "memory_read len pos m =
    (if unat pos + unat len \<le> length (buf m) then Inr (get_block (unat pos) (unat len) (buf m))
     else Inl Access_violation)"

definition memory_write :: "bytes \<Rightarrow> u32 \<Rightarrow> u32 \<Rightarrow> memory_t \<Rightarrow> memory_t result" where
  "memory_write src len pos m =
    (if unat len \<le> length src \<and> unat pos + unat len \<le> length (buf m)
     then Inr (m\<lparr>buf := put_block (unat pos) (take (unat len) src) (buf m)\<rparr>)
     else Inl Access_violation)"

section \<open>serialize\_t\<close>

record serialize_t =
  buffer :: memory_t
  in_pos :: u32
  out_pos :: u32

definition serialize_make :: "bytes \<Rightarrow> u32 \<Rightarrow> serialize_t" where
  "serialize_make b n = \<lparr>buffer = memory_t_make b n, in_pos = 0, out_pos = 0\<rparr>"

definition in_length :: "serialize_t \<Rightarrow> u32" where
  "in_length s = in_pos s"

definition out_length :: "serialize_t \<Rightarrow> u32" where
  "out_length s = out_pos s"

definition serialize_read :: "u32 \<Rightarrow> u32 \<Rightarrow> serialize_t \<Rightarrow> bytes result" where
  "serialize_read len pos s = memory_read len pos (buffer s)"

definition serialize_write :: "bytes \<Rightarrow> u32 \<Rightarrow> u32 \<Rightarrow> serialize_t \<Rightarrow> serialize_t result" where
  "serialize_write src len pos s =
    bindR (memory_write src len pos (buffer s)) (\<lambda>m. Inr (s\<lparr>buffer := m\<rparr>))"

section \<open>binary\_in\_t\<close>

text \<open>The guard all writers share, and what follows it: write, then advance \<open>in_pos\<close>.\<close>

definition write_at_in :: "bytes \<Rightarrow> u32 \<Rightarrow> serialize_t \<Rightarrow> serialize_t result" where
  "write_at_in src len s =
    bindR (memory_write src len (in_pos s) (buffer s))
      (\<lambda>m. Inr (s\<lparr>buffer := m, in_pos := in_pos s + len\<rparr>))"

definition binary_in_push :: "bytes \<Rightarrow> serialize_t \<Rightarrow> serialize_t result" where
  "binary_in_push rep s =
    (let sizeof_T = of_nat (length rep) in
     if sizeof_T + in_pos s > buffer_length (buffer s) then Inl Out_of_range
     else write_at_in rep sizeof_T s)"

definition binary_in_push_array :: "u32 \<Rightarrow> u32 \<Rightarrow> bytes \<Rightarrow> serialize_t \<Rightarrow> serialize_t result" where
  "binary_in_push_array sizeof_T N arr s =
    (let len = sizeof_T * N in
     if len + in_pos s > buffer_length (buffer s) then Inl Out_of_range
     else write_at_in arr len s)"

definition binary_in_push_pointer :: "u32 \<Rightarrow> bytes \<Rightarrow> u32 \<Rightarrow> serialize_t \<Rightarrow> serialize_t result" where
  "binary_in_push_pointer sizeof_T ptr cnt s =
    (let len = sizeof_T * cnt in
     if len + in_pos s > buffer_length (buffer s) then Inl Out_of_range
     else write_at_in ptr len s)"

section \<open>text\_in\_t\<close>

text \<open>
  The text writer checks \<open>sizeof(T)\<close> against the space left and then writes
  \<open>std::to_string(val)\<close>, whatever its length.
\<close>

definition text_in_push :: "u32 \<Rightarrow> int \<Rightarrow> serialize_t \<Rightarrow> serialize_t result" where
  "text_in_push sizeof_T val s =
    (if sizeof_T + in_pos s > buffer_length (buffer s) then Inl Out_of_range
     else (let t = bytes_of_string (string_of_int val) in
           write_at_in t (of_nat (length t)) s))"

definition text_in_push_char :: "byte \<Rightarrow> serialize_t \<Rightarrow> serialize_t result" where
  "text_in_push_char val s =
    (if 1 + in_pos s > buffer_length (buffer s) then Inl Out_of_range
     else write_at_in [val] 1 s)"

definition text_in_push_pointer :: "bytes \<Rightarrow> u32 \<Rightarrow> serialize_t \<Rightarrow> serialize_t result" where
  "text_in_push_pointer ptr cnt s =
    (let len = 1 * cnt in
     if len + in_pos s > buffer_length (buffer s) then Inl Out_of_range
     else write_at_in ptr cnt s)"

section \<open>binary\_out\_t\<close>

definition read_at_out :: "u32 \<Rightarrow> serialize_t \<Rightarrow> (bytes \<times> serialize_t) result" where
  "read_at_out len s =
    bindR (memory_read len (out_pos s) (buffer s))
      (\<lambda>bs. Inr (bs, s\<lparr>out_pos := out_pos s + len\<rparr>))"

definition binary_out_pop :: "u32 \<Rightarrow> serialize_t \<Rightarrow> (bytes \<times> serialize_t) result" where
  "binary_out_pop sizeof_T s =
    (if sizeof_T + out_pos s > buffer_length (buffer s) then Inl Out_of_range
     else read_at_out sizeof_T s)"

text \<open>
  \<open>pop_array\<close> and \<open>pop_pointer\<close> overwrite the first \<open>len\<close> bytes of the object the caller
  supplies; an object smaller than that is overrun.
\<close>

definition overwrite :: "bytes \<Rightarrow> bytes \<times> serialize_t \<Rightarrow> (bytes \<times> serialize_t) result" where
  "overwrite dst p =
    (if length (fst p) \<le> length dst then Inr (fst p @ drop (length (fst p)) dst, snd p)
     else Inl Access_violation)"

definition binary_out_pop_array :: "u32 \<Rightarrow> u32 \<Rightarrow> bytes \<Rightarrow> serialize_t \<Rightarrow> (bytes \<times> serialize_t) result" where
  "binary_out_pop_array sizeof_T N arr s =
    (let len = sizeof_T * N in
     if len + out_pos s > buffer_length (buffer s) then Inl Out_of_range
     else bindR (read_at_out len s) (overwrite arr))"

definition binary_out_pop_pointer :: "u32 \<Rightarrow> bytes \<Rightarrow> u32 \<Rightarrow> serialize_t \<Rightarrow> (bytes \<times> serialize_t) result" where
  "binary_out_pop_pointer sizeof_T ptr cnt s =
    (let len = sizeof_T * cnt in
     if len + out_pos s > buffer_length (buffer s) then Inl Out_of_range
     else bindR (read_at_out len s) (overwrite ptr))"

section \<open>empty\_in\_t and empty\_out\_t\<close>

definition empty_in_push :: "bytes \<Rightarrow> serialize_t \<Rightarrow> serialize_t result" where
  "empty_in_push rep s = Inr s"

definition empty_out_pop :: "bytes \<Rightarrow> serialize_t \<Rightarrow> (bytes \<times> serialize_t) result" where
  "empty_out_pop val s = Inr (val, s)"

section \<open>The invariant\<close>

text \<open>
  A well-formed stream: \<open>buf_len\<close> is the extent of the buffer, which, as every object of the
  target, is smaller than \<open>2 ^ 31\<close> bytes, and both positions are inside it.
\<close>

definition wf_stream :: "serialize_t \<Rightarrow> bool" where
  "wf_stream s \<longleftrightarrow>
     length (buf (buffer s)) = unat (buf_len (buffer s)) \<and>
     unat (buf_len (buffer s)) < 2 ^ 31 \<and>
     unat (in_pos s) \<le> unat (buf_len (buffer s)) \<and>
     unat (out_pos s) \<le> unat (buf_len (buffer s))"

text \<open>What a writer means: append \<open>bs\<close> at the write position, or refuse.\<close>

definition emit :: "bytes \<Rightarrow> serialize_t \<Rightarrow> serialize_t result" where
  "emit bs s =
    (if unat (in_pos s) + length bs \<le> unat (buf_len (buffer s))
     then Inr (s\<lparr>buffer := (buffer s)\<lparr>buf := put_block (unat (in_pos s)) bs (buf (buffer s))\<rparr>,
                in_pos := in_pos s + of_nat (length bs)\<rparr>)
     else Inl Out_of_range)"

text \<open>What a reader means: the next \<open>n\<close> bytes at the read position, or refuse.\<close>

definition fetch :: "nat \<Rightarrow> serialize_t \<Rightarrow> (bytes \<times> serialize_t) result" where
  "fetch n s =
    (if unat (out_pos s) + n \<le> unat (buf_len (buffer s))
     then Inr (get_block (unat (out_pos s)) n (buf (buffer s)), s\<lparr>out_pos := out_pos s + of_nat n\<rparr>)
     else Inl Out_of_range)"

lemma emit_Nil [simp]: "wf_stream s \<Longrightarrow> emit [] s = Inr s"
  by (simp add: emit_def wf_stream_def put_block_Nil)

lemma wf_stream_emit:
  assumes "wf_stream s" and "emit bs s = Inr s'"
  shows "wf_stream s'"
proof -
  have fits: "unat (in_pos s) + length bs \<le> unat (buf_len (buffer s))"
    using assms(2) by (simp add: emit_def split: if_splits)
  with assms(1) have "unat (in_pos s + of_nat (length bs)) = unat (in_pos s) + length bs"
    by (simp add: wf_stream_def unat_add_u32 unat_of_nat_u32)
  with assms fits show ?thesis by (auto simp: emit_def wf_stream_def split: if_splits)
qed

lemma emit_in_pos:
  assumes "wf_stream s" and "emit bs s = Inr s'"
  shows "unat (in_pos s') = unat (in_pos s) + length bs"
  using assms by (auto simp: emit_def wf_stream_def unat_add_u32 unat_of_nat_u32 split: if_splits)

text \<open>The bytes a writer has put are those between the two write positions.\<close>

lemma emit_written:
  assumes "wf_stream s" "emit bs s = Inr s'"
  shows "get_block (unat (in_pos s)) (unat (in_pos s') - unat (in_pos s)) (buf (buffer s')) = bs"
proof -
  have "unat (in_pos s) + length bs \<le> length (buf (buffer s))"
    "buf (buffer s') = put_block (unat (in_pos s)) bs (buf (buffer s))"
    using assms by (auto simp: emit_def wf_stream_def split: if_splits)
  then show ?thesis using emit_in_pos [OF assms] by (simp add: get_put_block)
qed

lemma emit_in_pos_word: "emit bs s = Inr s' \<Longrightarrow> in_pos s' = in_pos s + of_nat (length bs)"
  by (auto simp: emit_def split: if_splits)

lemma emit_out_pos: "emit bs s = Inr s' \<Longrightarrow> out_pos s' = out_pos s"
  by (auto simp: emit_def split: if_splits)

lemma emit_append:
  assumes "wf_stream s"
  shows "emit (a @ b) s = bindR (emit a s) (emit b)"
proof (cases "unat (in_pos s) + length a \<le> unat (buf_len (buffer s))")
  case True
  with assms have "unat (in_pos s + of_nat (length a)) = unat (in_pos s) + length a"
    by (simp add: wf_stream_def unat_add_u32 unat_of_nat_u32)
  with True assms show ?thesis
    by (auto simp: emit_def wf_stream_def put_block_append add.assoc)
next
  case False
  then show ?thesis by (simp add: emit_def)
qed

lemma emit_concat:
  assumes "wf_stream s"
  shows "emit (concat (map g xs)) s = foldR (\<lambda>x. emit (g x)) xs s"
  using assms
proof (induction xs arbitrary: s)
  case (Cons x xs)
  show ?case
  proof (cases "emit (g x) s")
    case (Inr t)
    with Cons show ?thesis by (simp add: emit_append wf_stream_emit)
  qed (use Cons in \<open>simp add: emit_append\<close>)
qed simp

lemma wf_stream_fetch:
  assumes "wf_stream s" and "fetch n s = Inr (bs, s')"
  shows "wf_stream s'" and "length bs = n" and "unat (out_pos s') = unat (out_pos s) + n"
proof -
  have fits: "unat (out_pos s) + n \<le> unat (buf_len (buffer s))"
    using assms(2) by (simp add: fetch_def split: if_splits)
  with assms(1) have pos: "unat (out_pos s + of_nat n) = unat (out_pos s) + n"
    by (simp add: wf_stream_def unat_add_u32 unat_of_nat_u32)
  from pos assms fits show "wf_stream s'" and "unat (out_pos s') = unat (out_pos s) + n"
    by (auto simp: fetch_def wf_stream_def split: if_splits)
  from assms fits show "length bs = n"
    by (auto simp: fetch_def wf_stream_def split: if_splits)
qed


section \<open>The operations refine the specification\<close>

lemma guard_in_iff:
  assumes "wf_stream s" and "unat len < 2 ^ 31"
  shows "len + in_pos s > buffer_length (buffer s) \<longleftrightarrow>
    \<not> unat (in_pos s) + unat len \<le> unat (buf_len (buffer s))"
  using assms
  by (auto simp: wf_stream_def buffer_length_def word_less_nat_alt unat_add_u32 add.commute)

lemma guard_out_iff:
  assumes "wf_stream s" and "unat len < 2 ^ 31"
  shows "len + out_pos s > buffer_length (buffer s) \<longleftrightarrow>
    \<not> unat (out_pos s) + unat len \<le> unat (buf_len (buffer s))"
  using assms
  by (auto simp: wf_stream_def buffer_length_def word_less_nat_alt unat_add_u32 add.commute)

lemma write_at_in_emit:
  assumes "wf_stream s" and "unat len = length src"
    and "unat (in_pos s) + unat len \<le> unat (buf_len (buffer s))"
  shows "write_at_in src len s = emit src s"
proof -
  have "of_nat (length src) = len" by (simp flip: assms(2))
  with assms show ?thesis by (simp add: write_at_in_def memory_write_def emit_def wf_stream_def)
qed

lemma read_at_out_fetch:
  assumes "wf_stream s" and "unat (out_pos s) + unat len \<le> unat (buf_len (buffer s))"
  shows "read_at_out len s = fetch (unat len) s"
  using assms by (simp add: read_at_out_def memory_read_def fetch_def wf_stream_def)

lemma emit_refuses: "\<not> unat (in_pos s) + length bs \<le> unat (buf_len (buffer s)) \<Longrightarrow> emit bs s = Inl Out_of_range"
  by (simp add: emit_def)

lemma fetch_refuses: "\<not> unat (out_pos s) + n \<le> unat (buf_len (buffer s)) \<Longrightarrow> fetch n s = Inl Out_of_range"
  by (simp add: fetch_def)

lemma binary_in_push_pointer_emit:
  assumes "wf_stream s" and "unat (sizeof_T * cnt) = length ptr" and "length ptr < 2 ^ 31"
  shows "binary_in_push_pointer sizeof_T ptr cnt s = emit ptr s"
  using assms guard_in_iff [of s "sizeof_T * cnt"]
  by (auto simp: binary_in_push_pointer_def Let_def write_at_in_emit emit_refuses)

lemma binary_in_push_array_pointer:
  "binary_in_push_array sizeof_T N arr s = binary_in_push_pointer sizeof_T arr N s"
  by (simp add: binary_in_push_array_def binary_in_push_pointer_def)

lemma binary_in_push_pointer_one:
  "binary_in_push rep s = binary_in_push_pointer (of_nat (length rep)) rep 1 s"
  by (simp add: binary_in_push_def binary_in_push_pointer_def)

lemma binary_in_push_emit:
  assumes "wf_stream s" and "length rep < 2 ^ 31"
  shows "binary_in_push rep s = emit rep s"
  using assms by (simp add: binary_in_push_pointer_one binary_in_push_pointer_emit unat_of_nat_u32)

lemma binary_out_pop_fetch:
  assumes "wf_stream s" and "unat sizeof_T < 2 ^ 31"
  shows "binary_out_pop sizeof_T s = fetch (unat sizeof_T) s"
  using assms guard_out_iff [of s sizeof_T]
  by (auto simp: binary_out_pop_def read_at_out_fetch fetch_refuses)

lemma binary_out_pop_pointer_fetch:
  assumes "wf_stream s" and "unat (sizeof_T * cnt) < 2 ^ 31"
  shows "binary_out_pop_pointer sizeof_T dst cnt s =
    bindR (fetch (unat (sizeof_T * cnt)) s) (overwrite dst)"
  using assms guard_out_iff [of s "sizeof_T * cnt"]
  by (auto simp: binary_out_pop_pointer_def Let_def read_at_out_fetch fetch_refuses)

lemma binary_out_pop_array_pointer:
  "binary_out_pop_array sizeof_T N arr s = binary_out_pop_pointer sizeof_T arr N s"
  by (simp add: binary_out_pop_array_def binary_out_pop_pointer_def)

lemma overwrite_all [simp]: "length bs = length dst \<Longrightarrow> overwrite dst (bs, s) = Inr (bs, s)"
  by (simp add: overwrite_def)

lemma fetch_emitted:
  assumes "wf_stream s" and "drop (unat (out_pos s)) (buf (buffer s)) = bs @ rest"
  shows "fetch (length bs) s = Inr (bs, s\<lparr>out_pos := out_pos s + of_nat (length bs)\<rparr>)"
proof -
  have "length (buf (buffer s)) - unat (out_pos s) = length bs + length rest"
    using assms(2) by (metis length_append length_drop)
  moreover have "unat (out_pos s) \<le> length (buf (buffer s))"
    using assms(1) by (simp add: wf_stream_def)
  ultimately have "unat (out_pos s) + length bs \<le> unat (buf_len (buffer s))"
    using assms(1) unfolding wf_stream_def by linarith
  with assms show ?thesis by (simp add: fetch_def get_block_def)
qed

lemma emit_outcome:
  assumes "wf_stream s"
  shows "case emit bs s of
       Inl e \<Rightarrow> e = Out_of_range \<and> unat (buf_len (buffer s)) < unat (in_pos s) + length bs
     | Inr s' \<Rightarrow> wf_stream s' \<and> unat (in_pos s') = unat (in_pos s) + length bs"
proof (cases "unat (in_pos s) + length bs \<le> unat (buf_len (buffer s))")
  case True
  then obtain s' where "emit bs s = Inr s'" by (simp add: emit_def)
  then show ?thesis
    using wf_stream_emit [OF assms] emit_in_pos [OF assms] by simp
next
  case False
  then show ?thesis by (simp add: emit_refuses)
qed

lemma fetch_outcome:
  assumes "wf_stream s"
  shows "case fetch n s of
       Inl e \<Rightarrow> e = Out_of_range \<and> unat (buf_len (buffer s)) < unat (out_pos s) + n
     | Inr (bs, s') \<Rightarrow> wf_stream s' \<and> length bs = n \<and> unat (out_pos s') = unat (out_pos s) + n"
proof (cases "unat (out_pos s) + n \<le> unat (buf_len (buffer s))")
  case True
  then obtain bs s' where "fetch n s = Inr (bs, s')" by (simp add: fetch_def)
  then show ?thesis
    using wf_stream_fetch [OF assms] by simp
next
  case False
  then show ?thesis by (simp add: fetch_refuses)
qed

lemma fetch_overwrite:
  assumes "wf_stream s"
  shows "bindR (fetch (length dst) s) (overwrite dst) = fetch (length dst) s"
proof (cases "fetch (length dst) s")
  case (Inr p)
  then show ?thesis using wf_stream_fetch(2) [OF assms] by (cases p) simp
qed simp

text \<open>
  C7. On a well-formed stream, \<open>push\<close>, \<open>push_array\<close> and \<open>push_pointer\<close> of \<open>binary_in_t\<close> do
  exactly what an append does: either all bytes of the object land at the write position and the
  position advances by their number, or \<open>std::out_of_range\<close> is thrown; no write ever leaves the
  buffer and the stream stays well-formed.
\<close>

theorem binary_writers_append:
  assumes "wf_stream s" and "length rep < 2 ^ 31" and "unat (sizeof_T * cnt) = length rep"
  shows "binary_in_push rep s = emit rep s \<and>
    binary_in_push_array sizeof_T cnt rep s = emit rep s \<and>
    binary_in_push_pointer sizeof_T rep cnt s = emit rep s \<and>
    (case emit rep s of
       Inl e \<Rightarrow> e = Out_of_range \<and> unat (buf_len (buffer s)) < unat (in_pos s) + length rep
     | Inr s' \<Rightarrow> wf_stream s' \<and> unat (in_pos s') = unat (in_pos s) + length rep)"
  using assms emit_outcome [OF assms(1)]
  by (simp add: binary_in_push_emit binary_in_push_array_pointer binary_in_push_pointer_emit)

definition demo_stream :: serialize_t where
  "demo_stream = (serialize_make (replicate 12 0) 12)\<lparr>in_pos := 2, out_pos := 2\<rparr>"

lemma wf_demo_stream: "wf_stream demo_stream"
  by (simp add: demo_stream_def serialize_make_def memory_t_make_def wf_stream_def)

theorem binary_writers_append_witness:
  "binary_in_push_array 2 2 [1, 2, 3, 4] demo_stream = emit [1, 2, 3, 4] demo_stream \<and>
   map_sum id in_pos (emit [1, 2, 3, 4] demo_stream) = Inr 6"
proof -
  have "binary_in_push_array 2 2 [1, 2, 3, 4] demo_stream = emit [1, 2, 3, 4] demo_stream"
    using binary_writers_append [OF wf_demo_stream, of "[1, 2, 3, 4]" 2 2] by simp
  moreover have "map_sum id in_pos (emit [1, 2, 3, 4] demo_stream) = Inr 6"
    by (simp add: emit_def demo_stream_def serialize_make_def memory_t_make_def)
  ultimately show ?thesis by simp
qed

text \<open>
  C17. Under the no-wrap condition \<open>len < 2 ^ 31\<close> the readers of \<open>binary_out_t\<close> return exactly the
  next \<open>len\<close> bytes of the buffer, copied over the head of the caller's object, or throw
  \<open>std::out_of_range\<close>; they read nothing outside the buffer and the stream stays well-formed.
\<close>

theorem binary_readers_fetch:
  assumes "wf_stream s" and "unat (sizeof_T * cnt) < 2 ^ 31" and "unat sizeof_T < 2 ^ 31"
    and "unat (sizeof_T * cnt) = length dst"
  shows "binary_out_pop sizeof_T s = fetch (unat sizeof_T) s \<and>
    binary_out_pop_array sizeof_T cnt dst s = fetch (length dst) s \<and>
    binary_out_pop_pointer sizeof_T dst cnt s = fetch (length dst) s \<and>
    (case fetch (length dst) s of
       Inl e \<Rightarrow> e = Out_of_range \<and> unat (buf_len (buffer s)) < unat (out_pos s) + length dst
     | Inr (bs, s') \<Rightarrow> wf_stream s' \<and> length bs = length dst \<and>
         unat (out_pos s') = unat (out_pos s) + length dst)"
  using assms fetch_outcome [OF assms(1)] fetch_overwrite [OF assms(1)]
  by (simp add: binary_out_pop_fetch binary_out_pop_array_pointer binary_out_pop_pointer_fetch)

theorem binary_readers_fetch_witness:
  "binary_out_pop_pointer 2 [7, 7, 7, 7] 2 demo_stream = fetch 4 demo_stream \<and>
   map_sum id fst (fetch 4 demo_stream) = Inr (replicate 4 0)"
proof -
  have len: "length [7, 7, 7, 7 :: byte] = 4" by simp
  have "binary_out_pop_pointer 2 [7, 7, 7, 7] 2 demo_stream = fetch 4 demo_stream"
    using binary_readers_fetch [OF wf_demo_stream, of 2 2 "[7, 7, 7, 7]", unfolded len] by simp
  moreover have "map_sum id fst (fetch 4 demo_stream) = Inr (replicate 4 0)"
    by (simp add: fetch_def demo_stream_def serialize_make_def memory_t_make_def get_block_def)
  ultimately show ?thesis by simp
qed

section \<open>Where the guards fail\<close>

text \<open>
  The guard of \<open>pop_pointer\<close> adds a length read from the stream to \<open>out_pos\<close> in 32 bits. Once
  anything has been read, the length \<open>2 ^ 32 - out_pos\<close> wraps the sum to 0: the guard lets it pass
  and the copy leaves the buffer.
\<close>

theorem pop_pointer_guard_wraps:
  assumes "wf_stream s" and "0 < unat (out_pos s)"
  shows "binary_out_pop_pointer 1 dst (- out_pos s) s = Inl Access_violation"
proof -
  have nz: "out_pos s \<noteq> 0" using assms(2) by auto
  then have "unat (- out_pos s) = 2 ^ 32 - unat (out_pos s)"
    using unat_sub_if' [of 0 "out_pos s"] by (auto simp: unat_gt_0)
  moreover have "length (buf (buffer s)) < 2 ^ 31" and "unat (out_pos s) < 2 ^ 31"
    using assms(1) by (auto simp: wf_stream_def)
  ultimately have "\<not> unat (out_pos s) + unat (- out_pos s) \<le> length (buf (buffer s))"
    by simp
  then show ?thesis
    by (simp add: binary_out_pop_pointer_def read_at_out_def memory_read_def)
qed

theorem pop_pointer_guard_wraps_witness:
  "binary_out_pop_pointer 1 (replicate 16 0) (- 2) demo_stream = Inl Access_violation"
proof -
  have "out_pos demo_stream = 2" by (simp add: demo_stream_def)
  then show ?thesis
    using pop_pointer_guard_wraps [OF wf_demo_stream, of "replicate 16 0"] by simp
qed

text \<open>
  \<open>text_in_t::push\<close> compares \<open>sizeof(T)\<close>, not the length of the decimal text, with the space
  left. It is exact when the text fits: the digits are appended; but when \<open>sizeof(T)\<close> bytes fit and
  the text does not, the copy runs past the end of the buffer.
\<close>

theorem text_in_push_behaviour:
  assumes "wf_stream s" and "unat sizeof_T < 2 ^ 31" and "length (string_of_int val) < 2 ^ 31"
  shows "text_in_push sizeof_T val s =
    (if unat (buf_len (buffer s)) < unat (in_pos s) + unat sizeof_T then Inl Out_of_range
     else if unat (buf_len (buffer s)) < unat (in_pos s) + length (string_of_int val)
          then Inl Access_violation
     else emit (bytes_of_string (string_of_int val)) s)"
proof -
  let ?t = "bytes_of_string (string_of_int val)"
  have len: "unat (of_nat (length ?t) :: u32) = length ?t"
    using assms(3) by (simp add: unat_of_nat_u32)
  show ?thesis
  proof (cases "unat (in_pos s) + length ?t \<le> unat (buf_len (buffer s))")
    case True
    then have "write_at_in ?t (of_nat (length ?t)) s = emit ?t s"
      using assms(1) len by (simp add: write_at_in_emit)
    with True show ?thesis
      using guard_in_iff [OF assms(1,2)] by (auto simp: text_in_push_def Let_def)
  next
    case False
    then have "write_at_in ?t (of_nat (length ?t)) s = Inl Access_violation"
      using assms(1) len by (simp add: write_at_in_def memory_write_def wf_stream_def)
    with False show ?thesis
      using guard_in_iff [OF assms(1,2)] by (auto simp: text_in_push_def Let_def)
  qed
qed

text \<open>The least \<open>int\<close> (4 bytes, 11 characters) and a short one, written into the ten bytes left.\<close>

theorem text_in_push_behaviour_witness:
  "text_in_push 4 (- 2147483648) demo_stream = Inl Access_violation \<and>
   text_in_push 4 77 demo_stream = emit [55, 55] demo_stream"
proof -
  have l1: "length (string_of_int (- 2147483648)) = 11"
    by (simp add: string_of_int_def string_of_nat.simps)
  have l2: "string_of_int 77 = ''77''"
    by code_simp
  have "text_in_push 4 (- 2147483648) demo_stream = Inl Access_violation"
    using text_in_push_behaviour [OF wf_demo_stream, of 4 "- 2147483648"]
    by (simp add: l1 demo_stream_def serialize_make_def memory_t_make_def)
  moreover have "text_in_push 4 77 demo_stream = emit [55, 55] demo_stream"
    using text_in_push_behaviour [OF wf_demo_stream, of 4 77]
    by (simp add: l2 demo_stream_def serialize_make_def memory_t_make_def bytes_of_string_def)
  ultimately show ?thesis by simp
qed

end
