(* ===== verification/Ser_Dispatch.thy ===== *)
theory Ser_Dispatch
  imports Ser_Stream
begin

text \<open>
  The type-directed level of the serialisation library: \<open>operator<<\<close> and \<open>operator>>\<close> of
  \<open>include/serialize/serialize.hpp\<close>, \<open>select_traits_t\<close> of \<open>detail/dispatch.hpp\<close> and
  \<open>container_traits_t\<close>, \<open>sequence_traits_t\<close> and \<open>associative_type_traits_t\<close> of
  \<open>detail/container_dispatch.hpp\<close>, over the binary stream.

  The C++ type of a value is a term of \<open>ty\<close>, so the template dispatch is a case distinction;
  the value is a term of \<open>val\<close>. Objects stored contiguously as PODs (a POD, a string, a vector of
  PODs, an array of PODs) are their bytes.
\<close>

section \<open>Which specialisation handles a type\<close>

text \<open>
  The overloads call each other: \<open>operator<<\<close> calls \<open>select_traits_t<T>::push\<close>; its primary template
  calls \<open>os.push\<close> on arithmetic and enum types and \<open>container_traits_t<T>::push\<close> on containers; the
  primary template of \<open>container_traits_t\<close> calls \<open>operator<<\<close> again. A call is done when it reaches
  a specialisation with a body of its own or the stream.
\<close>

datatype cxx_kind =
    K_arithmetic | K_string | K_array | K_shared_ptr
  | K_pair | K_tuple | K_vector | K_list | K_deque
  | K_map | K_set | K_multimap | K_multiset
  | K_unordered_map | K_unordered_set | K_unordered_multimap | K_unordered_multiset

datatype call_site = Stream_operator | Select_traits | Container_traits | Handled

definition is_container_t :: "cxx_kind \<Rightarrow> bool" where
  "is_container_t k \<longleftrightarrow> k \<in> {K_pair, K_tuple, K_vector, K_list, K_deque, K_map, K_set,
     K_unordered_map, K_unordered_set, K_multimap, K_multiset,
     K_unordered_multimap, K_unordered_multiset}"

definition container_traits_specialised :: "cxx_kind \<Rightarrow> bool" where
  "container_traits_specialised k \<longleftrightarrow> k \<in> {K_pair, K_tuple, K_map, K_multimap, K_set, K_multiset,
     K_list, K_vector, K_deque}"

fun next_call :: "cxx_kind \<Rightarrow> call_site \<Rightarrow> call_site" where
  "next_call k Stream_operator = Select_traits"
| "next_call k Select_traits = (if is_container_t k then Container_traits else Handled)"
| "next_call k Container_traits =
    (if container_traits_specialised k then Handled else Stream_operator)"
| "next_call k Handled = Handled"

lemma next_call_period:
  assumes "is_container_t k" and "\<not> container_traits_specialised k"
  shows "(next_call k ^^ n) Stream_operator \<noteq> Handled"
proof -
  have "(next_call k ^^ n) Stream_operator \<in> {Stream_operator, Select_traits, Container_traits}"
    using assms by (induction n) auto
  then show ?thesis by auto
qed


section \<open>Types and values\<close>

datatype ty =
    Pod nat                 \<comment> \<open>integral, floating-point or enum type of this \<open>sizeof\<close>\<close>
  | Basic_string nat        \<comment> \<open>\<open>std::basic_string\<close>, by \<open>sizeof\<close> of its character type\<close>
  | Char_array nat nat      \<comment> \<open>\<open>char[N]\<close> and \<open>wchar_t[N]\<close>: \<open>sizeof\<close> of the character, \<open>N\<close>\<close>
  | Pod_array nat nat       \<comment> \<open>\<open>T[N]\<close> of a POD \<open>T\<close>, arrays of PODs such as \<open>char[M][N]\<close> included\<close>
  | Array ty nat            \<comment> \<open>\<open>T[N]\<close> of another \<open>T\<close>\<close>
  | Pair ty ty
  | Tuple "ty list"
  | Vector ty
  | List ty
  | Deque ty
  | Map ty ty
  | Multimap ty ty
  | Set ty
  | Multiset ty
  | Shared_ptr ty

datatype val =
    VRaw bytes
  | VPair val val
  | VTuple "val list"
  | VSeq "val list"
  | VAssoc "(val \<times> val) list"
  | VShared "val option"

fun is_pod :: "ty \<Rightarrow> bool" where
  "is_pod (Pod n) = True"
| "is_pod _ = False"

fun sizeof_pod :: "ty \<Rightarrow> nat" where
  "sizeof_pod (Pod n) = n"
| "sizeof_pod _ = 0"

text \<open>
  The parts of a value its C++ type gives access to. The C++ compiler rejects an ill-typed
  access, so the other cases, given a fixed value here, do not arise on well-typed values.
\<close>

fun raw_of :: "val \<Rightarrow> bytes" where
  "raw_of (VRaw bs) = bs"
| "raw_of _ = []"

fun first_of :: "val \<Rightarrow> val" where
  "first_of (VPair x y) = x"
| "first_of v = v"

fun second_of :: "val \<Rightarrow> val" where
  "second_of (VPair x y) = y"
| "second_of v = v"

fun elems_of :: "val \<Rightarrow> val list" where
  "elems_of (VTuple vs) = vs"
| "elems_of (VSeq vs) = vs"
| "elems_of _ = []"

fun entries_of :: "val \<Rightarrow> (val \<times> val) list" where
  "entries_of (VAssoc ps) = ps"
| "entries_of _ = []"

fun pointee_of :: "val \<Rightarrow> val option" where
  "pointee_of (VShared p) = p"
| "pointee_of _ = None"

section \<open>Strings and lengths\<close>

text \<open>
  \<open>std::char_traits<CharT>::length\<close>: the number of characters before the first null character.
  \<open>None\<close> when the array has none: the scan leaves the array.
\<close>

fun str_length :: "nat \<Rightarrow> nat \<Rightarrow> bytes \<Rightarrow> nat option" where
  "str_length w 0 bs = None"
| "str_length w (Suc n) bs =
    (if take w bs = replicate w 0 then Some 0 else map_option Suc (str_length w n (drop w bs)))"

definition push_length_impl :: "u32 \<Rightarrow> serialize_t \<Rightarrow> serialize_t result" where
  "push_length_impl len s = binary_in_push (u32_rep len) s"

text \<open>The \<open>std::uint32_t\<close> or \<open>size_t\<close> a \<open>pop\<close> starts with: four bytes on the target.\<close>

definition pop_length :: "serialize_t \<Rightarrow> (u32 \<times> serialize_t) result" where
  "pop_length s = bindR (binary_out_pop 4 s) (\<lambda>(bs, s'). Inr (rep_u32 bs, s'))"

section \<open>Pushing\<close>

text \<open>Contiguous characters or PODs with their count in front.\<close>

definition push_counted :: "nat \<Rightarrow> bytes \<Rightarrow> serialize_t \<Rightarrow> serialize_t result" where
  "push_counted w bs s =
    (let size = of_nat (length bs div w) in
     bindR (push_length_impl size s) (binary_in_push_pointer (of_nat w) bs size))"

text \<open>
  \<open>char[N]\<close> and \<open>wchar_t[N]\<close>: the length written is \<open>N\<close>, the characters written are those before
  the null character.
\<close>

definition push_char_array :: "nat \<Rightarrow> nat \<Rightarrow> bytes \<Rightarrow> serialize_t \<Rightarrow> serialize_t result" where
  "push_char_array w N bs s =
    bindR (push_length_impl (of_nat N) s)
      (\<lambda>s1. case str_length w N bs of
         None \<Rightarrow> Inl Access_violation
       | Some n \<Rightarrow> binary_in_push_pointer (of_nat w) bs (of_nat n) s1)"

text \<open>The element count and then the elements of a sequence or set, the entries of a map.\<close>

definition push_seq :: "(val \<Rightarrow> serialize_t \<Rightarrow> serialize_t result) \<Rightarrow> val list \<Rightarrow>
    serialize_t \<Rightarrow> serialize_t result" where
  "push_seq pe vs s = bindR (push_length_impl (of_nat (length vs)) s) (foldR pe vs)"

definition push_entries :: "(val \<Rightarrow> serialize_t \<Rightarrow> serialize_t result) \<Rightarrow>
    (val \<Rightarrow> serialize_t \<Rightarrow> serialize_t result) \<Rightarrow> (val \<times> val) list \<Rightarrow>
    serialize_t \<Rightarrow> serialize_t result" where
  "push_entries pk pd ps s =
    bindR (push_length_impl (of_nat (length ps)) s)
      (foldR (\<lambda>p s1. bindR (pk (fst p) s1) (pd (snd p))) ps)"

fun push :: "ty \<Rightarrow> val \<Rightarrow> serialize_t \<Rightarrow> serialize_t result"
  and push_tuple :: "ty list \<Rightarrow> val list \<Rightarrow> serialize_t \<Rightarrow> serialize_t result"
where
  "push (Pod n) v s = binary_in_push (raw_of v) s"
| "push (Basic_string w) v s = push_counted w (raw_of v) s"
| "push (Char_array w N) v s = push_char_array w N (raw_of v) s"
| "push (Pod_array n N) v s = binary_in_push_array (of_nat n) (of_nat N) (raw_of v) s"
| "push (Array t N) v s = foldR (\<lambda>x s1. push t x s1) (elems_of v) s"
| "push (Pair a b) v s = bindR (push a (first_of v) s) (push b (second_of v))"
| "push (Tuple ts) v s = push_tuple ts (elems_of v) s"
| "push (Vector t) v s =
    (if is_pod t then push_counted (sizeof_pod t) (raw_of v) s
     else push_seq (\<lambda>x s1. push t x s1) (elems_of v) s)"
| "push (List t) v s = push_seq (\<lambda>x s1. push t x s1) (elems_of v) s"
| "push (Deque t) v s = push_seq (\<lambda>x s1. push t x s1) (elems_of v) s"
| "push (Map k d) v s =
    push_entries (\<lambda>x s1. push k x s1) (\<lambda>x s1. push d x s1) (entries_of v) s"
| "push (Multimap k d) v s =
    push_entries (\<lambda>x s1. push k x s1) (\<lambda>x s1. push d x s1) (entries_of v) s"
| "push (Set t) v s = push_seq (\<lambda>x s1. push t x s1) (elems_of v) s"
| "push (Multiset t) v s = push_seq (\<lambda>x s1. push t x s1) (elems_of v) s"
| "push (Shared_ptr t) v s =
    (case pointee_of v of None \<Rightarrow> Inl Access_violation | Some x \<Rightarrow> push t x s)"
| "push_tuple [] vs s = Inr s"
| "push_tuple (t # ts) vs s =
    (case vs of [] \<Rightarrow> Inl Runtime_error
     | x # xs \<Rightarrow> bindR (push t x s) (push_tuple ts xs))"

section \<open>Popping\<close>

text \<open>A default-constructed object, the target of the elements a container \<open>pop\<close> reads.\<close>

fun default_val :: "ty \<Rightarrow> val" where
  "default_val (Pod n) = VRaw (replicate n 0)"
| "default_val (Basic_string w) = VRaw []"
| "default_val (Char_array w N) = VRaw (replicate (w * N) 0)"
| "default_val (Pod_array n N) = VRaw (replicate (n * N) 0)"
| "default_val (Array t N) = VSeq (replicate N (default_val t))"
| "default_val (Pair a b) = VPair (default_val a) (default_val b)"
| "default_val (Tuple ts) = VTuple (map default_val ts)"
| "default_val (Vector t) = (if is_pod t then VRaw [] else VSeq [])"
| "default_val (List t) = VSeq []"
| "default_val (Deque t) = VSeq []"
| "default_val (Map k d) = VAssoc []"
| "default_val (Multimap k d) = VAssoc []"
| "default_val (Set t) = VSeq []"
| "default_val (Multiset t) = VSeq []"
| "default_val (Shared_ptr t) = VShared None"

text \<open>
  \<open>insert\<close> of the ordered containers: \<open>lt\<close> is their \<open>LessT\<close>; a unique container leaves an
  equivalent element in place, the others insert after all equivalent ones.
\<close>

fun insert_unique :: "('k \<Rightarrow> 'k \<Rightarrow> bool) \<Rightarrow> ('e \<Rightarrow> 'k) \<Rightarrow> 'e \<Rightarrow> 'e list \<Rightarrow> 'e list" where
  "insert_unique lt key x [] = [x]"
| "insert_unique lt key x (y # ys) =
    (if lt (key x) (key y) then x # y # ys
     else if lt (key y) (key x) then y # insert_unique lt key x ys
     else y # ys)"

fun insert_equal :: "('k \<Rightarrow> 'k \<Rightarrow> bool) \<Rightarrow> ('e \<Rightarrow> 'k) \<Rightarrow> 'e \<Rightarrow> 'e list \<Rightarrow> 'e list" where
  "insert_equal lt key x [] = [x]"
| "insert_equal lt key x (y # ys) =
    (if lt (key x) (key y) then x # y # ys else y # insert_equal lt key x ys)"

text \<open>\<open>for(; n > 0; --n) { pop an element; add it to the container }\<close>.\<close>

fun pop_loop :: "(serialize_t \<Rightarrow> ('e \<times> serialize_t) result) \<Rightarrow> ('e \<Rightarrow> 'c \<Rightarrow> 'c) \<Rightarrow> nat \<Rightarrow>
    'c \<Rightarrow> serialize_t \<Rightarrow> ('c \<times> serialize_t) result" where
  "pop_loop pe add 0 c s = Inr (c, s)"
| "pop_loop pe add (Suc n) c s = bindR (pe s) (\<lambda>(e, s1). pop_loop pe add n (add e c) s1)"

text \<open>\<open>for(i = 0; i != N; ++i) os >> val[i]\<close>.\<close>

fun pop_each :: "('e \<Rightarrow> serialize_t \<Rightarrow> ('e \<times> serialize_t) result) \<Rightarrow> 'e list \<Rightarrow> serialize_t \<Rightarrow>
    ('e list \<times> serialize_t) result" where
  "pop_each pe [] s = Inr ([], s)"
| "pop_each pe (x # xs) s =
    bindR (pe x s) (\<lambda>(y, s1). bindR (pop_each pe xs s1) (\<lambda>(ys, s2). Inr (y # ys, s2)))"

text \<open>
  Room for \<open>n\<close> elements of \<open>w\<close> bytes: \<open>std::length_error\<close> when \<open>n\<close> is above \<open>max_size()\<close>, the number of elements, less the \<open>spare\<close> ones, in the address
  space; otherwise \<open>std::bad_alloc\<close> when the room is \<open>2 ^ 31\<close> bytes or more, which no object of the target has. A string keeps room for its terminator.
\<close>

definition grow :: "nat \<Rightarrow> nat \<Rightarrow> nat \<Rightarrow> unit result" where
  "grow spare w n =
    (if 2 ^ 32 \<le> w * (n + spare) then Inl Length_error
     else if 2 ^ 31 \<le> w * n then Inl Bad_alloc else Inr ())"

text \<open>\<open>resize\<close> of a vector or string.\<close>

definition resize :: "nat \<Rightarrow> nat \<Rightarrow> nat \<Rightarrow> bytes \<Rightarrow> bytes result" where
  "resize spare w n bs = bindR (grow spare w n) (\<lambda>_. Inr (take (w * n) bs @ replicate (w * n - length bs) 0))"

text \<open>\<open>reserve_traits_t\<close>: \<open>reserve\<close> of a vector whose elements have \<open>w\<close> bytes; nothing for lists and deques, nor do the loops of the sets reserve.\<close>

definition reserve_vector :: "nat \<Rightarrow> nat \<Rightarrow> unit result" where
  "reserve_vector w n = grow 0 w n"

definition reserve_none :: "nat \<Rightarrow> unit result" where
  "reserve_none n = Inr ()"

definition pop_counted :: "nat \<Rightarrow> nat \<Rightarrow> bytes \<Rightarrow> serialize_t \<Rightarrow> (val \<times> serialize_t) result" where
  "pop_counted spare w old s =
    bindR (pop_length s) (\<lambda>(n, s1).
      bindR (resize spare w (unat n) old) (\<lambda>dst.
        bindR (binary_out_pop_pointer (of_nat w) dst n s1) (\<lambda>(bs, s2). Inr (VRaw bs, s2))))"

definition pop_char_array :: "nat \<Rightarrow> bytes \<Rightarrow> serialize_t \<Rightarrow> (val \<times> serialize_t) result" where
  "pop_char_array w old s =
    bindR (pop_length s) (\<lambda>(n, s1).
      bindR (binary_out_pop_pointer (of_nat w) old n s1) (\<lambda>(bs, s2). Inr (VRaw bs, s2)))"

definition pop_seq :: "(nat \<Rightarrow> unit result) \<Rightarrow> (serialize_t \<Rightarrow> (val \<times> serialize_t) result) \<Rightarrow>
    (val \<Rightarrow> val list \<Rightarrow> val list) \<Rightarrow> val list \<Rightarrow> serialize_t \<Rightarrow> (val \<times> serialize_t) result" where
  "pop_seq reserve pe add old s =
    bindR (pop_length s) (\<lambda>(n, s1).
      bindR (reserve (unat n)) (\<lambda>_.
        bindR (pop_loop pe add (unat n) old s1) (\<lambda>(vs, s2). Inr (VSeq vs, s2))))"

definition pop_entries :: "(serialize_t \<Rightarrow> (val \<times> serialize_t) result) \<Rightarrow>
    (serialize_t \<Rightarrow> (val \<times> serialize_t) result) \<Rightarrow>
    (val \<times> val \<Rightarrow> (val \<times> val) list \<Rightarrow> (val \<times> val) list) \<Rightarrow> (val \<times> val) list \<Rightarrow>
    serialize_t \<Rightarrow> (val \<times> serialize_t) result" where
  "pop_entries pk pd add old s =
    bindR (pop_length s) (\<lambda>(n, s1).
      bindR (pop_loop (\<lambda>s2. bindR (pk s2) (\<lambda>(k, s3). bindR (pd s3) (\<lambda>(d, s4). Inr ((k, d), s4))))
               add (unat n) old s1)
        (\<lambda>(ps, s2). Inr (VAssoc ps, s2)))"

text \<open>
  \<open>pop sz lt t old\<close> reads a value of type \<open>t\<close> into an object whose value was \<open>old\<close>: strings, PODs and
  vectors of PODs are overwritten, sequences appended to, associative containers inserted into.
  \<open>lt t\<close> is the comparator of the ordered containers with keys of type \<open>t\<close>, and \<open>sz t\<close> is the \<open>sizeof\<close> of the type \<open>t\<close> on the target.
\<close>

fun pop :: "(ty \<Rightarrow> nat) \<Rightarrow> (ty \<Rightarrow> val \<Rightarrow> val \<Rightarrow> bool) \<Rightarrow> ty \<Rightarrow> val \<Rightarrow> serialize_t \<Rightarrow> (val \<times> serialize_t) result"
  and pop_tuple :: "(ty \<Rightarrow> nat) \<Rightarrow> (ty \<Rightarrow> val \<Rightarrow> val \<Rightarrow> bool) \<Rightarrow> ty list \<Rightarrow> val list \<Rightarrow> serialize_t \<Rightarrow>
    (val list \<times> serialize_t) result"
where
  "pop sz lt (Pod n) old s = bindR (binary_out_pop (of_nat n) s) (\<lambda>(bs, s1). Inr (VRaw bs, s1))"
| "pop sz lt (Basic_string w) old s = pop_counted 1 w (raw_of old) s"
| "pop sz lt (Char_array w N) old s = pop_char_array w (raw_of old) s"
| "pop sz lt (Pod_array n N) old s =
    bindR (binary_out_pop_array (of_nat n) (of_nat N) (raw_of old) s) (\<lambda>(bs, s1). Inr (VRaw bs, s1))"
| "pop sz lt (Array t N) old s =
    bindR (pop_each (\<lambda>v s1. pop sz lt t v s1) (elems_of old) s) (\<lambda>(vs, s1). Inr (VSeq vs, s1))"
| "pop sz lt (Pair a b) old s =
    bindR (pop sz lt a (first_of old) s) (\<lambda>(x, s1).
      bindR (pop sz lt b (second_of old) s1) (\<lambda>(y, s2). Inr (VPair x y, s2)))"
| "pop sz lt (Tuple ts) old s =
    bindR (pop_tuple sz lt ts (elems_of old) s) (\<lambda>(vs, s1). Inr (VTuple vs, s1))"
| "pop sz lt (Vector t) old s =
    (if is_pod t then pop_counted 0 (sizeof_pod t) (raw_of old) s
     else pop_seq (reserve_vector (sz t)) (\<lambda>s1. pop sz lt t (default_val t) s1) (\<lambda>x xs. xs @ [x]) (elems_of old) s)"
| "pop sz lt (List t) old s =
    pop_seq reserve_none (\<lambda>s1. pop sz lt t (default_val t) s1) (\<lambda>x xs. xs @ [x]) (elems_of old) s"
| "pop sz lt (Deque t) old s =
    pop_seq reserve_none (\<lambda>s1. pop sz lt t (default_val t) s1) (\<lambda>x xs. xs @ [x]) (elems_of old) s"
| "pop sz lt (Map k d) old s =
    pop_entries (\<lambda>s1. pop sz lt k (default_val k) s1) (\<lambda>s1. pop sz lt d (default_val d) s1)
      (insert_unique (lt k) fst) (entries_of old) s"
| "pop sz lt (Multimap k d) old s =
    pop_entries (\<lambda>s1. pop sz lt k (default_val k) s1) (\<lambda>s1. pop sz lt d (default_val d) s1)
      (insert_equal (lt k) fst) (entries_of old) s"
| "pop sz lt (Set t) old s =
    pop_seq reserve_none (\<lambda>s1. pop sz lt t (default_val t) s1) (insert_unique (lt t) id) (elems_of old) s"
| "pop sz lt (Multiset t) old s =
    pop_seq reserve_none (\<lambda>s1. pop sz lt t (default_val t) s1) (insert_equal (lt t) id) (elems_of old) s"
| "pop sz lt (Shared_ptr t) old s =
    bindR (pop sz lt t (default_val t) s) (\<lambda>(x, s1). Inr (VShared (Some x), s1))"
| "pop_tuple sz lt [] olds s = Inr ([], s)"
| "pop_tuple sz lt (t # ts) olds s =
    (case olds of [] \<Rightarrow> Inl Runtime_error
     | x # xs \<Rightarrow> bindR (pop sz lt t x s) (\<lambda>(y, s1).
         bindR (pop_tuple sz lt ts xs s1) (\<lambda>(ys, s2). Inr (y # ys, s2))))"

end
