(* ===== verification/Ser_Roundtrip.thy ===== *)
theory Ser_Roundtrip
  imports Ser_Dispatch
begin

text \<open>
  The wire format as a function \<open>encode\<close>, the values a type has, and the two halves of the
  serialiser's contract: \<open>push\<close> appends the encoding, \<open>pop\<close> reads it back. The contract is the
  locale \<open>codec\<close>; its interpretation on \<open>push\<close> and \<open>pop\<close> carries the round trip of whole
  messages.
\<close>

section \<open>Well-typed values and their wire format\<close>

fun has_ty :: "(ty \<Rightarrow> nat) \<Rightarrow> (ty \<Rightarrow> val \<Rightarrow> val \<Rightarrow> bool) \<Rightarrow> ty \<Rightarrow> val \<Rightarrow> bool"
  and has_ty_tuple :: "(ty \<Rightarrow> nat) \<Rightarrow> (ty \<Rightarrow> val \<Rightarrow> val \<Rightarrow> bool) \<Rightarrow> ty list \<Rightarrow> val list \<Rightarrow> bool"
where
  "has_ty sz lt (Pod n) v \<longleftrightarrow> v = VRaw (raw_of v) \<and> length (raw_of v) = n \<and> n < 2 ^ 31"
| "has_ty sz lt (Basic_string w) v \<longleftrightarrow>
    v = VRaw (raw_of v) \<and> 0 < w \<and> w dvd length (raw_of v) \<and> w < 2 ^ 31 \<and> length (raw_of v) < 2 ^ 31"
| "has_ty sz lt (Char_array w N) v \<longleftrightarrow>
    v = VRaw (raw_of v) \<and> 0 < w \<and> length (raw_of v) = w * N \<and> w * N < 2 ^ 31 \<and>
    str_length w N (raw_of v) \<noteq> None"
| "has_ty sz lt (Pod_array n N) v \<longleftrightarrow>
    v = VRaw (raw_of v) \<and> length (raw_of v) = n * N \<and> n * N < 2 ^ 31"
| "has_ty sz lt (Array t N) v \<longleftrightarrow>
    v = VSeq (elems_of v) \<and> length (elems_of v) = N \<and> (\<forall>x \<in> set (elems_of v). has_ty sz lt t x)"
| "has_ty sz lt (Pair a b) v \<longleftrightarrow>
    v = VPair (first_of v) (second_of v) \<and> has_ty sz lt a (first_of v) \<and> has_ty sz lt b (second_of v)"
| "has_ty sz lt (Tuple ts) v \<longleftrightarrow> v = VTuple (elems_of v) \<and> has_ty_tuple sz lt ts (elems_of v)"
| "has_ty sz lt (Vector t) v \<longleftrightarrow>
    (if is_pod t then v = VRaw (raw_of v) \<and> 0 < sizeof_pod t \<and> sizeof_pod t dvd length (raw_of v) \<and>
       sizeof_pod t < 2 ^ 31 \<and> length (raw_of v) < 2 ^ 31
     else v = VSeq (elems_of v) \<and> length (elems_of v) < 2 ^ 31 \<and> sz t * length (elems_of v) < 2 ^ 31 \<and> (\<forall>x \<in> set (elems_of v). has_ty sz lt t x))"
| "has_ty sz lt (List t) v \<longleftrightarrow>
    v = VSeq (elems_of v) \<and> length (elems_of v) < 2 ^ 31 \<and> (\<forall>x \<in> set (elems_of v). has_ty sz lt t x)"
| "has_ty sz lt (Deque t) v \<longleftrightarrow>
    v = VSeq (elems_of v) \<and> length (elems_of v) < 2 ^ 31 \<and> (\<forall>x \<in> set (elems_of v). has_ty sz lt t x)"
| "has_ty sz lt (Map k d) v \<longleftrightarrow>
    v = VAssoc (entries_of v) \<and> length (entries_of v) < 2 ^ 31 \<and>
    (\<forall>p \<in> set (entries_of v). has_ty sz lt k (fst p) \<and> has_ty sz lt d (snd p)) \<and>
    sorted_wrt (\<lambda>p q. lt k (fst p) (fst q) \<and> \<not> lt k (fst q) (fst p)) (entries_of v)"
| "has_ty sz lt (Multimap k d) v \<longleftrightarrow>
    v = VAssoc (entries_of v) \<and> length (entries_of v) < 2 ^ 31 \<and>
    (\<forall>p \<in> set (entries_of v). has_ty sz lt k (fst p) \<and> has_ty sz lt d (snd p)) \<and>
    sorted_wrt (\<lambda>p q. \<not> lt k (fst q) (fst p)) (entries_of v)"
| "has_ty sz lt (Set t) v \<longleftrightarrow>
    v = VSeq (elems_of v) \<and> length (elems_of v) < 2 ^ 31 \<and> (\<forall>x \<in> set (elems_of v). has_ty sz lt t x) \<and>
    sorted_wrt (\<lambda>x y. lt t x y \<and> \<not> lt t y x) (elems_of v)"
| "has_ty sz lt (Multiset t) v \<longleftrightarrow>
    v = VSeq (elems_of v) \<and> length (elems_of v) < 2 ^ 31 \<and> (\<forall>x \<in> set (elems_of v). has_ty sz lt t x) \<and>
    sorted_wrt (\<lambda>x y. \<not> lt t y x) (elems_of v)"
| "has_ty sz lt (Shared_ptr t) v \<longleftrightarrow>
    (case v of VShared (Some x) \<Rightarrow> has_ty sz lt t x | _ \<Rightarrow> False)"
| "has_ty_tuple sz lt [] vs \<longleftrightarrow> vs = []"
| "has_ty_tuple sz lt (t # ts) vs \<longleftrightarrow>
    (case vs of [] \<Rightarrow> False | x # xs \<Rightarrow> has_ty sz lt t x \<and> has_ty_tuple sz lt ts xs)"

definition encode_counted :: "nat \<Rightarrow> bytes \<Rightarrow> bytes" where
  "encode_counted w bs = u32_rep (of_nat (length bs div w)) @ bs"

fun encode :: "ty \<Rightarrow> val \<Rightarrow> bytes" and encode_tuple :: "ty list \<Rightarrow> val list \<Rightarrow> bytes" where
  "encode (Pod n) v = raw_of v"
| "encode (Basic_string w) v = encode_counted w (raw_of v)"
| "encode (Char_array w N) v =
    u32_rep (of_nat N) @ take (w * the_default 0 (str_length w N (raw_of v))) (raw_of v)"
| "encode (Pod_array n N) v = raw_of v"
| "encode (Array t N) v = concat (map (encode t) (elems_of v))"
| "encode (Pair a b) v = encode a (first_of v) @ encode b (second_of v)"
| "encode (Tuple ts) v = encode_tuple ts (elems_of v)"
| "encode (Vector t) v =
    (if is_pod t then encode_counted (sizeof_pod t) (raw_of v)
     else u32_rep (of_nat (length (elems_of v))) @ concat (map (encode t) (elems_of v)))"
| "encode (List t) v = u32_rep (of_nat (length (elems_of v))) @ concat (map (encode t) (elems_of v))"
| "encode (Deque t) v = u32_rep (of_nat (length (elems_of v))) @ concat (map (encode t) (elems_of v))"
| "encode (Map k d) v = u32_rep (of_nat (length (entries_of v))) @
    concat (map (\<lambda>p. encode k (fst p) @ encode d (snd p)) (entries_of v))"
| "encode (Multimap k d) v = u32_rep (of_nat (length (entries_of v))) @
    concat (map (\<lambda>p. encode k (fst p) @ encode d (snd p)) (entries_of v))"
| "encode (Set t) v = u32_rep (of_nat (length (elems_of v))) @ concat (map (encode t) (elems_of v))"
| "encode (Multiset t) v = u32_rep (of_nat (length (elems_of v))) @ concat (map (encode t) (elems_of v))"
| "encode (Shared_ptr t) v = (case pointee_of v of None \<Rightarrow> [] | Some x \<Rightarrow> encode t x)"
| "encode_tuple [] vs = []"
| "encode_tuple (t # ts) vs = (case vs of [] \<Rightarrow> [] | x # xs \<Rightarrow> encode t x @ encode_tuple ts xs)"

section \<open>push appends the encoding\<close>

text \<open>\<open>appends f bs\<close>: on every well-formed stream, \<open>f\<close> is the append of \<open>bs\<close>.\<close>

definition appends :: "(serialize_t \<Rightarrow> serialize_t result) \<Rightarrow> bytes \<Rightarrow> bool" where
  "appends f bs \<longleftrightarrow> (\<forall>s. wf_stream s \<longrightarrow> f s = emit bs s)"

named_theorems appends_intros \<open>what appends which bytes\<close>

lemma appendsD: "appends f bs \<Longrightarrow> wf_stream s \<Longrightarrow> f s = emit bs s"
  by (simp add: appends_def)

lemma appends_bind [appends_intros]:
  assumes "appends f a" and "appends g b"
  shows "appends (\<lambda>s. bindR (f s) g) (a @ b)"
  unfolding appends_def
proof (intro allI impI)
  fix s assume wf: "wf_stream s"
  show "bindR (f s) g = emit (a @ b) s"
  proof (cases "emit a s")
    case (Inr t)
    then show ?thesis using assms wf wf_stream_emit by (simp add: appendsD emit_append)
  qed (use assms wf in \<open>simp add: appendsD emit_append\<close>)
qed

lemma appends_return [appends_intros]: "appends Inr []"
  by (simp add: appends_def)

lemma appends_foldR [appends_intros]:
  "(\<And>x. x \<in> set xs \<Longrightarrow> appends (f x) (g x)) \<Longrightarrow> appends (foldR f xs) (concat (map g xs))"
proof (induction xs)
  case Nil
  have "foldR f [] = Inr" by (rule ext) simp
  then show ?case by (simp add: appends_return)
next
  case (Cons x xs)
  have "foldR f (x # xs) = (\<lambda>s. bindR (f x s) (foldR f xs))" by (rule ext) simp
  with Cons show ?case by (simp add: appends_bind)
qed

lemma appends_length [appends_intros]: "appends (push_length_impl n) (u32_rep n)"
  by (simp add: appends_def push_length_impl_def binary_in_push_emit)

lemma appends_push_counted [appends_intros]:
  assumes "0 < w" and "w dvd length bs" and "w < 2 ^ 31" and "length bs < 2 ^ 31"
  shows "appends (push_counted w bs) (encode_counted w bs)"
proof -
  have "w * (length bs div w) = length bs" using assms(2) by simp
  then have "unat (of_nat w * of_nat (length bs div w) :: u32) = length bs"
    using assms(4) by (simp flip: of_nat_mult add: unat_of_nat_u32)
  then have "appends (binary_in_push_pointer (of_nat w) bs (of_nat (length bs div w))) bs"
    using assms(4) by (simp add: appends_def binary_in_push_pointer_emit)
  from appends_bind [OF appends_length this] show ?thesis
    by (simp add: push_counted_def [abs_def] encode_counted_def Let_def)
qed


lemma appends_push_seq [appends_intros]:
  "(\<And>x. x \<in> set xs \<Longrightarrow> appends (f x) (g x)) \<Longrightarrow>
    appends (push_seq f xs) (u32_rep (of_nat (length xs)) @ concat (map g xs))"
  unfolding push_seq_def [abs_def] by (intro appends_bind appends_length appends_foldR)

lemma appends_push_entries [appends_intros]:
  "(\<And>p. p \<in> set ps \<Longrightarrow> appends (fk (fst p)) (gk (fst p)) \<and> appends (fd (snd p)) (gd (snd p))) \<Longrightarrow>
    appends (push_entries fk fd ps)
      (u32_rep (of_nat (length ps)) @ concat (map (\<lambda>p. gk (fst p) @ gd (snd p)) ps))"
  unfolding push_entries_def [abs_def] by (intro appends_bind appends_length appends_foldR) auto

lemma appends_str_prefix:
  assumes "0 < w" and "length bs = w * N" and "w * N < 2 ^ 31" and "n \<le> N"
  shows "appends (binary_in_push_pointer (of_nat w) bs (of_nat n)) (take (w * n) bs)"
  unfolding appends_def
proof (intro allI impI)
  fix s assume wf: "wf_stream s"
  have le: "w * n \<le> length bs" and lt: "w * n < 2 ^ 31"
    using assms by (auto intro: le_less_trans mult_le_mono2)
  then have u: "unat (of_nat w * of_nat n :: u32) = w * n"
    by (simp flip: of_nat_mult add: unat_of_nat_u32)
  have "write_at_in bs (of_nat w * of_nat n) s = write_at_in (take (w * n) bs) (of_nat w * of_nat n) s"
    using le u by (simp add: write_at_in_def memory_write_def)
  then have "binary_in_push_pointer (of_nat w) bs (of_nat n) s =
      binary_in_push_pointer (of_nat w) (take (w * n) bs) (of_nat n) s"
    by (simp add: binary_in_push_pointer_def Let_def)
  then show "binary_in_push_pointer (of_nat w) bs (of_nat n) s = emit (take (w * n) bs) s"
    using wf le lt u by (simp add: binary_in_push_pointer_emit)
qed

lemma str_length_le: "str_length w N bs = Some n \<Longrightarrow> n < N"
  by (induction w N bs arbitrary: n rule: str_length.induct) (auto split: if_splits)

lemma push_appends:
  "has_ty sz lt t v \<Longrightarrow> appends (push t v) (encode t v)"
  "has_ty_tuple sz lt ts vs \<Longrightarrow> appends (push_tuple ts vs) (encode_tuple ts vs)"
proof (induction t v and ts vs rule: encode_encode_tuple.induct)
  case (1 n v)
  then show ?case by (simp add: appends_def binary_in_push_emit)
next
  case (2 w v)
  then show ?case using appends_push_counted by (simp add: push.simps [abs_def])
next
  case (3 w N v)
  then obtain n where n: "str_length w N (raw_of v) = Some n" by auto
  with 3 have "appends (binary_in_push_pointer (of_nat w) (raw_of v) (of_nat n)) (take (w * n) (raw_of v))"
    using appends_str_prefix [of w "raw_of v" N n] str_length_le [OF n] by simp
  from appends_bind [OF appends_length this] n show ?case
    by (simp add: push.simps [abs_def] push_char_array_def [abs_def])
next
  case (4 n N v)
  then have "unat (of_nat n * of_nat N :: u32) = length (raw_of v)"
    by (simp flip: of_nat_mult add: unat_of_nat_u32)
  with 4 show ?case
    by (simp add: appends_def binary_in_push_array_pointer binary_in_push_pointer_emit)
next
  case (5 t N v)
  then show ?case by (simp add: push.simps [abs_def] appends_foldR)
next
  case (6 a b v)
  then show ?case by (simp add: push.simps [abs_def] appends_bind)
next
  case (7 ts v)
  then show ?case by (simp add: push.simps [abs_def])
next
  case (8 t v)
  then show ?case
    by (cases "is_pod t")
      (auto simp: push.simps [abs_def] appends_push_counted intro!: appends_push_seq)
next
  case (15 t v)
  then show ?case by (auto simp: push.simps [abs_def] split: val.splits option.splits)
next
  case (17 t ts vs)
  then show ?case
    by (cases vs) (auto simp: push_tuple.simps [abs_def] intro: appends_bind)
qed (auto simp: push.simps [abs_def] push_tuple.simps [abs_def] appends_return
    intro!: appends_push_seq appends_push_entries)


section \<open>pop reads the encoding back\<close>

definition advance :: "nat \<Rightarrow> serialize_t \<Rightarrow> serialize_t" where
  "advance n s = s\<lparr>out_pos := out_pos s + of_nat n\<rparr>"

text \<open>The bytes still to be read.\<close>

definition unread :: "serialize_t \<Rightarrow> bytes" where
  "unread s = drop (unat (out_pos s)) (buf (buffer s))"

text \<open>
  \<open>reads f x bs\<close>: wherever the bytes \<open>bs\<close> come next, \<open>f\<close> returns \<open>x\<close> and consumes exactly them.
\<close>

definition reads :: "(serialize_t \<Rightarrow> ('a \<times> serialize_t) result) \<Rightarrow> 'a \<Rightarrow> bytes \<Rightarrow> bool" where
  "reads f x bs \<longleftrightarrow>
    (\<forall>s rest. wf_stream s \<longrightarrow> unread s = bs @ rest \<longrightarrow> f s = Inr (x, advance (length bs) s))"

lemma readsD: "reads f x bs \<Longrightarrow> wf_stream s \<Longrightarrow> unread s = bs @ rest \<Longrightarrow> f s = Inr (x, advance (length bs) s)"
  by (simp add: reads_def)

lemma readsI:
  "(\<And>s rest. wf_stream s \<Longrightarrow> unread s = bs @ rest \<Longrightarrow> f s = Inr (x, advance (length bs) s)) \<Longrightarrow> reads f x bs"
  by (simp add: reads_def)

lemma advance_advance [simp]: "advance n (advance m s) = advance (m + n) s"
  by (simp add: advance_def add.assoc)

lemma advance_0 [simp]: "advance 0 s = s"
  by (simp add: advance_def)

lemma unread_bound:
  assumes "wf_stream s" and "unread s = bs @ rest"
  shows "unat (out_pos s) + length bs \<le> unat (buf_len (buffer s))"
proof -
  have "length (buf (buffer s)) - unat (out_pos s) = length bs + length rest"
    using assms(2) by (metis unread_def length_append length_drop)
  with assms(1) show ?thesis unfolding wf_stream_def by linarith
qed

lemma unread_advance:
  assumes "wf_stream s" and "unread s = bs @ rest"
  shows "wf_stream (advance (length bs) s)" and "unread (advance (length bs) s) = rest"
proof -
  have fits: "unat (out_pos s) + length bs \<le> unat (buf_len (buffer s))"
    using assms by (rule unread_bound)
  then have pos: "unat (out_pos s + of_nat (length bs)) = unat (out_pos s) + length bs"
    using assms(1) by (simp add: wf_stream_def unat_add_u32 unat_of_nat_u32)
  then show "wf_stream (advance (length bs) s)"
    using assms(1) fits by (simp add: wf_stream_def advance_def)
  have "unread (advance (length bs) s) = drop (length bs) (unread s)"
    using pos by (simp add: unread_def advance_def add.commute)
  with assms(2) show "unread (advance (length bs) s) = rest" by simp
qed

lemma reads_bind:
  assumes f: "reads f x a" and g: "reads (g x) y b"
  shows "reads (\<lambda>s. bindR (f s) (\<lambda>(r, s1). g r s1)) y (a @ b)"
proof (rule readsI)
  fix s rest assume wf: "wf_stream s" and u: "unread s = (a @ b) @ rest"
  then have fs: "f s = Inr (x, advance (length a) s)" using f by (simp add: readsD)
  from u have "unread s = a @ (b @ rest)" by simp
  from unread_advance [OF wf this] fs g
  show "bindR (f s) (\<lambda>(r, s1). g r s1) = Inr (y, advance (length (a @ b)) s)"
    by (simp add: readsD)
qed

lemma reads_return: "reads (\<lambda>s. Inr (x, s)) x []"
  by (simp add: reads_def)

lemma reads_map:
  assumes "reads f x a"
  shows "reads (\<lambda>s. bindR (f s) (\<lambda>(r, s1). Inr (h r, s1))) (h x) a"
  using reads_bind [where g = "\<lambda>r s1. Inr (h r, s1)", OF assms reads_return] by simp

lemma reads_pop_pod:
  assumes "length bs < 2 ^ 31"
  shows "reads (binary_out_pop (of_nat (length bs))) bs bs"
proof (rule readsI)
  fix s rest assume wf: "wf_stream s" and u: "unread s = bs @ rest"
  have "fetch (length bs) s = Inr (bs, advance (length bs) s)"
    using fetch_emitted [OF wf] u by (simp add: unread_def advance_def)
  then show "binary_out_pop (of_nat (length bs)) s = Inr (bs, advance (length bs) s)"
    using wf assms by (simp add: binary_out_pop_fetch unat_of_nat_u32)
qed

lemma reads_pop_pointer:
  assumes "length bs < 2 ^ 31" and "unat (sizeof_T * cnt) = length bs" and "length dst = length bs"
  shows "reads (binary_out_pop_pointer sizeof_T dst cnt) bs bs"
proof (rule readsI)
  fix s rest assume wf: "wf_stream s" and u: "unread s = bs @ rest"
  have "fetch (length bs) s = Inr (bs, advance (length bs) s)"
    using fetch_emitted [OF wf] u by (simp add: unread_def advance_def)
  then show "binary_out_pop_pointer sizeof_T dst cnt s = Inr (bs, advance (length bs) s)"
    using wf assms by (simp add: binary_out_pop_pointer_fetch)
qed

lemma reads_pop_length: "reads pop_length n (u32_rep n)"
proof -
  have "reads (binary_out_pop 4) (u32_rep n) (u32_rep n)"
    using reads_pop_pod [of "u32_rep n"] by simp
  from reads_map [OF this, of rep_u32] show ?thesis by (simp add: pop_length_def [abs_def])
qed

lemma grow_fits: "w * n < 2 ^ 31 \<Longrightarrow> w < 2 ^ 31 \<or> spare = 0 \<Longrightarrow> spare \<le> 1 \<Longrightarrow> grow spare w n = Inr ()"
  by (cases spare) (auto simp: grow_def)

lemma resize_fits: "w * n < 2 ^ 31 \<Longrightarrow> w < 2 ^ 31 \<Longrightarrow> spare \<le> 1 \<Longrightarrow> \<exists>dst. resize spare w n bs = Inr dst \<and> length dst = w * n"
  by (simp add: resize_def grow_fits)

lemma reads_pop_counted:
  assumes "0 < w" and "w dvd length bs" and "w < 2 ^ 31" and "length bs < 2 ^ 31" and "spare \<le> 1"
  shows "reads (pop_counted spare w old) (VRaw bs) (encode_counted w bs)"
proof -
  let ?n = "of_nat (length bs div w) :: u32"
  have "length bs div w \<le> length bs" by simp
  moreover have "length bs < 2 ^ 32" using assms(4) by simp
  ultimately have "length bs div w < 2 ^ 32" by (rule le_less_trans)
  then have n: "unat ?n = length bs div w" by (simp add: unat_of_nat_u32)
  have wn: "w * (length bs div w) = length bs" using assms(2) by simp
  then have "unat (of_nat w * ?n) = length bs"
    using assms(4) by (simp flip: of_nat_mult add: unat_of_nat_u32)
  moreover obtain dst where dst: "resize spare w (unat ?n) old = Inr dst" "length dst = length bs"
    using resize_fits [of w "unat ?n" spare] assms(3-5) wn n by auto
  ultimately have "reads (binary_out_pop_pointer (of_nat w) dst ?n) bs bs"
    using assms(4) by (intro reads_pop_pointer) simp_all
  from reads_map [OF this, of VRaw] dst(1)
  have "reads (\<lambda>s1. bindR (resize spare w (unat ?n) old) (\<lambda>dst. bindR (binary_out_pop_pointer (of_nat w) dst ?n s1)
      (\<lambda>(bs, s2). Inr (VRaw bs, s2)))) (VRaw bs) bs" by simp
  from reads_bind [where g = "\<lambda>n s1. bindR (resize spare w (unat n) old) (\<lambda>dst. bindR (binary_out_pop_pointer (of_nat w) dst n s1)
      (\<lambda>(bs, s2). Inr (VRaw bs, s2)))", OF reads_pop_length this]
  show ?thesis by (simp add: pop_counted_def [abs_def] encode_counted_def)
qed

lemma reads_pop_loop:
  assumes "\<And>x. x \<in> set xs \<Longrightarrow> reads pe x (g x)"
  shows "reads (pop_loop pe add (length xs) c) (fold add xs c) (concat (map g xs))"
  using assms
proof (induction xs arbitrary: c)
  case Nil
  then show ?case by (simp add: reads_return)
next
  case (Cons x xs)
  have "reads pe x (g x)" using Cons.prems by simp
  moreover have "reads (pop_loop pe add (length xs) (add x c)) (fold add xs (add x c)) (concat (map g xs))"
    using Cons by simp
  ultimately show ?case
    using reads_bind [where g = "\<lambda>e s1. pop_loop pe add (length xs) (add e c) s1"]
    by (simp add: pop_loop.simps [abs_def])
qed

lemma reads_pop_each:
  assumes "\<And>x y. (x, y) \<in> set (zip olds ys) \<Longrightarrow> reads (pe x) y (g y)" and "length olds = length ys"
  shows "reads (pop_each pe olds) ys (concat (map g ys))"
  using assms
proof (induction olds arbitrary: ys)
  case Nil
  then show ?case by (simp add: reads_return)
next
  case (Cons x xs)
  then obtain z zs where ys: "ys = z # zs" by (cases ys) auto
  have "reads (pe x) z (g z)" and IH: "reads (pop_each pe xs) zs (concat (map g zs))"
    using Cons ys by simp_all
  from reads_bind [where g = "\<lambda>y s1. bindR (pop_each pe xs s1) (\<lambda>(ys, s2). Inr (y # ys, s2))",
      OF this(1) reads_map [OF IH, of "\<lambda>ys. z # ys"]]
  show ?case by (simp add: pop_each.simps [abs_def] ys)
qed


text \<open>Types in which no \<open>char[N]\<close> occurs: the one type \<open>pop\<close> does not read back.\<close>

fun char_array_free :: "ty \<Rightarrow> bool" where
  "char_array_free (Pod n) = True"
| "char_array_free (Basic_string w) = True"
| "char_array_free (Char_array w N) = False"
| "char_array_free (Pod_array n N) = True"
| "char_array_free (Array t N) = char_array_free t"
| "char_array_free (Pair a b) = (char_array_free a \<and> char_array_free b)"
| "char_array_free (Tuple ts) = list_all char_array_free ts"
| "char_array_free (Vector t) = char_array_free t"
| "char_array_free (List t) = char_array_free t"
| "char_array_free (Deque t) = char_array_free t"
| "char_array_free (Map k d) = (char_array_free k \<and> char_array_free d)"
| "char_array_free (Multimap k d) = (char_array_free k \<and> char_array_free d)"
| "char_array_free (Set t) = char_array_free t"
| "char_array_free (Multiset t) = char_array_free t"
| "char_array_free (Shared_ptr t) = char_array_free t"

text \<open>Inserting elements in the container's order rebuilds the container.\<close>

lemma fold_snoc: "fold (\<lambda>x xs. xs @ [x]) xs c = c @ xs"
  by (induction xs arbitrary: c) auto

lemma insert_unique_last:
  "\<forall>y \<in> set ys. lt (key y) (key x) \<and> \<not> lt (key x) (key y) \<Longrightarrow> insert_unique lt key x ys = ys @ [x]"
  by (induction ys) auto

lemma insert_equal_last:
  "\<forall>y \<in> set ys. \<not> lt (key x) (key y) \<Longrightarrow> insert_equal lt key x ys = ys @ [x]"
  by (induction ys) auto

lemma fold_insert_unique:
  "sorted_wrt (\<lambda>x y. lt (key x) (key y) \<and> \<not> lt (key y) (key x)) (c @ xs) \<Longrightarrow>
    fold (insert_unique lt key) xs c = c @ xs"
proof (induction xs arbitrary: c)
  case (Cons x xs)
  then have "insert_unique lt key x c = c @ [x]"
    by (intro insert_unique_last) (auto simp: sorted_wrt_append)
  with Cons show ?case by simp
qed simp

lemma fold_insert_equal:
  "sorted_wrt (\<lambda>x y. \<not> lt (key y) (key x)) (c @ xs) \<Longrightarrow> fold (insert_equal lt key) xs c = c @ xs"
proof (induction xs arbitrary: c)
  case (Cons x xs)
  then have "insert_equal lt key x c = c @ [x]"
    by (intro insert_equal_last) (auto simp: sorted_wrt_append)
  with Cons show ?case by simp
qed simp

lemma reads_pop_seq:
  assumes "\<And>x. x \<in> set xs \<Longrightarrow> reads pe x (g x)" and "length xs < 2 ^ 31" and "fold add xs [] = xs" and "res (length xs) = Inr ()"
  shows "reads (pop_seq res pe add []) (VSeq xs) (u32_rep (of_nat (length xs)) @ concat (map g xs))"
proof -
  have n: "unat (of_nat (length xs) :: u32) = length xs"
    using assms(2) by (simp add: unat_of_nat_u32)
  have "reads (pop_loop pe add (unat (of_nat (length xs) :: u32)) []) xs (concat (map g xs))"
    using reads_pop_loop [of xs pe g add "[]"] assms(1,3) n by simp
  from reads_map [OF this, of VSeq] assms(4) n
  have "reads (\<lambda>s1. bindR (res (unat (of_nat (length xs) :: u32))) (\<lambda>_. bindR (pop_loop pe add (unat (of_nat (length xs) :: u32)) [] s1)
      (\<lambda>(vs, s2). Inr (VSeq vs, s2)))) (VSeq xs) (concat (map g xs))" by simp
  from reads_bind [where g = "\<lambda>n s1. bindR (res (unat n)) (\<lambda>_. bindR (pop_loop pe add (unat n) [] s1) (\<lambda>(vs, s2). Inr (VSeq vs, s2)))",
      OF reads_pop_length this]
  show ?thesis by (simp add: pop_seq_def [abs_def])
qed

lemma reads_pair:
  assumes "reads pk k a" and "reads pd d b"
  shows "reads (\<lambda>s. bindR (pk s) (\<lambda>(k, s1). bindR (pd s1) (\<lambda>(d, s2). Inr (h k d, s2)))) (h k d) (a @ b)"
  by (rule reads_bind [where g = "\<lambda>k s1. bindR (pd s1) (\<lambda>(d, s2). Inr (h k d, s2))",
        OF assms(1) reads_map [OF assms(2), of "h k"]])

lemma reads_pop_entries:
  assumes "\<And>p. p \<in> set ps \<Longrightarrow> reads pk (fst p) (gk (fst p)) \<and> reads pd (snd p) (gd (snd p))"
    and "length ps < 2 ^ 31" and "fold add ps [] = ps"
  shows "reads (pop_entries pk pd add []) (VAssoc ps)
    (u32_rep (of_nat (length ps)) @ concat (map (\<lambda>p. gk (fst p) @ gd (snd p)) ps))"
proof -
  let ?pe = "\<lambda>s2. bindR (pk s2) (\<lambda>(k, s3). bindR (pd s3) (\<lambda>(d, s4). Inr ((k, d), s4)))"
  have n: "unat (of_nat (length ps) :: u32) = length ps"
    using assms(2) by (simp add: unat_of_nat_u32)
  have "reads ?pe p (gk (fst p) @ gd (snd p))" if "p \<in> set ps" for p
    using reads_pair [of pk "fst p" _ pd "snd p" _ "\<lambda>k d. (k, d)"] assms(1) [OF that] by simp
  then have "reads (pop_loop ?pe add (unat (of_nat (length ps) :: u32)) []) ps
      (concat (map (\<lambda>p. gk (fst p) @ gd (snd p)) ps))"
    using reads_pop_loop [of ps ?pe "\<lambda>p. gk (fst p) @ gd (snd p)" add "[]"] assms(3) n by simp
  from reads_bind [where g = "\<lambda>n s1. bindR (pop_loop ?pe add (unat n) [] s1) (\<lambda>(vs, s2). Inr (VAssoc vs, s2))",
      OF reads_pop_length reads_map [OF this, of VAssoc]]
  show ?thesis by (simp add: pop_entries_def [abs_def])
qed


lemma pop_reads:
  "has_ty sz lt t v \<Longrightarrow> char_array_free t \<Longrightarrow> reads (pop sz lt t (default_val t)) v (encode t v)"
  "has_ty_tuple sz lt ts vs \<Longrightarrow> list_all char_array_free ts \<Longrightarrow>
    reads (pop_tuple sz lt ts (map default_val ts)) vs (encode_tuple ts vs)"
proof (induction t v and ts vs rule: encode_encode_tuple.induct)
  case (1 n v)
  then have "reads (binary_out_pop (of_nat n)) (raw_of v) (raw_of v)"
    using reads_pop_pod [of "raw_of v"] by simp
  from reads_map [OF this, of VRaw] 1 show ?case by (simp add: pop.simps [abs_def])
next
  case (2 w v)
  then show ?case
    using reads_pop_counted [of w "raw_of v" 1 "[]"] by (simp add: pop.simps [abs_def])
next
  case (4 n N v)
  then have "unat (of_nat n * of_nat N :: u32) = length (raw_of v)"
    by (simp flip: of_nat_mult add: unat_of_nat_u32)
  with 4 have "reads (binary_out_pop_array (of_nat n) (of_nat N) (replicate (n * N) 0)) (raw_of v) (raw_of v)"
    using reads_pop_pointer [of "raw_of v" "of_nat n" "of_nat N" "replicate (n * N) 0"]
    by (simp add: binary_out_pop_array_pointer [abs_def])
  from reads_map [OF this, of VRaw] 4 show ?case by (simp add: pop.simps [abs_def])
next
  case (5 t N v)
  then have "reads (pop_each (pop sz lt t) (replicate N (default_val t))) (elems_of v)
      (concat (map (encode t) (elems_of v)))"
    by (intro reads_pop_each) (auto simp: in_set_zip)
  from reads_map [OF this, of VSeq] 5 show ?case by (simp add: pop.simps [abs_def])
next
  case (6 a b v)
  then show ?case
    using reads_pair [of "pop sz lt a (default_val a)" "first_of v" "encode a (first_of v)"
        "pop sz lt b (default_val b)" "second_of v" "encode b (second_of v)" VPair]
    by (simp add: pop.simps [abs_def])
next
  case (7 ts v)
  then have "reads (pop_tuple sz lt ts (map default_val ts)) (elems_of v) (encode_tuple ts (elems_of v))"
    by simp
  from reads_map [OF this, of VTuple] 7 show ?case by (simp add: pop.simps [abs_def])
next
  case (8 t v)
  show ?case
  proof (cases "is_pod t")
    case True
    with 8 show ?thesis
      using reads_pop_counted [of "sizeof_pod t" "raw_of v" 0 "[]"] by (simp add: pop.simps [abs_def])
  next
    case False
    with 8 show ?thesis
      using reads_pop_seq [of "elems_of v" "pop sz lt t (default_val t)" "encode t" "\<lambda>x xs. xs @ [x]" "reserve_vector (sz t)"]
        grow_fits [of "sz t" "length (elems_of v)" 0]
      by (simp add: pop.simps [abs_def] fold_snoc reserve_vector_def)
  qed
next
  case (9 t v)
  then show ?case
    using reads_pop_seq [of "elems_of v" "pop sz lt t (default_val t)" "encode t" "\<lambda>x xs. xs @ [x]" reserve_none]
    by (simp add: pop.simps [abs_def] fold_snoc reserve_none_def)
next
  case (10 t v)
  then show ?case
    using reads_pop_seq [of "elems_of v" "pop sz lt t (default_val t)" "encode t" "\<lambda>x xs. xs @ [x]" reserve_none]
    by (simp add: pop.simps [abs_def] fold_snoc reserve_none_def)
next
  case (11 k d v)
  then show ?case
    using reads_pop_entries [of "entries_of v" "pop sz lt k (default_val k)" "encode k"
        "pop sz lt d (default_val d)" "encode d" "insert_unique (lt k) fst"]
      fold_insert_unique [of "lt k" fst "[]" "entries_of v"]
    by (simp add: pop.simps [abs_def])
next
  case (12 k d v)
  then show ?case
    using reads_pop_entries [of "entries_of v" "pop sz lt k (default_val k)" "encode k"
        "pop sz lt d (default_val d)" "encode d" "insert_equal (lt k) fst"]
      fold_insert_equal [of "lt k" fst "[]" "entries_of v"]
    by (simp add: pop.simps [abs_def])
next
  case (13 t v)
  then show ?case
    using reads_pop_seq [of "elems_of v" "pop sz lt t (default_val t)" "encode t" "insert_unique (lt t) id" reserve_none]
      fold_insert_unique [of "lt t" id "[]" "elems_of v"]
    by (simp add: pop.simps [abs_def] reserve_none_def)
next
  case (14 t v)
  then show ?case
    using reads_pop_seq [of "elems_of v" "pop sz lt t (default_val t)" "encode t" "insert_equal (lt t) id" reserve_none]
      fold_insert_equal [of "lt t" id "[]" "elems_of v"]
    by (simp add: pop.simps [abs_def] reserve_none_def)
next
  case (15 t v)
  then obtain x where v: "v = VShared (Some x)" by (auto split: val.splits option.splits)
  with 15 have "reads (pop sz lt t (default_val t)) x (encode t x)" by simp
  from reads_map [OF this, of "\<lambda>x. VShared (Some x)"] v show ?case by (simp add: pop.simps [abs_def])
next
  case (16 vs)
  then show ?case by (simp add: pop_tuple.simps [abs_def] reads_return)
next
  case (17 t ts vs)
  then obtain x xs where vs: "vs = x # xs" by (auto split: list.splits)
  with 17 have "reads (pop sz lt t (default_val t)) x (encode t x)"
    and "reads (pop_tuple sz lt ts (map default_val ts)) xs (encode_tuple ts xs)"
    by simp_all
  from reads_pair [OF this, of "\<lambda>y ys. y # ys"] vs show ?case
    by (simp add: pop_tuple.simps [abs_def])
qed simp_all

section \<open>The codec contract\<close>

text \<open>A message sent value by value, \<open>os << v1 << v2\<close>, and received \<open>os >> v1 >> v2\<close>.\<close>

definition put_all :: "('t \<Rightarrow> 'v \<Rightarrow> serialize_t \<Rightarrow> serialize_t result) \<Rightarrow> ('t \<times> 'v) list \<Rightarrow>
    serialize_t \<Rightarrow> serialize_t result" where
  "put_all put msg = foldR (\<lambda>m. put (fst m) (snd m)) msg"

fun get_all :: "('t \<Rightarrow> serialize_t \<Rightarrow> ('v \<times> serialize_t) result) \<Rightarrow> 't list \<Rightarrow>
    serialize_t \<Rightarrow> ('v list \<times> serialize_t) result" where
  "get_all get [] s = Inr ([], s)"
| "get_all get (t # ts) s =
    bindR (get t s) (\<lambda>(v, s1). bindR (get_all get ts s1) (\<lambda>(vs, s2). Inr (v # vs, s2)))"

text \<open>
  A codec is a writer and a reader, indexed by the type of the value, that agree on a wire format
  \<open>enc\<close> for the values in \<open>good\<close>. A client that knows only this can send whole messages.
\<close>

locale codec =
  fixes enc :: "'t \<Rightarrow> 'v \<Rightarrow> bytes"
    and put :: "'t \<Rightarrow> 'v \<Rightarrow> serialize_t \<Rightarrow> serialize_t result"
    and get :: "'t \<Rightarrow> serialize_t \<Rightarrow> ('v \<times> serialize_t) result"
    and good :: "'t \<Rightarrow> 'v \<Rightarrow> bool"
  assumes put_appends: "good t v \<Longrightarrow> appends (put t v) (enc t v)"
    and get_reads: "good t v \<Longrightarrow> reads (get t) v (enc t v)"
begin

lemma put_all_appends:
  "\<forall>m \<in> set msg. good (fst m) (snd m) \<Longrightarrow>
    appends (put_all put msg) (concat (map (\<lambda>m. enc (fst m) (snd m)) msg))"
  unfolding put_all_def by (intro appends_foldR put_appends) auto

lemma get_all_reads:
  "\<forall>m \<in> set msg. good (fst m) (snd m) \<Longrightarrow>
    reads (get_all get (map fst msg)) (map snd msg) (concat (map (\<lambda>m. enc (fst m) (snd m)) msg))"
proof (induction msg)
  case Nil
  then show ?case by (simp add: reads_return)
next
  case (Cons m msg)
  then show ?case
    using reads_pair [of "get (fst m)" "snd m" _ "get_all get (map fst msg)" "map snd msg" _ "\<lambda>y ys. y # ys"]
    by (simp add: get_all.simps [abs_def] get_reads)
qed

lemma put_all_get_all:
  assumes "wf_stream s" and "out_pos s = in_pos s" and "\<forall>m \<in> set msg. good (fst m) (snd m)"
    and "put_all put msg s = Inr s'"
  shows "get_all get (map fst msg) s' = Inr (map snd msg, s'\<lparr>out_pos := in_pos s'\<rparr>)"
proof -
  let ?bs = "concat (map (\<lambda>m. enc (fst m) (snd m)) msg)"
  have e: "emit ?bs s = Inr s'"
    using appendsD [OF put_all_appends [OF assms(3)] assms(1)] assms(4) by simp
  then have fits: "unat (in_pos s) + length ?bs \<le> unat (buf_len (buffer s))"
    and s': "s' = s\<lparr>buffer := (buffer s)\<lparr>buf := put_block (unat (in_pos s)) ?bs (buf (buffer s))\<rparr>,
                in_pos := in_pos s + of_nat (length ?bs)\<rparr>"
    by (auto simp: emit_def split: if_splits)
  have "unread s' = ?bs @ drop (unat (in_pos s) + length ?bs) (buf (buffer s))"
    using assms(1,2) fits by (simp add: unread_def s' drop_put_block wf_stream_def)
  from readsD [OF get_all_reads [OF assms(3)] wf_stream_emit [OF assms(1) e] this]
  show ?thesis by (simp add: advance_def s' assms(2))
qed

end

interpretation ser: codec encode push "\<lambda>t. pop sz lt t (default_val t)"
    "\<lambda>t v. has_ty sz lt t v \<and> char_array_free t" for sz lt
  by unfold_locales (auto intro: push_appends pop_reads)

section \<open>Properties\<close>

text \<open>
  C2. Round trip of messages. Write any sequence of values of any types without \<open>char[N]\<close>
  (integers, strings, pairs, tuples, vectors, lists, deques, maps, sets, multimaps, multisets,
  arrays, shared pointers, nested arbitrarily) and read the same types back from where the
  writing began: the values come back unchanged and exactly the written bytes are consumed.
\<close>

theorem message_roundtrip:
  assumes "wf_stream s" and "out_pos s = in_pos s"
    and "\<forall>m \<in> set msg. has_ty sz lt (fst m) (snd m) \<and> char_array_free (fst m)"
    and "put_all push msg s = Inr s'"
  shows "get_all (\<lambda>t. pop sz lt t (default_val t)) (map fst msg) s' =
    Inr (map snd msg, s'\<lparr>out_pos := in_pos s'\<rparr>)"
  using ser.put_all_get_all [OF assms(1,2) _ assms(4)] assms(3) by blast


definition demo_sz :: "ty \<Rightarrow> nat" where
  "demo_sz t = 24"

definition demo_lt :: "ty \<Rightarrow> val \<Rightarrow> val \<Rightarrow> bool" where
  "demo_lt t x y \<longleftrightarrow> sum_list (map unat (raw_of x)) < sum_list (map unat (raw_of y))"

definition demo_message :: "(ty \<times> val) list" where
  "demo_message =
    [(Pod 4, VRaw [1, 2, 3, 4]),
     (Map (Pod 1) (Basic_string 1), VAssoc [(VRaw [1], VRaw [65, 66]), (VRaw [2], VRaw [])]),
     (Vector (Pod 2), VRaw [7, 0, 8, 0])]"

definition demo_start :: serialize_t where
  "demo_start = serialize_make (replicate 64 0) 64"

lemma wf_demo_start: "wf_stream demo_start"
  by (simp add: demo_start_def serialize_make_def memory_t_make_def wf_stream_def)

lemma demo_message_good:
  "\<forall>m \<in> set demo_message. has_ty demo_sz demo_lt (fst m) (snd m) \<and> char_array_free (fst m)"
  by (simp add: demo_message_def demo_lt_def)

lemma demo_message_sent: "\<exists>s'. put_all push demo_message demo_start = Inr s'"
proof -
  let ?bs = "concat (map (\<lambda>m. encode (fst m) (snd m)) demo_message)"
  have "put_all push demo_message demo_start = emit ?bs demo_start"
    using appendsD [OF ser.put_all_appends [OF demo_message_good] wf_demo_start] .
  moreover have "length ?bs \<le> 64"
    by (simp add: demo_message_def encode_counted_def)
  ultimately show ?thesis
    by (simp add: emit_def demo_start_def serialize_make_def memory_t_make_def)
qed

theorem message_roundtrip_witness:
  "\<exists>s'. put_all push demo_message demo_start = Inr s' \<and>
     get_all (\<lambda>t. pop demo_sz demo_lt t (default_val t)) (map fst demo_message) s' =
       Inr (map snd demo_message, s'\<lparr>out_pos := in_pos s'\<rparr>)"
proof -
  have pos: "out_pos demo_start = in_pos demo_start"
    by (simp add: demo_start_def serialize_make_def)
  obtain s' where "put_all push demo_message demo_start = Inr s'"
    using demo_message_sent by blast
  with message_roundtrip [OF wf_demo_start pos demo_message_good] show ?thesis by blast
qed

text \<open>
  C3. What the writer produces. Serialising a well-typed value of any type is the append of its
  wire format: it succeeds, keeps the stream well-formed and advances the position by the length
  of the encoding exactly when the encoding fits, and throws \<open>std::out_of_range\<close> when it does not.
\<close>

theorem push_writes_encoding:
  assumes "wf_stream s" and "has_ty sz lt t v"
  shows "push t v s = emit (encode t v) s \<and>
    (case push t v s of
       Inl e \<Rightarrow> e = Out_of_range \<and> unat (buf_len (buffer s)) < unat (in_pos s) + length (encode t v)
     | Inr s' \<Rightarrow> wf_stream s' \<and> unat (in_pos s') = unat (in_pos s) + length (encode t v))"
  using appendsD [OF push_appends(1) [OF assms(2)] assms(1)] emit_outcome [OF assms(1)] by simp

theorem push_writes_encoding_witness:
  "push (Tuple [Pod 1, Basic_string 1]) (VTuple [VRaw [9], VRaw [65]]) demo_stream =
     emit [9, 1, 0, 0, 0, 65] demo_stream"
proof -
  have ty: "has_ty demo_sz demo_lt (Tuple [Pod 1, Basic_string 1]) (VTuple [VRaw [9], VRaw [65]])" by simp
  have enc: "encode (Tuple [Pod 1, Basic_string 1]) (VTuple [VRaw [9], VRaw [65]]) = [9, 1, 0, 0, 0, 65]"
    by (simp add: encode_counted_def u32_rep_def drop_bit_eq_div)
  show ?thesis
    using push_writes_encoding [OF wf_demo_stream ty] unfolding enc by (rule conjunct1)
qed

text \<open>
  The one type that does not come back. For a \<open>char[N]\<close> holding a string of \<open>n < N\<close> characters
  the writer stores the length \<open>N\<close> and \<open>n\<close> characters, the reader takes \<open>N\<close> characters: it
  either runs out of buffer, or consumes the \<open>N - n\<close> characters that follow, which belong to the
  next value.
\<close>

theorem char_array_overread:
  assumes "wf_stream s" and "out_pos s = in_pos s" and "has_ty sz lt (Char_array w N) v"
    and "str_length w N (raw_of v) = Some n" and "N < 2 ^ 31" and "length (raw_of old) = w * N"
    and "push (Char_array w N) v s = Inr s'"
  shows "n < N \<and> unat (in_pos s') = unat (in_pos s) + 4 + w * n \<and>
    pop sz lt (Char_array w N) old s' =
      (if unat (in_pos s') + w * (N - n) \<le> unat (buf_len (buffer s'))
       then Inr (VRaw (get_block (unat (in_pos s) + 4) (w * N) (buf (buffer s'))),
                 s'\<lparr>out_pos := in_pos s' + of_nat (w * (N - n))\<rparr>)
       else Inl Out_of_range)"
proof -
  let ?body = "take (w * n) (raw_of v)"
  let ?bs = "u32_rep (of_nat N) @ ?body"
  have e: "emit ?bs s = Inr s'"
    using appendsD [OF push_appends(1) [OF assms(3)] assms(1)] assms(4,7) by simp
  have nN: "n < N" using str_length_le [OF assms(4)] .
  then have "w * n \<le> w * N" by simp
  then have len: "length ?bs = 4 + w * n" using assms(3) by simp
  have wf': "wf_stream s'" using wf_stream_emit [OF assms(1) e] .
  have pos: "unat (in_pos s') = unat (in_pos s) + 4 + w * n"
    using emit_in_pos [OF assms(1) e] len by simp
  have s': "s' = s\<lparr>buffer := (buffer s)\<lparr>buf := put_block (unat (in_pos s)) ?bs (buf (buffer s))\<rparr>,
      in_pos := in_pos s + of_nat (length ?bs)\<rparr>"
    and fits: "unat (in_pos s) + length ?bs \<le> unat (buf_len (buffer s))"
    using e by (auto simp: emit_def split: if_splits)
  have u: "unread s' = u32_rep (of_nat N) @ (?body @ drop (unat (in_pos s) + length ?bs) (buf (buffer s)))"
    using assms(1,2) fits by (simp add: unread_def s' drop_put_block wf_stream_def)
  have pl: "pop_length s' = Inr (of_nat N, advance 4 s')"
    using readsD [OF reads_pop_length wf' u] by simp
  have wf1: "wf_stream (advance 4 s')" using unread_advance(1) [OF wf' u] by simp
  have wN: "unat (of_nat w * of_nat N :: u32) = w * N" and wNlt: "w * N < 2 ^ 31"
    using assms(3) by (simp_all flip: of_nat_mult add: unat_of_nat_u32)
  have pp: "binary_out_pop_pointer (of_nat w) (raw_of old) (of_nat N) (advance 4 s') =
      fetch (w * N) (advance 4 s')"
    using binary_out_pop_pointer_fetch [OF wf1, of "of_nat w" "of_nat N" "raw_of old"]
      fetch_overwrite [OF wf1, of "raw_of old"] wN wNlt assms(6) by simp
  have out1: "unat (out_pos (advance 4 s')) = unat (in_pos s) + 4"
    using unread_bound [OF wf' u] wf'
    by (simp add: advance_def s' assms(2) wf_stream_def unat_add_u32)
  have split: "w * N = w * n + w * (N - n)"
    using nN by (simp flip: distrib_left)
  have "in_pos s' = in_pos s + of_nat (4 + w * n)" and "out_pos s' = in_pos s"
    using emit_in_pos_word [OF e] emit_out_pos [OF e] unfolding len assms(2) by simp_all
  then have out2: "out_pos s' + 4 + of_nat (w * N) = in_pos s' + of_nat (w * (N - n))"
    by (simp add: split)
  show ?thesis
    using nN pos pl pp out1 out2
    by (simp add: pop_char_array_def fetch_def advance_def split add.assoc)
qed

theorem char_array_overread_witness:
  "\<exists>s'. push (Char_array 1 4) (VRaw [65, 0, 0, 0]) demo_stream = Inr s' \<and>
     pop demo_sz demo_lt (Char_array 1 4) (VRaw [0, 0, 0, 0]) s' =
       Inr (VRaw (get_block 6 4 (buf (buffer s'))), s'\<lparr>out_pos := in_pos s' + 3\<rparr>)"
proof -
  have len: "str_length 1 4 (raw_of (VRaw [65, 0, 0, 0])) = Some 1"
    by code_simp
  then have ty: "has_ty demo_sz demo_lt (Char_array 1 4) (VRaw [65, 0, 0, 0])"
    by simp
  have "push (Char_array 1 4) (VRaw [65, 0, 0, 0]) demo_stream =
      emit (encode (Char_array 1 4) (VRaw [65, 0, 0, 0])) demo_stream"
    using appendsD [OF push_appends(1) [OF ty] wf_demo_stream] .
  moreover have "length (encode (Char_array 1 4) (VRaw [65, 0, 0, 0])) = 5"
    using len by simp
  ultimately obtain s' where s': "push (Char_array 1 4) (VRaw [65, 0, 0, 0]) demo_stream = Inr s'"
    and pos: "in_pos s' = 7" "buf_len (buffer s') = 12"
    by (simp add: emit_def demo_stream_def serialize_make_def memory_t_make_def)
  have "in_pos demo_stream = 2" and "out_pos demo_stream = in_pos demo_stream"
    by (simp_all add: demo_stream_def)
  then show ?thesis
    using char_array_overread [OF wf_demo_stream _ ty len _ _ s', of "VRaw [0, 0, 0, 0]"] s' pos
    by simp
qed

end
