(* ===== verification/Http_Parser.thy ===== *)
theory Http_Parser
  imports Prelude
begin

text \<open>
  The request parser of the HTTP server (\<open>Example/Network/Http/Http\<close>): \<open>Header.h\<close>, \<open>Request.h\<close>,
  \<open>RequestParser.h\<close> and \<open>RequestParser.cpp\<close>. \<open>Consume\<close> is the transition function of the state
  machine, \<open>Parse\<close> the loop over the bytes received.

  A C++ \<open>char\<close> is signed on the target: a byte above 127 reaches the character tests as a
  negative \<open>int\<close>. The version numbers are 32-bit \<open>int\<close>s, kept as words. \<open>headers.back()\<close> of an
  empty vector has no result: \<open>Access_violation\<close>.
\<close>

section \<open>Data\<close>

record Header =
  hname :: string
  hvalue :: string

record Request =
  req_method :: string
  req_uri :: string
  httpVersionMajor :: u32
  httpVersionMinor :: u32
  req_headers :: "Header list"

datatype ParseRet = TRUE_VALUE | FALSE_VALUE | INDETERMINATE

datatype parser_state =
    S_method_start | S_method | S_uri_start | S_uri
  | S_http_version_h | S_http_version_t_1 | S_http_version_t_2 | S_http_version_p
  | S_http_version_slash | S_http_version_major_start | S_http_version_major
  | S_http_version_minor_start | S_http_version_minor
  | S_expecting_newline_1 | S_header_line_start | S_header_lws | S_header_name
  | S_space_before_header_value | S_header_value
  | S_expecting_newline_2 | S_expecting_newline_3

section \<open>Character tests\<close>

definition int_of_char :: "char \<Rightarrow> int" where
  "int_of_char c = (let n = of_char c in if n < 128 then n else n - 256)"

definition isChar :: "int \<Rightarrow> bool" where
  "isChar c \<longleftrightarrow> c \<ge> 0 \<and> c \<le> 127"

definition isCtl :: "int \<Rightarrow> bool" where
  "isCtl c \<longleftrightarrow> (c \<ge> 0 \<and> c \<le> 31) \<or> c = 127"

definition isTSpecial :: "int \<Rightarrow> bool" where
  "isTSpecial c \<longleftrightarrow>
    c \<in> set (map int_of_char ''()<>@,;:'') \<or> c = 92 \<or> c = 34 \<or>
    c \<in> set (map int_of_char ''/[]?={} '') \<or> c = 9"

definition isDigit :: "int \<Rightarrow> bool" where
  "isDigit c \<longleftrightarrow> c \<ge> 48 \<and> c \<le> 57"

abbreviation CR :: char where "CR \<equiv> CHR 0x0D"
abbreviation LF :: char where "LF \<equiv> CHR 0x0A"
abbreviation TAB :: char where "TAB \<equiv> CHR 0x09"

section \<open>The state machine\<close>

type_synonym parse_step = "(ParseRet \<times> parser_state \<times> Request) result"

definition add_digit :: "u32 \<Rightarrow> char \<Rightarrow> u32" where
  "add_digit v c = v * 10 + word_of_int (int_of_char c) - 48"

text \<open>\<open>req.headers.back()\<close>, updated in place.\<close>

definition update_back :: "(Header \<Rightarrow> Header) \<Rightarrow> Request \<Rightarrow> Request result" where
  "update_back f req =
    (if req_headers req = [] then Inl Access_violation
     else Inr (req\<lparr>req_headers := butlast (req_headers req) @ [f (last (req_headers req))]\<rparr>))"

definition RequestParser_init :: parser_state where
  "RequestParser_init = S_method_start"

definition Reset :: "parser_state \<Rightarrow> parser_state" where
  "Reset st = S_method_start"

definition reject :: "parser_state \<Rightarrow> Request \<Rightarrow> parse_step" where
  "reject st req = Inr (FALSE_VALUE, st, req)"

definition accept :: "parser_state \<Rightarrow> Request \<Rightarrow> parse_step" where
  "accept st req = Inr (INDETERMINATE, st, req)"

definition not_token :: "char \<Rightarrow> bool" where
  "not_token c \<longleftrightarrow> \<not> isChar (int_of_char c) \<or> isCtl (int_of_char c) \<or> isTSpecial (int_of_char c)"

definition expect :: "char \<Rightarrow> parser_state \<Rightarrow> parser_state \<Rightarrow> Request \<Rightarrow> char \<Rightarrow> parse_step" where
  "expect c st st' req input = (if input = c then accept st' req else reject st req)"

fun Consume :: "parser_state \<Rightarrow> Request \<Rightarrow> char \<Rightarrow> parse_step" where
  "Consume S_method_start req input =
    (if not_token input then reject S_method_start req
     else accept S_method (req\<lparr>req_method := req_method req @ [input]\<rparr>))"
| "Consume S_method req input =
    (if input = CHR '' '' then accept S_uri req
     else if not_token input then reject S_method req
     else accept S_method (req\<lparr>req_method := req_method req @ [input]\<rparr>))"
| "Consume S_uri_start req input =
    (if isCtl (int_of_char input) then reject S_uri_start req
     else accept S_uri (req\<lparr>req_uri := req_uri req @ [input]\<rparr>))"
| "Consume S_uri req input =
    (if input = CHR '' '' then accept S_http_version_h req
     else if isCtl (int_of_char input) then reject S_uri req
     else accept S_uri (req\<lparr>req_uri := req_uri req @ [input]\<rparr>))"
| "Consume S_http_version_h req input = expect CHR ''H'' S_http_version_h S_http_version_t_1 req input"
| "Consume S_http_version_t_1 req input = expect CHR ''T'' S_http_version_t_1 S_http_version_t_2 req input"
| "Consume S_http_version_t_2 req input = expect CHR ''T'' S_http_version_t_2 S_http_version_p req input"
| "Consume S_http_version_p req input = expect CHR ''P'' S_http_version_p S_http_version_slash req input"
| "Consume S_http_version_slash req input =
    (if input = CHR ''/''
     then accept S_http_version_major_start (req\<lparr>httpVersionMajor := 0, httpVersionMinor := 0\<rparr>)
     else reject S_http_version_slash req)"
| "Consume S_http_version_major_start req input =
    (if isDigit (int_of_char input)
     then accept S_http_version_major (req\<lparr>httpVersionMajor := add_digit (httpVersionMajor req) input\<rparr>)
     else reject S_http_version_major_start req)"
| "Consume S_http_version_major req input =
    (if input = CHR ''.'' then accept S_http_version_minor_start req
     else if isDigit (int_of_char input)
     then accept S_http_version_major (req\<lparr>httpVersionMajor := add_digit (httpVersionMajor req) input\<rparr>)
     else reject S_http_version_major req)"
| "Consume S_http_version_minor_start req input =
    (if isDigit (int_of_char input)
     then accept S_http_version_minor (req\<lparr>httpVersionMinor := add_digit (httpVersionMinor req) input\<rparr>)
     else reject S_http_version_minor_start req)"
| "Consume S_http_version_minor req input =
    (if input = CR then accept S_expecting_newline_1 req
     else if isDigit (int_of_char input)
     then accept S_http_version_minor (req\<lparr>httpVersionMinor := add_digit (httpVersionMinor req) input\<rparr>)
     else reject S_http_version_minor req)"
| "Consume S_expecting_newline_1 req input = expect LF S_expecting_newline_1 S_header_line_start req input"
| "Consume S_header_line_start req input =
    (if input = CR then accept S_expecting_newline_3 req
     else if req_headers req \<noteq> [] \<and> (input = CHR '' '' \<or> input = TAB) then accept S_header_lws req
     else if not_token input then reject S_header_line_start req
     else bindR (update_back (\<lambda>h. h\<lparr>hname := hname h @ [input]\<rparr>)
                   (req\<lparr>req_headers := req_headers req @ [\<lparr>hname = [], hvalue = []\<rparr>]\<rparr>))
            (accept S_header_name))"
| "Consume S_header_lws req input =
    (if input = CR then accept S_expecting_newline_2 req
     else if input = CHR '' '' \<or> input = TAB then accept S_header_lws req
     else if isCtl (int_of_char input) then reject S_header_lws req
     else bindR (update_back (\<lambda>h. h\<lparr>hvalue := hvalue h @ [input]\<rparr>) req) (accept S_header_value))"
| "Consume S_header_name req input =
    (if input = CHR '':'' then accept S_space_before_header_value req
     else if not_token input then reject S_header_name req
     else bindR (update_back (\<lambda>h. h\<lparr>hname := hname h @ [input]\<rparr>) req) (accept S_header_name))"
| "Consume S_space_before_header_value req input =
    expect CHR '' '' S_space_before_header_value S_header_value req input"
| "Consume S_header_value req input =
    (if input = CR then accept S_expecting_newline_2 req
     else if isCtl (int_of_char input) then reject S_header_value req
     else bindR (update_back (\<lambda>h. h\<lparr>hvalue := hvalue h @ [input]\<rparr>) req) (accept S_header_value))"
| "Consume S_expecting_newline_2 req input = expect LF S_expecting_newline_2 S_header_line_start req input"
| "Consume S_expecting_newline_3 req input =
    (if input = LF then Inr (TRUE_VALUE, S_expecting_newline_3, req)
     else reject S_expecting_newline_3 req)"

fun Parse :: "parser_state \<Rightarrow> Request \<Rightarrow> string \<Rightarrow> parse_step" where
  "Parse st req [] = Inr (INDETERMINATE, st, req)"
| "Parse st req (c # cs) =
    bindR (Consume st req c) (\<lambda>(r, st', req').
      if r \<noteq> INDETERMINATE then Inr (r, st', req') else Parse st' req' cs)"

text \<open>
  A default-initialised \<open>Request\<close>: strings and vector are empty, the two \<open>int\<close>s \<open>a\<close> and \<open>b\<close> are
  indeterminate.
\<close>

definition new_request :: "u32 \<Rightarrow> u32 \<Rightarrow> Request" where
  "new_request a b = \<lparr>req_method = [], req_uri = [], httpVersionMajor = a, httpVersionMinor = b,
     req_headers = []\<rparr>"


section \<open>The invariant of the parser\<close>

text \<open>The states in which the next character may be appended to \<open>headers.back()\<close>.\<close>

definition uses_back :: "parser_state \<Rightarrow> bool" where
  "uses_back st \<longleftrightarrow>
    st \<in> {S_header_lws, S_header_name, S_space_before_header_value, S_header_value}"

definition parser_wf :: "parser_state \<Rightarrow> Request \<Rightarrow> bool" where
  "parser_wf st req \<longleftrightarrow> (uses_back st \<longrightarrow> req_headers req \<noteq> [])"

lemmas step_defs = accept_def reject_def expect_def update_back_def

lemma Consume_wf:
  "parser_wf st req \<Longrightarrow> \<exists>r st' req'. Consume st req c = Inr (r, st', req') \<and> parser_wf st' req'"
  by (cases st) (auto simp: parser_wf_def uses_back_def step_defs)

lemma Parse_wf:
  "parser_wf st req \<Longrightarrow> \<exists>r st' req'. Parse st req cs = Inr (r, st', req') \<and> parser_wf st' req'"
proof (induction cs arbitrary: st req)
  case (Cons c cs)
  then obtain r st' req' where "Consume st req c = Inr (r, st', req')" "parser_wf st' req'"
    using Consume_wf by metis
  then show ?case using Cons.IH by auto
qed simp

lemma Parse_append:
  "Parse st req (xs @ ys) =
    bindR (Parse st req xs) (\<lambda>(r, st', req').
      if r \<noteq> INDETERMINATE then Inr (r, st', req') else Parse st' req' ys)"
proof (induction xs arbitrary: st req)
  case (Cons c cs)
  show ?case
    by (cases "Consume st req c") (auto simp: Cons.IH)
qed simp

section \<open>The language of the parser\<close>

text \<open>
  A declarative grammar: the request line, header lines, and continuation lines (a line that
  starts with a blank extends the value of the header above it). \<open>header_lines hs t\<close> says that
  \<open>t\<close> is a sequence of complete lines with the headers \<open>hs\<close>.
\<close>

abbreviation CRLF :: string where "CRLF \<equiv> [CR, LF]"

definition token :: "string \<Rightarrow> bool" where
  "token s \<longleftrightarrow> s \<noteq> [] \<and> (\<forall>c \<in> set s. \<not> not_token c)"

definition no_ctl :: "string \<Rightarrow> bool" where
  "no_ctl s \<longleftrightarrow> (\<forall>c \<in> set s. \<not> isCtl (int_of_char c))"

definition uri_text :: "string \<Rightarrow> bool" where
  "uri_text s \<longleftrightarrow> no_ctl s \<and> CHR '' '' \<notin> set s"

definition number :: "string \<Rightarrow> bool" where
  "number s \<longleftrightarrow> s \<noteq> [] \<and> (\<forall>c \<in> set s. isDigit (int_of_char c))"

definition blank :: "char \<Rightarrow> bool" where
  "blank c \<longleftrightarrow> c = CHR '' '' \<or> c = TAB"

inductive header_lines :: "Header list \<Rightarrow> string \<Rightarrow> bool" where
  no_lines: "header_lines [] []"
| field_line: "header_lines hs t \<Longrightarrow> token n \<Longrightarrow> no_ctl v \<Longrightarrow>
    header_lines (hs @ [\<lparr>hname = n, hvalue = v\<rparr>]) (t @ n @ '': '' @ v @ CRLF)"
| folded_line: "header_lines (hs @ [h]) t \<Longrightarrow> blank b \<Longrightarrow> (\<forall>c \<in> set ws. blank c) \<Longrightarrow>
    no_ctl v \<Longrightarrow> (v \<noteq> [] \<Longrightarrow> \<not> blank (hd v)) \<Longrightarrow>
    header_lines (hs @ [h\<lparr>hvalue := hvalue h @ v\<rparr>]) (t @ b # ws @ v @ CRLF)"

definition request_line :: "Request \<Rightarrow> string \<Rightarrow> bool" where
  "request_line req t \<longleftrightarrow> (\<exists>d1 d2.
     t = req_method req @ '' '' @ req_uri req @ '' HTTP/'' @ d1 @ ''.'' @ d2 @ CRLF \<and>
     token (req_method req) \<and> uri_text (req_uri req) \<and> number d1 \<and> number d2 \<and>
     httpVersionMajor req = of_nat (dec_value d1) \<and> httpVersionMinor req = of_nat (dec_value d2))"

definition request_text :: "Request \<Rightarrow> string \<Rightarrow> bool" where
  "request_text req t \<longleftrightarrow> (\<exists>l hl.
     t = l @ hl @ CRLF \<and> request_line req l \<and> header_lines (req_headers req) hl)"


lemma token_snoc: "s = [] \<or> token s \<Longrightarrow> \<not> not_token c \<Longrightarrow> token (s @ [c])"
  by (auto simp: token_def)

lemma no_ctl_simps [simp]:
  "no_ctl []" "no_ctl (s @ t) \<longleftrightarrow> no_ctl s \<and> no_ctl t"
  "no_ctl (c # s) \<longleftrightarrow> \<not> isCtl (int_of_char c) \<and> no_ctl s"
  by (auto simp: no_ctl_def)

lemma number_snoc: "s = [] \<or> number s \<Longrightarrow> isDigit (int_of_char c) \<Longrightarrow> number (s @ [c])"
  by (auto simp: number_def)

lemma dec_value_snoc [simp]: "dec_value (s @ [c]) = dec_value s * 10 + char_digit c"
  by (simp add: dec_value_def)

lemma dec_value_Nil [simp]: "dec_value [] = 0"
  by (simp add: dec_value_def)

lemma int_of_char_nat: "int_of_char c = (let n = int (of_char c) in if n < 128 then n else n - 256)"
  by (simp add: int_of_char_def of_nat_of_char)

lemma add_digit_of_nat:
  assumes "isDigit (int_of_char c)"
  shows "add_digit (of_nat n) c = of_nat (n * 10 + char_digit c)"
proof -
  let ?k = "of_char c :: nat"
  have "int_of_char c = int ?k \<or> int_of_char c = int ?k - 256"
    by (simp add: int_of_char_nat Let_def)
  moreover have "48 \<le> int_of_char c" using assms by (simp add: isDigit_def)
  ultimately have i: "int_of_char c = int ?k" and k: "48 \<le> ?k"
    using nat_of_char_less_256 [of c] by linarith+
  have "(word_of_int (int_of_char c) :: u32) - 48 = of_nat (?k - 48)"
    unfolding i using k by (simp add: of_nat_diff)
  then show ?thesis
    by (simp add: add_digit_def char_digit_def algebra_simps)
qed

section \<open>Soundness: what has been consumed\<close>

text \<open>
  \<open>consumed st req p\<close> relates a state of the parser to the text \<open>p\<close> it has read, state by
  state; it is the invariant of the loop in \<open>Parse\<close>.
\<close>

definition version_text :: "Request \<Rightarrow> string \<Rightarrow> bool \<Rightarrow> string \<Rightarrow> bool" where
  "version_text req d1 dot d2 \<longleftrightarrow>
     token (req_method req) \<and> uri_text (req_uri req) \<and> (d1 = [] \<or> number d1) \<and>
     (d2 = [] \<or> number d2) \<and> (dot \<longrightarrow> d1 \<noteq> []) \<and> req_headers req = [] \<and>
     httpVersionMajor req = of_nat (dec_value d1) \<and> httpVersionMinor req = of_nat (dec_value d2)"

definition line_start :: "Request \<Rightarrow> string" where
  "line_start req = req_method req @ '' '' @ req_uri req @ '' ''"

definition start_ok :: "Request \<Rightarrow> bool" where
  "start_ok req \<longleftrightarrow> token (req_method req) \<and> uri_text (req_uri req) \<and> req_headers req = []"

inductive value_open :: "Header list \<Rightarrow> string \<Rightarrow> bool" where
  open_field: "header_lines hs t \<Longrightarrow> token n \<Longrightarrow> no_ctl v \<Longrightarrow>
    value_open (hs @ [\<lparr>hname = n, hvalue = v\<rparr>]) (t @ n @ '': '' @ v)"
| open_folded: "header_lines (hs @ [h]) t \<Longrightarrow> blank b \<Longrightarrow> (\<forall>c \<in> set ws. blank c) \<Longrightarrow>
    no_ctl v \<Longrightarrow> v \<noteq> [] \<Longrightarrow> \<not> blank (hd v) \<Longrightarrow>
    value_open (hs @ [h\<lparr>hvalue := hvalue h @ v\<rparr>]) (t @ b # ws @ v)"

lemma value_open_close: "value_open hs t \<Longrightarrow> header_lines hs (t @ CRLF)"
  by (induction rule: value_open.induct) (use field_line folded_line in fastforce)+

lemma value_open_nonempty: "value_open hs t \<Longrightarrow> hs \<noteq> []"
  by (induction rule: value_open.induct) auto

lemma value_open_snoc:
  "value_open hs t \<Longrightarrow> \<not> isCtl (int_of_char c) \<Longrightarrow>
    value_open (butlast hs @ [(last hs)\<lparr>hvalue := hvalue (last hs) @ [c]\<rparr>]) (t @ [c])"
proof (induction rule: value_open.induct)
  case (open_field hs t n v)
  then show ?case using value_open.open_field [of hs t n "v @ [c]"] by simp
next
  case (open_folded hs h t b ws v)
  then show ?case using value_open.open_folded [of hs h t b ws "v @ [c]"] by simp
qed

fun consumed :: "parser_state \<Rightarrow> Request \<Rightarrow> string \<Rightarrow> bool" where
  "consumed S_method_start req p \<longleftrightarrow> p = [] \<and> (\<exists>a b. req = new_request a b)"
| "consumed S_method req p \<longleftrightarrow> token p \<and> (\<exists>a b. req = (new_request a b)\<lparr>req_method := p\<rparr>)"
| "consumed S_uri_start req p \<longleftrightarrow> False"
| "consumed S_uri req p \<longleftrightarrow> start_ok req \<and> p = req_method req @ '' '' @ req_uri req"
| "consumed S_http_version_h req p \<longleftrightarrow> start_ok req \<and> p = line_start req"
| "consumed S_http_version_t_1 req p \<longleftrightarrow> start_ok req \<and> p = line_start req @ ''H''"
| "consumed S_http_version_t_2 req p \<longleftrightarrow> start_ok req \<and> p = line_start req @ ''HT''"
| "consumed S_http_version_p req p \<longleftrightarrow> start_ok req \<and> p = line_start req @ ''HTT''"
| "consumed S_http_version_slash req p \<longleftrightarrow> start_ok req \<and> p = line_start req @ ''HTTP''"
| "consumed S_http_version_major_start req p \<longleftrightarrow>
    version_text req [] False [] \<and> p = line_start req @ ''HTTP/''"
| "consumed S_http_version_major req p \<longleftrightarrow>
    (\<exists>d1. d1 \<noteq> [] \<and> version_text req d1 False [] \<and> p = line_start req @ ''HTTP/'' @ d1)"
| "consumed S_http_version_minor_start req p \<longleftrightarrow>
    (\<exists>d1. version_text req d1 True [] \<and> p = line_start req @ ''HTTP/'' @ d1 @ ''.'')"
| "consumed S_http_version_minor req p \<longleftrightarrow>
    (\<exists>d1 d2. d2 \<noteq> [] \<and> version_text req d1 True d2 \<and> p = line_start req @ ''HTTP/'' @ d1 @ ''.'' @ d2)"
| "consumed S_expecting_newline_1 req p \<longleftrightarrow>
    req_headers req = [] \<and> (\<exists>l. p = l @ [CR] \<and> request_line req (l @ CRLF))"
| "consumed S_header_line_start req p \<longleftrightarrow>
    (\<exists>l t. p = l @ t \<and> request_line req l \<and> header_lines (req_headers req) t)"
| "consumed S_header_lws req p \<longleftrightarrow>
    (\<exists>l t b ws. p = l @ t @ b # ws \<and> blank b \<and> (\<forall>c \<in> set ws. blank c) \<and> request_line req l \<and>
       header_lines (req_headers req) t \<and> req_headers req \<noteq> [])"
| "consumed S_header_name req p \<longleftrightarrow>
    (\<exists>l t n hs. p = l @ t @ n \<and> token n \<and> request_line req l \<and> header_lines hs t \<and>
       req_headers req = hs @ [\<lparr>hname = n, hvalue = []\<rparr>])"
| "consumed S_space_before_header_value req p \<longleftrightarrow>
    (\<exists>l t n hs. p = l @ t @ n @ '':'' \<and> token n \<and> request_line req l \<and> header_lines hs t \<and>
       req_headers req = hs @ [\<lparr>hname = n, hvalue = []\<rparr>])"
| "consumed S_header_value req p \<longleftrightarrow>
    (\<exists>l t. p = l @ t \<and> request_line req l \<and> value_open (req_headers req) t)"
| "consumed S_expecting_newline_2 req p \<longleftrightarrow> 
    (\<exists>l t. p = l @ t @ [CR] \<and> request_line req l \<and> header_lines (req_headers req) (t @ CRLF))"
| "consumed S_expecting_newline_3 req p \<longleftrightarrow>
    (\<exists>l t. p = l @ t @ [CR] \<and> request_line req l \<and> header_lines (req_headers req) t)"


lemma request_line_headers [simp]: "request_line (req\<lparr>req_headers := hs\<rparr>) l = request_line req l"
  by (simp add: request_line_def)

lemma line_start_version [simp]:
  "line_start (req\<lparr>httpVersionMajor := a\<rparr>) = line_start req"
  "line_start (req\<lparr>httpVersionMinor := a\<rparr>) = line_start req"
  by (simp_all add: line_start_def)

lemma version_text_step:
  assumes "isDigit (int_of_char c)"
  shows "version_text req d1 False [] \<Longrightarrow>
      version_text (req\<lparr>httpVersionMajor := add_digit (httpVersionMajor req) c\<rparr>) (d1 @ [c]) False []"
    and "version_text req d1 True d2 \<Longrightarrow>
      version_text (req\<lparr>httpVersionMinor := add_digit (httpVersionMinor req) c\<rparr>) d1 True (d2 @ [c])"
  using assms number_snoc [of d1 c] number_snoc [of d2 c]
  by (simp_all only: version_text_def Request.simps Request.select_convs Request.update_convs
        add_digit_of_nat dec_value_snoc) auto

lemma version_text_line:
  "version_text req d1 True d2 \<Longrightarrow> d2 \<noteq> [] \<Longrightarrow>
    request_line req (line_start req @ ''HTTP/'' @ d1 @ ''.'' @ d2 @ CRLF)"
  by (auto simp: version_text_def request_line_def line_start_def)

lemma step_method_start:
  "consumed S_method_start req p \<Longrightarrow> Consume S_method_start req c = Inr (INDETERMINATE, st', req') \<Longrightarrow>
    consumed st' req' (p @ [c])"
  by (auto simp: step_defs token_def new_request_def split: if_splits)

lemma step_method:
  "consumed S_method req p \<Longrightarrow> Consume S_method req c = Inr (INDETERMINATE, st', req') \<Longrightarrow>
    consumed st' req' (p @ [c])"
  by (auto simp: step_defs new_request_def start_ok_def uri_text_def
      intro!: token_snoc split: if_splits)

lemma step_uri:
  "consumed S_uri req p \<Longrightarrow> Consume S_uri req c = Inr (INDETERMINATE, st', req') \<Longrightarrow>
    consumed st' req' (p @ [c])"
  by (auto simp: step_defs start_ok_def line_start_def uri_text_def split: if_splits)

lemma step_version_slash:
  "consumed S_http_version_slash req p \<Longrightarrow> Consume S_http_version_slash req c = Inr (INDETERMINATE, st', req') \<Longrightarrow>
    consumed st' req' (p @ [c])"
  by (auto simp: step_defs start_ok_def line_start_def version_text_def split: if_splits)

lemma step_version_major_start:
  "consumed S_http_version_major_start req p \<Longrightarrow> Consume S_http_version_major_start req c = Inr (INDETERMINATE, st', req') \<Longrightarrow>
    consumed st' req' (p @ [c])"
  using version_text_step(1) [of c req "[]"]
  by (auto simp: step_defs line_start_def split: if_splits)

lemma step_version_major:
  assumes "consumed S_http_version_major req p" and "Consume S_http_version_major req c = Inr (INDETERMINATE, st', req')"
  shows "consumed st' req' (p @ [c])"
proof -
  from assms(1) obtain d1 where d: "d1 \<noteq> []" "version_text req d1 False []"
    "p = line_start req @ ''HTTP/'' @ d1" by auto
  show ?thesis
  proof (cases "c = CHR ''.''")
    case True
    with assms d show ?thesis by (auto simp: step_defs version_text_def)
  next
    case False
    with assms d version_text_step(1) [of c req d1] show ?thesis
      by (auto simp: step_defs line_start_def split: if_splits)
  qed
qed

lemma step_version_minor_start:
  assumes "consumed S_http_version_minor_start req p"
    and "Consume S_http_version_minor_start req c = Inr (INDETERMINATE, st', req')"
  shows "consumed st' req' (p @ [c])"
proof -
  from assms(1) obtain d1 where d: "version_text req d1 True []"
    "p = line_start req @ ''HTTP/'' @ d1 @ ''.''" by auto
  from assms(2) have c: "isDigit (int_of_char c)" "st' = S_http_version_minor"
    "req' = req\<lparr>httpVersionMinor := add_digit (httpVersionMinor req) c\<rparr>"
    by (auto simp: step_defs split: if_splits)
  show ?thesis unfolding c(2) consumed.simps
    using version_text_step(2) [OF c(1) d(1)]
    by (intro exI [of _ d1] exI [of _ "[c]"]) (simp add: c d)
qed

lemma step_version_minor:
  assumes "consumed S_http_version_minor req p"
    and "Consume S_http_version_minor req c = Inr (INDETERMINATE, st', req')"
  shows "consumed st' req' (p @ [c])"
proof -
  from assms(1) obtain d1 d2 where d: "d2 \<noteq> []" "version_text req d1 True d2"
    "p = line_start req @ ''HTTP/'' @ d1 @ ''.'' @ d2" by auto
  show ?thesis
  proof (cases "c = CR")
    case True
    with assms(2) d version_text_line [OF d(2,1)] show ?thesis
      by (auto simp: step_defs version_text_def)
  next
    case False
    with assms(2) have c: "isDigit (int_of_char c)" "st' = S_http_version_minor"
      "req' = req\<lparr>httpVersionMinor := add_digit (httpVersionMinor req) c\<rparr>"
      by (auto simp: step_defs split: if_splits)
    show ?thesis unfolding c(2) consumed.simps
      using version_text_step(2) [OF c(1) d(2)]
      by (intro exI [of _ d1] exI [of _ "d2 @ [c]"]) (simp add: c d)
  qed
qed

lemma step_newline_1:
  assumes "consumed S_expecting_newline_1 req p"
    and "Consume S_expecting_newline_1 req c = Inr (INDETERMINATE, st', req')"
  shows "consumed st' req' (p @ [c])"
proof -
  from assms have "st' = S_header_line_start" "req' = req" "req_headers req = []" "request_line req (p @ [c])"
    by (auto simp: step_defs split: if_splits)
  then show ?thesis using header_lines.no_lines
    by (simp del: append_assoc) (metis append_Nil2)
qed

lemma step_newline_2:
  assumes "consumed S_expecting_newline_2 req p" and "Consume S_expecting_newline_2 req c = Inr (INDETERMINATE, st', req')"
  shows "consumed st' req' (p @ [c])"
  using assms by (fastforce simp: step_defs split: if_splits)

lemma step_header_line_start:
  assumes "consumed S_header_line_start req p" and "Consume S_header_line_start req c = Inr (INDETERMINATE, st', req')"
  shows "consumed st' req' (p @ [c])"
proof -
  from assms(1) obtain l t where d: "p = l @ t" "request_line req l" "header_lines (req_headers req) t"
    by auto
  consider (final) "c = CR" | (lws) "c \<noteq> CR" "req_headers req \<noteq> []" "blank c"
    | (name) "c \<noteq> CR" "\<not> (req_headers req \<noteq> [] \<and> blank c)" by blast
  then show ?thesis
  proof cases
    case final
    with assms d show ?thesis by (auto simp: step_defs)
  next
    case lws
    with assms d show ?thesis by (fastforce simp: step_defs blank_def)
  next
    case name
    with assms have "\<not> not_token c" "st' = S_header_name"
      "req' = req\<lparr>req_headers := req_headers req @ [\<lparr>hname = [c], hvalue = []\<rparr>]\<rparr>"
      by (auto simp: step_defs blank_def split: if_splits)
    with d show ?thesis using token_snoc [of "[]" c] by auto
  qed
qed

lemma step_header_name:
  assumes "consumed S_header_name req p" and "Consume S_header_name req c = Inr (INDETERMINATE, st', req')"
  shows "consumed st' req' (p @ [c])"
  using assms by (fastforce simp: step_defs intro: token_snoc split: if_splits)

lemma step_space_before_value:
  assumes "consumed S_space_before_header_value req p" and "Consume S_space_before_header_value req c = Inr (INDETERMINATE, st', req')"
  shows "consumed st' req' (p @ [c])"
proof -
  from assms(1) obtain l t n hs where d: "p = l @ t @ n @ '':''" "token n" "request_line req l"
    "header_lines hs t" "req_headers req = hs @ [\<lparr>hname = n, hvalue = []\<rparr>]" by auto
  with value_open.open_field [of hs t n "[]"] assms(2) show ?thesis
    by (fastforce simp: step_defs split: if_splits)
qed

lemma step_header_value:
  assumes "consumed S_header_value req p" and "Consume S_header_value req c = Inr (INDETERMINATE, st', req')"
  shows "consumed st' req' (p @ [c])"
proof -
  from assms(1) obtain l t where d: "p = l @ t" "request_line req l" "value_open (req_headers req) t"
    by auto
  show ?thesis
  proof (cases "c = CR")
    case True
    with assms d value_open_close [OF d(3)] show ?thesis by (auto simp: step_defs)
  next
    case False
    with assms d value_open_snoc [OF d(3), of c] value_open_nonempty [OF d(3)] show ?thesis
      by (fastforce simp: step_defs split: if_splits)
  qed
qed

lemma step_header_lws:
  assumes "consumed S_header_lws req p" and "Consume S_header_lws req c = Inr (INDETERMINATE, st', req')"
  shows "consumed st' req' (p @ [c])"
proof -
  from assms(1) obtain l t b ws where d: "p = l @ t @ b # ws" "blank b" "\<forall>c \<in> set ws. blank c"
    "request_line req l" "header_lines (req_headers req) t" "req_headers req \<noteq> []" by auto
  then obtain hs h where h: "req_headers req = hs @ [h]" by (metis append_butlast_last_id)
  consider (eol) "c = CR" | (more) "c \<noteq> CR" "blank c" | (chr) "c \<noteq> CR" "\<not> blank c" by blast
  then show ?thesis
  proof cases
    case eol
    with assms(2) have "st' = S_expecting_newline_2" "req' = req" by (auto simp: step_defs)
    with eol d h folded_line [of hs h t b ws "[]"] show ?thesis
      by simp (rule exI [of _ l], rule exI [of _ "t @ b # ws"], simp)
  next
    case more
    with assms have "st' = S_header_lws" "req' = req" by (auto simp: step_defs blank_def)
    moreover have "p @ [c] = l @ t @ b # (ws @ [c])" using d by simp
    moreover have "\<forall>x \<in> set (ws @ [c]). blank x" using d more by simp
    ultimately have "consumed S_header_lws req (p @ [c])"
      unfolding consumed.simps using d by blast
    with \<open>st' = S_header_lws\<close> \<open>req' = req\<close> show ?thesis by simp
  next
    case chr
    with assms h have "\<not> isCtl (int_of_char c)" "st' = S_header_value"
      "req' = req\<lparr>req_headers := hs @ [h\<lparr>hvalue := hvalue h @ [c]\<rparr>]\<rparr>"
      by (auto simp: step_defs blank_def split: if_splits)
    with d h chr open_folded [of hs h t b ws "[c]"] show ?thesis by fastforce
  qed
qed

lemma step_letters:
  "st \<in> {S_http_version_h, S_http_version_t_1, S_http_version_t_2, S_http_version_p} \<Longrightarrow>
    consumed st req p \<Longrightarrow> Consume st req c = Inr (INDETERMINATE, st', req') \<Longrightarrow>
    consumed st' req' (p @ [c])"
  by (auto simp: step_defs split: if_splits)

lemmas consumed_steps = step_method_start step_method step_uri step_version_slash
  step_version_major_start step_version_major step_version_minor_start step_version_minor
  step_newline_1 step_newline_2 step_header_line_start step_header_name step_space_before_value
  step_header_value step_header_lws

lemma consumed_step:
  assumes "consumed st req p" and "Consume st req c = Inr (INDETERMINATE, st', req')"
  shows "consumed st' req' (p @ [c])"
proof -
  consider "st \<in> {S_http_version_h, S_http_version_t_1, S_http_version_t_2, S_http_version_p}"
    | "st \<in> {S_uri_start, S_expecting_newline_3}"
    | "st \<notin> {S_http_version_h, S_http_version_t_1, S_http_version_t_2, S_http_version_p,
         S_uri_start, S_expecting_newline_3}" by blast
  then show ?thesis
  proof cases
    case 1
    with assms show ?thesis by (blast intro: step_letters)
  next
    case 2
    with assms show ?thesis by (auto simp: step_defs split: if_splits)
  next
    case 3
    with assms show ?thesis by (cases st) (blast intro: consumed_steps)+
  qed
qed

lemma consumed_final:
  assumes "consumed st req p" and "Consume st req c = Inr (TRUE_VALUE, st', req')"
  shows "st' = S_expecting_newline_3 \<and> request_text req' (p @ [c])"
  using assms
  by (cases st) (auto simp: step_defs request_text_def split: if_splits)

lemma Parse_sound:
  assumes "consumed st req p" and "Parse st req cs = Inr (TRUE_VALUE, st', req')"
  shows "st' = S_expecting_newline_3 \<and> (\<exists>u v. cs = u @ v \<and> request_text req' (p @ u))"
  using assms
proof (induction cs arbitrary: st req p)
  case (Cons c cs)
  then obtain r st1 req1 where step: "Consume st req c = Inr (r, st1, req1)"
    by (auto simp: bindR_Inr_iff)
  show ?case
  proof (cases "r = INDETERMINATE")
    case True
    with step Cons.prems have "Parse st1 req1 cs = Inr (TRUE_VALUE, st', req')" by simp
    from Cons.IH [OF consumed_step [OF Cons.prems(1) step [unfolded True]] this]
    show ?thesis by (metis append_Cons append_assoc self_append_conv2)
  next
    case False
    with step Cons.prems have "Consume st req c = Inr (TRUE_VALUE, st', req')" by simp
    from consumed_final [OF Cons.prems(1) this] show ?thesis
      by (metis append_Cons append_Nil)
  qed
qed simp


section \<open>Completeness: every text of the language is accepted\<close>

definition runs :: "parser_state \<Rightarrow> Request \<Rightarrow> string \<Rightarrow> parser_state \<Rightarrow> Request \<Rightarrow> bool" where
  "runs st req s st' req' \<longleftrightarrow> Parse st req s = Inr (INDETERMINATE, st', req')"

lemma runs_append: "runs st r s st1 r1 \<Longrightarrow> runs st1 r1 t st2 r2 \<Longrightarrow> runs st r (s @ t) st2 r2"
  by (simp add: runs_def Parse_append)

lemma runs_Nil: "runs st r [] st r"
  by (simp add: runs_def)

lemma runs_Cons: "Consume st r c = Inr (INDETERMINATE, st1, r1) \<Longrightarrow> runs st1 r1 t st2 r2 \<Longrightarrow> runs st r (c # t) st2 r2"
  by (simp add: runs_def)

lemma runs_loop:
  "(\<And>u c. c \<in> set s \<Longrightarrow> Consume st (f u) c = Inr (INDETERMINATE, st, f (u @ [c]))) \<Longrightarrow>
    runs st (f u) s st (f (u @ s))"
proof (induction s arbitrary: u)
  case (Cons c s)
  then have "runs st (f (u @ [c])) s st (f ((u @ [c]) @ s))" by (metis list.set_intros(2))
  with Cons.prems show ?case by (intro runs_Cons) auto
qed (simp add: runs_def)

lemma not_token_space [simp]: "not_token CHR '' ''" "not_token CHR '':''" "not_token CR"
    "not_token TAB"
  by (simp_all add: not_token_def isChar_def isCtl_def isTSpecial_def int_of_char_def)

lemma isCtl_CR [simp]: "isCtl (int_of_char CR)"
  by (simp add: isCtl_def int_of_char_def)

lemma isDigit_delims [simp]: "\<not> isDigit (int_of_char CHR ''.'')" "\<not> isDigit (int_of_char CR)"
  by (simp_all add: isDigit_def int_of_char_def)

lemma runs_word:
  assumes step: "\<And>u c st. c \<in> set s \<Longrightarrow> st \<in> {st0, st1} \<Longrightarrow>
      Consume st (f u) c = Inr (INDETERMINATE, st1, f (u @ [c]))"
    and "s \<noteq> []"
  shows "runs st0 (f []) s st1 (f s)"
proof -
  obtain c cs where s: "s = c # cs" using \<open>s \<noteq> []\<close> by (cases s) auto
  have "runs st1 (f [c]) cs st1 (f ([c] @ cs))"
    using step by (intro runs_loop) (simp add: s)
  moreover have "Consume st0 (f []) c = Inr (INDETERMINATE, st1, f [c])"
    using step [of c st0 "[]"] by (simp add: s)
  ultimately show ?thesis by (auto simp: s intro: runs_Cons)
qed

lemma runs_method:
  "token m \<Longrightarrow> runs S_method_start (new_request a b) m S_method ((new_request a b)\<lparr>req_method := m\<rparr>)"
  using runs_word [of m S_method_start S_method "\<lambda>u. (new_request a b)\<lparr>req_method := u\<rparr>"]
  by (force simp: token_def step_defs new_request_def)

lemma runs_uri:
  assumes "uri_text u"
  shows "runs S_uri (r\<lparr>req_uri := []\<rparr>) u S_uri (r\<lparr>req_uri := u\<rparr>)"
proof -
  have "runs S_uri (r\<lparr>req_uri := []\<rparr>) u S_uri (r\<lparr>req_uri := [] @ u\<rparr>)"
    by (rule runs_loop) (use assms in \<open>auto simp: uri_text_def no_ctl_def step_defs\<close>)
  then show ?thesis by simp
qed

lemma runs_http:
  "runs S_http_version_h r ''HTTP/'' S_http_version_major_start (r\<lparr>httpVersionMajor := 0, httpVersionMinor := 0\<rparr>)"
  by (simp add: runs_def step_defs)

lemma add_digit_dec:
  "isDigit (int_of_char c) \<Longrightarrow> add_digit (of_nat (dec_value u)) c = of_nat (dec_value (u @ [c]))"
  by (simp only: add_digit_of_nat dec_value_snoc)

lemma runs_major:
  assumes "number d"
  shows "runs S_http_version_major_start (r\<lparr>httpVersionMajor := 0\<rparr>) d S_http_version_major
    (r\<lparr>httpVersionMajor := of_nat (dec_value d)\<rparr>)"
proof -
  have "Consume st (r\<lparr>httpVersionMajor := of_nat (dec_value u)\<rparr>) c =
      Inr (INDETERMINATE, S_http_version_major, r\<lparr>httpVersionMajor := of_nat (dec_value (u @ [c]))\<rparr>)"
    if "c \<in> set d" "st \<in> {S_http_version_major_start, S_http_version_major}" for u c st
    using that assms isDigit_delims(1)
    by (auto simp: number_def step_defs add_digit_dec simp del: dec_value_snoc isDigit_delims)
  from runs_word [of d _ _ "\<lambda>u. r\<lparr>httpVersionMajor := of_nat (dec_value u)\<rparr>", OF this] assms
  show ?thesis by (simp add: number_def)
qed

lemma runs_minor:
  assumes "number d"
  shows "runs S_http_version_minor_start (r\<lparr>httpVersionMinor := 0\<rparr>) d S_http_version_minor
    (r\<lparr>httpVersionMinor := of_nat (dec_value d)\<rparr>)"
proof -
  have "Consume st (r\<lparr>httpVersionMinor := of_nat (dec_value u)\<rparr>) c =
      Inr (INDETERMINATE, S_http_version_minor, r\<lparr>httpVersionMinor := of_nat (dec_value (u @ [c]))\<rparr>)"
    if "c \<in> set d" "st \<in> {S_http_version_minor_start, S_http_version_minor}" for u c st
    using that assms isDigit_delims(2)
    by (auto simp: number_def step_defs add_digit_dec simp del: dec_value_snoc isDigit_delims)
  from runs_word [of d _ _ "\<lambda>u. r\<lparr>httpVersionMinor := of_nat (dec_value u)\<rparr>", OF this] assms
  show ?thesis by (simp add: number_def)
qed

lemma runs_single: "Consume st r c = Inr (INDETERMINATE, st', r') \<Longrightarrow> runs st r [c] st' r'"
  by (rule runs_Cons [OF _ runs_Nil])

lemma runs_request_line:
  assumes "request_line req l"
  shows "runs S_method_start (new_request a b) l S_header_line_start (req\<lparr>req_headers := []\<rparr>)"
proof -
  obtain d1 d2 where l: "l = req_method req @ '' '' @ req_uri req @ '' '' @ ''HTTP/'' @ d1 @ ''.'' @ d2 @ CRLF"
    and ok: "token (req_method req)" "uri_text (req_uri req)" "number d1" "number d2"
    and v: "httpVersionMajor req = of_nat (dec_value d1)" "httpVersionMinor req = of_nat (dec_value d2)"
    using assms by (auto simp: request_line_def)
  define m where "m = (new_request a b)\<lparr>req_method := req_method req\<rparr>"
  define u where "u = m\<lparr>req_uri := req_uri req\<rparr>"
  define w where "w = u\<lparr>httpVersionMajor := httpVersionMajor req, httpVersionMinor := 0\<rparr>"
  have 1: "runs S_method_start (new_request a b) (req_method req) S_method m"
    using runs_method [OF ok(1)] by (simp add: m_def)
  have 2: "runs S_method m '' '' S_uri (m\<lparr>req_uri := []\<rparr>)"
    by (rule runs_single) (simp add: step_defs m_def new_request_def)
  have 3: "runs S_uri (m\<lparr>req_uri := []\<rparr>) (req_uri req) S_uri u"
    using runs_uri [OF ok(2)] by (simp add: u_def)
  have 4: "runs S_uri u '' '' S_http_version_h u"
    by (rule runs_single) (simp add: step_defs)
  have 5: "runs S_http_version_major_start (u\<lparr>httpVersionMajor := 0, httpVersionMinor := 0\<rparr>) d1
      S_http_version_major w"
    using runs_major [OF ok(3), of u] runs_major [OF ok(3), of "u\<lparr>httpVersionMinor := 0\<rparr>"]
    by (simp add: w_def v u_def m_def new_request_def)
  have 6: "runs S_http_version_major w ''.'' S_http_version_minor_start (w\<lparr>httpVersionMinor := 0\<rparr>)"
    by (rule runs_single) (simp add: step_defs w_def)
  have 7: "runs S_http_version_minor (w\<lparr>httpVersionMinor := of_nat (dec_value d2)\<rparr>) CRLF
      S_header_line_start (req\<lparr>req_headers := []\<rparr>)"
    by (simp add: runs_def step_defs w_def u_def m_def new_request_def flip: v)
  show ?thesis unfolding l
    by (rule runs_append [OF 1 runs_append [OF 2 runs_append [OF 3 runs_append [OF 4
          runs_append [OF runs_http runs_append [OF 5 runs_append [OF 6
          runs_append [OF runs_minor [OF ok(4)] 7]]]]]]]])
qed

lemma runs_name:
  assumes "token n"
  shows "runs S_header_line_start (r\<lparr>req_headers := hs\<rparr>) n S_header_name
    (r\<lparr>req_headers := hs @ [\<lparr>hname = n, hvalue = []\<rparr>]\<rparr>)"
proof -
  let ?f = "\<lambda>u. r\<lparr>req_headers := hs @ [\<lparr>hname = u, hvalue = []\<rparr>]\<rparr>"
  obtain c cs where n: "n = c # cs" using assms by (cases n) (auto simp: token_def)
  have tok: "\<not> not_token x" if "x \<in> set n" for x using assms that by (simp add: token_def)
  have "runs S_header_name (?f [c]) cs S_header_name (?f ([c] @ cs))"
    by (rule runs_loop) (use tok n not_token_space in \<open>auto simp: step_defs simp del: not_token_space\<close>)
  moreover have "Consume S_header_line_start (r\<lparr>req_headers := hs\<rparr>) c = Inr (INDETERMINATE, S_header_name, ?f [c])"
    using tok [of c] n not_token_space by (auto simp: step_defs simp del: not_token_space)
  ultimately show ?thesis by (auto simp: n intro: runs_Cons)
qed

lemma runs_value:
  assumes "no_ctl v"
  shows "runs S_header_value (r\<lparr>req_headers := hs @ [h]\<rparr>) v S_header_value
    (r\<lparr>req_headers := hs @ [h\<lparr>hvalue := hvalue h @ v\<rparr>]\<rparr>)"
proof -
  let ?f = "\<lambda>u. r\<lparr>req_headers := hs @ [h\<lparr>hvalue := hvalue h @ u\<rparr>]\<rparr>"
  have "runs S_header_value (?f []) v S_header_value (?f ([] @ v))"
    by (rule runs_loop) (use assms isCtl_CR in \<open>auto simp: no_ctl_def step_defs simp del: isCtl_CR\<close>)
  then show ?thesis by simp
qed

lemma runs_CRLF:
  "st \<in> {S_header_value, S_header_lws} \<Longrightarrow> runs st r CRLF S_header_line_start r"
  by (auto simp: runs_def step_defs)

lemma runs_blanks: "\<forall>c \<in> set ws. blank c \<Longrightarrow> runs S_header_lws r ws S_header_lws r"
  by (induction ws) (auto simp: runs_def blank_def step_defs)

lemma runs_fold:
  assumes "no_ctl v" and "v \<noteq> [] \<Longrightarrow> \<not> blank (hd v)"
  shows "runs S_header_lws (r\<lparr>req_headers := hs @ [h]\<rparr>) (v @ CRLF) S_header_line_start
    (r\<lparr>req_headers := hs @ [h\<lparr>hvalue := hvalue h @ v\<rparr>]\<rparr>)"
proof (cases v)
  case Nil
  then show ?thesis using runs_CRLF by simp
next
  case (Cons c cs)
  let ?h = "h\<lparr>hvalue := hvalue h @ [c]\<rparr>"
  have "c \<noteq> CR" using assms(1) Cons isCtl_CR by auto
  then have "Consume S_header_lws (r\<lparr>req_headers := hs @ [h]\<rparr>) c =
      Inr (INDETERMINATE, S_header_value, r\<lparr>req_headers := hs @ [?h]\<rparr>)"
    using assms Cons by (auto simp: step_defs blank_def)
  moreover have "runs S_header_value (r\<lparr>req_headers := hs @ [?h]\<rparr>) (cs @ CRLF) S_header_line_start
      (r\<lparr>req_headers := hs @ [?h\<lparr>hvalue := hvalue ?h @ cs\<rparr>]\<rparr>)"
    using assms Cons by (intro runs_append [OF runs_value runs_CRLF]) auto
  ultimately show ?thesis by (auto simp: Cons intro: runs_Cons)
qed

lemma runs_header_lines:
  "header_lines hs t \<Longrightarrow>
    runs S_header_line_start (r\<lparr>req_headers := []\<rparr>) t S_header_line_start (r\<lparr>req_headers := hs\<rparr>)"
proof (induction rule: header_lines.induct)
  case (field_line hs t n v)
  have colon: "runs S_header_name q '': '' S_header_value q" for q
    by (simp add: runs_def step_defs)
  have "runs S_header_value q CRLF S_header_line_start q" for q
    by (rule runs_CRLF) simp
  from runs_append [OF field_line.IH runs_append [OF runs_name [OF field_line.hyps(2)]
      runs_append [OF colon runs_append [OF runs_value [OF field_line.hyps(3)] this]]]]
  show ?case by simp
next
  case (folded_line hs h t b ws v)
  have "runs S_header_line_start (r\<lparr>req_headers := hs @ [h]\<rparr>) [b] S_header_lws (r\<lparr>req_headers := hs @ [h]\<rparr>)"
    by (rule runs_single) (use folded_line in \<open>auto simp: step_defs blank_def\<close>)
  from runs_append [OF folded_line.IH runs_append [OF this
      runs_append [OF runs_blanks [OF folded_line.hyps(3)]
        runs_fold [OF folded_line.hyps(4) folded_line.hyps(5)]]]]
  show ?case by simp
qed (rule runs_Nil)

lemma Parse_complete:
  assumes "request_text req t"
  shows "Parse S_method_start (new_request a b) (t @ rest) = Inr (TRUE_VALUE, S_expecting_newline_3, req)"
proof -
  obtain l hl where t: "t = l @ hl @ CRLF" and l: "request_line req l"
    and hl: "header_lines (req_headers req) hl" using assms by (auto simp: request_text_def)
  from runs_append [OF runs_request_line [OF l] runs_header_lines [OF hl, of "req\<lparr>req_headers := []\<rparr>", simplified]]
  have "Parse S_method_start (new_request a b) (l @ hl) = Inr (INDETERMINATE, S_header_line_start, req)"
    by (simp add: runs_def)
  then show ?thesis
    using Parse_append [of S_method_start "new_request a b" "l @ hl" "CRLF @ rest"]
    by (simp add: t step_defs)
qed


lemma plain_request_text:
  assumes "token m" and "uri_text u"
  shows "request_text ((new_request a b)\<lparr>req_method := m, req_uri := u, httpVersionMajor := 1, httpVersionMinor := 0\<rparr>)
    (m @ '' '' @ u @ '' HTTP/1.0'' @ CRLF @ CRLF)" (is "request_text ?req _")
proof -
  have "number ''1'' \<and> number ''0'' \<and> dec_value ''1'' = 1 \<and> dec_value ''0'' = 0"
    by (simp add: number_def isDigit_def int_of_char_def dec_value_def char_digit_def)
  with assms have "request_line ?req (m @ '' '' @ u @ '' HTTP/1.0'' @ CRLF)"
    unfolding request_line_def
    by (intro exI [of _ "''1''"] exI [of _ "''0''"]) simp
  then have "request_text ?req ((m @ '' '' @ u @ '' HTTP/1.0'' @ CRLF) @ [] @ CRLF)"
    unfolding request_text_def using header_lines.no_lines by (auto simp: new_request_def)
  then show ?thesis by simp
qed

section \<open>Properties\<close>

text \<open>
  C36. The parser accepts exactly its language: fed any text from a fresh connection, it
  answers \<open>TRUE_VALUE\<close> with the request \<open>req\<close> if and only if some prefix of the text is a
  request line, header lines (with folded continuation lines) and an empty line that denote
  \<open>req\<close>.
\<close>

theorem parse_accepts_language:
  "Parse (RequestParser_init) (new_request a b) s = Inr (TRUE_VALUE, st, req) \<longleftrightarrow>
    st = S_expecting_newline_3 \<and> (\<exists>t rest. s = t @ rest \<and> request_text req t)"
  using Parse_sound [of S_method_start "new_request a b" "[]" s st req] Parse_complete [of req]
  by (auto simp: RequestParser_init_def)

text \<open>
  From every well-formed state the loop over any received bytes returns one of the three
  answers, leaves a well-formed state, and never appends to \<open>headers.back()\<close> of an empty
  vector.
\<close>

theorem parse_never_faults:
  "parser_wf st req \<Longrightarrow> \<exists>r st' req'. Parse st req cs = Inr (r, st', req') \<and> parser_wf st' req'"
  by (rule Parse_wf)

text \<open>
  Parsing is incremental: a request that arrives in two reads is parsed as if it had arrived
  in one, the second call resuming from the state and request the first left, and not being made
  when the first has decided.
\<close>

theorem parse_incremental:
  "Parse st req (xs @ ys) =
    bindR (Parse st req xs) (\<lambda>(r, st', req').
      if r \<noteq> INDETERMINATE then Inr (r, st', req') else Parse st' req' ys)"
  by (rule Parse_append)

definition demo_request_text :: string where
  "demo_request_text = ''GET /index.html HTTP/1.1'' @ CRLF @ ''Host: a'' @ CRLF @ '' b'' @ CRLF @ CRLF"

theorem parse_never_faults_witness:
  "\<exists>r st' req'. Parse S_method_start (new_request 0 0) demo_request_text = Inr (r, st', req') \<and> parser_wf st' req'"
  by (rule parse_never_faults) (simp add: parser_wf_def uses_back_def)

lemma uri_start_unreachable:
  "Consume st req c = Inr (r, S_uri_start, req') \<Longrightarrow> st = S_uri_start"
  by (cases st) (auto simp: step_defs bindR_Inr_iff split: if_splits)

text \<open>
  No transition enters the state \<open>uri_start\<close>, which is where the parser would insist on a
  URI; a request line without a URI is therefore accepted, with the empty string as its URI.
\<close>

theorem empty_uri_accepted:
  assumes "token m"
  shows "Parse RequestParser_init (new_request a b) (m @ ''  HTTP/1.0'' @ CRLF @ CRLF) =
    Inr (TRUE_VALUE, S_expecting_newline_3,
         (new_request a b)\<lparr>req_method := m, httpVersionMajor := 1, httpVersionMinor := 0\<rparr>)"
  using Parse_complete [OF plain_request_text [OF assms, of "[]" a b], of a b "[]"]
  by (simp add: RequestParser_init_def uri_text_def new_request_def)

theorem empty_uri_accepted_witness:
  "Parse RequestParser_init (new_request 7 7) (''GET'' @ ''  HTTP/1.0'' @ CRLF @ CRLF) =
    Inr (TRUE_VALUE, S_expecting_newline_3, (new_request 7 7)\<lparr>req_method := ''GET'', httpVersionMajor := 1, httpVersionMinor := 0\<rparr>)"
  by (rule empty_uri_accepted) (simp add: token_def not_token_def isChar_def isCtl_def isTSpecial_def int_of_char_def)

end
