(* ===== verification/Http_Reply.thy ===== *)
theory Http_Reply
  imports Http_Parser
begin

text \<open>
  The replies of the HTTP server: \<open>Reply.h\<close>, \<open>Reply.cpp\<close> and \<open>MimeTypes.cpp\<close> of
  \<open>Example/Network/Http/Http\<close>. A \<open>const_buffer\<close> is modelled by the characters it points at.
\<close>

section \<open>Data\<close>

datatype StatusType =
    SC_ok
  | SC_created
  | SC_accepted
  | SC_no_content
  | SC_multiple_choices
  | SC_moved_permanently
  | SC_moved_temporarily
  | SC_not_modified
  | SC_bad_request
  | SC_unauthorized
  | SC_forbidden
  | SC_not_found
  | SC_internal_server_error
  | SC_not_implemented
  | SC_bad_gateway
  | SC_service_unavailable

fun status_code :: "StatusType \<Rightarrow> nat" where
  "status_code SC_ok = 200"
| "status_code SC_created = 201"
| "status_code SC_accepted = 202"
| "status_code SC_no_content = 204"
| "status_code SC_multiple_choices = 300"
| "status_code SC_moved_permanently = 301"
| "status_code SC_moved_temporarily = 302"
| "status_code SC_not_modified = 304"
| "status_code SC_bad_request = 400"
| "status_code SC_unauthorized = 401"
| "status_code SC_forbidden = 403"
| "status_code SC_not_found = 404"
| "status_code SC_internal_server_error = 500"
| "status_code SC_not_implemented = 501"
| "status_code SC_bad_gateway = 502"
| "status_code SC_service_unavailable = 503"

record Reply =
  rep_status :: StatusType
  rep_headers :: "Header list"
  rep_content :: string

section \<open>Status lines and stock bodies\<close>

text \<open>\<open>status_strings::ToBuffer\<close>.\<close>

fun status_ToBuffer :: "StatusType \<Rightarrow> string" where
  "status_ToBuffer SC_ok = ''HTTP/1.0 200 OK'' @ CRLF"
| "status_ToBuffer SC_created = ''HTTP/1.0 201 Created'' @ CRLF"
| "status_ToBuffer SC_accepted = ''HTTP/1.0 202 Accepted'' @ CRLF"
| "status_ToBuffer SC_no_content = ''HTTP/1.0 204 No Content'' @ CRLF"
| "status_ToBuffer SC_multiple_choices = ''HTTP/1.0 300 Multiple Choices'' @ CRLF"
| "status_ToBuffer SC_moved_permanently = ''HTTP/1.0 301 Moved Permanently'' @ CRLF"
| "status_ToBuffer SC_moved_temporarily = ''HTTP/1.0 302 Moved Temporarily'' @ CRLF"
| "status_ToBuffer SC_not_modified = ''HTTP/1.0 304 Not Modified'' @ CRLF"
| "status_ToBuffer SC_bad_request = ''HTTP/1.0 400 Bad Request'' @ CRLF"
| "status_ToBuffer SC_unauthorized = ''HTTP/1.0 401 Unauthorized'' @ CRLF"
| "status_ToBuffer SC_forbidden = ''HTTP/1.0 403 Forbidden'' @ CRLF"
| "status_ToBuffer SC_not_found = ''HTTP/1.0 404 Not Found'' @ CRLF"
| "status_ToBuffer SC_internal_server_error = ''HTTP/1.0 500 Internal Server Error'' @ CRLF"
| "status_ToBuffer SC_not_implemented = ''HTTP/1.0 501 Not Implemented'' @ CRLF"
| "status_ToBuffer SC_bad_gateway = ''HTTP/1.0 502 Bad Gateway'' @ CRLF"
| "status_ToBuffer SC_service_unavailable = ''HTTP/1.0 503 Service Unavailable'' @ CRLF"

definition nameValueSeparator :: string where
  "nameValueSeparator = '': ''"

definition crlf :: string where
  "crlf = [CR, LF]"

text \<open>\<open>stock_reply::ToString\<close>.\<close>

fun stock_ToString :: "StatusType \<Rightarrow> string" where
  "stock_ToString SC_ok = []"
| "stock_ToString SC_created =
     ''<html>'' @ ''<head><title>Created</title></head>'' @
     ''<body><h1>201 Created</h1></body>'' @ ''</html>''"
| "stock_ToString SC_accepted =
     ''<html>'' @ ''<head><title>Accepted</title></head>'' @
     ''<body><h1>202 Accepted</h1></body>'' @ ''</html>''"
| "stock_ToString SC_no_content =
     ''<html>'' @ ''<head><title>No Content</title></head>'' @
     ''<body><h1>204 Content</h1></body>'' @ ''</html>''"
| "stock_ToString SC_multiple_choices =
     ''<html>'' @ ''<head><title>Multiple Choices</title></head>'' @
     ''<body><h1>300 Multiple Choices</h1></body>'' @ ''</html>''"
| "stock_ToString SC_moved_permanently =
     ''<html>'' @ ''<head><title>Moved Permanently</title></head>'' @
     ''<body><h1>301 Moved Permanently</h1></body>'' @ ''</html>''"
| "stock_ToString SC_moved_temporarily =
     ''<html>'' @ ''<head><title>Moved Temporarily</title></head>'' @
     ''<body><h1>302 Moved Temporarily</h1></body>'' @ ''</html>''"
| "stock_ToString SC_not_modified =
     ''<html>'' @ ''<head><title>Not Modified</title></head>'' @
     ''<body><h1>304 Not Modified</h1></body>'' @ ''</html>''"
| "stock_ToString SC_bad_request =
     ''<html>'' @ ''<head><title>Bad Request</title></head>'' @
     ''<body><h1>400 Bad Request</h1></body>'' @ ''</html>''"
| "stock_ToString SC_unauthorized =
     ''<html>'' @ ''<head><title>Unauthorized</title></head>'' @
     ''<body><h1>401 Unauthorized</h1></body>'' @ ''</html>''"
| "stock_ToString SC_forbidden =
     ''<html>'' @ ''<head><title>Forbidden</title></head>'' @
     ''<body><h1>403 Forbidden</h1></body>'' @ ''</html>''"
| "stock_ToString SC_not_found =
     ''<html>'' @ ''<head><title>Not Found</title></head>'' @
     ''<body><h1>404 Not Found</h1></body>'' @ ''</html>''"
| "stock_ToString SC_internal_server_error =
     ''<html>'' @ ''<head><title>Internal Server Error</title></head>'' @
     ''<body><h1>500 Internal Server Error</h1></body>'' @ ''</html>''"
| "stock_ToString SC_not_implemented =
     ''<html>'' @ ''<head><title>Not Implemented</title></head>'' @
     ''<body><h1>501 Not Implemented</h1></body>'' @ ''</html>''"
| "stock_ToString SC_bad_gateway =
     ''<html>'' @ ''<head><title>Bad Gateway</title></head>'' @
     ''<body><h1>502 Bad Gateway</h1></body>'' @ ''</html>''"
| "stock_ToString SC_service_unavailable =
     ''<html>'' @ ''<head><title>Service Unavailable</title></head>'' @
     ''<body><h1>503 Service Unavailable</h1></body>'' @ ''</html>''"

section \<open>Building a reply\<close>

text \<open>\<open>std::vector<Header>::resize\<close>: the vector is cut, or filled up with default headers.\<close>

definition resize_headers :: "nat \<Rightarrow> Header list \<Rightarrow> Header list" where
  "resize_headers n hs = take n hs @ replicate (n - length hs) \<lparr>hname = [], hvalue = []\<rparr>"

text \<open>
  \<open>headers.resize(2)\<close> and the four assignments to \<open>headers[0]\<close> and \<open>headers[1]\<close>, as
  \<open>StockReply\<close> and \<open>HandleRequest\<close> both write them.
\<close>

definition set_content_headers :: "string \<Rightarrow> Reply \<Rightarrow> Reply" where
  "set_content_headers mime rep =
    (let hs = resize_headers 2 (rep_headers rep);
         hs = hs[0 := (hs ! 0)\<lparr>hname := ''Content-Length''\<rparr>];
         hs = hs[0 := (hs ! 0)\<lparr>hvalue := string_of_nat (length (rep_content rep))\<rparr>];
         hs = hs[1 := (hs ! 1)\<lparr>hname := ''Content-Type''\<rparr>];
         hs = hs[1 := (hs ! 1)\<lparr>hvalue := mime\<rparr>]
     in rep\<lparr>rep_headers := hs\<rparr>)"

definition StockReply :: "StatusType \<Rightarrow> Reply" where
  "StockReply status =
    set_content_headers ''text/html''
      \<lparr>rep_status = status, rep_headers = [], rep_content = stock_ToString status\<rparr>"

fun header_buffers :: "Header list \<Rightarrow> string list" where
  "header_buffers [] = []"
| "header_buffers (h # hs) = [hname h, nameValueSeparator, hvalue h, crlf] @ header_buffers hs"

definition ToBuffers :: "Reply \<Rightarrow> string list" where
  "ToBuffers rep =
    [status_ToBuffer (rep_status rep)] @ header_buffers (rep_headers rep) @ [crlf] @ [rep_content rep]"

section \<open>Mime types\<close>

definition mappings :: "(string \<times> string) list" where
  "mappings = [(''gif'', ''image/gif''), (''htm'', ''text/html''), (''html'', ''text/html''),
     (''jpg'', ''image/jpeg''), (''png'', ''image/png'')]"

fun extension_search :: "(string \<times> string) list \<Rightarrow> string \<Rightarrow> string" where
  "extension_search [] e = ''text/plain''"
| "extension_search ((x, t) # ms) e = (if x = e then t else extension_search ms e)"

definition ExtensionToType :: "string \<Rightarrow> string" where
  "ExtensionToType extension = extension_search mappings extension"

section \<open>The text of a reply\<close>

text \<open>
  What a client has to find in the bytes: a status line with the code, one line per header, an
  empty line, the body.
\<close>

definition header_text :: "Header \<Rightarrow> string" where
  "header_text h = hname h @ '': '' @ hvalue h @ CRLF"

definition reply_text :: "Reply \<Rightarrow> string" where
  "reply_text rep =
    status_ToBuffer (rep_status rep) @ concat (map header_text (rep_headers rep)) @ CRLF @ rep_content rep"

definition content_headers :: "string \<Rightarrow> string \<Rightarrow> Header list" where
  "content_headers content mime =
    [\<lparr>hname = ''Content-Length'', hvalue = string_of_nat (length content)\<rparr>,
     \<lparr>hname = ''Content-Type'', hvalue = mime\<rparr>]"

lemma set_content_headers_eq [simp]:
  "set_content_headers mime rep = rep\<lparr>rep_headers := content_headers (rep_content rep) mime\<rparr>"
proof -
  have "length (resize_headers 2 hs) = 2" for hs
    by (simp add: resize_headers_def)
  then obtain a b where "resize_headers 2 (rep_headers rep) = [a, b]"
    by (metis (no_types) One_nat_def length_0_conv length_Suc_conv numeral_2_eq_2)
  then show ?thesis
    by (simp add: set_content_headers_def content_headers_def Let_def)
qed

lemma header_buffers_text [simp]: "concat (header_buffers hs) = concat (map header_text hs)"
  by (induction hs) (auto simp: header_text_def nameValueSeparator_def crlf_def)

lemma ToBuffers_text [simp]: "concat (ToBuffers rep) = reply_text rep"
  by (simp add: ToBuffers_def reply_text_def crlf_def)

lemma status_line:
  "\<exists>phrase. status_ToBuffer st = ''HTTP/1.0 '' @ string_of_nat (status_code st) @ '' '' @ phrase @ CRLF \<and>
     CR \<notin> set phrase \<and> LF \<notin> set phrase"
  by (cases st) (auto simp: string_of_nat.simps digit_char_simps
      intro!: exI [of _ "butlast (butlast (drop 13 (status_ToBuffer st)))"])

lemma status_ToBuffer_inj: "status_ToBuffer a = status_ToBuffer b \<Longrightarrow> a = b"
  by (cases a; cases b) simp_all

text \<open>
  Every stock reply is well formed: its bytes are the status line with the decimal status
  code, a \<open>Content-Length\<close> header with the number of bytes of the body, the content type, an empty
  line and the body.
\<close>

theorem stock_reply_bytes:
  "\<exists>phrase. concat (ToBuffers (StockReply st)) =
      ''HTTP/1.0 '' @ string_of_nat (status_code st) @ '' '' @ phrase @ CRLF @
      ''Content-Length: '' @ string_of_nat (length (stock_ToString st)) @ CRLF @
      ''Content-Type: text/html'' @ CRLF @ CRLF @ stock_ToString st \<and>
    CR \<notin> set phrase \<and> LF \<notin> set phrase"
  using status_line [of st]
  by (auto simp: StockReply_def reply_text_def content_headers_def header_text_def)

end
