(* ===== verification/Http_Handler.thy ===== *)
theory Http_Handler
  imports Http_Reply "HOL-Library.Sublist"
begin

text \<open>
  The request handler of the HTTP server: \<open>RequestHandler.h\<close> and \<open>RequestHandler.cpp\<close> of
  \<open>Example/Network/Http/Http\<close>. The file system is a parameter: \<open>fs path\<close> is the content of the file
  \<open>std::ifstream\<close> opens at \<open>path\<close>, \<open>None\<close> when it cannot be opened.
\<close>

section \<open>Library functions the handler uses\<close>

text \<open>\<open>std::string::find_last_of\<close> of one character.\<close>

fun find_last_of :: "char \<Rightarrow> string \<Rightarrow> nat" where
  "find_last_of c [] = npos"
| "find_last_of c (x # xs) =
    (if c \<in> set xs then Suc (find_last_of c xs) else if x = c then 0 else npos)"

text \<open>\<open>request_path.find("..") != std::string::npos\<close>.\<close>

fun finds_dotdot :: "string \<Rightarrow> bool" where
  "finds_dotdot (a # b # cs) \<longleftrightarrow> (a = CHR ''.'' \<and> b = CHR ''.'') \<or> finds_dotdot (b # cs)"
| "finds_dotdot _ \<longleftrightarrow> False"

text \<open>The file name an \<open>ifstream\<close> sees: \<open>c_str()\<close> ends at the first null character.\<close>

definition c_str :: "string \<Rightarrow> string" where
  "c_str s = takeWhile (\<lambda>c. c \<noteq> CHR 0x00) s"

text \<open>
  \<open>is >> std::hex >> value\<close> on a string of at most two characters: white space is skipped, then
  an optional sign, an optional prefix \<open>0x\<close> and the digits up to the first other character.
  The extraction fails when there is no digit.
\<close>

definition isspace :: "char \<Rightarrow> bool" where
  "isspace c \<longleftrightarrow> c \<in> {CHR '' '', CHR 0x09, CHR 0x0A, CHR 0x0B, CHR 0x0C, CHR 0x0D}"

definition hex_digit :: "char \<Rightarrow> int option" where
  "hex_digit c = (let n = int_of_char c in
     if 48 \<le> n \<and> n \<le> 57 then Some (n - 48)
     else if 97 \<le> n \<and> n \<le> 102 then Some (n - 87)
     else if 65 \<le> n \<and> n \<le> 70 then Some (n - 55)
     else None)"

fun hex_digits :: "bool \<Rightarrow> int \<Rightarrow> string \<Rightarrow> int option" where
  "hex_digits seen v [] = (if seen then Some v else None)"
| "hex_digits seen v (c # cs) =
    (case hex_digit c of
       Some d \<Rightarrow> hex_digits True (v * 16 + d) cs
     | None \<Rightarrow> (if seen then Some v else None))"

definition skip_prefix :: "string \<Rightarrow> string" where
  "skip_prefix cs = (case cs of
      a # b # r \<Rightarrow> if a = CHR ''0'' \<and> (b = CHR ''x'' \<or> b = CHR ''X'') then r else cs
    | _ \<Rightarrow> cs)"

definition extract_hex :: "string \<Rightarrow> int option" where
  "extract_hex s = (case dropWhile isspace s of
      [] \<Rightarrow> None
    | c # cs \<Rightarrow>
        if c = CHR ''-'' then map_option uminus (hex_digits False 0 (skip_prefix cs))
        else if c = CHR ''+'' then hex_digits False 0 (skip_prefix cs)
        else hex_digits False 0 (skip_prefix (c # cs)))"

text \<open>
  \<open>std::ifstream\<close>: the bytes not yet read, and whether an earlier read has failed. A read that
  finds fewer bytes than it asks for delivers them and fails the stream.
\<close>

record ifstream =
  is_rest :: string
  is_fail :: bool

definition is_read :: "nat \<Rightarrow> ifstream \<Rightarrow> string \<times> ifstream" where
  "is_read n is =
    (if is_fail is then ([], is)
     else (take n (is_rest is),
           \<lparr>is_rest = drop n (is_rest is), is_fail = length (is_rest is) < n\<rparr>))"

section \<open>The handler\<close>

text \<open>\<open>_UrlDecode\<close>: the returned flag and \<open>out\<close>.\<close>

function url_decode_loop :: "string \<Rightarrow> string \<Rightarrow> bool \<times> string" where
  "url_decode_loop [] out = (True, out)"
| "url_decode_loop (c # cs) out =
    (if c = CHR ''%'' then
       (if length cs \<ge> 2 then
          (case extract_hex (take 2 cs) of
             Some v \<Rightarrow> url_decode_loop (drop 2 cs) (out @ [char_of (v mod 256)])
           | None \<Rightarrow> (False, out))
        else (False, out))
     else if c = CHR ''+'' then url_decode_loop cs (out @ '' '')
     else url_decode_loop cs (out @ [c]))"
  by pat_completeness auto
termination by (relation "measure (length \<circ> fst)") auto

definition UrlDecode :: "string \<Rightarrow> bool \<times> string" where
  "UrlDecode uri = url_decode_loop uri []"

function read_file :: "ifstream \<Rightarrow> string \<Rightarrow> string" where
  "read_file is content =
    (case is_read 512 is of (buf, is') \<Rightarrow>
       if length buf > 0 then read_file is' (content @ buf) else content)"
  by pat_completeness auto
termination
  by (relation "measure (length \<circ> is_rest \<circ> fst)") (auto simp: is_read_def split: if_splits)

declare read_file.simps [simp del]

definition path_extension :: "string \<Rightarrow> string" where
  "path_extension path =
    (let last_slash_pos = find_last_of CHR ''/'' path;
         last_dot_pos = find_last_of CHR ''.'' path
     in if last_dot_pos \<noteq> npos \<and> last_dot_pos > last_slash_pos then drop (last_dot_pos + 1) path else [])"

definition HandleRequest :: "(string \<Rightarrow> string option) \<Rightarrow> string \<Rightarrow> Request \<Rightarrow> Reply \<Rightarrow> Reply" where
  "HandleRequest fs docRoot req rep =
    (let (decoded, request_path) = UrlDecode (req_uri req) in
     if \<not> decoded then StockReply SC_bad_request
     else if request_path = [] \<or> request_path ! 0 \<noteq> CHR ''/'' \<or> finds_dotdot request_path
     then StockReply SC_bad_request
     else
       let request_path =
             (if request_path ! (length request_path - 1) = CHR ''/''
              then request_path @ ''index.html'' else request_path);
           extension = path_extension request_path;
           full_path = docRoot @ request_path
       in case fs (c_str full_path) of
            None \<Rightarrow> StockReply SC_not_found
          | Some file \<Rightarrow>
              let rep = rep\<lparr>rep_status := SC_ok\<rparr>;
                  rep = rep\<lparr>rep_content :=
                    read_file \<lparr>is_rest = file, is_fail = False\<rparr> (rep_content rep)\<rparr>
              in set_content_headers (ExtensionToType extension) rep)"

section \<open>Percent-encoding\<close>

text \<open>The encoder a client uses: unreserved characters stand for themselves, all others are \<open>%XY\<close>.\<close>

definition hex_char :: "nat \<Rightarrow> char" where
  "hex_char d = ''0123456789ABCDEF'' ! d"

definition unreserved :: "char \<Rightarrow> bool" where
  "unreserved c \<longleftrightarrow> (let n = of_char c :: nat in
     (48 \<le> n \<and> n \<le> 57) \<or> (65 \<le> n \<and> n \<le> 90) \<or> (97 \<le> n \<and> n \<le> 122) \<or> n = 45 \<or> n = 46 \<or> n = 47 \<or> n = 95)"

definition percent :: "char \<Rightarrow> string" where
  "percent c = [CHR ''%'', hex_char (of_char c div 16), hex_char (of_char c mod 16)]"

definition url_encode :: "string \<Rightarrow> string" where
  "url_encode s = concat (map (\<lambda>c. if unreserved c then [c] else percent c) s)"

lemma hex_char_all:
  "list_all (\<lambda>d. hex_digit (hex_char d) = Some (int d) \<and> \<not> isspace (hex_char d) \<and>
     hex_char d \<notin> set ''-+xX'') [0..<16]"
  by (simp add: hex_char_def hex_digit_def int_of_char_def isspace_def upt_conv_Cons)

lemma hex_char_facts:
  "d < 16 \<Longrightarrow> hex_digit (hex_char d) = Some (int d) \<and> \<not> isspace (hex_char d) \<and>
     hex_char d \<noteq> CHR ''-'' \<and> hex_char d \<noteq> CHR ''+'' \<and> hex_char d \<noteq> CHR ''x'' \<and> hex_char d \<noteq> CHR ''X''"
  using hex_char_all by (simp add: list_all_iff)

lemma extract_hex_pair:
  "a < 16 \<Longrightarrow> b < 16 \<Longrightarrow> extract_hex [hex_char a, hex_char b] = Some (int (a * 16 + b))"
  using hex_char_facts [of a] hex_char_facts [of b]
  by (simp add: extract_hex_def skip_prefix_def)

lemma decode_percent:
  "url_decode_loop (percent c @ s) out = url_decode_loop s (out @ [c])"
proof -
  let ?n = "of_char c :: nat"
  have n: "?n div 16 < 16" using nat_of_char_less_256 [of c] by linarith
  then have "extract_hex [hex_char (?n div 16), hex_char (?n mod 16)] = Some (int (?n div 16 * 16 + ?n mod 16))"
    by (intro extract_hex_pair) auto
  moreover have "char_of (int ?n mod 256) = c"
    by (simp add: of_nat_of_char)
  ultimately show ?thesis by (simp add: percent_def)
qed

lemma decode_unreserved:
  "unreserved c \<Longrightarrow> url_decode_loop (c # s) out = url_decode_loop s (out @ [c])"
  by (auto simp: unreserved_def)

lemma url_decode_loop_encode: "url_decode_loop (url_encode s) out = (True, out @ s)"
  by (induction s arbitrary: out)
    (auto simp: url_encode_def decode_percent decode_unreserved simp del: url_decode_loop.simps(2))

lemma UrlDecode_encode [simp]: "UrlDecode (url_encode s) = (True, s)"
  by (simp add: UrlDecode_def url_decode_loop_encode)

section \<open>Reading the file\<close>

lemma read_file_all [simp]:
  "read_file \<lparr>is_rest = bs, is_fail = False\<rparr> content = content @ bs"
proof (induction "length bs" arbitrary: bs content rule: less_induct)
  case less
  show ?case
  proof (cases "length bs < 512")
    case True
    have "read_file \<lparr>is_rest = [], is_fail = True\<rparr> c = c" for c
      by (subst read_file.simps) (simp add: is_read_def)
    with True show ?thesis
      by (subst read_file.simps) (simp add: is_read_def)
  next
    case False
    then have "read_file \<lparr>is_rest = drop 512 bs, is_fail = False\<rparr> (content @ take 512 bs) = content @ bs"
      using less [of "drop 512 bs" "content @ take 512 bs"] by simp
    with False show ?thesis
      by (subst read_file.simps) (auto simp: is_read_def)
  qed
qed


section \<open>Which file is served\<close>

lemma find_last_of_less: "c \<in> set xs \<Longrightarrow> find_last_of c xs < length xs"
  by (induction xs) auto

lemma find_last_of_append:
  "c \<in> set ys \<Longrightarrow> find_last_of c (xs @ ys) = length xs + find_last_of c ys"
  "c \<notin> set ys \<Longrightarrow> c \<in> set xs \<Longrightarrow> find_last_of c (xs @ ys) = find_last_of c xs"
  by (induction xs) auto

definition safe_path :: "string \<Rightarrow> bool" where
  "safe_path p \<longleftrightarrow> p \<noteq> [] \<and> hd p = CHR ''/'' \<and> \<not> sublist ''..'' p"

definition served_path :: "string \<Rightarrow> string" where
  "served_path p = (if last p = CHR ''/'' then p @ ''index.html'' else p)"

lemma finds_dotdot_iff: "finds_dotdot p \<longleftrightarrow> sublist ''..'' p"
  by (induction p rule: finds_dotdot.induct) (auto simp: sublist_Cons_right)

lemma finds_dotdot_append:
  "finds_dotdot (xs @ ys) \<longleftrightarrow> finds_dotdot xs \<or> finds_dotdot ys \<or>
     (xs \<noteq> [] \<and> ys \<noteq> [] \<and> last xs = CHR ''.'' \<and> hd ys = CHR ''.'')"
  by (induction xs rule: finds_dotdot.induct; cases ys) auto

lemma safe_path_served: "safe_path p \<Longrightarrow> safe_path (served_path p)"
  by (auto simp: safe_path_def served_path_def finds_dotdot_append simp flip: finds_dotdot_iff)

lemma HandleRequest_eq:
  "HandleRequest fs docRoot req rep =
    (case UrlDecode (req_uri req) of (decoded, p) \<Rightarrow>
       if \<not> decoded \<or> \<not> safe_path p then StockReply SC_bad_request
       else case fs (c_str (docRoot @ served_path p)) of
              None \<Rightarrow> StockReply SC_not_found
            | Some bs \<Rightarrow> rep\<lparr>rep_status := SC_ok, rep_content := rep_content rep @ bs,
                rep_headers := content_headers (rep_content rep @ bs)
                  (ExtensionToType (path_extension (served_path p)))\<rparr>)"
  by (auto simp: HandleRequest_def safe_path_def served_path_def finds_dotdot_iff Let_def
      hd_conv_nth last_conv_nth split: prod.splits option.splits)

text \<open>
  Decoding undoes percent-encoding: whatever bytes a client encodes, \<open>_UrlDecode\<close> succeeds and
  returns them.
\<close>

theorem url_decode_encode: "UrlDecode (url_encode s) = (True, s)"
  by (rule UrlDecode_encode)

text \<open>
  C38. Requests cannot leave the document root: the reply depends on the file system only at paths
  that are the root followed by a path that starts with a slash and does not contain two dots
  in a row. Two file systems that agree on those paths give every request the same reply.
\<close>

theorem request_confined_to_root:
  assumes "\<And>p. hd p = CHR ''/'' \<Longrightarrow> \<not> sublist ''..'' p \<Longrightarrow>
    fs (c_str (docRoot @ p)) = fs' (c_str (docRoot @ p))"
  shows "HandleRequest fs docRoot req rep = HandleRequest fs' docRoot req rep"
proof -
  obtain d p where u: "UrlDecode (req_uri req) = (d, p)" by fastforce
  have "fs (c_str (docRoot @ served_path p)) = fs' (c_str (docRoot @ served_path p))" if "safe_path p"
    using assms safe_path_served [OF that] by (simp add: safe_path_def)
  then show ?thesis by (auto simp: HandleRequest_eq u)
qed

definition demo_fs :: "string \<Rightarrow> string option" where
  "demo_fs p = (if p = ''C:/www/a'' then Some ''data'' else None)"

theorem request_confined_to_root_witness:
  "HandleRequest demo_fs ''C:/www'' \<lparr>req_method = ''GET'', req_uri = ''/../secret'',
      httpVersionMajor = 1, httpVersionMinor = 0, req_headers = []\<rparr> (StockReply SC_ok) =
   HandleRequest (demo_fs(''C:/secret'' \<mapsto> ''key'')) ''C:/www'' \<lparr>req_method = ''GET'', req_uri = ''/../secret'',
      httpVersionMajor = 1, httpVersionMinor = 0, req_headers = []\<rparr> (StockReply SC_ok)"
  by (rule request_confined_to_root) (simp add: c_str_def)

text \<open>
  C40. A request for a file that exists is answered with \<open>200\<close>, the whole file read in blocks of
  512 bytes, its length, and the type of the extension of the decoded path; a directory is answered with its
  \<open>index.html\<close>. When the path holds a NUL, the file is the one named before it, and the type need not be that file's.
\<close>

theorem request_serves_file:
  assumes "UrlDecode (req_uri req) = (True, p)" and "safe_path p"
    and "fs (c_str (docRoot @ served_path p)) = Some bs" and "rep_content rep = []"
  shows "concat (ToBuffers (HandleRequest fs docRoot req rep)) =
    ''HTTP/1.0 200 OK'' @ CRLF @
    ''Content-Length: '' @ string_of_nat (length bs) @ CRLF @
    ''Content-Type: '' @ ExtensionToType (path_extension (served_path p)) @ CRLF @ CRLF @ bs"
  using assms by (simp add: HandleRequest_eq reply_text_def content_headers_def header_text_def)

theorem request_serves_file_witness:
  "concat (ToBuffers (HandleRequest (\<lambda>q. if q = ''C:/www/x/index.html'' then Some ''data'' else None) ''C:/www''
      \<lparr>req_method = ''GET'', req_uri = ''/%78/'', httpVersionMajor = 1, httpVersionMinor = 0, req_headers = []\<rparr>
      \<lparr>rep_status = SC_ok, rep_headers = [], rep_content = []\<rparr>)) =
    ''HTTP/1.0 200 OK'' @ CRLF @
    ''Content-Length: '' @ string_of_nat (length ''data'') @ CRLF @
    ''Content-Type: '' @ ExtensionToType (path_extension (served_path ''/x/'')) @ CRLF @ CRLF @ ''data''"
  by (rule request_serves_file)
    (code_simp, simp_all add: safe_path_def served_path_def c_str_def finds_dotdot_iff [symmetric])

text \<open>
  Every reply announces its own length: whatever the request, the file system and the reply
  object passed in, the reply has exactly two headers, and \<open>Content-Length\<close> is the decimal length
  of the body that is sent.
\<close>

theorem reply_length_consistent:
  "\<exists>mime. rep_headers (HandleRequest fs docRoot req rep) =
     content_headers (rep_content (HandleRequest fs docRoot req rep)) mime"
  by (auto simp: HandleRequest_eq StockReply_def split: prod.splits option.splits)

text \<open>
  A decoded null character cuts the path that is opened but not the extension that is looked
  up: the file \<open>p\<close> is served with the content type of any extension the client appends
  after \<open>%00\<close>.
\<close>

theorem nul_in_path_changes_type:
  assumes "safe_path p" and "CHR 0x00 \<notin> set (docRoot @ p)" and "fs (docRoot @ p) = Some bs"
    and "rep_content rep = []" and "length p < 2 ^ 31"
    and "req_uri req = url_encode (p @ CHR 0x00 # ''.gif'')"
  shows "rep_content (HandleRequest fs docRoot req rep) = bs \<and>
    rep_headers (HandleRequest fs docRoot req rep) = content_headers bs ''image/gif''"
proof -
  let ?q = "p @ CHR 0x00 # ''.gif''"
  have "CHR ''/'' \<in> set p" using assms(1) by (cases p) (auto simp: safe_path_def)
  then have slash: "find_last_of CHR ''/'' ?q < length p"
    by (simp add: find_last_of_append find_last_of_less)
  have dot: "find_last_of CHR ''.'' ?q = length p + 1"
    by (simp add: find_last_of_append)
  have safe: "safe_path ?q"
    using assms(1) by (auto simp: safe_path_def finds_dotdot_append simp flip: finds_dotdot_iff)
  have "c_str (docRoot @ ?q) = docRoot @ p"
    unfolding c_str_def append_assoc [symmetric]
    using assms(2) by (subst takeWhile_append2) auto
  moreover have "length p + 1 \<noteq> npos"
    using assms(5) by (simp add: npos_def)
  ultimately show ?thesis
    using assms safe slash dot
    by (simp add: HandleRequest_eq served_path_def path_extension_def Let_def ExtensionToType_def mappings_def)
qed


theorem nul_in_path_changes_type_witness:
  "rep_content (HandleRequest demo_fs ''C:/www''
      \<lparr>req_method = ''GET'', req_uri = ''/a%00.gif'', httpVersionMajor = 1, httpVersionMinor = 0, req_headers = []\<rparr>
      \<lparr>rep_status = SC_ok, rep_headers = [], rep_content = []\<rparr>) = ''data'' \<and>
   rep_headers (HandleRequest demo_fs ''C:/www''
      \<lparr>req_method = ''GET'', req_uri = ''/a%00.gif'', httpVersionMajor = 1, httpVersionMinor = 0, req_headers = []\<rparr>
      \<lparr>rep_status = SC_ok, rep_headers = [], rep_content = []\<rparr>) = content_headers ''data'' ''image/gif''"
  by (rule nul_in_path_changes_type [where p = "''/a''"])
    (simp_all add: safe_path_def demo_fs_def url_encode_def percent_def unreserved_def hex_char_def
      flip: finds_dotdot_iff)

end
