(* ===== verification/Http_Server.thy ===== *)
theory Http_Server
  imports Http_Handler
begin

text \<open>
  The connections of the HTTP server: \<open>Connection.cpp\<close>, \<open>ConnectionMgr.cpp\<close> and \<open>Server.cpp\<close> of
  \<open>Example/Network/Http/Http\<close>. A completion handler is a function of the connection; what it asks
  of the rest of the program is a list of actions. The server is a step relation over the
  completions the I/O dispatcher delivers.

  Parameters: \<open>fs\<close> is the file system; \<open>resize\<close> is \<open>auto_buffer::resize\<close>, whose class is not part
  of the repository. A flag \<open>throws\<close> says whether the asynchronous operation a handler starts
  throws a \<open>std::exception\<close>.
\<close>

section \<open>Connections\<close>

record Connection =
  conn_request :: Request
  conn_parser :: parser_state
  conn_reply :: Reply
  socketBuffer :: string

datatype conn_op = Async_read | Async_write string

datatype conn_action = Issue conn_op | Mgr_Stop | Shutdown_both

definition ERROR_OPERATION_ABORTED :: nat where
  "ERROR_OPERATION_ABORTED = 995"

definition buffer_size :: nat where
  "buffer_size = 8192"

text \<open>\<open>Connection::Connection\<close>: the members without a default value are indeterminate.\<close>

definition new_Connection :: "u32 \<Rightarrow> u32 \<Rightarrow> StatusType \<Rightarrow> Connection" where
  "new_Connection a b st =
    \<lparr>conn_request = new_request a b, conn_parser = RequestParser_init,
     conn_reply = \<lparr>rep_status = st, rep_headers = [], rep_content = []\<rparr>, socketBuffer = []\<rparr>"

definition Connection_Start :: "conn_action list" where
  "Connection_Start = [Issue Async_read]"

text \<open>\<open>_CopyBuffer\<close>: the total is a 32-bit \<open>size_t\<close>; a checked iterator stops a write past the end.\<close>

fun total_size :: "string list \<Rightarrow> u32 \<Rightarrow> u32" where
  "total_size [] n = n"
| "total_size (b # bs) n = total_size bs (n + of_nat (length b))"

fun copy_buffers :: "string list \<Rightarrow> nat \<Rightarrow> string \<Rightarrow> string result" where
  "copy_buffers [] index dst = Inr dst"
| "copy_buffers (b # bs) index dst =
    (if index + length b \<le> length dst
     then copy_buffers bs (index + length b) (put_block index b dst)
     else Inl Access_violation)"

definition CopyBuffer :: "(u32 \<Rightarrow> string \<Rightarrow> string) \<Rightarrow> string list \<Rightarrow> string \<Rightarrow> string result" where
  "CopyBuffer resize buf dst = copy_buffers buf 0 (resize (total_size buf 0) dst)"

text \<open>Starting an operation inside the \<open>try\<close> block: an exception stops the connection instead.\<close>

definition try_issue :: "bool \<Rightarrow> conn_op \<Rightarrow> conn_action list" where
  "try_issue throws op = (if throws then [Mgr_Stop] else [Issue op])"

definition send_reply :: "(u32 \<Rightarrow> string \<Rightarrow> string) \<Rightarrow> bool \<Rightarrow> Reply \<Rightarrow> Connection \<Rightarrow>
    (Connection \<times> conn_action list) result" where
  "send_reply resize throws rep c =
    bindR (CopyBuffer resize (ToBuffers rep) (socketBuffer c)) (\<lambda>buf.
      Inr (c\<lparr>conn_reply := rep, socketBuffer := buf\<rparr>, try_issue throws (Async_write buf)))"

text \<open>\<open>_HandleRead\<close>; \<open>data\<close> are the first \<open>bytes\<close> bytes of the buffer.\<close>

definition HandleRead :: "(string \<Rightarrow> string option) \<Rightarrow> string \<Rightarrow> (u32 \<Rightarrow> string \<Rightarrow> string) \<Rightarrow> bool \<Rightarrow>
    nat \<Rightarrow> string \<Rightarrow> Connection \<Rightarrow> (Connection \<times> conn_action list) result" where
  "HandleRead fs docRoot resize throws error data c =
    (if error = ERROR_OPERATION_ABORTED \<or> length data = 0 then Inr (c, [Mgr_Stop])
     else if error = 0 then
       bindR (Parse (conn_parser c) (conn_request c) data) (\<lambda>(r, st, req).
         let c = c\<lparr>conn_parser := st, conn_request := req\<rparr> in
         if r = TRUE_VALUE then send_reply resize throws (HandleRequest fs docRoot req (conn_reply c)) c
         else if r = FALSE_VALUE then send_reply resize throws (StockReply SC_bad_request) c
         else Inr (c, try_issue throws Async_read))
     else Inr (c, []))"

definition HandleWrite :: "nat \<Rightarrow> conn_action list" where
  "HandleWrite error = (if error = 0 then [Shutdown_both] else []) @ [Mgr_Stop]"

section \<open>The bytes that are sent\<close>

definition resize_law :: "(u32 \<Rightarrow> string \<Rightarrow> string) \<Rightarrow> bool" where
  "resize_law resize \<longleftrightarrow> (\<forall>n buf. length (resize n buf) = unat n)"

lemma total_size_eq: "total_size bs t = t + of_nat (length (concat bs))"
  by (induction bs arbitrary: t) (auto simp: algebra_simps)

lemma copy_buffers_eq:
  "index + length (concat bs) \<le> length dst \<Longrightarrow>
    copy_buffers bs index dst = Inr (put_block index (concat bs) dst)"
proof (induction bs arbitrary: index dst)
  case (Cons b bs)
  then show ?case
    using put_block_append [of index b "concat bs" dst] by (simp add: add.assoc)
qed (simp add: put_block_Nil)

lemma CopyBuffer_concat:
  assumes "resize_law resize" and "length (concat bs) < 2 ^ 32"
  shows "CopyBuffer resize bs dst = Inr (concat bs)"
proof -
  have len: "length (resize (total_size bs 0) dst) = length (concat bs)"
    using assms by (simp add: resize_law_def total_size_eq unat_of_nat_u32)
  then have "copy_buffers bs 0 (resize (total_size bs 0) dst) = Inr (put_block 0 (concat bs) (resize (total_size bs 0) dst))"
    by (intro copy_buffers_eq) simp
  then show ?thesis using len by (simp add: CopyBuffer_def put_block_def)
qed

section \<open>Input in pieces\<close>

text \<open>
  A consumer that can be fed a text in pieces: \<open>cont\<close> gives the state it waits in, when it still
  waits for input. Feeding the pieces one after the other is feeding their concatenation.
\<close>

fun feed_all :: "('s \<Rightarrow> 'x list \<Rightarrow> 'r) \<Rightarrow> ('r \<Rightarrow> 's option) \<Rightarrow> 's \<Rightarrow> 'x list list \<Rightarrow> 'r" where
  "feed_all feed cont s [] = feed s []"
| "feed_all feed cont s (x # xs) =
    (case cont (feed s x) of None \<Rightarrow> feed s x | Some s' \<Rightarrow> feed_all feed cont s' xs)"

locale incremental =
  fixes feed :: "'s \<Rightarrow> 'x list \<Rightarrow> 'r" and cont :: "'r \<Rightarrow> 's option"
  assumes feed_append:
    "feed s (xs @ ys) = (case cont (feed s xs) of None \<Rightarrow> feed s xs | Some s' \<Rightarrow> feed s' ys)"
begin

lemma feed_pieces: "feed_all feed cont s xs = feed s (concat xs)"
  by (induction xs arbitrary: s) (auto simp: feed_append split: option.splits)

end

definition parse_feed :: "parser_state \<times> Request \<Rightarrow> string \<Rightarrow> parse_step" where
  "parse_feed s cs = Parse (fst s) (snd s) cs"

definition parse_cont :: "parse_step \<Rightarrow> (parser_state \<times> Request) option" where
  "parse_cont r = (case r of Inr (INDETERMINATE, st, req) \<Rightarrow> Some (st, req) | _ \<Rightarrow> None)"

lemma parse_feed_pair: "parse_feed (st, req) cs = Parse st req cs"
  by (simp add: parse_feed_def)

lemma parse_cont_simps:
  "parse_cont (Inl e) = None"
  "parse_cont (Inr (r, st, req)) = (if r = INDETERMINATE then Some (st, req) else None)"
  by (auto simp: parse_cont_def split: ParseRet.splits)

interpretation parser: incremental parse_feed parse_cont
proof
  fix s :: "parser_state \<times> Request" and xs ys
  show "parse_feed s (xs @ ys) =
      (case parse_cont (parse_feed s xs) of None \<Rightarrow> parse_feed s xs | Some s' \<Rightarrow> parse_feed s' ys)"
    by (cases "Parse (fst s) (snd s) xs")
      (auto simp: parse_feed_def parse_cont_simps Parse_append)
qed

text \<open>The reads of one connection: the next completion is handled while the handler waits for more.\<close>

fun run_reads :: "(string \<Rightarrow> string option) \<Rightarrow> string \<Rightarrow> (u32 \<Rightarrow> string \<Rightarrow> string) \<Rightarrow>
    Connection \<Rightarrow> string list \<Rightarrow> (Connection \<times> conn_action list) result" where
  "run_reads fs docRoot resize c [] = Inr (c, Connection_Start)"
| "run_reads fs docRoot resize c (d # ds) =
    bindR (HandleRead fs docRoot resize False 0 d c) (\<lambda>(c', acts).
      if acts = [Issue Async_read] then run_reads fs docRoot resize c' ds else Inr (c', acts))"


lemma run_reads_feed:
  assumes "\<forall>d \<in> set ds. d \<noteq> []"
    and "feed_all parse_feed parse_cont (conn_parser c, conn_request c) ds = Inr (TRUE_VALUE, st, req)"
  shows "run_reads fs docRoot resize c ds =
    send_reply resize False (HandleRequest fs docRoot req (conn_reply c)) (c\<lparr>conn_parser := st, conn_request := req\<rparr>)"
  using assms
proof (induction ds arbitrary: c)
  case Nil
  then show ?case by (simp add: parse_feed_def)
next
  case (Cons d ds)
  obtain r st1 req1 where p: "Parse (conn_parser c) (conn_request c) d = Inr (r, st1, req1)"
    using Cons.prems(2) by (cases "Parse (conn_parser c) (conn_request c) d")
      (auto simp: parse_feed_pair parse_cont_simps)
  let ?c = "c\<lparr>conn_parser := st1, conn_request := req1\<rparr>"
  show ?case
  proof (cases "r = INDETERMINATE")
    case True
    then have "feed_all parse_feed parse_cont (conn_parser ?c, conn_request ?c) ds = Inr (TRUE_VALUE, st, req)"
      using Cons.prems p by (simp add: parse_feed_pair parse_cont_simps)
    from Cons.IH [OF _ this] True Cons.prems(1) p show ?thesis
      by (simp add: HandleRead_def try_issue_def ERROR_OPERATION_ABORTED_def)
  next
    case False
    with Cons.prems p have "r = TRUE_VALUE" "st1 = st" "req1 = req"
      by (auto simp: parse_feed_pair parse_cont_simps)
    with Cons.prems p show ?thesis
      by (cases "CopyBuffer resize (ToBuffers (HandleRequest fs docRoot req (conn_reply c))) (socketBuffer c)")
        (simp_all add: HandleRead_def ERROR_OPERATION_ABORTED_def send_reply_def try_issue_def)
  qed
qed

text \<open>
  C37. However the network cuts a request into pieces, the connection answers it once, with the
  reply the handler gives for the whole request: after the reads that contain it, the handler
  has started exactly one operation, the write of the bytes of that reply.
\<close>

theorem split_request_answered:
  assumes "request_text req t" and "concat ds = t @ rest" and "\<forall>d \<in> set ds. d \<noteq> []"
    and "resize_law resize"
    and "length (reply_text (HandleRequest fs docRoot req (conn_reply (new_Connection a b st)))) < 2 ^ 32"
  shows "\<exists>c. run_reads fs docRoot resize (new_Connection a b st) ds =
    Inr (c, [Issue (Async_write (reply_text
      (HandleRequest fs docRoot req (conn_reply (new_Connection a b st)))))])"
proof -
  let ?c = "new_Connection a b st"
  have "feed_all parse_feed parse_cont (conn_parser ?c, conn_request ?c) ds =
      Inr (TRUE_VALUE, S_expecting_newline_3, req)"
    using Parse_complete [OF assms(1), of a b rest]
    by (simp add: parser.feed_pieces assms(2) parse_feed_def new_Connection_def RequestParser_init_def)
  from run_reads_feed [OF assms(3) this] show ?thesis
    using CopyBuffer_concat [OF assms(4), of "ToBuffers (HandleRequest fs docRoot req (conn_reply ?c))"] assms(5)
    by (simp add: send_reply_def try_issue_def)
qed


theorem split_request_answered_witness:
  "\<exists>c. run_reads demo_fs ''C:/www'' (\<lambda>n buf. replicate (unat n) CHR ''x'') (new_Connection 5 6 SC_ok)
      [''GE'', ''T /a HT'', ''TP/1.0'' @ CRLF @ CRLF] =
    Inr (c, [Issue (Async_write (reply_text
      (HandleRequest demo_fs ''C:/www''
        ((new_request 0 0)\<lparr>req_method := ''GET'', req_uri := ''/a'', httpVersionMajor := 1, httpVersionMinor := 0\<rparr>)
        (conn_reply (new_Connection 5 6 SC_ok)))))])"
proof (rule split_request_answered [OF plain_request_text, where rest = "[]"])
  show "token ''GET''"
    by (simp add: token_def not_token_def isChar_def isCtl_def isTSpecial_def int_of_char_def)
  show "uri_text ''/a''"
    by (simp add: uri_text_def isCtl_def int_of_char_def)
  show "length (reply_text (HandleRequest demo_fs ''C:/www''
        ((new_request 0 0)\<lparr>req_method := ''GET'', req_uri := ''/a'', httpVersionMajor := 1, httpVersionMinor := 0\<rparr>)
        (conn_reply (new_Connection 5 6 SC_ok)))) < 2 ^ 32"
    by (simp add: HandleRequest_eq UrlDecode_def safe_path_def served_path_def c_str_def demo_fs_def
      reply_text_def content_headers_def header_text_def new_Connection_def new_request_def path_extension_def
      ExtensionToType_def mappings_def npos_def string_of_nat.simps flip: finds_dotdot_iff)
qed (simp_all add: resize_law_def)


section \<open>The server\<close>

text \<open>
  Where \<open>ConnectionMgr::StopAll\<close> is: not running; its iterator stands on a connection, whose \<open>Stop\<close> has been
  called or not; or its iterator has reached the end. The loop holds no lock, so handlers on other threads
  insert and erase connections between its steps; the set is ordered by the addresses of the
  connections, here their numbers. A connection that is erased while the iterator stands on it makes
  the behaviour undefined.
\<close>

datatype StopAll_pc = No_stop | At nat bool | At_end

text \<open>
  \<open>srv_conns\<close>: the connection objects; \<open>connections\<close>: the set of the connection manager;
  \<open>srv_closing\<close>: the connections that \<open>ConnectionMgr::Stop\<close> has erased and is about to close;
  \<open>sock_closed\<close>: the connections whose socket has been closed; \<open>srv_pending\<close>: the operations
  whose completion handler has not run yet; \<open>accepting\<close>: whether the handler of an accept is still to run.
  \<open>srv_orphans\<close> is an auxiliary variable: the connections that \<open>clear\<close> has taken out of the set although
  nobody had closed or was closing them.
\<close>

record server =
  srv_conns :: "nat \<rightharpoonup> Connection"
  connections :: "nat set"
  srv_closing :: "nat set"
  sock_closed :: "nat set"
  srv_pending :: "(nat \<times> conn_op) list"
  accepting :: bool
  acceptor_open :: bool
  srv_stop :: StopAll_pc
  srv_orphans :: "nat set"
  srv_undefined :: bool

definition init_server :: server where
  "init_server = \<lparr>srv_conns = Map.empty, connections = {}, srv_closing = {}, sock_closed = {}, srv_pending = [], accepting = True,
     acceptor_open = True, srv_stop = No_stop, srv_orphans = {}, srv_undefined = False\<rparr>"

text \<open>
  \<open>ConnectionMgr::Stop\<close>: the connection is erased under the lock, and then closed without it.
  \<open>Start\<close>, with \<open>throws\<close>: the first read cannot be started.
\<close>

definition mgr_Stop :: "nat \<Rightarrow> server \<Rightarrow> server" where
  "mgr_Stop c s = s\<lparr>connections := connections s - {c}, srv_closing := insert c (srv_closing s),
     srv_undefined := (srv_undefined s \<or> srv_stop s \<in> {At c False, At c True})\<rparr>"

definition Connection_Stop :: "nat \<Rightarrow> server \<Rightarrow> server" where
  "Connection_Stop c s = s\<lparr>srv_closing := srv_closing s - {c}, sock_closed := insert c (sock_closed s)\<rparr>"

definition do_action :: "nat \<Rightarrow> conn_action \<Rightarrow> server \<Rightarrow> server" where
  "do_action c act s = (case act of
      Issue op \<Rightarrow> s\<lparr>srv_pending := (c, op) # srv_pending s\<rparr>
    | Mgr_Stop \<Rightarrow> mgr_Stop c s
    | Shutdown_both \<Rightarrow> s)"

definition do_actions :: "nat \<Rightarrow> conn_action list \<Rightarrow> server \<Rightarrow> server" where
  "do_actions c acts s = fold (do_action c) acts s"

definition mgr_Start :: "nat \<Rightarrow> bool \<Rightarrow> server \<Rightarrow> server \<times> bool" where
  "mgr_Start c throws s =
    (let s = s\<lparr>connections := insert c (connections s)\<rparr>
     in if throws then (s, False) else (do_actions c Connection_Start s, True))"

text \<open>
  \<open>Server::_HandleAccept\<close>; \<open>t1\<close>: starting the connection throws, \<open>t2\<close>: the next accept throws, as it does
  when the acceptor is closed.
\<close>

definition HandleAccept :: "nat \<Rightarrow> Connection \<Rightarrow> nat \<Rightarrow> bool \<Rightarrow> bool \<Rightarrow> server \<Rightarrow> server" where
  "HandleAccept c conn error t1 t2 s =
    (let s = s\<lparr>accepting := False\<rparr> in
     if error \<noteq> 0 then s
     else
       let (s, started) = mgr_Start c t1 (s\<lparr>srv_conns := (srv_conns s)(c \<mapsto> conn)\<rparr>)
       in if started then s\<lparr>accepting := \<not> t2 \<and> acceptor_open s\<rparr> else s)"

text \<open>
  \<open>Server::_HandleStop\<close> and \<open>StopAll\<close>: the acceptor is closed, which does not take back a completion
  already queued; the loop calls \<open>Stop\<close> of the connection the iterator stands on and advances to
  the next one; then the set is cleared. \<open>iter_at P s pc\<close>: \<open>pc\<close> is the first connection with \<open>P\<close>, or the end.
\<close>

definition iter_at :: "(nat \<Rightarrow> bool) \<Rightarrow> server \<Rightarrow> StopAll_pc \<Rightarrow> bool" where
  "iter_at P s pc \<longleftrightarrow> (case pc of
      No_stop \<Rightarrow> False
    | At c b \<Rightarrow> \<not> b \<and> c \<in> connections s \<and> P c \<and> (\<forall>d \<in> connections s. P d \<longrightarrow> c \<le> d)
    | At_end \<Rightarrow> \<forall>d \<in> connections s. \<not> P d)"

definition HandleStop :: "StopAll_pc \<Rightarrow> server \<Rightarrow> server" where
  "HandleStop pc s = s\<lparr>acceptor_open := False, srv_stop := pc\<rparr>"

definition StopAll_call :: "nat \<Rightarrow> server \<Rightarrow> server" where
  "StopAll_call c s = (Connection_Stop c s)\<lparr>srv_stop := At c True\<rparr>"

definition StopAll_next :: "StopAll_pc \<Rightarrow> server \<Rightarrow> server" where
  "StopAll_next pc s = s\<lparr>srv_stop := pc\<rparr>"

definition StopAll_clear :: "server \<Rightarrow> server" where
  "StopAll_clear s = s\<lparr>connections := {}, srv_stop := No_stop,
     srv_orphans := srv_orphans s \<union> (connections s - (srv_closing s \<union> sock_closed s))\<rparr>"

datatype srv_event =
    Ev_accept nat nat bool bool
  | Ev_read nat nat string bool
  | Ev_write nat nat
  | Ev_close nat
  | Ev_stop
  | Ev_stop_call
  | Ev_stop_next
  | Ev_stop_clear

inductive srv_step :: "(string \<Rightarrow> string option) \<Rightarrow> string \<Rightarrow> (u32 \<Rightarrow> string \<Rightarrow> string) \<Rightarrow>
    server \<Rightarrow> srv_event \<Rightarrow> server \<Rightarrow> bool"
  for fs docRoot resize where
  accept_done: "accepting s \<Longrightarrow> srv_conns s c = None \<Longrightarrow>
    srv_step fs docRoot resize s (Ev_accept c error t1 t2)
      (HandleAccept c (new_Connection a b st) error t1 t2 s)"
| read_done: "(c, Async_read) \<in> set (srv_pending s) \<Longrightarrow> srv_conns s c = Some conn \<Longrightarrow>
    length data \<le> buffer_size \<Longrightarrow>
    HandleRead fs docRoot resize throws error data conn = Inr (conn', acts) \<Longrightarrow>
    srv_step fs docRoot resize s (Ev_read c error data throws)
      (do_actions c acts (s\<lparr>srv_conns := (srv_conns s)(c \<mapsto> conn'),
         srv_pending := remove1 (c, Async_read) (srv_pending s)\<rparr>))"
| write_done: "(c, Async_write buf) \<in> set (srv_pending s) \<Longrightarrow>
    srv_step fs docRoot resize s (Ev_write c error)
      (do_actions c (HandleWrite error) (s\<lparr>srv_pending := remove1 (c, Async_write buf) (srv_pending s)\<rparr>))"
| close_done: "c \<in> srv_closing s \<Longrightarrow> srv_step fs docRoot resize s (Ev_close c) (Connection_Stop c s)"
| stop_begin: "srv_stop s = No_stop \<Longrightarrow> iter_at (\<lambda>d. True) s pc \<Longrightarrow>
    srv_step fs docRoot resize s Ev_stop (HandleStop pc s)"
| stop_call: "srv_stop s = At c False \<Longrightarrow> srv_step fs docRoot resize s Ev_stop_call (StopAll_call c s)"
| stop_next: "srv_stop s = At c True \<Longrightarrow> iter_at (\<lambda>d. c < d) s pc \<Longrightarrow>
    srv_step fs docRoot resize s Ev_stop_next (StopAll_next pc s)"
| stop_clear: "srv_stop s = At_end \<Longrightarrow> srv_step fs docRoot resize s Ev_stop_clear (StopAll_clear s)"

inductive srv_run :: "(string \<Rightarrow> string option) \<Rightarrow> string \<Rightarrow> (u32 \<Rightarrow> string \<Rightarrow> string) \<Rightarrow>
    srv_event list \<Rightarrow> server \<Rightarrow> bool"
  for fs docRoot resize where
  run_init: "srv_run fs docRoot resize [] init_server"
| run_step: "srv_run fs docRoot resize es s \<Longrightarrow> srv_step fs docRoot resize s e s' \<Longrightarrow>
    srv_run fs docRoot resize (es @ [e]) s'"

inductive_cases srv_stepE: "srv_step fs docRoot resize s e s'"

section \<open>Invariants of the server\<close>

definition waits_ok :: "server \<Rightarrow> nat \<times> conn_op \<Rightarrow> bool" where
  "waits_ok s w = (case srv_conns s (fst w) of
      None \<Rightarrow> False
    | Some conn \<Rightarrow> snd w = Async_read \<longrightarrow>
        parser_wf (conn_parser conn) (conn_request conn) \<and> rep_content (conn_reply conn) = [])"

definition srv_inv :: "server \<Rightarrow> bool" where
  "srv_inv s \<longleftrightarrow>
    distinct (map fst (srv_pending s)) \<and> (\<forall>w \<in> set (srv_pending s). waits_ok s w) \<and>
    connections s \<union> srv_closing s \<union> sock_closed s \<union> srv_orphans s = dom (srv_conns s) \<and>
    (srv_stop s = No_stop \<longrightarrow> connections s \<inter> (srv_closing s \<union> sock_closed s) = {})"

lemma HandleRead_cases:
  assumes "HandleRead fs docRoot resize throws error data conn = Inr (conn', acts)"
    and "parser_wf (conn_parser conn) (conn_request conn)" and "rep_content (conn_reply conn) = []"
  shows "acts = [Mgr_Stop] \<or> (acts = [] \<and> error \<notin> {0, ERROR_OPERATION_ABORTED} \<and> data \<noteq> [])
    \<or> (\<exists>buf. acts = [Issue (Async_write buf)])
    \<or> (acts = [Issue Async_read] \<and> parser_wf (conn_parser conn') (conn_request conn') \<and>
       rep_content (conn_reply conn') = [])"
proof -
  obtain r st req where p: "Parse (conn_parser conn) (conn_request conn) data = Inr (r, st, req)" "parser_wf st req"
    using Parse_wf [OF assms(2)] by blast
  then show ?thesis
    using assms by (cases r)
      (auto simp: HandleRead_def send_reply_def try_issue_def bindR_Inr_iff Let_def split: if_splits)
qed


lemma inv_init: "srv_inv init_server"
  by (simp add: srv_inv_def init_server_def)

lemma distinct_fst_remove1:
  "distinct (map fst p) \<Longrightarrow> (c, op) \<in> set p \<Longrightarrow>
    distinct (map fst (remove1 (c, op) p)) \<and> c \<notin> fst ` set (remove1 (c, op) p)"
proof (induction p)
  case (Cons a p)
  have "set (remove1 (c, op) p) \<subseteq> set p" by (rule set_remove1_subset)
  with Cons show ?case by (auto simp: image_iff rev_image_eqI)
qed simp

lemma inv_completed:
  assumes "srv_inv s" and "(c, op) \<in> set (srv_pending s)"
  shows "srv_inv (s\<lparr>srv_conns := (srv_conns s)(c \<mapsto> conn), srv_pending := remove1 (c, op) (srv_pending s)\<rparr>) \<and>
    c \<notin> fst ` set (remove1 (c, op) (srv_pending s)) \<and> c \<in> dom (srv_conns s)"
proof -
  let ?p = "remove1 (c, op) (srv_pending s)"
  have p: "distinct (map fst ?p)" "c \<notin> fst ` set ?p"
    using assms distinct_fst_remove1 [of "srv_pending s" c op] by (auto simp: srv_inv_def)
  have c: "c \<in> dom (srv_conns s)"
    using assms by (auto simp: srv_inv_def waits_ok_def split: option.splits)
  have "waits_ok (s\<lparr>srv_conns := (srv_conns s)(c \<mapsto> conn), srv_pending := ?p\<rparr>) w" if "w \<in> set ?p" for w
  proof -
    have "w \<in> set (srv_pending s)" using that set_remove1_subset by fastforce
    moreover have "fst w \<noteq> c" using that p(2) by auto
    ultimately show ?thesis using assms(1) by (auto simp: srv_inv_def waits_ok_def)
  qed
  with p c assms(1) show ?thesis by (auto simp: srv_inv_def)
qed

lemma inv_stop: "srv_inv s \<Longrightarrow> c \<in> dom (srv_conns s) \<Longrightarrow> srv_inv (mgr_Stop c s)"
  by (auto simp: srv_inv_def mgr_Stop_def waits_ok_def)

lemma inv_close: "srv_inv s \<Longrightarrow> c \<in> srv_closing s \<Longrightarrow> srv_inv (Connection_Stop c s)"
  by (auto simp: srv_inv_def Connection_Stop_def waits_ok_def)

lemma inv_iter: "srv_inv s \<Longrightarrow> iter_at P s pc \<Longrightarrow> srv_inv (HandleStop pc s) \<and> srv_inv (StopAll_next pc s)"
  by (auto simp: srv_inv_def HandleStop_def StopAll_next_def iter_at_def waits_ok_def)

lemma inv_clear: "srv_inv s \<Longrightarrow> srv_inv (StopAll_clear s)"
  by (auto simp: srv_inv_def StopAll_clear_def waits_ok_def)

lemma inv_issue:
  "srv_inv s \<Longrightarrow> c \<notin> fst ` set (srv_pending s) \<Longrightarrow> waits_ok s (c, op) \<Longrightarrow>
    srv_inv (do_action c (Issue op) s)"
  by (auto simp: srv_inv_def waits_ok_def do_action_def)

lemma do_actions_simps [simp]:
  "do_actions c [] s = s"
  "do_actions c (Mgr_Stop # acts) s = do_actions c acts (mgr_Stop c s)"
  "do_actions c (Issue op # acts) s = do_actions c acts (do_action c (Issue op) s)"
  "do_actions c (Shutdown_both # acts) s = do_actions c acts s"
  by (simp_all add: do_actions_def do_action_def)

lemma inv_accepting: "srv_inv (s\<lparr>accepting := b\<rparr>) = srv_inv s"
  by (simp add: srv_inv_def waits_ok_def)

lemma inv_accept:
  assumes "srv_inv s" and "srv_conns s c = None"
  shows "srv_inv (HandleAccept c (new_Connection a b st) error t1 t2 s)"
proof -
  define r where "r = s\<lparr>accepting := False\<rparr>"
  define s1 where "s1 = r\<lparr>srv_conns := (srv_conns r)(c \<mapsto> new_Connection a b st), connections := insert c (connections r)\<rparr>"
  have r: "srv_inv r" "srv_conns r c = None" using assms by (simp_all add: r_def inv_accepting)
  then have p: "c \<notin> fst ` set (srv_pending r)"
    by (fastforce simp: srv_inv_def waits_ok_def split: option.splits)
  have inv1: "srv_inv s1"
    using r p by (auto simp: s1_def srv_inv_def waits_ok_def image_iff split: option.splits)
  have "waits_ok s1 (c, Async_read)"
    by (simp add: s1_def waits_ok_def new_Connection_def parser_wf_def uses_back_def RequestParser_init_def)
  then have inv2: "srv_inv (do_action c (Issue Async_read) s1)"
    using inv1 p by (intro inv_issue) (simp_all add: s1_def)
  have "HandleAccept c (new_Connection a b st) error t1 t2 s =
      (if error \<noteq> 0 then r else if t1 then s1
       else (do_action c (Issue Async_read) s1)\<lparr>accepting := \<not> t2 \<and> acceptor_open (do_action c (Issue Async_read) s1)\<rparr>)"
    by (simp add: HandleAccept_def mgr_Start_def Connection_Start_def Let_def s1_def r_def)
  with r inv1 inv2 show ?thesis by (simp add: inv_accepting)
qed

lemma inv_read:
  assumes "srv_inv s" and "(c, Async_read) \<in> set (srv_pending s)" and "srv_conns s c = Some conn"
    and "HandleRead fs docRoot resize throws error data conn = Inr (conn', acts)"
  shows "srv_inv (do_actions c acts (s\<lparr>srv_conns := (srv_conns s)(c \<mapsto> conn'),
         srv_pending := remove1 (c, Async_read) (srv_pending s)\<rparr>))"
proof -
  have "waits_ok s (c, Async_read)" using assms(1,2) by (auto simp: srv_inv_def)
  with assms(3) have "parser_wf (conn_parser conn) (conn_request conn)" "rep_content (conn_reply conn) = []"
    by (auto simp: waits_ok_def)
  from HandleRead_cases [OF assms(4) this] inv_completed [OF assms(1,2), of conn'] assms(3) show ?thesis
    by (elim disjE exE conjE) (simp_all add: waits_ok_def inv_stop inv_issue)
qed

lemma inv_write:
  assumes "srv_inv s" and "(c, op) \<in> set (srv_pending s)"
  shows "srv_inv (do_actions c (HandleWrite error) (s\<lparr>srv_pending := remove1 (c, op) (srv_pending s)\<rparr>))"
proof -
  have "c \<in> dom (srv_conns s)" using inv_completed [OF assms] by simp
  then obtain conn where "srv_conns s c = Some conn" by blast
  then have "(srv_conns s)(c \<mapsto> conn) = srv_conns s" by auto
  with inv_completed [OF assms, of conn] show ?thesis
    by (auto simp: HandleWrite_def intro!: inv_stop)
qed

lemma stop_inv_call: "srv_inv s \<Longrightarrow> srv_stop s = At c False \<Longrightarrow> c \<in> dom (srv_conns s) \<Longrightarrow> srv_inv (StopAll_call c s)"
  by (auto simp: srv_inv_def StopAll_call_def Connection_Stop_def waits_ok_def)

text \<open>The iterator stands on connections that exist.\<close>

definition iter_ok :: "server \<Rightarrow> bool" where
  "iter_ok s \<longleftrightarrow> (\<forall>c b. srv_stop s = At c b \<longrightarrow> c \<in> dom (srv_conns s))"

lemma do_actions_keeps:
  "srv_stop (do_actions c acts s) = srv_stop s \<and> srv_conns (do_actions c acts s) = srv_conns s \<and>
   srv_orphans (do_actions c acts s) = srv_orphans s \<and> sock_closed (do_actions c acts s) = sock_closed s \<and>
   connections (do_actions c acts s) \<subseteq> connections s"
proof (induction acts arbitrary: s)
  case (Cons a acts)
  show ?case using Cons.IH [of "do_action c a s"]
    by (cases a) (auto simp: do_actions_def do_action_def mgr_Stop_def)
qed (simp add: do_actions_def)

lemma inv_step: "srv_step fs docRoot resize s e s' \<Longrightarrow> srv_inv s \<and> iter_ok s \<Longrightarrow> srv_inv s' \<and> iter_ok s'"
proof (induction rule: srv_step.induct)
  case (accept_done s c error t1 t2 a b st)
  then show ?case using inv_accept [of s c a b st error t1 t2]
    by (auto simp: iter_ok_def HandleAccept_def mgr_Start_def Connection_Start_def do_action_def Let_def)
next
  case (read_done c s conn data throws error conn' acts)
  then show ?case using inv_read [of s c conn fs docRoot resize throws error data conn' acts]
    by (auto simp: iter_ok_def do_actions_keeps)
next
  case (write_done c buf s error)
  then show ?case using inv_write [of s c "Async_write buf" error] by (auto simp: iter_ok_def do_actions_keeps)
next
  case (close_done c s)
  then show ?case using inv_close [of s c] by (auto simp: iter_ok_def Connection_Stop_def)
next
  case (stop_begin s pc)
  then show ?case using inv_iter [of s "\<lambda>d. True" pc] by (auto simp: iter_ok_def HandleStop_def iter_at_def srv_inv_def split: StopAll_pc.splits)
next
  case (stop_call s c)
  then show ?case using stop_inv_call [of s c] by (auto simp: iter_ok_def StopAll_call_def Connection_Stop_def)
next
  case (stop_next s c pc)
  then show ?case using inv_iter [of s "\<lambda>d. c < d" pc] by (auto simp: iter_ok_def StopAll_next_def iter_at_def srv_inv_def split: StopAll_pc.splits)
next
  case (stop_clear s)
  then show ?case using inv_clear [of s] by (auto simp: iter_ok_def StopAll_clear_def)
qed

lemma inv_run_iter: "srv_run fs docRoot resize es s \<Longrightarrow> srv_inv s \<and> iter_ok s"
  by (induction rule: srv_run.induct) (auto simp: init_server_def iter_ok_def intro: inv_init [unfolded init_server_def] dest: inv_step)

text \<open>
  An accept that succeeds while \<open>StopAll\<close> runs. Without one, every managed connection that is not yet
  closed lies before the iterator.
\<close>

fun stop_open :: "srv_event list \<Rightarrow> bool \<Rightarrow> bool" where
  "stop_open [] b = b"
| "stop_open (e # es) b = stop_open es (if e = Ev_stop then True else if e = Ev_stop_clear then False else b)"

fun raced :: "srv_event list \<Rightarrow> bool \<Rightarrow> bool" where
  "raced [] b = False"
| "raced (e # es) b \<longleftrightarrow> (b \<and> (\<exists>c t1 t2. e = Ev_accept c 0 t1 t2)) \<or>
     raced es (if e = Ev_stop then True else if e = Ev_stop_clear then False else b)"

lemma stop_open_snoc: "stop_open (es @ [e]) b = (if e = Ev_stop then True else if e = Ev_stop_clear then False else stop_open es b)"
  by (induction es arbitrary: b) auto

lemma raced_snoc: "raced (es @ [e]) b \<longleftrightarrow> raced es b \<or> stop_open es b \<and> (\<exists>c t1 t2. e = Ev_accept c 0 t1 t2)"
  by (induction es arbitrary: b) auto

definition swept :: "server \<Rightarrow> bool" where
  "swept s \<longleftrightarrow> (case srv_stop s of
      No_stop \<Rightarrow> True
    | At c b \<Rightarrow> \<forall>d \<in> connections s - sock_closed s. c < d \<or> d = c \<and> \<not> b
    | At_end \<Rightarrow> connections s \<subseteq> sock_closed s)"

lemma swept_mono: "swept s \<Longrightarrow> srv_stop s' = srv_stop s \<Longrightarrow> connections s' - sock_closed s' \<subseteq> connections s - sock_closed s \<Longrightarrow> swept s'"
  by (auto simp: swept_def split: StopAll_pc.splits)

lemma swept_step:
  assumes "srv_step fs docRoot resize s e s'" "swept s" "srv_orphans s = {}"
    and "\<not> (srv_stop s \<noteq> No_stop \<and> (\<exists>c t1 t2. e = Ev_accept c 0 t1 t2))"
  shows "swept s' \<and> srv_orphans s' = {}"
  using assms
proof (induction rule: srv_step.induct)
  case (accept_done s c error t1 t2 a b st)
  then show ?case
    by (auto simp: swept_def HandleAccept_def mgr_Start_def Connection_Start_def do_action_def Let_def split: StopAll_pc.splits)
next
  case (read_done c s conn data throws error conn' acts)
  let ?s = "s\<lparr>srv_conns := (srv_conns s)(c \<mapsto> conn'), srv_pending := remove1 (c, Async_read) (srv_pending s)\<rparr>"
  show ?case using read_done.prems do_actions_keeps [of c acts ?s] by (auto intro: swept_mono [of s])
next
  case (write_done c buf s error)
  let ?s = "s\<lparr>srv_pending := remove1 (c, Async_write buf) (srv_pending s)\<rparr>"
  show ?case using write_done.prems do_actions_keeps [of c "HandleWrite error" ?s] by (auto intro: swept_mono [of s])
next
  case (close_done c s)
  then show ?case by (auto simp: Connection_Stop_def intro: swept_mono [of s])
next
  case (stop_begin s pc)
  then show ?case by (cases pc) (auto simp: swept_def HandleStop_def iter_at_def le_neq_implies_less)
next
  case (stop_call s c)
  then show ?case by (auto simp: swept_def StopAll_call_def Connection_Stop_def)
next
  case (stop_next s c pc)
  then show ?case by (cases pc) (auto simp: swept_def StopAll_next_def iter_at_def le_neq_implies_less)
next
  case (stop_clear s)
  then show ?case by (auto simp: swept_def StopAll_clear_def)
qed

lemma stop_open_run: "srv_run fs docRoot resize es s \<Longrightarrow> stop_open es False \<longleftrightarrow> srv_stop s \<noteq> No_stop"
proof (induction rule: srv_run.induct)
  case (run_step es s e s')
  from run_step(2) show ?case using run_step(3)
    by cases (auto simp: stop_open_snoc HandleAccept_def mgr_Start_def Connection_Start_def do_action_def Let_def do_actions_keeps
        Connection_Stop_def HandleStop_def StopAll_call_def StopAll_next_def StopAll_clear_def iter_at_def)
qed (simp add: init_server_def)

lemma swept_run: "srv_run fs docRoot resize es s \<Longrightarrow> \<not> raced es False \<Longrightarrow> swept s \<and> srv_orphans s = {}"
proof (induction rule: srv_run.induct)
  case (run_step es s e s')
  then show ?case using swept_step [OF run_step(2)] stop_open_run [OF run_step(1)] by (simp add: raced_snoc)
qed (simp add: init_server_def swept_def)

lemma inv_run: "srv_run fs docRoot resize es s \<Longrightarrow> srv_inv s"
  using inv_run_iter by blast


text \<open>
  Events after which a connection of the manager still waits for something: the first read
  of an accepted connection starts, and a read that fails with an error other than
  \<open>ERROR_OPERATION_ABORTED\<close> has delivered no bytes.
\<close>

definition regular :: "srv_event \<Rightarrow> bool" where
  "regular e = (case e of
      Ev_accept c error t1 t2 \<Rightarrow> \<not> t1
    | Ev_read c error data throws \<Rightarrow> error = 0 \<or> error = ERROR_OPERATION_ABORTED \<or> data = []
    | _ \<Rightarrow> True)"

definition no_idle :: "server \<Rightarrow> bool" where
  "no_idle s \<longleftrightarrow> connections s \<subseteq> fst ` set (srv_pending s)"

lemma no_idle_remove:
  assumes "no_idle s"
  shows "connections s - {c} \<subseteq> fst ` set (remove1 (c, op) (srv_pending s))"
proof
  fix x assume "x \<in> connections s - {c}"
  then obtain w where "w \<in> set (srv_pending s)" "fst w = x" "x \<noteq> c"
    using assms by (auto simp: no_idle_def)
  moreover from this have "w \<noteq> (c, op)" by auto
  ultimately have "w \<in> set (remove1 (c, op) (srv_pending s))" by simp
  with \<open>fst w = x\<close> show "x \<in> fst ` set (remove1 (c, op) (srv_pending s))" by blast
qed

lemma no_idle_step:
  assumes "srv_step fs docRoot resize s e s'" and "srv_inv s" and "no_idle s" and "regular e"
  shows "no_idle s'"
  using assms(1)
proof cases
  case (accept_done c a b st error t1 t2)
  then show ?thesis using assms(3,4)
    by (auto simp: regular_def no_idle_def HandleAccept_def mgr_Start_def Connection_Start_def do_action_def Let_def)
next
  case (read_done c conn data throws error conn' acts)
  have "waits_ok s (c, Async_read)" using assms(2) read_done by (auto simp: srv_inv_def)
  with read_done have "parser_wf (conn_parser conn) (conn_request conn)" "rep_content (conn_reply conn) = []"
    by (auto simp: waits_ok_def)
  from HandleRead_cases [OF read_done(6) this] assms(4)
  have "acts = [Mgr_Stop] \<or> (\<exists>op. acts = [Issue op])"
    using read_done(1) by (auto simp: regular_def)
  then show ?thesis
    using read_done(2) no_idle_remove [OF assms(3), of c Async_read]
    by (auto simp: no_idle_def mgr_Stop_def do_action_def)
next
  case (write_done c buf error)
  then show ?thesis using no_idle_remove [OF assms(3), of c "Async_write buf"]
    by (auto simp: no_idle_def HandleWrite_def mgr_Stop_def)
qed (use assms(3) in \<open>auto simp: no_idle_def Connection_Stop_def HandleStop_def StopAll_call_def StopAll_next_def StopAll_clear_def\<close>)

lemma no_idle_run: "srv_run fs docRoot resize es s \<Longrightarrow> list_all regular es \<Longrightarrow> no_idle s"
proof (induction rule: srv_run.induct)
  case run_init
  then show ?case by (simp add: no_idle_def init_server_def)
next
  case (run_step es s e s')
  then show ?case using no_idle_step [OF run_step.hyps(2) inv_run] by simp
qed


section \<open>Every completion is handled\<close>

text \<open>Files that fit a string of the 32-bit target with room for the headers.\<close>

definition files_fit :: "(string \<Rightarrow> string option) \<Rightarrow> bool" where
  "files_fit fs \<longleftrightarrow> (\<forall>p bs. fs p = Some bs \<longrightarrow> length bs < 2 ^ 30)"

lemma length_content_headers:
  "length (concat (map header_text (content_headers content mime))) \<le> length content + length mime + 40"
  using length_string_of_nat [of "length content"] by (simp add: content_headers_def header_text_def)

lemma length_status: "length (status_ToBuffer st) \<le> 40"
  by (cases st) simp_all

lemma length_mime: "length (ExtensionToType e) \<le> 10"
  by (auto simp: ExtensionToType_def mappings_def)

lemma length_stock: "length (stock_ToString st) \<le> 200"
  by (cases st) simp_all

lemma length_stock_reply: "length (reply_text (StockReply st)) < 2 ^ 32"
proof -
  have "length (reply_text (StockReply st)) \<le> 600"
    using length_status [of st] length_stock [of st] length_content_headers [of "stock_ToString st" "''text/html''"]
    by (simp add: reply_text_def StockReply_def)
  then show ?thesis by simp
qed

lemma length_reply:
  assumes "files_fit fs" and "rep_content rep = []"
  shows "length (reply_text (HandleRequest fs docRoot req rep)) < 2 ^ 32"
proof -
  have "length (reply_text (rep\<lparr>rep_status := SC_ok, rep_content := bs,
      rep_headers := content_headers bs (ExtensionToType e)\<rparr>)) < 2 ^ 32" if "fs p = Some bs" for p bs e
  proof -
    have "length bs < 2 ^ 30" using assms(1) that by (simp add: files_fit_def)
    moreover have "length (concat (map header_text (content_headers bs (ExtensionToType e)))) \<le> length bs + 50"
      using length_content_headers [of bs "ExtensionToType e"] length_mime [of e] by linarith
    ultimately show ?thesis using length_status [of SC_ok] by (simp add: reply_text_def)
  qed
  then show ?thesis
    using assms(2) length_stock_reply by (auto simp: HandleRequest_eq split: prod.splits option.splits)
qed

lemma send_reply_total:
  assumes "resize_law resize" and "length (reply_text rep) < 2 ^ 32"
  shows "\<exists>c' acts. send_reply resize throws rep c = Inr (c', acts)"
  using CopyBuffer_concat [OF assms(1), of "ToBuffers rep"] assms(2) by (simp add: send_reply_def)

lemma HandleRead_total:
  assumes "parser_wf (conn_parser c) (conn_request c)" and "rep_content (conn_reply c) = []"
    and "resize_law resize" and "files_fit fs"
  shows "\<exists>c' acts. HandleRead fs docRoot resize throws error data c = Inr (c', acts)"
proof -
  obtain r st req where "Parse (conn_parser c) (conn_request c) data = Inr (r, st, req)"
    using Parse_wf [OF assms(1)] by blast
  then show ?thesis
    using send_reply_total [OF assms(3)] length_reply [OF assms(4,2)] length_stock_reply
    by (auto simp: HandleRead_def Let_def)
qed


text \<open>
  As long as all events are regular, the manager holds no idle connection: every connection
  in its set waits for a read or a write to complete, so it will be stopped or make progress.
\<close>

theorem server_no_idle_connection:
  assumes "srv_run fs docRoot resize es s" and "list_all regular es" and "c \<in> connections s"
  shows "\<exists>op. (c, op) \<in> set (srv_pending s)"
  using no_idle_run [OF assms(1,2)] assms(3) by (fastforce simp: no_idle_def)

text \<open>
  A read that delivers bytes together with an error other than \<open>ERROR_OPERATION_ABORTED\<close> is
  dropped: the handler neither starts an operation nor stops the connection, which stays in the
  manager's set with nothing outstanding.
\<close>

theorem read_error_leaves_idle_connection:
  assumes "srv_run fs docRoot resize es s" and "(c, Async_read) \<in> set (srv_pending s)" and "c \<in> connections s"
    and "error \<notin> {0, ERROR_OPERATION_ABORTED}" and "data \<noteq> []" and "length data \<le> buffer_size"
  shows "\<exists>s'. srv_step fs docRoot resize s (Ev_read c error data throws) s' \<and>
    c \<in> connections s' \<and> c \<notin> fst ` set (srv_pending s')"
proof -
  note inv = inv_run [OF assms(1)]
  obtain conn where conn: "srv_conns s c = Some conn"
    using inv assms(2) by (fastforce simp: srv_inv_def waits_ok_def split: option.splits)
  have h: "HandleRead fs docRoot resize throws error data conn = Inr (conn, [])"
    using assms(4,5) by (simp add: HandleRead_def)
  from srv_step.read_done [OF assms(2) conn assms(6) h] inv_completed [OF inv assms(2)] assms(3)
  show ?thesis by force
qed


text \<open>
  The server never gets stuck on a completion: in every reachable state, when a read of a
  connection completes, with any error and any data that fit its buffer, the handler runs to its
  end and leads to a next state.
\<close>

theorem server_handles_every_read:
  assumes "srv_run fs docRoot resize es s" and "(c, Async_read) \<in> set (srv_pending s)"
    and "resize_law resize" and "files_fit fs" and "length data \<le> buffer_size"
  shows "\<exists>s'. srv_step fs docRoot resize s (Ev_read c error data throws) s'"
proof -
  have "waits_ok s (c, Async_read)" using inv_run [OF assms(1)] assms(2) by (auto simp: srv_inv_def)
  then obtain conn where conn: "srv_conns s c = Some conn" and
    ok: "parser_wf (conn_parser conn) (conn_request conn)" "rep_content (conn_reply conn) = []"
    by (auto simp: waits_ok_def split: option.splits)
  from HandleRead_total [OF ok assms(3,4)] srv_step.read_done [OF assms(2) conn assms(5)]
  show ?thesis by metis
qed

section \<open>A run of the server\<close>

definition demo_server :: server where
  "demo_server = HandleAccept 0 (new_Connection 0 0 SC_ok) 0 False False init_server"

lemma demo_run: "srv_run demo_fs ''C:/www'' (\<lambda>n buf. replicate (unat n) CHR ''x'') [Ev_accept 0 0 False False] demo_server"
  using srv_run.run_step [OF srv_run.run_init srv_step.accept_done]
  unfolding demo_server_def by (fastforce simp: init_server_def)

lemma demo_server_eq:
  "demo_server = \<lparr>srv_conns = [0 \<mapsto> new_Connection 0 0 SC_ok], connections = {0}, srv_closing = {}, sock_closed = {},
     srv_pending = [(0, Async_read)], accepting = True, acceptor_open = True, srv_stop = No_stop, srv_orphans = {}, srv_undefined = False\<rparr>"
  by (simp add: demo_server_def HandleAccept_def init_server_def mgr_Start_def Connection_Start_def do_action_def)

text \<open>The connection is stopped by \<open>StopAll\<close>; its read is still to complete.\<close>

abbreviation demo_step :: "server \<Rightarrow> srv_event \<Rightarrow> server \<Rightarrow> bool" where
  "demo_step \<equiv> srv_step demo_fs ''C:/www'' (\<lambda>n buf. replicate (unat n) CHR ''x'')"

abbreviation demo_srv_run :: "srv_event list \<Rightarrow> server \<Rightarrow> bool" where
  "demo_srv_run \<equiv> srv_run demo_fs ''C:/www'' (\<lambda>n buf. replicate (unat n) CHR ''x'')"

definition demo_stopping :: server where
  "demo_stopping = StopAll_next At_end (StopAll_call 0 (HandleStop (At 0 False) demo_server))"

lemma demo_stopping_run: "demo_srv_run [Ev_accept 0 0 False False, Ev_stop, Ev_stop_call, Ev_stop_next] demo_stopping"
proof -
  let ?s1 = "HandleStop (At 0 False) demo_server"
  let ?s2 = "StopAll_call 0 ?s1"
  have "demo_step demo_server Ev_stop ?s1" by (rule srv_step.stop_begin) (simp_all add: demo_server_eq iter_at_def)
  note r1 = srv_run.run_step [OF demo_run this]
  have "demo_step ?s1 Ev_stop_call ?s2" by (rule srv_step.stop_call) (simp add: HandleStop_def)
  note r2 = srv_run.run_step [OF r1 this]
  have "demo_step ?s2 Ev_stop_next (StopAll_next At_end ?s2)"
    by (rule srv_step.stop_next) (simp_all add: StopAll_call_def HandleStop_def Connection_Stop_def iter_at_def demo_server_eq)
  from srv_run.run_step [OF r2 this] show ?thesis unfolding demo_stopping_def by simp
qed

lemma demo_stopping_eq:
  "demo_stopping = demo_server\<lparr>sock_closed := {0}, acceptor_open := False, srv_stop := At_end\<rparr>"
  by (simp add: demo_stopping_def StopAll_next_def StopAll_call_def HandleStop_def Connection_Stop_def demo_server_eq)


text \<open>
  An accept that completed before the acceptor was closed, handled between the loop and \<open>clear\<close>: its
  connection is neither managed nor closed. And a connection whose read completes while the iterator
  stands on it is erased under the iterator.
\<close>

lemma accept_during_stop_orphaned:
  "\<exists>s. demo_srv_run [Ev_accept 0 0 False False, Ev_stop, Ev_stop_call, Ev_stop_next, Ev_accept 1 0 False True, Ev_stop_clear] s \<and>
     1 \<in> dom (srv_conns s) \<and> connections s = {} \<and> 1 \<notin> sock_closed s \<and> srv_orphans s = {1} \<and> \<not> srv_undefined s"
proof -
  let ?s1 = "HandleAccept 1 (new_Connection 0 0 SC_ok) 0 False True demo_stopping"
  let ?s2 = "StopAll_clear ?s1"
  have "demo_step demo_stopping (Ev_accept 1 0 False True) ?s1"
    by (rule srv_step.accept_done) (simp_all add: demo_stopping_eq demo_server_eq)
  note r1 = srv_run.run_step [OF demo_stopping_run this]
  have e: "HandleAccept 1 (new_Connection 0 0 SC_ok) 0 False True s =
      s\<lparr>srv_conns := (srv_conns s)(1 \<mapsto> new_Connection 0 0 SC_ok), connections := insert 1 (connections s),
        srv_pending := (1, Async_read) # srv_pending s, accepting := False\<rparr>" for s
    by (simp add: HandleAccept_def mgr_Start_def Connection_Start_def do_action_def Let_def)
  have "demo_step ?s1 Ev_stop_clear ?s2" by (rule srv_step.stop_clear) (simp only: e, simp add: demo_stopping_eq)
  note run = srv_run.run_step [OF r1 this]
  have "connections ?s2 = {}" "1 \<in> dom (srv_conns ?s2)" "sock_closed ?s2 = {0}" "srv_orphans ?s2 = {1}" "\<not> srv_undefined ?s2"
    unfolding e StopAll_clear_def demo_stopping_eq demo_server_eq by auto
  then show ?thesis using run by (intro exI [of _ ?s2]) simp
qed

lemma stop_loses_iterator: "\<exists>es s. demo_srv_run es s \<and> srv_undefined s"
proof -
  let ?s1 = "HandleStop (At 0 False) demo_server"
  have "demo_step demo_server Ev_stop ?s1" by (rule srv_step.stop_begin) (simp_all add: demo_server_eq iter_at_def)
  note r1 = srv_run.run_step [OF demo_run this]
  have "HandleRead demo_fs ''C:/www'' (\<lambda>n buf. replicate (unat n) CHR ''x'') False 0 [] (new_Connection 0 0 SC_ok) =
      Inr (new_Connection 0 0 SC_ok, [Mgr_Stop])" by (simp add: HandleRead_def)
  from srv_step.read_done [OF _ _ _ this, of 0 ?s1]
  obtain s2 where "demo_step ?s1 (Ev_read 0 0 [] False) s2" "srv_undefined s2"
    by (auto simp: HandleStop_def demo_server_eq mgr_Stop_def)
  then show ?thesis using srv_run.run_step [OF r1] by blast
qed

theorem server_no_idle_connection_witness: "\<exists>op. (0, op) \<in> set (srv_pending demo_server)"
  by (rule server_no_idle_connection [OF demo_run]) (simp_all add: regular_def demo_server_eq)

theorem read_error_leaves_idle_connection_witness:
  "\<exists>s'. srv_step demo_fs ''C:/www'' (\<lambda>n buf. replicate (unat n) CHR ''x'') demo_server (Ev_read 0 64 ''G'' False) s' \<and>
    0 \<in> connections s' \<and> 0 \<notin> fst ` set (srv_pending s')"
  by (rule read_error_leaves_idle_connection [OF demo_run])
    (simp_all add: demo_server_eq ERROR_OPERATION_ABORTED_def buffer_size_def)

theorem server_handles_every_read_witness:
  "\<exists>s'. srv_step demo_fs ''C:/www'' (\<lambda>n buf. replicate (unat n) CHR ''x'') demo_server (Ev_read 0 0 ''G'' False) s'"
  by (rule server_handles_every_read [OF demo_run])
    (simp_all add: demo_server_eq resize_law_def files_fit_def demo_fs_def buffer_size_def)

end
