(* ===== verification/Mem_Malloc.thy ===== *)
theory Mem_Malloc
  imports Prelude "HOL-Library.Multiset"
begin

text \<open>
  \<open>include/memory_pool/sgi_malloc_pool.hpp\<close>: the allocator that falls back to an out-of-memory
  handler.

  Memory is a function from addresses to bytes; an address is a natural number below \<open>2 ^ 32\<close>,
  \<open>0\<close> is \<open>NULL\<close>. \<open>malloc\<close> is a parameter \<open>mal\<close>, the address it answers at its \<open>t\<close>-th call for
  a size, given the blocks that are live; \<open>malloc_law\<close> is what the C standard says of it.
  The static member \<open>m_pFuncOOMHandler\<close> is a part of the state, \<open>None\<close> for the null pointer; what
  the functions do that a program installs there is the parameter \<open>fns\<close>: a function returns or throws,
  and changes the state in any way, the installed handler included.
\<close>

section \<open>Memory and the C allocator\<close>

type_synonym addr = nat
type_synonym block = "addr \<times> nat"
type_synonym malloc_fn = "nat \<Rightarrow> block list \<Rightarrow> nat \<Rightarrow> addr"

record sys =
  sys_mem :: "addr \<Rightarrow> byte"
  sys_live :: "block list"
  sys_tick :: nat
  sys_oom :: "nat option"

definition block_bytes :: "block \<Rightarrow> addr multiset" where
  "block_bytes b = mset [fst b ..< fst b + snd b]"

definition bytes_of :: "block list \<Rightarrow> addr multiset" where
  "bytes_of bs = sum_list (map block_bytes bs)"

text \<open>
  A call of \<open>malloc\<close> fails or returns an aligned block that overlaps no live block; the address one past
  its end exists.
\<close>

definition fresh_block :: "block list \<Rightarrow> addr \<Rightarrow> nat \<Rightarrow> bool" where
  "fresh_block live p n \<longleftrightarrow> p > 0 \<and> p mod 8 = 0 \<and> p + n < 2 ^ 32 \<and>
     (\<forall>b \<in> set live. fst b \<noteq> p \<and> (fst b + snd b \<le> p \<or> p + n \<le> fst b))"

definition malloc_law :: "malloc_fn \<Rightarrow> bool" where
  "malloc_law mal \<longleftrightarrow> (\<forall>t live n. mal t live n = 0 \<or> fresh_block live (mal t live n) n)"

definition c_malloc :: "malloc_fn \<Rightarrow> nat \<Rightarrow> 'a sys_scheme \<Rightarrow> addr \<times> 'a sys_scheme" where
  "c_malloc mal n s =
    (let p = mal (sys_tick s) (sys_live s) n;
         s = s\<lparr>sys_tick := Suc (sys_tick s)\<rparr>
     in (p, if p = 0 then s else s\<lparr>sys_live := (p, n) # sys_live s\<rparr>))"

definition live_size :: "addr \<Rightarrow> 'a sys_scheme \<Rightarrow> nat option" where
  "live_size p s = map_of (sys_live s) p"

text \<open>\<open>free\<close> of an address that is not the start of a live block has no result.\<close>

definition c_free :: "addr \<Rightarrow> 'a sys_scheme \<Rightarrow> 'a sys_scheme result" where
  "c_free p s =
    (if p = 0 then Inr s
     else case live_size p s of
       None \<Rightarrow> Inl Access_violation
     | Some n \<Rightarrow> Inr (s\<lparr>sys_live := remove1 (p, n) (sys_live s)\<rparr>))"

definition mem_copy :: "addr \<Rightarrow> addr \<Rightarrow> nat \<Rightarrow> (addr \<Rightarrow> byte) \<Rightarrow> addr \<Rightarrow> byte" where
  "mem_copy dst src n m = (\<lambda>a. if dst \<le> a \<and> a < dst + n then m (src + (a - dst)) else m a)"

text \<open>
  \<open>realloc\<close> of a live block: it fails and leaves the block alone, or the block moves to an
  address \<open>malloc\<close> could give if the old block were free, with its content.
\<close>

definition c_realloc :: "malloc_fn \<Rightarrow> addr \<Rightarrow> nat \<Rightarrow> 'a sys_scheme \<Rightarrow> addr \<times> 'a sys_scheme" where
  "c_realloc mal p n s =
    (let old = the_default 0 (live_size p s);
         rest = remove1 (p, old) (sys_live s);
         q = mal (sys_tick s) rest n;
         s = s\<lparr>sys_tick := Suc (sys_tick s)\<rparr>
     in if q = 0 then (0, s)
        else (q, s\<lparr>sys_live := (q, n) # rest, sys_mem := mem_copy q p (min old n) (sys_mem s)\<rparr>))"

section \<open>\<open>malloc_pool\<close>\<close>

type_synonym 'a oom_fns = "nat \<Rightarrow> 'a sys_scheme \<Rightarrow> cxx_error option \<times> 'a sys_scheme"

partial_function (option) out_of_malloc ::
    "malloc_fn \<Rightarrow> 'a oom_fns \<Rightarrow> nat \<Rightarrow> 'a sys_scheme \<Rightarrow> (addr result \<times> 'a sys_scheme) option" where
  "out_of_malloc mal fns sz s =
    (case sys_oom s of
       None \<Rightarrow> Some (Inl Bad_alloc, s)
     | Some pHandler \<Rightarrow>
         (case fns pHandler s of
            (Some e, s) \<Rightarrow> Some (Inl e, s)
          | (None, s) \<Rightarrow>
              (let r = c_malloc mal sz s in
               if fst r \<noteq> 0 then Some (Inr (fst r), snd r) else out_of_malloc mal fns sz (snd r))))"

partial_function (option) out_of_realloc ::
    "malloc_fn \<Rightarrow> 'a oom_fns \<Rightarrow> addr \<Rightarrow> nat \<Rightarrow> 'a sys_scheme \<Rightarrow> (addr result \<times> 'a sys_scheme) option" where
  "out_of_realloc mal fns p sz s =
    (case sys_oom s of
       None \<Rightarrow> Some (Inl Bad_alloc, s)
     | Some pHandler \<Rightarrow>
         (case fns pHandler s of
            (Some e, s) \<Rightarrow> Some (Inl e, s)
          | (None, s) \<Rightarrow>
              (let r = c_realloc mal p sz s in
               if fst r \<noteq> 0 then Some (Inr (fst r), snd r) else out_of_realloc mal fns p sz (snd r))))"

definition malloc_pool_allocate ::
    "malloc_fn \<Rightarrow> 'a oom_fns \<Rightarrow> nat \<Rightarrow> 'a sys_scheme \<Rightarrow> (addr result \<times> 'a sys_scheme) option" where
  "malloc_pool_allocate mal fns sz s =
    (let r = c_malloc mal sz s in
     if fst r = 0 then out_of_malloc mal fns sz (snd r) else Some (Inr (fst r), snd r))"

definition malloc_pool_deallocate :: "addr \<Rightarrow> nat \<Rightarrow> 'a sys_scheme \<Rightarrow> 'a sys_scheme result" where
  "malloc_pool_deallocate p sz s = c_free p s"

definition malloc_pool_reallocate ::
    "malloc_fn \<Rightarrow> 'a oom_fns \<Rightarrow> addr \<Rightarrow> nat \<Rightarrow> nat \<Rightarrow> 'a sys_scheme \<Rightarrow>
     (addr result \<times> 'a sys_scheme) option" where
  "malloc_pool_reallocate mal fns p szOld szNew s =
    (let r = c_realloc mal p szNew s in
     if fst r = 0 then out_of_realloc mal fns p szNew (snd r) else Some (Inr (fst r), snd r))"

definition pFuncSetOOMHandler :: "nat option \<Rightarrow> 'a sys_scheme \<Rightarrow> nat option \<times> 'a sys_scheme" where
  "pFuncSetOOMHandler pFunc s = (sys_oom s, s\<lparr>sys_oom := pFunc\<rparr>)"

section \<open>Blocks of bytes\<close>

lemma bytes_of_simps [simp]:
  "bytes_of [] = {#}" "bytes_of (b # bs) = block_bytes b + bytes_of bs"
  "bytes_of (xs @ ys) = bytes_of xs + bytes_of ys"
  by (simp_all add: bytes_of_def)

lemma bytes_of_remove1: "b \<in> set bs \<Longrightarrow> bytes_of bs = block_bytes b + bytes_of (remove1 b bs)"
  by (induction bs) (auto simp: ac_simps)

lemma block_bytes_split: "block_bytes (p, a + b) = block_bytes (p, a) + block_bytes (p + a, b)"
proof -
  have "[p ..< p + (a + b)] = [p ..< p + a] @ [p + a ..< p + a + b]"
    using upt_add_eq_append [of p "p + a" b] by (simp add: add.assoc)
  then show ?thesis by (simp add: block_bytes_def)
qed

lemma block_bytes_0 [simp]: "block_bytes (p, 0) = {#}"
  by (simp add: block_bytes_def)

lemma in_block_bytes [simp]: "a \<in># block_bytes (p, n) \<longleftrightarrow> p \<le> a \<and> a < p + n"
  by (auto simp: block_bytes_def)

lemma in_bytes_of: "a \<in># bytes_of bs \<longleftrightarrow> (\<exists>b \<in> set bs. fst b \<le> a \<and> a < fst b + snd b)"
  by (induction bs) (auto simp: block_bytes_def)

text \<open>No byte belongs to two blocks.\<close>

definition once :: "addr multiset \<Rightarrow> bool" where
  "once M \<longleftrightarrow> (\<forall>a. count M a \<le> 1)"

lemma once_block [simp]: "once (block_bytes b)"
  using distinct_count_atmost_1 [of "[fst b ..< fst b + snd b]"]
  by (simp add: once_def block_bytes_def)

lemma once_empty [simp]: "once {#}"
  by (simp add: once_def)

lemma once_union: "once (M + N) \<longleftrightarrow> once M \<and> once N \<and> set_mset M \<inter> set_mset N = {}"
proof -
  have "count M a + count N a \<le> 1 \<longleftrightarrow>
      count M a \<le> 1 \<and> count N a \<le> 1 \<and> \<not> (a \<in># M \<and> a \<in># N)" for a
    by (auto simp: not_in_iff simp flip: count_greater_zero_iff)
  then show ?thesis by (auto simp: once_def)
qed

lemma fresh_block_disjoint:
  "fresh_block live p n \<Longrightarrow> set_mset (block_bytes (p, n)) \<inter> set_mset (bytes_of live) = {}"
  by (fastforce simp: fresh_block_def in_bytes_of)

section \<open>The out-of-memory loop\<close>

text \<open>
  A round of the loop fails when the handler that is installed returns and \<open>malloc\<close> fails after it;
  \<open>oom_after k\<close> is the state after \<open>k\<close> such rounds.
\<close>

definition oom_fails :: "malloc_fn \<Rightarrow> 'a oom_fns \<Rightarrow> nat \<Rightarrow> 'a sys_scheme \<Rightarrow> bool" where
  "oom_fails mal fns sz s \<longleftrightarrow>
    (\<exists>h s1. sys_oom s = Some h \<and> fns h s = (None, s1) \<and> fst (c_malloc mal sz s1) = 0)"

definition oom_next :: "malloc_fn \<Rightarrow> 'a oom_fns \<Rightarrow> nat \<Rightarrow> 'a sys_scheme \<Rightarrow> 'a sys_scheme" where
  "oom_next mal fns sz s =
    (case sys_oom s of None \<Rightarrow> s | Some h \<Rightarrow> snd (c_malloc mal sz (snd (fns h s))))"

definition oom_after :: "malloc_fn \<Rightarrow> 'a oom_fns \<Rightarrow> nat \<Rightarrow> nat \<Rightarrow> 'a sys_scheme \<Rightarrow> 'a sys_scheme" where
  "oom_after mal fns sz k s = (oom_next mal fns sz ^^ k) s"

text \<open>How the last round ends: no handler is installed, the handler throws, or \<open>malloc\<close> succeeds.\<close>

definition oom_ends :: "malloc_fn \<Rightarrow> 'a oom_fns \<Rightarrow> nat \<Rightarrow> 'a sys_scheme \<Rightarrow> addr result \<Rightarrow> 'a sys_scheme \<Rightarrow> bool" where
  "oom_ends mal fns sz s r s' \<longleftrightarrow>
    (case sys_oom s of
       None \<Rightarrow> r = Inl Bad_alloc \<and> s' = s
     | Some h \<Rightarrow>
         (case fns h s of
            (Some e, s1) \<Rightarrow> r = Inl e \<and> s' = s1
          | (None, s1) \<Rightarrow> \<exists>p. p \<noteq> 0 \<and> c_malloc mal sz s1 = (p, s') \<and> r = Inr p))"

lemma oom_after_0 [simp]: "oom_after mal fns sz 0 s = s"
  by (simp add: oom_after_def)

lemma oom_after_Suc: "oom_after mal fns sz (Suc k) s = oom_after mal fns sz k (oom_next mal fns sz s)"
  by (simp add: oom_after_def funpow_Suc_right del: funpow.simps)

lemma out_of_malloc_fails:
  "oom_fails mal fns sz s \<Longrightarrow> out_of_malloc mal fns sz s = out_of_malloc mal fns sz (oom_next mal fns sz s)"
  by (subst out_of_malloc.simps) (auto simp: oom_fails_def oom_next_def Let_def)

lemma out_of_malloc_ends: "oom_ends mal fns sz s r s' \<Longrightarrow> out_of_malloc mal fns sz s = Some (r, s')"
  by (subst out_of_malloc.simps) (auto simp: oom_ends_def Let_def split: option.splits prod.splits)

lemma oom_cases: "oom_fails mal fns sz s \<or> (\<exists>r s'. oom_ends mal fns sz s r s')"
proof (cases "sys_oom s")
  case None
  then show ?thesis by (simp add: oom_ends_def)
next
  case (Some h)
  obtain e s1 where h: "fns h s = (e, s1)" by fastforce
  obtain p s2 where "c_malloc mal sz s1 = (p, s2)" by fastforce
  then show ?thesis using Some h by (cases e) (auto simp: oom_fails_def oom_ends_def)
qed

lemma out_of_malloc_returns:
  "\<forall>j < k. oom_fails mal fns sz (oom_after mal fns sz j s) \<Longrightarrow> oom_ends mal fns sz (oom_after mal fns sz k s) r s' \<Longrightarrow>
   out_of_malloc mal fns sz s = Some (r, s')"
proof (induction k arbitrary: s)
  case 0
  then show ?case by (simp add: out_of_malloc_ends)
next
  case (Suc k)
  have "oom_fails mal fns sz s" using Suc.prems(1) by (metis oom_after_0 zero_less_Suc)
  moreover have "out_of_malloc mal fns sz (oom_next mal fns sz s) = Some (r, s')"
    using Suc.prems by (intro Suc.IH) (auto simp: oom_after_Suc [symmetric])
  ultimately show ?case by (simp add: out_of_malloc_fails)
qed

lemma out_of_malloc_SomeD:
  assumes "out_of_malloc mal fns sz s = Some x"
  shows "\<exists>k. \<not> oom_fails mal fns sz (oom_after mal fns sz k s)"
proof -
  let ?P = "\<lambda>mal fns sz s x. \<exists>k. \<not> oom_fails mal fns sz (oom_after mal fns sz k s)"
  show ?thesis
  proof (rule out_of_malloc.raw_induct [where P = ?P, rotated, OF assms])
    fix rec mal sz s and fns :: "'a oom_fns" and x :: "addr result \<times> 'a sys_scheme"
    assume IH: "\<And>mal fns sz s x. rec mal fns sz s = Some x \<Longrightarrow> ?P mal fns sz s x"
      and body: "(case sys_oom s of None \<Rightarrow> Some (Inl Bad_alloc, s)
        | Some pHandler \<Rightarrow> (case fns pHandler s of (Some e, s) \<Rightarrow> Some (Inl e, s)
            | (None, s) \<Rightarrow> let r = c_malloc mal sz s
                in if fst r \<noteq> 0 then Some (Inr (fst r), snd r) else rec mal fns sz (snd r))) = Some x"
    show "?P mal fns sz s x"
    proof (cases "oom_fails mal fns sz s")
      case True
      with body have "rec mal fns sz (oom_next mal fns sz s) = Some x"
        by (auto simp: oom_fails_def oom_next_def Let_def)
      from IH [OF this] obtain k where "\<not> oom_fails mal fns sz (oom_after mal fns sz k (oom_next mal fns sz s))" by blast
      then show ?thesis by (metis oom_after_Suc)
    next
      case False
      then show ?thesis by (metis oom_after_0)
    qed
  qed
qed

text \<open>
  C34. The out-of-memory loop. It reads the installed handler in every round. It returns exactly when,
  after some number of rounds in which the handler returned and \<open>malloc\<close> failed, a round ends it: with
  \<open>std::bad_alloc\<close> when no handler is installed (any more), with the exception of the handler when that
  throws, and with the address when \<open>malloc\<close> succeeds; the result and the state are those of that round.
  When every round fails it runs for ever.
\<close>

theorem out_of_malloc_outcome:
  "(out_of_malloc mal fns sz s = Some (r, s') \<longleftrightarrow>
     (\<exists>k. (\<forall>j < k. oom_fails mal fns sz (oom_after mal fns sz j s)) \<and> oom_ends mal fns sz (oom_after mal fns sz k s) r s')) \<and>
   (out_of_malloc mal fns sz s = None \<longleftrightarrow> (\<forall>j. oom_fails mal fns sz (oom_after mal fns sz j s)))"
proof -
  let ?fails = "\<lambda>k. oom_fails mal fns sz (oom_after mal fns sz k s)"
  have ends: "\<exists>k r s'. (\<forall>j < k. ?fails j) \<and> oom_ends mal fns sz (oom_after mal fns sz k s) r s'" if "\<not> ?fails k" for k
  proof -
    define k0 where "k0 = (LEAST k. \<not> ?fails k)"
    have "\<not> ?fails k0" unfolding k0_def using that by (rule LeastI)
    moreover have "\<forall>j < k0. ?fails j" unfolding k0_def using not_less_Least by blast
    ultimately show ?thesis using oom_cases by blast
  qed
  have some: "\<exists>x. out_of_malloc mal fns sz s = Some x" if fail: "\<not> ?fails k" for k
  proof -
    obtain k r s' where "\<forall>j < k. ?fails j" "oom_ends mal fns sz (oom_after mal fns sz k s) r s'" using ends [OF fail] by blast
    then show ?thesis using out_of_malloc_returns by blast
  qed
  have none: "out_of_malloc mal fns sz s = None \<longleftrightarrow> (\<forall>j. ?fails j)"
    using some out_of_malloc_SomeD [of mal fns sz s] by (cases "out_of_malloc mal fns sz s") auto
  have "\<exists>k. (\<forall>j < k. ?fails j) \<and> oom_ends mal fns sz (oom_after mal fns sz k s) r s'"
    if ret: "out_of_malloc mal fns sz s = Some (r, s')"
  proof -
    obtain k r1 s1 where k: "\<forall>j < k. ?fails j" "oom_ends mal fns sz (oom_after mal fns sz k s) r1 s1"
      using ends out_of_malloc_SomeD [OF ret] by blast
    then have "(r1, s1) = (r, s')" using out_of_malloc_returns [OF k] ret by simp
    then show ?thesis using k by blast
  qed
  then show ?thesis using none out_of_malloc_returns by blast
qed

text \<open>A handler that takes itself out makes the loop end in \<open>bad_alloc\<close> after one more failure.\<close>

lemma handler_uninstalls:
  assumes "sys_oom s = Some h" and "fns h s = (None, snd (pFuncSetOOMHandler None s))" and "\<And>t live. mal t live sz = 0"
  shows "out_of_malloc mal fns sz s = Some (Inl Bad_alloc, s\<lparr>sys_oom := None, sys_tick := Suc (sys_tick s)\<rparr>)"
proof -
  have fails: "oom_fails mal fns sz s" and nxt: "oom_next mal fns sz s = s\<lparr>sys_oom := None, sys_tick := Suc (sys_tick s)\<rparr>"
    using assms by (simp_all add: oom_fails_def oom_next_def pFuncSetOOMHandler_def c_malloc_def Let_def)
  have "oom_ends mal fns sz (s\<lparr>sys_oom := None, sys_tick := Suc (sys_tick s)\<rparr>) (Inl Bad_alloc) (s\<lparr>sys_oom := None, sys_tick := Suc (sys_tick s)\<rparr>)"
    by (simp add: oom_ends_def)
  then show ?thesis using out_of_malloc_fails [OF fails] nxt out_of_malloc_ends by metis
qed

section \<open>A concrete allocator\<close>

text \<open>An allocator that satisfies \<open>malloc_law\<close>: it answers above all live blocks.\<close>

definition live_top :: "block list \<Rightarrow> addr" where
  "live_top live = foldr (\<lambda>b m. max m (Suc (fst b + snd b))) live 8"

definition bump_malloc :: malloc_fn where
  "bump_malloc t live n = (let p = (live_top live + 7) div 8 * 8 in if p + n < 2 ^ 32 then p else 0)"

lemma live_top_bound: "b \<in> set live \<Longrightarrow> fst b + snd b < live_top live" "8 \<le> live_top live"
  by (induction live) (auto simp: live_top_def)

lemma bump_malloc_law: "malloc_law bump_malloc"
proof -
  have le: "live_top live \<le> (live_top live + 7) div 8 * 8" for live by linarith
  have "fst b + snd b < (live_top live + 7) div 8 * 8" if "b \<in> set live" for b live
    using live_top_bound(1) [OF that] le [of live] by linarith
  moreover have "0 < (live_top live + 7) div 8 * 8" for live using live_top_bound(2) [of live] le [of live] by linarith
  ultimately show ?thesis
    by (fastforce simp: malloc_law_def bump_malloc_def fresh_block_def Let_def)
qed

definition demo_sys :: sys where
  "demo_sys = \<lparr>sys_mem = \<lambda>a. 0, sys_live = [], sys_tick = 0, sys_oom = None\<rparr>"

text \<open>\<open>malloc\<close> fails at its first call and succeeds at its second; the handler frees nothing the first time.\<close>

definition late_malloc :: malloc_fn where
  "late_malloc t live n = (if t = 0 then 0 else 8)"

definition quiet_fns :: "nat \<Rightarrow> 'a sys_scheme \<Rightarrow> cxx_error option \<times> 'a sys_scheme" where
  "quiet_fns h s = (None, s)"

theorem out_of_malloc_outcome_witness:
  "out_of_malloc late_malloc quiet_fns 16 (demo_sys\<lparr>sys_oom := Some 5\<rparr>) =
     Some (Inr 8, demo_sys\<lparr>sys_live := [(8, 16)], sys_tick := 2, sys_oom := Some 5\<rparr>) \<and>
   out_of_malloc (\<lambda>t live n. 0) quiet_fns 16 (demo_sys\<lparr>sys_oom := Some 5\<rparr>) = None"
proof
  let ?s = "demo_sys\<lparr>sys_oom := Some 5\<rparr>"
  let ?s' = "demo_sys\<lparr>sys_live := [(8, 16)], sys_tick := 2, sys_oom := Some 5\<rparr>"
  have nxt: "oom_after late_malloc quiet_fns 16 1 ?s = ?s\<lparr>sys_tick := 1\<rparr>"
    by (simp add: oom_after_def oom_next_def quiet_fns_def c_malloc_def late_malloc_def demo_sys_def)
  have "oom_fails late_malloc quiet_fns 16 ?s"
    by (simp add: oom_fails_def quiet_fns_def c_malloc_def late_malloc_def demo_sys_def Let_def)
  moreover have "oom_ends late_malloc quiet_fns 16 (?s\<lparr>sys_tick := 1\<rparr>) (Inr 8) ?s'"
    by (simp add: oom_ends_def quiet_fns_def c_malloc_def late_malloc_def demo_sys_def Let_def)
  ultimately have "\<exists>k. (\<forall>j < k. oom_fails late_malloc quiet_fns 16 (oom_after late_malloc quiet_fns 16 j ?s)) \<and>
      oom_ends late_malloc quiet_fns 16 (oom_after late_malloc quiet_fns 16 k ?s) (Inr 8) ?s'"
    by (intro exI [of _ 1]) (simp add: nxt less_Suc_eq del: One_nat_def)
  then show "out_of_malloc late_malloc quiet_fns 16 ?s = Some (Inr 8, ?s')"
    using out_of_malloc_outcome [of late_malloc quiet_fns 16 ?s "Inr 8" ?s'] by blast
  have "oom_fails (\<lambda>t live n. 0) quiet_fns 16 (oom_after (\<lambda>t live n. 0) quiet_fns 16 j ?s)" for j
  proof -
    have "sys_oom (oom_after (\<lambda>t live n. 0) quiet_fns 16 j ?s) = Some 5"
      by (induction j) (auto simp: oom_after_def oom_next_def quiet_fns_def c_malloc_def demo_sys_def Let_def)
    then show ?thesis by (simp add: oom_fails_def quiet_fns_def c_malloc_def Let_def)
  qed
  then show "out_of_malloc (\<lambda>t live n. 0) quiet_fns 16 ?s = None"
    using out_of_malloc_outcome [of "\<lambda>t live n. 0" quiet_fns 16 ?s "Inr 8" ?s] by blast
qed

end
