(* ===== verification/Mem_Blocks.thy ===== *)
theory Mem_Blocks
  imports Mem_Malloc
begin

text \<open>
  What the two memory pools share. \<open>sgi_memory_pool_t\<close> and \<open>fixed_memory_pool_t\<close> have the same
  members and the same way to keep free blocks: linked lists, one per size class, whose links
  are stored in the blocks. The locale \<open>size_classes\<close> is the interface the pools rely on: \<open>N\<close>
  free lists, list \<open>i\<close> holding blocks of \<open>cs i\<close> bytes, enough for a pointer.
\<close>

section \<open>Pointers in memory\<close>

definition load_ptr :: "(addr \<Rightarrow> byte) \<Rightarrow> addr \<Rightarrow> addr" where
  "load_ptr m p = unat (rep_u32 [m p, m (p + 1), m (p + 2), m (p + 3)])"

definition store_ptr :: "addr \<Rightarrow> addr \<Rightarrow> (addr \<Rightarrow> byte) \<Rightarrow> addr \<Rightarrow> byte" where
  "store_ptr p v m =
    (\<lambda>a. if p \<le> a \<and> a < p + 4 then u32_rep (of_nat v) ! (a - p) else m a)"

section \<open>State\<close>

record pool = sys +
  start_free :: addr
  end_free :: addr
  heap_size :: nat
  pool_buffers :: "block list"
  buffers_reserved :: nat
  free_lists :: "addr list"

text \<open>
  \<open>buffers_reserved\<close> is the capacity the constructor has reserved for \<open>buffers_\<close>. A \<open>push_back\<close> beyond
  it allocates memory: whether it succeeds, given the number of calls of \<open>malloc\<close> so far and the size of
  the vector, is the parameter \<open>vec\<close>.
\<close>

type_synonym vector_fn = "nat \<Rightarrow> nat \<Rightarrow> bool"
type_synonym pool_fns = "nat \<Rightarrow> pool \<Rightarrow> cxx_error option \<times> pool"
type_synonym 'r pool_op = "('r result \<times> pool) option"

text \<open>Sizes are \<open>size_t\<close>, 32 bits wide, and so are the differences of pointers.\<close>

definition size_t :: "nat \<Rightarrow> nat" where
  "size_t n = n mod 2 ^ 32"

definition ptr_diff :: "addr \<Rightarrow> addr \<Rightarrow> nat" where
  "ptr_diff b a = nat ((int b - int a) mod 2 ^ 32)"

text \<open>
  \<open>x->pFreeListLink = *head; *head = x\<close> on the free list number \<open>i\<close>.
\<close>

definition push_free :: "nat \<Rightarrow> addr \<Rightarrow> pool \<Rightarrow> pool result" where
  "push_free i x P =
    (if i < length (free_lists P)
     then Inr (P\<lparr>sys_mem := store_ptr x (free_lists P ! i) (sys_mem P),
                 free_lists := (free_lists P)[i := x]\<rparr>)
     else Inl Access_violation)"

section \<open>Operations\<close>

text \<open>
  \<open>chunk_alloc\<close> returns the chunk and the updated \<open>nObjs\<close>. When \<open>malloc\<close> fails it is tried again
  through \<open>malloc_pool\<close>, which throws when there is no handler.
\<close>

definition chunk_source :: "malloc_fn \<Rightarrow> pool_fns \<Rightarrow> nat \<Rightarrow> pool \<Rightarrow> addr pool_op" where
  "chunk_source mal fns szGet P =
    (let r = c_malloc mal szGet P;
         P = (snd r)\<lparr>start_free := fst r\<rparr>
     in if fst r = 0 then malloc_pool_allocate mal fns szGet (P\<lparr>end_free := 0\<rparr>)
        else Some (Inr (fst r), P))"

text \<open>
  The chunk is recorded. \<open>start_free_\<close> has been set before the \<open>push_back\<close>, \<open>end_free_\<close> is set after it: when
  \<open>push_back\<close> throws, the chunk is lost and the two pointers belong to different buffers.
\<close>

definition add_chunk :: "vector_fn \<Rightarrow> addr \<Rightarrow> nat \<Rightarrow> pool \<Rightarrow> unit result \<times> pool" where
  "add_chunk vec q szGet P =
    (let P = P\<lparr>start_free := q\<rparr>
     in if length (pool_buffers P) < buffers_reserved P \<or> vec (sys_tick P) (length (pool_buffers P))
        then (Inr (), P\<lparr>pool_buffers := pool_buffers P @ [(q, szGet)],
               heap_size := size_t (heap_size P + szGet), end_free := size_t (q + szGet)\<rparr>)
        else (Inl Bad_alloc, P))"

text \<open>The loop of \<open>re_fill\<close>: \<open>i\<close> starts at 1 and never passes \<open>nObjs\<close>.\<close>

function link_nodes :: "nat \<Rightarrow> nat \<Rightarrow> nat \<Rightarrow> addr \<Rightarrow> (addr \<Rightarrow> byte) \<Rightarrow> addr \<Rightarrow> byte" where
  "link_nodes n nObjs i cur m =
    (if nObjs \<le> i then store_ptr cur 0 m
     else link_nodes n nObjs (Suc i) (size_t (cur + n)) (store_ptr cur (size_t (cur + n)) m))"
  by pat_completeness auto
termination by (relation "measure (\<lambda>(n, nObjs, i, cur, m). nObjs - i)") auto

declare link_nodes.simps [simp del]

text \<open>\<open>clear\<close>, the work of the destructor: every buffer goes back to \<open>free\<close>.\<close>

fun free_buffers :: "block list \<Rightarrow> pool \<Rightarrow> pool result" where
  "free_buffers [] P = Inr P"
| "free_buffers (b # bs) P = bindR (c_free (fst b) P) (free_buffers bs)"

definition pool_clear :: "pool \<Rightarrow> pool result" where
  "pool_clear P = bindR (free_buffers (pool_buffers P) P) (\<lambda>P. Inr (P\<lparr>pool_buffers := []\<rparr>))"

section \<open>Pointers\<close>

lemma load_store_same: "v < 2 ^ 32 \<Longrightarrow> load_ptr (store_ptr p v m) p = v"
proof -
  assume v: "v < 2 ^ 32"
  have "[store_ptr p v m p, store_ptr p v m (p + 1), store_ptr p v m (p + 2), store_ptr p v m (p + 3)]
      = u32_rep (of_nat v)"
    by (simp add: store_ptr_def u32_rep_def numeral_2_eq_2 numeral_3_eq_3)
  with v show ?thesis by (simp add: load_ptr_def unat_of_nat_u32)
qed

lemma load_store_other: "q + 4 \<le> p \<or> p + 4 \<le> q \<Longrightarrow> load_ptr (store_ptr p v m) q = load_ptr m q"
  by (auto simp: load_ptr_def store_ptr_def)

lemma store_ptr_other: "a < p \<or> p + 4 \<le> a \<Longrightarrow> store_ptr p v m a = m a"
  by (auto simp: store_ptr_def)

text \<open>\<open>chain m h xs\<close>: following the links from \<open>h\<close> visits \<open>xs\<close> and ends at \<open>NULL\<close>.\<close>

fun chain :: "(addr \<Rightarrow> byte) \<Rightarrow> addr \<Rightarrow> addr list \<Rightarrow> bool" where
  "chain m h [] \<longleftrightarrow> h = 0"
| "chain m h (x # xs) \<longleftrightarrow> h = x \<and> x \<noteq> 0 \<and> chain m (load_ptr m x) xs"

definition apart :: "addr \<Rightarrow> addr \<Rightarrow> bool" where
  "apart p q \<longleftrightarrow> p + 4 \<le> q \<or> q + 4 \<le> p"

lemma chain_frame:
  "(\<And>a x. x \<in> set xs \<Longrightarrow> x \<le> a \<Longrightarrow> a < x + 4 \<Longrightarrow> m' a = m a) \<Longrightarrow> chain m' h xs = chain m h xs"
proof (induction xs arbitrary: h)
  case (Cons x xs)
  have "load_ptr m' x = load_ptr m x" using Cons.prems [of x] by (simp add: load_ptr_def)
  then show ?case using Cons by auto
qed simp

lemma chain_store: "\<forall>x \<in> set xs. apart p x \<Longrightarrow> chain (store_ptr p v m) h xs = chain m h xs"
  by (rule chain_frame) (auto simp: apart_def intro!: store_ptr_other)

lemma chain_push:
  assumes "chain m h xs" and "\<forall>x \<in> set xs. apart p x" and "p \<noteq> 0" and "h < 2 ^ 32"
  shows "chain (store_ptr p h m) p (p # xs)"
  using assms by (simp add: load_store_same chain_store)


section \<open>The invariant\<close>

text \<open>
  \<open>F i\<close> is the list of free blocks of class \<open>i\<close>, \<open>A\<close> the blocks handed out, \<open>R\<close> the bytes that
  belong to neither. No out-of-memory handler is installed. Together they are exactly the bytes of the buffers the pool has
  obtained, and no byte belongs to two live blocks.
\<close>

definition class_blocks :: "(nat \<Rightarrow> nat) \<Rightarrow> nat \<Rightarrow> addr list \<Rightarrow> block list" where
  "class_blocks cs i xs = map (\<lambda>p. (p, cs i)) xs"

definition free_bytes :: "nat \<Rightarrow> (nat \<Rightarrow> nat) \<Rightarrow> (nat \<Rightarrow> addr list) \<Rightarrow> addr multiset" where
  "free_bytes N cs F = (\<Sum>i<N. bytes_of (class_blocks cs i (F i)))"

definition chains :: "nat \<Rightarrow> pool \<Rightarrow> (nat \<Rightarrow> addr list) \<Rightarrow> bool" where
  "chains N P F \<longleftrightarrow> length (free_lists P) = N \<and>
     (\<forall>i < N. chain (sys_mem P) (free_lists P ! i) (F i))"

definition live_ok :: "block list \<Rightarrow> bool" where
  "live_ok L \<longleftrightarrow> distinct (map fst L) \<and> once (bytes_of L) \<and> (\<forall>b \<in> set L. 0 < fst b \<and> fst b + snd b < 2 ^ 32)"

definition core :: "nat \<Rightarrow> (nat \<Rightarrow> nat) \<Rightarrow> pool \<Rightarrow> (nat \<Rightarrow> addr list) \<Rightarrow> block list \<Rightarrow> addr multiset \<Rightarrow> bool" where
  "core N cs P F A R \<longleftrightarrow> chains N P F \<and> sys_oom P = None \<and> live_ok (sys_live P) \<and> mset (pool_buffers P) \<subseteq># mset (sys_live P) \<and>
     free_bytes N cs F + R + bytes_of A = bytes_of (pool_buffers P)"

definition free_rest :: "nat \<Rightarrow> (nat \<Rightarrow> nat) \<Rightarrow> nat \<Rightarrow> (nat \<Rightarrow> addr list) \<Rightarrow> addr multiset" where
  "free_rest N cs i F = (\<Sum>j \<in> {..<N} - {i}. bytes_of (class_blocks cs j (F j)))"

lemma bytes_of_mono: "mset xs \<subseteq># mset ys \<Longrightarrow> bytes_of xs \<subseteq># bytes_of ys"
proof -
  assume "mset xs \<subseteq># mset ys"
  then obtain zs where "mset ys = mset xs + mset zs" by (metis ex_mset subset_mset.add_diff_inverse)
  then have "mset (map block_bytes ys) = mset (map block_bytes xs) + mset (map block_bytes zs)"
    by simp
  then have "bytes_of ys = bytes_of xs + bytes_of zs"
    unfolding bytes_of_def by (metis mset_append sum_list.append sum_mset_sum_list)
  then show ?thesis by simp
qed

lemma once_mono: "once N \<Longrightarrow> M \<subseteq># N \<Longrightarrow> once M"
  unfolding once_def by (meson le_trans mset_subset_eq_count)

definition same_on :: "addr multiset \<Rightarrow> (addr \<Rightarrow> byte) \<Rightarrow> (addr \<Rightarrow> byte) \<Rightarrow> bool" where
  "same_on M m m' \<longleftrightarrow> (\<forall>a. a \<in># M \<longrightarrow> m' a = m a)"

lemma same_on_refl [simp]: "same_on M m m"
  by (simp add: same_on_def)

lemma same_on_trans: "same_on M m m' \<Longrightarrow> same_on M m' m'' \<Longrightarrow> same_on M m m''"
  by (simp add: same_on_def)

lemma same_on_store:
  assumes "set_mset (block_bytes (p, n)) \<inter> set_mset M = {}" and "4 \<le> n"
  shows "same_on M m (store_ptr p v m)"
proof -
  have "a < p \<or> p + 4 \<le> a" if "a \<in># M" for a
  proof -
    have "a \<notin># block_bytes (p, n)" using assms(1) that by blast
    then show ?thesis using assms(2) by auto
  qed
  then show ?thesis by (simp add: same_on_def store_ptr_other)
qed

definition grown :: "nat \<Rightarrow> (nat \<Rightarrow> nat) \<Rightarrow> malloc_fn \<Rightarrow> pool \<Rightarrow> nat \<Rightarrow> (nat \<Rightarrow> addr list) \<Rightarrow> block list \<Rightarrow> addr result \<Rightarrow> pool \<Rightarrow> bool" where
  "grown N cs mal P n F A r P' \<longleftrightarrow> sys_mem P' = sys_mem P \<and> pool_buffers P' = pool_buffers P \<and>
    heap_size P' = heap_size P \<and> buffers_reserved P' = buffers_reserved P \<and>
    (case r of
       Inr q \<Rightarrow> core N cs (P'\<lparr>pool_buffers := pool_buffers P @ [(q, n)]\<rparr>) F A (block_bytes (q, n)) \<and>
         core N cs P' F A {#} \<and> 0 < q \<and> q + n < 2 ^ 32
     | Inl e \<Rightarrow> e = Bad_alloc \<and> core N cs P' F A {#} \<and> start_free P' = 0 \<and> end_free P' = 0)"

fun nodes :: "addr \<Rightarrow> nat \<Rightarrow> nat \<Rightarrow> addr list" where
  "nodes c n 0 = []"
| "nodes c n (Suc k) = c # nodes (c + n) n k"

lemma link_nodes_chain:
  "i + k = nObjs \<Longrightarrow> 4 \<le> n \<Longrightarrow> 0 < cur \<Longrightarrow> cur + n * Suc k \<le> 2 ^ 32 \<Longrightarrow>
    chain (link_nodes n nObjs i cur m) cur (nodes cur n (Suc k)) \<and>
    (\<forall>a. a < cur \<or> cur + n * Suc k \<le> a \<longrightarrow> link_nodes n nObjs i cur m a = m a)"
proof (induction k arbitrary: i cur m)
  case 0
  then show ?case
    by (subst (1 2) link_nodes.simps) (simp add: load_store_same store_ptr_other)
next
  case (Suc k)
  let ?m = "store_ptr cur (cur + n) m"
  have eq: "link_nodes n nObjs i cur m = link_nodes n nObjs (Suc i) (cur + n) ?m"
    using Suc.prems by (subst link_nodes.simps) (simp add: size_t_def)
  have IH: "chain (link_nodes n nObjs (Suc i) (cur + n) ?m) (cur + n) (nodes (cur + n) n (Suc k))"
    "\<And>a. a < cur + n \<or> cur + n + n * Suc k \<le> a \<Longrightarrow> link_nodes n nObjs (Suc i) (cur + n) ?m a = ?m a"
    using Suc.IH [of "Suc i" "cur + n" ?m] Suc.prems by auto
  have "cur + n < 2 ^ 32" using Suc.prems by simp
  moreover have "load_ptr (link_nodes n nObjs (Suc i) (cur + n) ?m) cur = load_ptr ?m cur"
    using Suc.prems(2) by (simp add: load_ptr_def IH(2))
  ultimately have "load_ptr (link_nodes n nObjs i cur m) cur = cur + n"
    by (simp add: eq load_store_same)
  moreover have "link_nodes n nObjs i cur m a = m a" if "a < cur \<or> cur + n * Suc (Suc k) \<le> a" for a
  proof -
    have "a < cur + n \<or> cur + n + n * Suc k \<le> a" and "a < cur \<or> cur + 4 \<le> a" using that Suc.prems(2) by auto
    then show ?thesis by (simp add: eq IH(2) store_ptr_other)
  qed
  ultimately show ?case using IH(1) Suc.prems(3) by (simp add: eq)
qed

section \<open>Giving the buffers back\<close>

lemma c_free_live:
  assumes "distinct (map fst (sys_live s))" and "(p, n) \<in> set (sys_live s)" and "p \<noteq> 0"
  shows "c_free p s = Inr (s\<lparr>sys_live := remove1 (p, n) (sys_live s)\<rparr>)"
  using assms by (simp add: c_free_def live_size_def)

lemma distinct_map_remove1: "distinct (map f xs) \<Longrightarrow> distinct (map f (remove1 x xs))"
  by (auto simp: distinct_map intro: inj_on_diff)

lemma free_buffers_live:
  assumes "distinct (map fst (sys_live P))" and "mset bs \<subseteq># mset (sys_live P)" and "\<forall>b \<in> set bs. fst b \<noteq> 0"
  shows "\<exists>P'. free_buffers bs P = Inr P' \<and> mset (sys_live P') = mset (sys_live P) - mset bs"
  using assms
proof (induction bs arbitrary: P)
  case (Cons b bs)
  let ?P = "P\<lparr>sys_live := remove1 b (sys_live P)\<rparr>"
  have "b \<in> set (sys_live P)" using Cons.prems(2) by (metis insert_subset_eq_iff mset.simps(2) set_mset_mset)
  with Cons.prems have free: "c_free (fst b) P = Inr ?P"
    using c_free_live [of P "fst b" "snd b"] by simp
  have "mset bs \<subseteq># mset (sys_live ?P)"
    using Cons.prems(2) by (simp add: insert_subset_eq_iff)
  with Cons.IH [of ?P] Cons.prems distinct_map_remove1 [of fst "sys_live P" b] obtain P'
    where "free_buffers bs ?P = Inr P'" "mset (sys_live P') = mset (sys_live ?P) - mset bs" by auto
  then show ?case using free by simp
qed simp

section \<open>Size classes\<close>

locale size_classes =
  fixes N :: nat and cs :: "nat \<Rightarrow> nat"
  assumes cs_ge: "4 \<le> cs i"
begin

lemma free_bytes_split: "i < N \<Longrightarrow> free_bytes N cs F = bytes_of (class_blocks cs i (F i)) + free_rest N cs i F"
  by (simp add: free_bytes_def free_rest_def sum.remove)

lemma free_rest_upd [simp]: "free_rest N cs i (F(i := xs)) = free_rest N cs i F"
  unfolding free_rest_def by (rule sum.cong) auto

lemma free_bytes_push:
  "i < N \<Longrightarrow> free_bytes N cs (F(i := p # F i)) = block_bytes (p, cs i) + free_bytes N cs F"
  by (simp add: free_bytes_split [of i] class_blocks_def)

lemma free_bytes_pop:
  "i < N \<Longrightarrow> F i = p # xs \<Longrightarrow> free_bytes N cs F = block_bytes (p, cs i) + free_bytes N cs (F(i := xs))"
  by (simp add: free_bytes_split [of i] class_blocks_def)

lemma in_free_bytes:
  "i < N \<Longrightarrow> x \<in> set (F i) \<Longrightarrow> x \<le> a \<Longrightarrow> a < x + 4 \<Longrightarrow> a \<in># free_bytes N cs F"
  using cs_ge [of i]
  by (subst free_bytes_split [of i]) (auto simp: in_bytes_of class_blocks_def intro!: rev_bexI [of x])

lemma core_once: "core N cs P F A R \<Longrightarrow> once (free_bytes N cs F + R + bytes_of A)"
  unfolding core_def live_ok_def by (metis bytes_of_mono once_mono)

lemma core_addr:
  assumes "core N cs P F A R" and "a \<in># free_bytes N cs F + R + bytes_of A"
  shows "0 < a \<and> Suc a < 2 ^ 32"
proof -
  have "a \<in># bytes_of (pool_buffers P)" using assms by (simp add: core_def)
  moreover have "set (pool_buffers P) \<subseteq> set (sys_live P)"
    using assms(1) set_mset_mono by (fastforce simp: core_def)
  ultimately obtain b where "b \<in> set (sys_live P)" "fst b \<le> a" "a < fst b + snd b"
    by (auto simp: in_bytes_of)
  moreover from this have "0 < fst b" "fst b + snd b < 2 ^ 32"
    using assms(1) by (auto simp: core_def live_ok_def)
  ultimately show ?thesis by linarith
qed

lemma core_free_addr:
  assumes "core N cs P F A R" and "i < N" and "x \<in> set (F i)"
  shows "0 < x \<and> x < 2 ^ 32"
  using core_addr [OF assms(1), of x] in_free_bytes [of i x F x] assms(2,3) by auto

lemma core_head:
  assumes "core N cs P F A R" and "i < N"
  shows "free_lists P ! i < 2 ^ 32" and "free_lists P ! i = 0 \<longleftrightarrow> F i = []"
proof -
  have "chain (sys_mem P) (free_lists P ! i) (F i)" using assms by (simp add: core_def chains_def)
  then show "free_lists P ! i < 2 ^ 32" "free_lists P ! i = 0 \<longleftrightarrow> F i = []"
    using core_free_addr [OF assms, of "free_lists P ! i"] by (cases "F i"; auto)+
qed


lemma core_upd [simp]:
  "core N cs (P\<lparr>start_free := a\<rparr>) F A R = core N cs P F A R"
  "core N cs (P\<lparr>end_free := a\<rparr>) F A R = core N cs P F A R"
  "core N cs (P\<lparr>heap_size := k\<rparr>) F A R = core N cs P F A R"
  "core N cs (P\<lparr>sys_tick := k\<rparr>) F A R = core N cs P F A R"
  by (simp_all add: core_def chains_def)

text \<open>Inside a buffer the difference of two pointers is exact.\<close>

lemma core_span:
  assumes "core N cs P F A (block_bytes (a, b - a) + R)" and "a \<le> b"
  shows "ptr_diff b a = b - a" and "a < b \<Longrightarrow> b < 2 ^ 32"
proof -
  have lt: "b < 2 ^ 32" if "a < b" using core_addr [OF assms(1), of "b - 1"] that by fastforce
  then show "a < b \<Longrightarrow> b < 2 ^ 32" .
  have "b - a < 2 ^ 32" using lt by (cases "a < b") auto
  then show "ptr_diff b a = b - a" using assms(2) by (simp add: ptr_diff_def nat_diff_distrib)
qed

lemma core_hand_out: "core N cs P F A (block_bytes b + R) = core N cs P F (b # A) R"
  by (simp add: core_def ac_simps)

lemma apart_free:
  assumes "once (free_bytes N cs F + block_bytes (p, n) + M)" and "4 \<le> n"
    and "i < N" and "x \<in> set (F i)"
  shows "apart p x"
proof (rule ccontr)
  assume "\<not> apart p x"
  then have a: "p \<le> max p x" "max p x < p + 4" "x \<le> max p x" "max p x < x + 4"
    by (auto simp: apart_def)
  have "max p x \<in># free_bytes N cs F" using a assms(3,4) in_free_bytes [of i x F "max p x"] by simp
  moreover have "max p x \<in># block_bytes (p, n)" using a assms(2) by simp
  ultimately show False using assms(1) by (auto simp: once_union)
qed

lemma core_push:
  assumes "core N cs P F A (block_bytes (p, cs i) + R)" and "i < N"
  defines "P' \<equiv> P\<lparr>sys_mem := store_ptr p (free_lists P ! i) (sys_mem P), free_lists := (free_lists P)[i := p]\<rparr>"
  shows "push_free i p P = Inr P'" and "core N cs P' (F(i := p # F i)) A R"
    and "same_on (bytes_of A + R) (sys_mem P) (sys_mem P')"
proof -
  show "push_free i p P = Inr P'" using assms(1,2) by (simp add: push_free_def P'_def core_def chains_def)
  have n: "4 \<le> cs i" by (rule cs_ge)
  have o: "once (free_bytes N cs F + block_bytes (p, cs i) + (R + bytes_of A))"
    using core_once [OF assms(1)] by (simp add: ac_simps)
  have p: "0 < p" "p < 2 ^ 32"
    using core_addr [OF assms(1), of p] n by auto
  have ap: "\<forall>x \<in> set (F j). apart p x" if "j < N" for j
    using apart_free [OF o n that] by blast
  show "core N cs P' (F(i := p # F i)) A R"
    using assms(1,2) p ap core_head(1) [OF assms(1,2)]
    by (auto simp: core_def chains_def P'_def chain_store load_store_same nth_list_update free_bytes_push ac_simps)
  show "same_on (bytes_of A + R) (sys_mem P) (sys_mem P')"
    unfolding P'_def using o n
    by (auto simp: once_union intro!: same_on_store [of p "cs i"])
qed

lemma core_pop:
  assumes "core N cs P F A R" and "i < N" and "free_lists P ! i \<noteq> 0"
  shows "core N cs (P\<lparr>free_lists := (free_lists P)[i := load_ptr (sys_mem P) (free_lists P ! i)]\<rparr>)
    (F(i := tl (F i))) ((free_lists P ! i, cs i) # A) R"
proof -
  obtain xs where xs: "F i = free_lists P ! i # xs"
    using assms core_head(2) [OF assms(1,2)] by (cases "F i") (auto simp: core_def chains_def)
  then have "free_bytes N cs F = block_bytes (free_lists P ! i, cs i) + free_bytes N cs (F(i := xs))"
    by (rule free_bytes_pop [OF assms(2)])
  moreover have "chain (sys_mem P) (free_lists P ! i) (F i)"
    using assms(1,2) by (auto simp: core_def chains_def)
  ultimately show ?thesis
    using assms xs by (auto simp: core_def chains_def nth_list_update ac_simps)
qed

lemma core_malloc:
  assumes "core N cs P F A R" and "malloc_law mal" and "c_malloc mal n P = (q, P')"
  shows "q = 0 \<Longrightarrow> P' = P\<lparr>sys_tick := Suc (sys_tick P)\<rparr>"
    and "q \<noteq> 0 \<Longrightarrow> core N cs (P'\<lparr>pool_buffers := pool_buffers P @ [(q, n)]\<rparr>) F A (R + block_bytes (q, n))"
    and "q \<noteq> 0 \<Longrightarrow> P' = P\<lparr>sys_tick := Suc (sys_tick P), sys_live := (q, n) # sys_live P\<rparr>"
    and "q \<noteq> 0 \<Longrightarrow> core N cs P' F A R \<and> 0 < q \<and> q + n < 2 ^ 32"
proof -
  have q: "q = mal (sys_tick P) (sys_live P) n" using assms(3) by (auto simp: c_malloc_def Let_def)
  show "q = 0 \<Longrightarrow> P' = P\<lparr>sys_tick := Suc (sys_tick P)\<rparr>"
    and *: "q \<noteq> 0 \<Longrightarrow> P' = P\<lparr>sys_tick := Suc (sys_tick P), sys_live := (q, n) # sys_live P\<rparr>"
    using assms(3) by (auto simp: c_malloc_def Let_def)
  have f: "fresh_block (sys_live P) q n" if "q \<noteq> 0"
    using assms(2) that unfolding q malloc_law_def by (metis (no_types))
  have live: "live_ok ((q, n) # sys_live P)" if "q \<noteq> 0"
    using assms(1) f [OF that] fresh_block_disjoint [OF f [OF that]]
    by (auto simp: live_ok_def core_def once_union fresh_block_def)
  show "core N cs (P'\<lparr>pool_buffers := pool_buffers P @ [(q, n)]\<rparr>) F A (R + block_bytes (q, n))" if "q \<noteq> 0"
    using assms(1) live [OF that] unfolding * [OF that] by (auto simp: core_def chains_def ac_simps)
  have "mset (pool_buffers P) \<subseteq># add_mset (q, n) (mset (sys_live P))"
    using assms(1) subset_mset.add_increasing [of "{#(q, n)#}" "mset (pool_buffers P)" "mset (sys_live P)"] by (simp add: core_def)
  then show "core N cs P' F A R \<and> 0 < q \<and> q + n < 2 ^ 32" if "q \<noteq> 0"
    using assms(1) live [OF that] f [OF that] unfolding * [OF that] by (auto simp: core_def chains_def fresh_block_def)
qed


lemma malloc_pool_grown:
  assumes "core N cs P F A {#}" and "malloc_law mal" and "start_free P = 0" and "end_free P = 0"
  shows "\<exists>r P'. malloc_pool_allocate mal fns n P = Some (r, P') \<and> grown N cs mal P n F A r P'"
proof -
  obtain q P' where m: "c_malloc mal n P = (q, P')" by fastforce
  show ?thesis
  proof (cases "q = 0")
    case True
    have oom: "sys_oom P = None" using assms(1) by (simp add: core_def)
    with True m core_malloc(1) [OF assms(1,2) m] assms show ?thesis
      by (simp add: malloc_pool_allocate_def out_of_malloc.simps grown_def)
  next
    case False
    with m core_malloc(2,3,4) [OF assms(1,2) m] show ?thesis
      by (simp add: malloc_pool_allocate_def grown_def)
  qed
qed

lemma chunk_source_grown:
  assumes "core N cs P F A {#}" and "malloc_law mal"
  shows "\<exists>r P'. chunk_source mal fns n P = Some (r, P') \<and> grown N cs mal P n F A r P'"
proof -
  obtain q P' where m: "c_malloc mal n P = (q, P')" by fastforce
  show ?thesis
  proof (cases "q = 0")
    case True
    let ?P = "P'\<lparr>start_free := 0, end_free := 0\<rparr>"
    have P': "P' = P\<lparr>sys_tick := Suc (sys_tick P)\<rparr>" using core_malloc(1) [OF assms m] True by simp
    have "core N cs ?P F A {#}" using assms(1) by (simp add: P')
    from malloc_pool_grown [OF this assms(2), of fns n] obtain r P2
      where "malloc_pool_allocate mal fns n ?P = Some (r, P2)" "grown N cs mal ?P n F A r P2" by auto
    then show ?thesis using m True by (cases r) (auto simp: chunk_source_def Let_def grown_def P')
  next
    case False
    with core_malloc(2,3,4) [OF assms m] have "grown N cs mal P n F A (Inr q) (P'\<lparr>start_free := q\<rparr>)"
      by (simp add: grown_def core_def chains_def)
    then show ?thesis using m False by (simp add: chunk_source_def Let_def)
  qed
qed

lemma bytes_of_nodes: "bytes_of (class_blocks cs i (nodes c (cs i) k)) = block_bytes (c, cs i * k)"
proof (induction k arbitrary: c)
  case 0
  then show ?case by (simp add: class_blocks_def)
next
  case (Suc k)
  then show ?case
    using block_bytes_split [of c "cs i" "cs i * k"] by (simp add: class_blocks_def)
qed

lemma core_link:
  assumes "core N cs P F ((p, cs i * Suc (Suc k)) # A) S" and "i < N" and "F i = []"
  defines "c \<equiv> p + cs i"
  defines "P' \<equiv> P\<lparr>free_lists := (free_lists P)[i := c],
    sys_mem := link_nodes (cs i) (Suc k) 1 c (sys_mem P)\<rparr>"
  shows "core N cs P' (F(i := nodes c (cs i) (Suc k))) ((p, cs i) # A) S \<and>
    same_on (bytes_of A) (sys_mem P) (sys_mem P')"
proof -
  let ?n = "cs i"
  let ?m = "link_nodes ?n (Suc k) 1 c (sys_mem P)"
  define w where "w = ?n * Suc k"
  have inv: "core N cs P F ((p, ?n + w) # A) S" using assms(1) by (simp add: w_def)
  have bb: "block_bytes (p, ?n + w) = block_bytes (p, ?n) + block_bytes (c, w)"
    by (simp add: block_bytes_split c_def)
  have once: "once (free_bytes N cs F + S + (block_bytes (p, ?n) + block_bytes (c, w) + bytes_of A))"
    using core_once [OF inv] by (simp add: bb)
  have n: "4 \<le> ?n" "0 < w" using cs_ge [of i] by (auto simp: w_def)
  then have "c \<in># block_bytes (c, w)" "c + w - 1 \<in># block_bytes (c, w)" by auto
  then have "0 < c \<and> c < 2 ^ 32" "c + w - 1 < 2 ^ 32"
    using core_addr [OF inv, of c] core_addr [OF inv, of "c + w - 1"] by (auto simp: bb)
  with link_nodes_chain [of 1 k "Suc k" ?n c "sys_mem P"] n
  have ch: "chain ?m c (nodes c ?n (Suc k))"
    and out: "\<And>a. a \<notin># block_bytes (c, w) \<Longrightarrow> ?m a = sys_mem P a"
    unfolding w_def [symmetric] by (auto simp del: nodes.simps)
  have dis: "?m a = sys_mem P a" if "a \<in># free_bytes N cs F + bytes_of A" for a
    using once that by (intro out) (auto simp: once_union)
  have chains: "chain ?m (free_lists P ! j) (F j)" if "j < N" for j
  proof -
    have "chain ?m (free_lists P ! j) (F j) = chain (sys_mem P) (free_lists P ! j) (F j)"
      using in_free_bytes [of j _ F] that by (intro chain_frame dis) auto
    then show ?thesis using inv that by (simp add: core_def chains_def)
  qed
  have "free_bytes N cs (F(i := nodes c ?n (Suc k))) = block_bytes (c, w) + free_bytes N cs F"
    using assms(2,3) bytes_of_nodes [of i c "Suc k"]
    by (simp add: free_bytes_split [of i] class_blocks_def w_def del: nodes.simps)
  moreover have "free_bytes N cs F + S + (block_bytes (p, ?n) + block_bytes (c, w) + bytes_of A) = bytes_of (pool_buffers P)"
    using inv by (simp add: core_def bb)
  ultimately have "core N cs P' (F(i := nodes c ?n (Suc k))) ((p, ?n) # A) S"
    using inv ch chains assms(2) unfolding core_def P'_def
    by (auto simp: chains_def nth_list_update ac_simps simp del: nodes.simps)
  moreover have "same_on (bytes_of A) (sys_mem P) (sys_mem P')"
    using dis by (simp add: same_on_def P'_def)
  ultimately show ?thesis by simp
qed

lemma core_mem:
  assumes "core N cs P F A R" and "\<And>a. a \<notin># bytes_of A \<Longrightarrow> m a = sys_mem P a"
  shows "core N cs (P\<lparr>sys_mem := m\<rparr>) F A R"
proof -
  have "chain m (free_lists P ! j) (F j) = chain (sys_mem P) (free_lists P ! j) (F j)" if "j < N" for j
  proof (rule chain_frame)
    fix a x assume "x \<in> set (F j)" "x \<le> a" "a < x + 4"
    then have "a \<in># free_bytes N cs F" using in_free_bytes [of j x F a] that by simp
    then have "a \<notin># bytes_of A" using core_once [OF assms(1)] by (auto simp: once_union)
    then show "m a = sys_mem P a" by (rule assms(2))
  qed
  then show ?thesis using assms(1) by (simp add: core_def chains_def)
qed

end

end
