(* ===== verification/Mem_Pool.thy ===== *)
theory Mem_Pool
  imports Mem_Blocks
begin

text \<open>
  \<open>include/memory_pool/sgi_memory_pool.hpp\<close>: the pool of small blocks, for the allocation traits
  \<open>malloc_traits_t\<close> and \<open>__MAX_BYTES = 256\<close>, the parameters of every pool the repository
  declares by default. A free block holds the address of the next free block in its first four
  bytes (\<open>union obj\<close>). The pool's lock makes each operation one step.
\<close>

section \<open>Constants and sizes\<close>

definition ALIGN :: nat where "ALIGN = 8"
definition MAX_BYTES :: nat where "MAX_BYTES = 256"
definition NUM_FREE_LISTS :: nat where "NUM_FREE_LISTS = MAX_BYTES div ALIGN"
definition NUM_NODE :: nat where "NUM_NODE = 20"

definition ROUNDUP :: "u32 \<Rightarrow> u32" where
  "ROUNDUP bytes = (bytes + 8 - 1) AND NOT (8 - 1)"

definition FREELISTINDEX :: "u32 \<Rightarrow> u32" where
  "FREELISTINDEX bytes = (bytes + 8 - 1) div 8 - 1"

section \<open>Operations\<close>

definition sgi_memory_pool_init :: "sys \<Rightarrow> pool" where
  "sgi_memory_pool_init s =
    \<lparr>sys_mem = sys_mem s, sys_live = sys_live s, sys_tick = sys_tick s,
     sys_oom = sys_oom s, start_free = 0, end_free = 0, heap_size = 0, pool_buffers = [],
     buffers_reserved = NUM_FREE_LISTS,
     free_lists = replicate NUM_FREE_LISTS 0\<rparr>"

definition size_to_get :: "nat \<Rightarrow> pool \<Rightarrow> nat" where
  "size_to_get szTotal P = size_t (2 * szTotal + unat (ROUNDUP (drop_bit 4 (of_nat (heap_size P)))))"

text \<open>
  \<open>chunk_alloc\<close> returns the chunk and the updated \<open>nObjs\<close>. When \<open>malloc\<close> fails it is tried again
  through \<open>malloc_pool\<close>, which throws when there is no handler. The pool grows and starts again.
\<close>

partial_function (option) chunk_alloc ::
    "malloc_fn \<Rightarrow> vector_fn \<Rightarrow> pool_fns \<Rightarrow> nat \<Rightarrow> nat \<Rightarrow> pool \<Rightarrow> (addr \<times> nat) pool_op" where
  "chunk_alloc mal vec fns sz nObjs P =
    (let szTotal = size_t (sz * nObjs);
         szLeft = ptr_diff (end_free P) (start_free P)
     in if szLeft \<ge> szTotal
        then Some (Inr (start_free P, nObjs), P\<lparr>start_free := size_t (start_free P + szTotal)\<rparr>)
        else if szLeft \<ge> sz
        then let n = szLeft div sz
             in Some (Inr (start_free P, n), P\<lparr>start_free := size_t (start_free P + size_t (sz * n))\<rparr>)
        else
          case (if szLeft > 0 then push_free (unat (FREELISTINDEX (of_nat szLeft))) (start_free P) P
                else Inr P) of
            Inl e \<Rightarrow> Some (Inl e, P)
          | Inr P1 \<Rightarrow>
              let szGet = size_to_get szTotal P1
              in case chunk_source mal fns szGet P1 of
                   None \<Rightarrow> None
                 | Some (Inl e, P2) \<Rightarrow> Some (Inl e, P2)
                 | Some (Inr q, P2) \<Rightarrow>
                     (case add_chunk vec q szGet P2 of
                        (Inl e, P3) \<Rightarrow> Some (Inl e, P3)
                      | (Inr u, P3) \<Rightarrow> chunk_alloc mal vec fns sz nObjs P3))"

definition re_fill :: "malloc_fn \<Rightarrow> vector_fn \<Rightarrow> pool_fns \<Rightarrow> nat \<Rightarrow> pool \<Rightarrow> addr pool_op" where
  "re_fill mal vec fns n P =
    (case chunk_alloc mal vec fns n NUM_NODE P of
       None \<Rightarrow> None
     | Some (Inl e, P) \<Rightarrow> Some (Inl e, P)
     | Some (Inr (pChunk, nObjs), P) \<Rightarrow>
         if nObjs = 1 then Some (Inr pChunk, P)
         else
           let i = unat (FREELISTINDEX (of_nat n))
           in if i < NUM_FREE_LISTS
              then Some (Inr pChunk,
                     P\<lparr>free_lists := (free_lists P)[i := size_t (pChunk + n)],
                       sys_mem := link_nodes n (nObjs - 1) 1 (size_t (pChunk + n)) (sys_mem P)\<rparr>)
              else Some (Inl Access_violation, P))"

definition pool_allocate :: "malloc_fn \<Rightarrow> vector_fn \<Rightarrow> pool_fns \<Rightarrow> u32 \<Rightarrow> pool \<Rightarrow> addr pool_op" where
  "pool_allocate mal vec fns n P =
    (if unat n > MAX_BYTES then malloc_pool_allocate mal fns (unat n) P
     else
       let i = unat (FREELISTINDEX n)
       in if i < NUM_FREE_LISTS
          then let pResult = free_lists P ! i
               in if pResult = 0 then re_fill mal vec fns (unat (ROUNDUP n)) P
                  else Some (Inr pResult, P\<lparr>free_lists := (free_lists P)[i := load_ptr (sys_mem P) pResult]\<rparr>)
          else Some (Inl Access_violation, P))"

definition pool_deallocate :: "addr \<Rightarrow> u32 \<Rightarrow> pool \<Rightarrow> pool result" where
  "pool_deallocate p n P =
    (if unat n > MAX_BYTES then malloc_pool_deallocate p (unat n) P
     else push_free (unat (FREELISTINDEX n)) p P)"

definition pool_reallocate :: "malloc_fn \<Rightarrow> vector_fn \<Rightarrow> pool_fns \<Rightarrow> addr \<Rightarrow> u32 \<Rightarrow> u32 \<Rightarrow> pool \<Rightarrow> addr pool_op" where
  "pool_reallocate mal vec fns p szOld szNew P =
    (if unat szOld > MAX_BYTES \<and> unat szNew > MAX_BYTES
     then malloc_pool_reallocate mal fns p (unat szOld) (unat szNew) P
     else if ROUNDUP szOld = ROUNDUP szNew then Some (Inr p, P)
     else
       case pool_allocate mal vec fns szNew P of
         None \<Rightarrow> None
       | Some (Inl e, P) \<Rightarrow> Some (Inl e, P)
       | Some (Inr pResult, P) \<Rightarrow>
           let szcopy = (if szNew > szOld then szOld else szNew);
               P = P\<lparr>sys_mem := mem_copy pResult p (unat szcopy) (sys_mem P)\<rparr>
           in case pool_deallocate p szOld P of
                Inl e \<Rightarrow> Some (Inl e, P)
              | Inr P \<Rightarrow> Some (Inr pResult, P))"

section \<open>Size classes\<close>

lemma unat_and_not_7: "unat ((w::u32) AND NOT 7) = unat w div 8 * 8"
proof -
  have "(w AND NOT (mask 3)) + take_bit 3 w = (w AND NOT (mask 3)) OR take_bit 3 w"
    by (rule disjunctive_add) (auto simp: bit_simps)
  also have "\<dots> = w" by (rule bit_word_eqI) (auto simp: bit_simps)
  finally have "w AND NOT 7 = w - take_bit 3 w"
    by (simp add: mask_eq_exp_minus_1 algebra_simps)
  moreover have t: "unat (take_bit 3 w) = unat w mod 8"
    by (simp only: unsigned_take_bit_eq) (simp add: take_bit_eq_mod)
  ultimately have "unat (w AND NOT 7) = unat w - unat w mod 8"
    by (simp only: unat_sub word_le_nat_alt t mod_less_eq_dividend)
  then show ?thesis by (simp add: minus_mod_eq_div_mult)
qed

lemma unat_plus_7: "unat (n :: u32) + 7 < 2 ^ 32 \<Longrightarrow> unat (n + 8 - 1) = unat n + 7"
proof -
  assume a: "unat n + 7 < 2 ^ 32"
  have "n + 8 - 1 = n + 7" by simp
  moreover have "unat (n + 7) = unat n + 7" using a unat_add_u32 [of n 7] by simp
  ultimately show ?thesis by (simp only:)
qed

lemma unat_ROUNDUP: "unat n + 7 < 2 ^ 32 \<Longrightarrow> unat (ROUNDUP n) = (unat n + 7) div 8 * 8"
  unfolding ROUNDUP_def using unat_and_not_7 [of "n + 8 - 1"] by (simp only: unat_plus_7) simp

lemma unat_FREELISTINDEX:
  assumes "0 < unat n" and "unat n + 7 < 2 ^ 32"
  shows "unat (FREELISTINDEX n) = (unat n + 7) div 8 - 1"
proof -
  have d: "unat ((n + 8 - 1) div 8) = (unat n + 7) div 8"
    by (simp only: unat_div unat_plus_7 [OF assms(2)]) simp
  have "1 \<le> (n + 8 - 1) div 8"
    unfolding word_le_nat_alt d using assms(1) by simp
  then show ?thesis unfolding FREELISTINDEX_def by (simp only: unat_sub d) simp
qed

lemmas pool_consts = ALIGN_def MAX_BYTES_def NUM_FREE_LISTS_def NUM_NODE_def

text \<open>The size of the blocks in free list number \<open>i\<close>.\<close>

definition class_size :: "nat \<Rightarrow> nat" where
  "class_size i = 8 * Suc i"

lemma small_size:
  assumes "0 < unat n" and "unat n \<le> MAX_BYTES"
  shows "unat (FREELISTINDEX n) < NUM_FREE_LISTS"
    and "unat (ROUNDUP n) = class_size (unat (FREELISTINDEX n))"
    and "unat n \<le> unat (ROUNDUP n)" and "unat (ROUNDUP n) < unat n + 8"
proof -
  have b: "unat n + 7 < 2 ^ 32" using assms(2) by (simp add: pool_consts)
  note u = unat_FREELISTINDEX [OF assms(1) b] unat_ROUNDUP [OF b]
  have d: "1 \<le> (unat n + 7) div 8" "(unat n + 7) div 8 \<le> 32"
    using assms by (auto simp: pool_consts)
  show "unat (FREELISTINDEX n) < NUM_FREE_LISTS" using d by (simp add: u pool_consts)
  show "unat (ROUNDUP n) = class_size (unat (FREELISTINDEX n))" using d by (simp add: u class_size_def)
  show "unat n \<le> unat (ROUNDUP n)" "unat (ROUNDUP n) < unat n + 8" unfolding u by linarith+
qed

lemma class_index:
  assumes "i < NUM_FREE_LISTS"
  shows "unat (FREELISTINDEX (of_nat (class_size i))) = i"
proof -
  have "class_size i \<le> 256" using assms by (simp add: class_size_def pool_consts)
  moreover from this have "unat (of_nat (class_size i) :: u32) = class_size i"
    by (intro unat_of_nat_u32) simp
  ultimately have "unat (FREELISTINDEX (of_nat (class_size i))) = (class_size i + 7) div 8 - 1"
    using unat_FREELISTINDEX [of "of_nat (class_size i)"] by (simp add: class_size_def)
  then show ?thesis by (simp add: class_size_def)
qed

section \<open>The invariant\<close>

interpretation sgi_classes: size_classes NUM_FREE_LISTS class_size
  by unfold_locales (simp add: class_size_def)

abbreviation sgi_core :: "pool \<Rightarrow> (nat \<Rightarrow> addr list) \<Rightarrow> block list \<Rightarrow> addr multiset \<Rightarrow> bool" where
  "sgi_core \<equiv> core NUM_FREE_LISTS class_size"

lemmas core_once = sgi_classes.core_once
  and core_addr = sgi_classes.core_addr
  and core_head = sgi_classes.core_head
  and core_upd [simp] = sgi_classes.core_upd
  and core_hand_out = sgi_classes.core_hand_out
  and core_push = sgi_classes.core_push
  and core_pop = sgi_classes.core_pop
  and core_link = sgi_classes.core_link
  and core_mem = sgi_classes.core_mem
  and chunk_source_grown = sgi_classes.chunk_source_grown

definition pool_inv :: "pool \<Rightarrow> (nat \<Rightarrow> addr list) \<Rightarrow> block list \<Rightarrow> bool" where
  "pool_inv P F A \<longleftrightarrow> sgi_core P F A (block_bytes (start_free P, end_free P - start_free P)) \<and>
     start_free P \<le> end_free P \<and> (end_free P - start_free P) mod 8 = 0"

text \<open>
  When \<open>push_back\<close> on \<open>buffers_\<close> fails, which takes more buffers than were reserved, the pool is only left
  well formed but for its two pointers.
\<close>

definition pool_torn :: "vector_fn \<Rightarrow> pool \<Rightarrow> pool \<Rightarrow> (nat \<Rightarrow> addr list) \<Rightarrow> block list \<Rightarrow> bool" where
  "pool_torn vec P P' F A \<longleftrightarrow> buffers_reserved P \<le> length (pool_buffers P) \<and>
     (\<exists>t. \<not> vec t (length (pool_buffers P))) \<and> pool_inv (P'\<lparr>start_free := 0, end_free := 0\<rparr>) F A"

section \<open>Correctness of the chunk allocator\<close>

lemma pool_left:
  assumes "pool_inv P F A"
  shows "ptr_diff (end_free P) (start_free P) = end_free P - start_free P"
    and "0 < b \<Longrightarrow> b \<le> end_free P - start_free P \<Longrightarrow> size_t (start_free P + b) = start_free P + b \<and> size_t b = b"
proof -
  have c: "sgi_core P F A (block_bytes (start_free P, end_free P - start_free P) + {#})" "start_free P \<le> end_free P"
    using assms by (simp_all add: pool_inv_def)
  show "ptr_diff (end_free P) (start_free P) = end_free P - start_free P" by (rule sgi_classes.core_span(1) [OF c])
  show "size_t (start_free P + b) = start_free P + b \<and> size_t b = b" if "0 < b" "b \<le> end_free P - start_free P"
  proof -
    have "end_free P < 2 ^ 32" using sgi_classes.core_span(2) [OF c] that by simp
    then show ?thesis using that by (simp add: size_t_def)
  qed
qed

lemma chunk_fits:
  assumes "pool_inv P F A" and "sz mod 8 = 0" and "sz * n \<le> end_free P - start_free P" and "0 < sz * n"
  shows "pool_inv (P\<lparr>start_free := size_t (start_free P + size_t (sz * n))\<rparr>) F ((start_free P, sz * n) # A)"
proof -
  define b where "b = sz * n"
  define l where "l = end_free P - start_free P - b"
  have b: "end_free P - start_free P = b + l" using assms(3) by (simp add: l_def b_def)
  have e: "end_free P - (start_free P + b) = l" by (simp add: l_def)
  have s: "size_t (start_free P + size_t b) = start_free P + b"
    using pool_left(2) [OF assms(1), of b] assms(3,4) by (simp add: b_def)
  have "8 dvd b" using assms(2) by (auto simp: b_def)
  moreover have "8 dvd b + l" unfolding b [symmetric] using assms(1) by (auto simp: pool_inv_def)
  ultimately have "8 dvd l" using dvd_add_right_iff by blast
  moreover have "sgi_core P F A (block_bytes (start_free P, b) + block_bytes (start_free P + b, l))"
    using assms(1) by (simp only: pool_inv_def b block_bytes_split)
  moreover have "start_free P + b \<le> end_free P"
    using assms(1,3) unfolding pool_inv_def b_def by linarith
  ultimately show ?thesis
    unfolding b_def [symmetric] by (simp add: pool_inv_def s e core_hand_out)
qed

text \<open>
  The result of \<open>chunk_alloc\<close> for class \<open>i\<close>: a chunk of \<open>k\<close> blocks, or \<open>bad_alloc\<close> and an intact pool,
  unless the vector of buffers could not grow.
\<close>

definition chunk_post :: "vector_fn \<Rightarrow> nat \<Rightarrow> nat \<Rightarrow> pool \<Rightarrow> block list \<Rightarrow> (addr \<times> nat) result \<Rightarrow> pool \<Rightarrow> (nat \<Rightarrow> addr list) \<Rightarrow> bool" where
  "chunk_post vec i nObjs P A r P' F' \<longleftrightarrow> F' i = [] \<and> same_on (bytes_of A) (sys_mem P) (sys_mem P') \<and>
    (case r of
       Inr (p, k) \<Rightarrow> 1 \<le> k \<and> k \<le> nObjs \<and> pool_inv P' F' ((p, class_size i * k) # A)
     | Inl e \<Rightarrow> e = Bad_alloc \<and> (pool_inv P' F' A \<or> pool_torn vec P P' F' A))"

lemma chunk_alloc_enough:
  assumes "pool_inv P F A" and "F i = []" and "0 < nObjs"
    and "class_size i * nObjs \<le> end_free P - start_free P"
  shows "\<exists>r P'. chunk_alloc mal vec fns (class_size i) nObjs P = Some (Inr r, P') \<and> chunk_post vec i nObjs P A (Inr r) P' F"
proof -
  have c: "class_size i mod 8 = 0" "0 < class_size i * nObjs" using assms(3) by (simp_all add: class_size_def)
  have "size_t (class_size i * nObjs) = class_size i * nObjs" using pool_left(2) [OF assms(1) c(2) assms(4)] by simp
  with chunk_fits [OF assms(1) c(1) assms(4) c(2)] assms show ?thesis
    by (subst chunk_alloc.simps) (simp add: chunk_post_def pool_left(1) [OF assms(1)])
qed

text \<open>The sizes of this pool do not overflow.\<close>

lemma class_total:
  assumes "i < NUM_FREE_LISTS" and "n \<le> NUM_NODE"
  shows "class_size i * n \<le> 5120" and "size_t (class_size i * n) = class_size i * n"
proof -
  have "class_size i * n \<le> 256 * 20"
    using assms by (intro mult_le_mono) (auto simp: class_size_def pool_consts)
  then show "class_size i * n \<le> 5120" "size_t (class_size i * n) = class_size i * n" by (simp_all add: size_t_def)
qed

lemma heap_sixteenth: "unat (ROUNDUP (drop_bit 4 (of_nat h))) mod 8 = 0" "unat (ROUNDUP (drop_bit 4 (of_nat h))) \<le> 2 ^ 28"
proof -
  let ?h = "drop_bit 4 (of_nat h) :: u32"
  have "unat ?h = unat (of_nat h :: u32) div 16"
    by (simp only: unat_drop_bit_eq) (simp add: drop_bit_eq_div)
  then have "unat ?h < 2 ^ 28" using unat_u32_lt [of "of_nat h"] by simp
  moreover from this have "unat (ROUNDUP ?h) = (unat ?h + 7) div 8 * 8" by (simp add: unat_ROUNDUP)
  ultimately show "unat (ROUNDUP ?h) mod 8 = 0" "unat (ROUNDUP ?h) \<le> 2 ^ 28" by simp_all
qed

lemma size_to_get_exact:
  assumes "szTotal \<le> 5120"
  shows "size_to_get szTotal P = 2 * szTotal + unat (ROUNDUP (drop_bit 4 (of_nat (heap_size P))))"
  using assms heap_sixteenth(2) [of "heap_size P"] by (simp add: size_to_get_def size_t_def)

lemma size_to_get_mod: "szTotal \<le> 5120 \<Longrightarrow> szTotal mod 8 = 0 \<Longrightarrow> size_to_get szTotal P mod 8 = 0"
  and size_to_get_ge: "szTotal \<le> 5120 \<Longrightarrow> szTotal \<le> size_to_get szTotal P"
  using heap_sixteenth(1) [of "heap_size P"] by (auto simp: size_to_get_exact mod_0_imp_dvd)

lemma push_left:
  assumes "pool_inv P F A" and "i < NUM_FREE_LISTS" and "end_free P - start_free P < class_size i" and "F i = []"
  shows "\<exists>P1 F1. (if end_free P - start_free P > 0
        then push_free (unat (FREELISTINDEX (of_nat (end_free P - start_free P)))) (start_free P) P
        else Inr P) = Inr P1 \<and>
      sgi_core P1 F1 A {#} \<and> F1 i = [] \<and> same_on (bytes_of A) (sys_mem P) (sys_mem P1) \<and>
      buffers_reserved P1 = buffers_reserved P \<and> pool_buffers P1 = pool_buffers P"
proof (cases "end_free P - start_free P > 0")
  case False
  with assms show ?thesis by (auto simp: pool_inv_def intro!: exI [of _ F])
next
  case True
  define j where "j = (end_free P - start_free P) div 8 - 1"
  have "8 dvd end_free P - start_free P" using assms(1) by (auto simp: pool_inv_def)
  then have left: "end_free P - start_free P = class_size j" and j: "j < i"
    using True assms(3) by (auto simp: j_def class_size_def elim!: dvdE)
  have inv: "sgi_core P F A (block_bytes (start_free P, class_size j) + {#})"
    using assms(1) by (simp add: pool_inv_def left)
  have "j < NUM_FREE_LISTS" using j assms(2) by simp
  note push = core_push [OF inv this] and idx = class_index [OF this]
  show ?thesis
    using push j assms(4) True unfolding left idx
    by (auto intro!: exI [of _ "F(j := start_free P # F j)"])
qed

text \<open>Recording a new buffer of the pool.\<close>

lemma add_chunk_grown:
  assumes g: "grown NUM_FREE_LISTS class_size mal P n F A (Inr q) P2" and "n mod 8 = 0"
  shows "case add_chunk vec q n P2 of
      (Inr u, P3) \<Rightarrow> pool_inv P3 F A \<and> end_free P3 - start_free P3 = n \<and> sys_mem P3 = sys_mem P
    | (Inl e, P3) \<Rightarrow> e = Bad_alloc \<and> pool_torn vec P P3 F A \<and> sys_mem P3 = sys_mem P"
proof -
  have q: "size_t (q + n) = q + n" using g by (simp add: grown_def size_t_def)
  show ?thesis
  proof (cases "length (pool_buffers P2) < buffers_reserved P2 \<or> vec (sys_tick P2) (length (pool_buffers P2))")
    case True
    then show ?thesis using g assms(2) q by (auto simp: add_chunk_def Let_def grown_def pool_inv_def core_def chains_def)
  next
    case False
    then show ?thesis
      using g by (auto simp: add_chunk_def Let_def grown_def pool_torn_def pool_inv_def core_def chains_def)
  qed
qed

lemma pool_torn_before:
  "pool_torn vec P1 P' F A \<Longrightarrow> buffers_reserved P1 = buffers_reserved P \<Longrightarrow> pool_buffers P1 = pool_buffers P \<Longrightarrow>
   pool_torn vec P P' F A"
  by (simp add: pool_torn_def)

lemma chunk_alloc_correct:
  assumes "pool_inv P F A" and "malloc_law mal" and "i < NUM_FREE_LISTS" and "F i = []" and "0 < nObjs" and "nObjs \<le> NUM_NODE"
  shows "\<exists>r P' F'. chunk_alloc mal vec fns (class_size i) nObjs P = Some (r, P') \<and> chunk_post vec i nObjs P A r P' F'"
proof -
  let ?sz = "class_size i" and ?left = "end_free P - start_free P"
  have sz: "?sz mod 8 = 0" "0 < ?sz" "?sz * nObjs mod 8 = 0" by (simp_all add: class_size_def mod_mult_left_eq [symmetric])
  note total = class_total [OF assms(3,6)] and left = pool_left(1) [OF assms(1)]
  consider (fits) "?sz * nObjs \<le> ?left" | (some) "?left < ?sz * nObjs" "?sz \<le> ?left" | (grow) "?left < ?sz" "?left < ?sz * nObjs"
    by linarith
  then show ?thesis
  proof cases
    case fits
    then show ?thesis using chunk_alloc_enough [of P F A i nObjs] assms by blast
  next
    case some
    let ?k = "?left div ?sz"
    have k: "1 \<le> ?k" "?k \<le> nObjs" "?sz * ?k \<le> ?left"
      using some sz by (auto simp: less_eq_div_iff_mult_less_eq div_le_mono)
        (metis less_imp_le_nat mult.commute less_mult_imp_div_less)
    then have "0 < ?sz * ?k" using sz(2) by simp
    with chunk_fits [OF assms(1) sz(1) k(3)] k some assms(4) total(2) show ?thesis
      by (subst chunk_alloc.simps) (simp add: chunk_post_def Let_def left, blast)
  next
    case grow
    obtain P1 F1 where p1: "(if ?left > 0 then push_free (unat (FREELISTINDEX (of_nat ?left))) (start_free P) P else Inr P) = Inr P1"
      and c1: "sgi_core P1 F1 A {#}" "F1 i = []" "same_on (bytes_of A) (sys_mem P) (sys_mem P1)"
      and b1: "buffers_reserved P1 = buffers_reserved P" "pool_buffers P1 = pool_buffers P"
      using push_left [OF assms(1,3) grow(1) assms(4)] by blast
    let ?n = "size_to_get (?sz * nObjs) P1"
    obtain r P2 where p2: "chunk_source mal fns ?n P1 = Some (r, P2)" and g: "grown NUM_FREE_LISTS class_size mal P1 ?n F1 A r P2"
      using chunk_source_grown [OF c1(1) assms(2)] by blast
    have step: "chunk_alloc mal vec fns ?sz nObjs P = (case r of Inl e \<Rightarrow> Some (Inl e, P2)
        | Inr q \<Rightarrow> (case add_chunk vec q ?n P2 of (Inl e, P3) \<Rightarrow> Some (Inl e, P3) | (Inr u, P3) \<Rightarrow> chunk_alloc mal vec fns ?sz nObjs P3))"
      using grow p1 p2 total(2) by (subst chunk_alloc.simps) (auto simp: Let_def left)
    show ?thesis
    proof (cases r)
      case (Inl e)
      with step g c1 show ?thesis by (auto simp: chunk_post_def grown_def pool_inv_def)
    next
      case (Inr q)
      obtain a P3 where a: "add_chunk vec q ?n P2 = (a, P3)" by fastforce
      note added = add_chunk_grown [OF g [unfolded Inr] size_to_get_mod [OF total(1) sz(3)], of vec, unfolded a]
      show ?thesis
      proof (cases a)
        case (Inl e)
        then show ?thesis
          using step Inr added a c1 b1 \<open>r = Inr q\<close> pool_torn_before [of vec P1 P3 F1 A P] by (auto simp: chunk_post_def)
      next
        case (Inr u)
        have "?sz * nObjs \<le> end_free P3 - start_free P3" using added Inr size_to_get_ge [OF total(1)] by simp
        from chunk_alloc_enough [of P3 F1 A i nObjs mal vec fns] c1(2) assms(5) this added Inr obtain r' P'
          where "chunk_alloc mal vec fns ?sz nObjs P3 = Some (Inr r', P')" "chunk_post vec i nObjs P3 A (Inr r') P' F1" by auto
        then show ?thesis
          using step a Inr \<open>r = Inr q\<close> c1(3) added by (auto simp: chunk_post_def intro: same_on_trans)
      qed
    qed
  qed
qed

section \<open>Correctness of the pool\<close>

text \<open>
  The contract of the operations that hand out a block of class \<open>i\<close>: the block joins \<open>A\<close>, or
  \<open>bad_alloc\<close> is thrown and the pool is intact or torn; the memory of the blocks in \<open>A\<close> is untouched.
\<close>

definition alloc_post :: "vector_fn \<Rightarrow> nat \<Rightarrow> pool \<Rightarrow> block list \<Rightarrow> addr result \<Rightarrow> pool \<Rightarrow> (nat \<Rightarrow> addr list) \<Rightarrow> bool" where
  "alloc_post vec i P A r P' F' \<longleftrightarrow> same_on (bytes_of A) (sys_mem P) (sys_mem P') \<and>
    (case r of Inr p \<Rightarrow> pool_inv P' F' ((p, class_size i) # A)
      | Inl e \<Rightarrow> e = Bad_alloc \<and> (pool_inv P' F' A \<or> pool_torn vec P P' F' A))"

lemma pool_inv_link:
  assumes "pool_inv P F ((p, class_size i * Suc (Suc k)) # A)" and "i < NUM_FREE_LISTS" and "F i = []"
  defines "c \<equiv> p + class_size i"
  defines "P' \<equiv> P\<lparr>free_lists := (free_lists P)[i := c],
    sys_mem := link_nodes (class_size i) (Suc k) 1 c (sys_mem P)\<rparr>"
  shows "pool_inv P' (F(i := nodes c (class_size i) (Suc k))) ((p, class_size i) # A) \<and>
    same_on (bytes_of A) (sys_mem P) (sys_mem P')"
  using assms(1-3) core_link [of P F p i k A "block_bytes (start_free P, end_free P - start_free P)"]
  unfolding pool_inv_def c_def P'_def by (simp del: nodes.simps mult_Suc_right)

lemma re_fill_correct:
  assumes "pool_inv P F A" and "malloc_law mal" and "i < NUM_FREE_LISTS" and "F i = []"
  shows "\<exists>r P' F'. re_fill mal vec fns (class_size i) P = Some (r, P') \<and> alloc_post vec i P A r P' F'"
proof -
  obtain r P1 F1 where c: "chunk_alloc mal vec fns (class_size i) NUM_NODE P = Some (r, P1)"
    and post: "chunk_post vec i NUM_NODE P A r P1 F1"
    using chunk_alloc_correct [OF assms, of NUM_NODE vec fns] by (auto simp: pool_consts)
  show ?thesis
  proof (cases r)
    case (Inl e)
    then show ?thesis using c post by (auto simp: re_fill_def chunk_post_def alloc_post_def)
  next
    case (Inr pk)
    obtain p k where pk: "pk = (p, k)" by fastforce
    have k: "1 \<le> k" "pool_inv P1 F1 ((p, class_size i * k) # A)" "F1 i = []"
      "same_on (bytes_of A) (sys_mem P) (sys_mem P1)"
      using post Inr pk by (auto simp: chunk_post_def)
    show ?thesis
    proof (cases "k = 1")
      case True
      then show ?thesis using c Inr pk k by (auto simp: re_fill_def alloc_post_def)
    next
      case False
      then obtain k' where k': "k = Suc (Suc k')" using k(1) by (cases k; cases "k - 1") auto
      have "p + class_size i < 2 ^ 32"
        using core_addr [OF k(2) [unfolded pool_inv_def, THEN conjunct1], of "p + class_size i"] k' by (auto simp: class_size_def)
      then have "size_t (p + class_size i) = p + class_size i" by (simp add: size_t_def)
      with pool_inv_link [OF k(2) [unfolded k'] assms(3) k(3)] c Inr pk k(4) show ?thesis
        by (auto simp: re_fill_def alloc_post_def k' class_index assms(3) Let_def intro: same_on_trans simp del: nodes.simps)
    qed
  qed
qed


lemma allocate_small:
  assumes "pool_inv P F A" and "malloc_law mal" and "0 < unat n" and "unat n \<le> MAX_BYTES"
  shows "\<exists>r P' F'. pool_allocate mal vec fns n P = Some (r, P') \<and> alloc_post vec (unat (FREELISTINDEX n)) P A r P' F'"
proof -
  let ?i = "unat (FREELISTINDEX n)"
  note i = small_size [OF assms(3,4)]
  have inv: "sgi_core P F A (block_bytes (start_free P, end_free P - start_free P))"
    using assms(1) by (simp add: pool_inv_def)
  show ?thesis
  proof (cases "free_lists P ! ?i = 0")
    case True
    then have "F ?i = []" using core_head(2) [OF inv i(1)] by simp
    from re_fill_correct [OF assms(1,2) i(1) this] True i assms(4) show ?thesis
      by (simp add: pool_allocate_def Let_def)
  next
    case False
    from core_pop [OF inv i(1) False] False i assms(1,4) show ?thesis
      by (auto simp: pool_allocate_def Let_def alloc_post_def pool_inv_def)
  qed
qed

lemma deallocate_small:
  assumes "pool_inv P F ((p, unat (ROUNDUP n)) # A)" and "0 < unat n" and "unat n \<le> MAX_BYTES"
  shows "\<exists>P' F'. pool_deallocate p n P = Inr P' \<and> pool_inv P' F' A \<and>
    same_on (bytes_of A) (sys_mem P) (sys_mem P')"
proof -
  let ?i = "unat (FREELISTINDEX n)" and ?S = "block_bytes (start_free P, end_free P - start_free P)"
  note i = small_size [OF assms(2,3)]
  have "sgi_core P F A (block_bytes (p, class_size ?i) + ?S)"
    using assms(1) by (simp add: pool_inv_def core_hand_out i)
  note push = core_push [OF this i(1)]
  from push assms(1,3) show ?thesis
    by (auto simp: pool_deallocate_def pool_inv_def same_on_def intro!: exI [of _ "F(?i := p # F ?i)"])
qed

lemma pool_inv_mem:
  assumes "pool_inv P F A" and "\<And>a. a \<notin># bytes_of A \<Longrightarrow> m a = sys_mem P a"
  shows "pool_inv (P\<lparr>sys_mem := m\<rparr>) F A"
  using assms core_mem by (simp add: pool_inv_def)

lemma pool_inv_swap: "pool_inv P F (a # b # A) = pool_inv P F (b # a # A)"
  by (simp add: pool_inv_def core_def ac_simps)

lemma pool_inv_init: "live_ok (sys_live s) \<Longrightarrow> sys_oom s = None \<Longrightarrow> pool_inv (sgi_memory_pool_init s) (\<lambda>i. []) []"
  by (simp add: pool_inv_def core_def chains_def sgi_memory_pool_init_def free_bytes_def class_blocks_def)

section \<open>Properties\<close>

text \<open>
  C21. \<open>allocate\<close> of a size from 1 to 256, in a program without an out-of-memory handler: it returns a
  block of the size rounded up to 8 that is disjoint from all blocks handed out before, from the free
  blocks and from the unused space, or throws \<open>bad_alloc\<close>; the memory of the blocks handed out before is
  unchanged. The pool's invariant holds again, and no byte of the buffers is lost, except when the pool
  has used up the 32 entries reserved in \<open>buffers_\<close> and the vector cannot grow: then the free lists and the
  blocks are intact, but the pointers to the unused space are not.
\<close>

theorem pool_allocate_correct:
  assumes "pool_inv P F A" and "malloc_law mal" and "0 < unat n" and "unat n \<le> MAX_BYTES"
  shows "\<exists>r P' F'. pool_allocate mal vec fns n P = Some (r, P') \<and>
    same_on (bytes_of A) (sys_mem P) (sys_mem P') \<and>
    (case r of
       Inr p \<Rightarrow> pool_inv P' F' ((p, unat (ROUNDUP n)) # A) \<and> unat n \<le> unat (ROUNDUP n)
     | Inl e \<Rightarrow> e = Bad_alloc \<and> (pool_inv P' F' A \<or>
         buffers_reserved P \<le> length (pool_buffers P) \<and> (\<exists>t. \<not> vec t (length (pool_buffers P))) \<and>
         pool_inv (P'\<lparr>start_free := 0, end_free := 0\<rparr>) F' A))"
proof -
  note i = small_size [OF assms(3,4)]
  obtain r P' F' where "pool_allocate mal vec fns n P = Some (r, P')" "alloc_post vec (unat (FREELISTINDEX n)) P A r P' F'"
    using allocate_small [OF assms] by blast
  with i show ?thesis
    by (cases r) (auto simp: alloc_post_def pool_torn_def intro!: exI [of _ F'])
qed

text \<open>
  \<open>deallocate\<close> of a block that is handed out gives it back to the free list of its size: it
  never fails, the invariant holds without the block, and the other blocks keep their memory.
\<close>

theorem pool_deallocate_correct:
  assumes "pool_inv P F ((p, unat (ROUNDUP n)) # A)" and "0 < unat n" and "unat n \<le> MAX_BYTES"
  shows "\<exists>P' F'. pool_deallocate p n P = Inr P' \<and> pool_inv P' F' A \<and>
    same_on (bytes_of A) (sys_mem P) (sys_mem P')"
  using assms by (rule deallocate_small)


text \<open>
  C28. \<open>reallocate\<close> of a small block to a small size, in a program without an out-of-memory handler, keeps
  its content: the first \<open>min (old, new)\<close> bytes of the block returned are those of the old block, and every
  other block keeps its memory. When memory is exhausted it throws \<open>bad_alloc\<close> and the old block is intact,
  and so is the pool, unless the vector of more than 32 buffers could not grow.
\<close>

theorem pool_reallocate_correct:
  assumes "pool_inv P F ((p, unat (ROUNDUP szOld)) # A)" and "malloc_law mal"
    and "0 < unat szOld" and "unat szOld \<le> MAX_BYTES" and "0 < unat szNew" and "unat szNew \<le> MAX_BYTES"
  shows "\<exists>r P' F'. pool_reallocate mal vec fns p szOld szNew P = Some (r, P') \<and>
    same_on (bytes_of A) (sys_mem P) (sys_mem P') \<and>
    (case r of
       Inr q \<Rightarrow> pool_inv P' F' ((q, unat (ROUNDUP szNew)) # A) \<and>
         (\<forall>k. k < unat szOld \<and> k < unat szNew \<longrightarrow> sys_mem P' (q + k) = sys_mem P (p + k))
     | Inl e \<Rightarrow> e = Bad_alloc \<and> same_on (block_bytes (p, unat (ROUNDUP szOld))) (sys_mem P) (sys_mem P') \<and>
         (pool_inv P' F' ((p, unat (ROUNDUP szOld)) # A) \<or>
          buffers_reserved P \<le> length (pool_buffers P) \<and> (\<exists>t. \<not> vec t (length (pool_buffers P))) \<and>
          pool_inv (P'\<lparr>start_free := 0, end_free := 0\<rparr>) F' ((p, unat (ROUNDUP szOld)) # A)))"
proof (cases "ROUNDUP szOld = ROUNDUP szNew")
  case True
  with assms show ?thesis by (auto simp: pool_reallocate_def intro!: exI [of _ F])
next
  case False
  let ?o = "(p, unat (ROUNDUP szOld))" and ?n = "unat (ROUNDUP szNew)"
  note old = small_size [OF assms(3,4)] and new = small_size [OF assms(5,6)]
  obtain r P1 F1 where a: "pool_allocate mal vec fns szNew P = Some (r, P1)"
    and post: "alloc_post vec (unat (FREELISTINDEX szNew)) P (?o # A) r P1 F1"
    using allocate_small [OF assms(1,2,5,6)] by blast
  have same: "same_on (bytes_of A) (sys_mem P) (sys_mem P1)" "same_on (block_bytes ?o) (sys_mem P) (sys_mem P1)"
    using post by (auto simp: alloc_post_def same_on_def)
  show ?thesis
  proof (cases r)
    case (Inl e)
    then show ?thesis using a False assms(4) post same
      by (auto simp: pool_reallocate_def alloc_post_def pool_torn_def intro!: exI [of _ F1])
  next
    case (Inr q)
    define sz where "sz = unat (if szNew > szOld then szOld else szNew)"
    define P2 where "P2 = P1\<lparr>sys_mem := mem_copy q p sz (sys_mem P1)\<rparr>"
    have sz: "sz = min (unat szOld) (unat szNew)" by (auto simp: sz_def word_less_nat_alt)
    have inv1: "pool_inv P1 F1 (?o # (q, ?n) # A)"
      using post Inr new by (simp add: alloc_post_def pool_inv_swap)
    have disj: "once (block_bytes ?o + (block_bytes (q, ?n) + bytes_of A))"
      using inv1 core_once by (fastforce simp: pool_inv_def once_union)
    have "pool_inv P2 F1 (?o # (q, ?n) # A)"
      unfolding P2_def by (rule pool_inv_mem [OF inv1]) (use new(3) in \<open>auto simp: mem_copy_def sz\<close>)
    from deallocate_small [OF this assms(3,4)] obtain P3 F3 where d: "pool_deallocate p szOld P2 = Inr P3"
      "pool_inv P3 F3 ((q, ?n) # A)" "same_on (bytes_of ((q, ?n) # A)) (sys_mem P2) (sys_mem P3)" by blast
    have copied: "sys_mem P3 (q + k) = sys_mem P (p + k)" if "k < unat szOld" "k < unat szNew" for k
      using d(3) same(2) that old(3) new(3)
      by (simp add: same_on_def P2_def mem_copy_def sz)
    have "same_on (bytes_of A) (sys_mem P1) (sys_mem P2)"
      using disj new(3) unfolding once_union
      by (fastforce simp: same_on_def P2_def mem_copy_def sz)
    with d(3) same(1) have "same_on (bytes_of A) (sys_mem P) (sys_mem P3)"
      by (simp add: same_on_def)
    then show ?thesis
      using a False Inr assms(4) d copied
      by (auto simp: pool_reallocate_def P2_def sz_def Let_def)
  qed
qed


text \<open>
  The destructor gives back exactly the memory the pool obtained: every buffer is freed once,
  no other block of the heap is touched, and no invalid pointer is passed to \<open>free\<close>.
\<close>

theorem pool_clear_frees_buffers:
  assumes "pool_inv P F A"
  shows "\<exists>P'. pool_clear P = Inr P' \<and> pool_buffers P' = [] \<and>
    mset (sys_live P') = mset (sys_live P) - mset (pool_buffers P)"
proof -
  have c: "distinct (map fst (sys_live P))" "mset (pool_buffers P) \<subseteq># mset (sys_live P)"
    "\<forall>b \<in> set (sys_live P). fst b > 0"
    using assms by (auto simp: pool_inv_def core_def live_ok_def)
  from c(2,3) have "\<forall>b \<in> set (pool_buffers P). fst b \<noteq> 0"
    using mset_subset_eqD by fastforce
  from free_buffers_live [OF c(1,2) this] show ?thesis by (auto simp: pool_clear_def)
qed

section \<open>When the vector of buffers cannot grow\<close>

text \<open>
  What the pool does from then on: the pointers belong to different buffers. When the lost chunk lies above
  the old buffer, their difference wraps around, and every request is served from the lost chunk on, past
  its end, without ever asking for memory again.
\<close>

lemma torn_pool_overruns:
  assumes "end_free P < start_free P" and "start_free P < 2 ^ 32" and "size_t (sz * nObjs) \<le> 2 ^ 32 - (start_free P - end_free P)"
  shows "chunk_alloc mal vec fns sz nObjs P =
    Some (Inr (start_free P, nObjs), P\<lparr>start_free := size_t (start_free P + size_t (sz * nObjs))\<rparr>)"
proof -
  let ?d = "start_free P - end_free P"
  have d: "0 < ?d" "?d < 2 ^ 32" using assms(1,2) by auto
  have "(int (end_free P) - int (start_free P)) mod 2 ^ 32 = (2 ^ 32 + (int (end_free P) - int (start_free P))) mod 2 ^ 32" by simp
  also have "\<dots> = 2 ^ 32 - int ?d" using d assms(1) by (subst mod_pos_pos_trivial) auto
  finally have "ptr_diff (end_free P) (start_free P) = 2 ^ 32 - ?d" using d by (simp add: ptr_diff_def nat_diff_distrib)
  then show ?thesis using assms(3) by (subst chunk_alloc.simps) (simp add: Let_def)
qed

section \<open>A concrete pool\<close>

text \<open>
  One buffer of 96 bytes at address 8: two blocks of 16 bytes handed out, a free block of 16 and one of
  32 bytes, and 16 bytes unused.
\<close>

definition demo_mem :: "addr \<Rightarrow> byte" where
  "demo_mem a = (if a = 9 then 7 else if a = 25 then 9 else 0)"

definition demo_pool :: pool where
  "demo_pool = \<lparr>sys_mem = demo_mem, sys_live = [(8, 96)], sys_tick = 0, sys_oom = None, start_free = 88, end_free = 104,
     heap_size = 96, pool_buffers = [(8, 96)], buffers_reserved = NUM_FREE_LISTS,
     free_lists = (replicate NUM_FREE_LISTS 0)[1 := 40, 3 := 56]\<rparr>"

definition demo_free :: "nat \<Rightarrow> addr list" where
  "demo_free = (\<lambda>i. [])(1 := [40], 3 := [56])"

lemma demo_rounds: "unat (ROUNDUP 10) = 16" "unat (ROUNDUP 12) = 16" "unat (ROUNDUP 30) = 32"
  by (simp_all add: unat_ROUNDUP)

lemma demo_chains: "i < NUM_FREE_LISTS \<Longrightarrow> chain demo_mem ((replicate NUM_FREE_LISTS 0)[1 := 40, 3 := 56] ! i) (demo_free i)"
proof -
  have "load_ptr demo_mem 40 = 0" "load_ptr demo_mem 56 = 0"
    by (simp_all add: load_ptr_def demo_mem_def rep_u32_def)
  then show "i < NUM_FREE_LISTS \<Longrightarrow> ?thesis"
    by (auto simp: demo_free_def nth_list_update pool_consts)
qed

lemma demo_pool_inv: "pool_inv demo_pool demo_free [(8, unat (ROUNDUP 10)), (24, unat (ROUNDUP 12))]"
proof -
  have "free_bytes NUM_FREE_LISTS class_size (\<lambda>i. []) = {#}" by (simp add: free_bytes_def class_blocks_def)
  then have "free_bytes NUM_FREE_LISTS class_size demo_free = block_bytes (56, 32) + block_bytes (40, 16)"
    using sgi_classes.free_bytes_push [of 1 "\<lambda>i. []" 40] sgi_classes.free_bytes_push [of 3 "(\<lambda>i. [])(1 := [40])" 56]
    by (simp add: demo_free_def pool_consts class_size_def fun_upd_def)
  moreover have "block_bytes (8, 96) = block_bytes (8, 16) + block_bytes (24, 16) + block_bytes (40, 16) + block_bytes (56, 32) + block_bytes (88, 16)"
    using block_bytes_split [of 8 16 80] block_bytes_split [of 24 16 64] block_bytes_split [of 40 16 48] block_bytes_split [of 56 32 16]
    by (simp add: add.assoc)
  moreover have "once (block_bytes (8, 96))" by (rule once_block)
  ultimately show ?thesis
    using demo_chains by (simp add: pool_inv_def core_def chains_def demo_pool_def live_ok_def demo_rounds ac_simps)
qed

lemma demo_indices: "unat (FREELISTINDEX 10) = 1" "unat (FREELISTINDEX 30) = 3"
  by (simp_all add: unat_FREELISTINDEX)

lemma demo_allocate:
  "\<exists>P'. pool_allocate mal vec fns 10 demo_pool = Some (Inr 40, P')"
  "pool_allocate mal vec fns 30 demo_pool = Some (Inr 56, demo_pool\<lparr>free_lists := (replicate NUM_FREE_LISTS 0)[1 := 40]\<rparr>)"
proof -
  have "load_ptr demo_mem 56 = 0" by (simp add: load_ptr_def demo_mem_def rep_u32_def)
  then show "\<exists>P'. pool_allocate mal vec fns 10 demo_pool = Some (Inr 40, P')"
    "pool_allocate mal vec fns 30 demo_pool = Some (Inr 56, demo_pool\<lparr>free_lists := (replicate NUM_FREE_LISTS 0)[1 := 40]\<rparr>)"
    by (simp_all add: pool_allocate_def demo_indices demo_pool_def pool_consts Let_def list_update_swap [of 3 1] list_update_same_conv)
qed

theorem pool_allocate_correct_witness:
  "\<exists>P' F'. pool_allocate bump_malloc (\<lambda>t k. True) quiet_fns 10 demo_pool = Some (Inr 40, P') \<and>
    same_on (bytes_of [(8, 16), (24, 16)]) (sys_mem demo_pool) (sys_mem P') \<and>
    pool_inv P' F' [(40, 16), (8, 16), (24, 16)]"
proof -
  obtain P' where a: "pool_allocate bump_malloc (\<lambda>t k. True) quiet_fns 10 demo_pool = Some (Inr 40, P')"
    using demo_allocate(1) by blast
  show ?thesis
    using pool_allocate_correct [OF demo_pool_inv bump_malloc_law, of 10 "\<lambda>t k. True" quiet_fns] a
    by (auto simp: pool_consts demo_rounds)
qed

theorem pool_deallocate_correct_witness:
  "\<exists>P' F'. pool_deallocate 8 10 demo_pool = Inr P' \<and> pool_inv P' F' [(24, 16)] \<and>
    same_on (bytes_of [(24, 16)]) (sys_mem demo_pool) (sys_mem P')"
  using pool_deallocate_correct [OF demo_pool_inv] by (simp add: pool_consts demo_rounds)

theorem pool_reallocate_correct_witness:
  "\<exists>P' F'. pool_reallocate bump_malloc (\<lambda>t k. True) quiet_fns 8 10 30 demo_pool = Some (Inr 56, P') \<and>
    sys_mem P' 57 = 7 \<and> sys_mem P' 25 = 9 \<and> pool_inv P' F' [(56, 32), (24, 16)]"
proof -
  have sz: "0 < unat (10 :: u32)" "unat (10 :: u32) \<le> MAX_BYTES" "0 < unat (30 :: u32)" "unat (30 :: u32) \<le> MAX_BYTES"
    by (simp_all add: pool_consts)
  obtain r P' F' where a: "pool_reallocate bump_malloc (\<lambda>t k. True) quiet_fns 8 10 30 demo_pool = Some (r, P')"
    "same_on (bytes_of [(24, unat (ROUNDUP 12))]) (sys_mem demo_pool) (sys_mem P')"
    "\<And>q. r = Inr q \<Longrightarrow> pool_inv P' F' [(q, unat (ROUNDUP 30)), (24, unat (ROUNDUP 12))] \<and>
       (\<forall>k. k < unat (10 :: u32) \<and> k < unat (30 :: u32) \<longrightarrow> sys_mem P' (q + k) = sys_mem demo_pool (8 + k))"
    using pool_reallocate_correct [OF demo_pool_inv bump_malloc_law sz, of "\<lambda>t k. True" quiet_fns] by fastforce
  have ne: "ROUNDUP 10 \<noteq> ROUNDUP 30" using demo_rounds by auto
  define P2 where "P2 = demo_pool\<lparr>free_lists := (replicate NUM_FREE_LISTS 0)[1 := 40], sys_mem := mem_copy 56 8 10 demo_mem\<rparr>"
  have "\<exists>P3. pool_deallocate 8 10 P2 = Inr P3"
    by (simp add: pool_deallocate_def demo_indices push_free_def P2_def demo_pool_def pool_consts)
  then have r: "r = Inr 56"
    using a(1) ne demo_allocate(2) [of bump_malloc "\<lambda>t k. True" quiet_fns]
    by (auto simp: pool_reallocate_def pool_consts Let_def P2_def demo_pool_def word_less_nat_alt)
  have "sys_mem P' (56 + 1) = demo_mem (8 + 1)" "sys_mem P' 25 = demo_mem 25"
    using a(2) a(3) [OF r] by (auto simp: same_on_def demo_pool_def demo_rounds dest: spec [of _ 1])
  then show ?thesis using a(1) a(3) [OF r] r by (auto simp: demo_mem_def demo_rounds)
qed

theorem pool_clear_frees_buffers_witness:
  "\<exists>P'. pool_clear demo_pool = Inr P' \<and> pool_buffers P' = [] \<and>
    mset (sys_live P') = mset (sys_live demo_pool) - mset (pool_buffers demo_pool)"
  by (rule pool_clear_frees_buffers [OF demo_pool_inv])

end
