(* ===== verification/Mem_Client.thy ===== *)
theory Mem_Client
  imports Mem_Pool
begin

text \<open>
  What a client of a block allocator relies on, as an interface, and what follows for every
  program that uses it: a client run is any sequence of allocations, deallocations of blocks
  that are held, and writes into blocks that are held. The memory pool is an instance.
\<close>

section \<open>Client programs\<close>

text \<open>
  \<open>held\<close> lists the blocks the client holds with the size it asked for. \<open>poke\<close> stores a byte.
\<close>

inductive client_run ::
    "('n \<Rightarrow> 's \<Rightarrow> (addr result \<times> 's) option) \<Rightarrow> (addr \<Rightarrow> 'n \<Rightarrow> 's \<Rightarrow> 's result) \<Rightarrow>
     (addr \<Rightarrow> byte \<Rightarrow> 's \<Rightarrow> 's) \<Rightarrow> ('n \<Rightarrow> bool) \<Rightarrow> ('n \<Rightarrow> nat) \<Rightarrow> 's \<Rightarrow> 's \<Rightarrow> (addr \<times> 'n) list \<Rightarrow> bool"
  for alloc dealloc poke ok asked s0 where
  client_start: "client_run alloc dealloc poke ok asked s0 s0 []"
| client_alloc: "client_run alloc dealloc poke ok asked s0 s held \<Longrightarrow> ok n \<Longrightarrow>
    alloc n s = Some (Inr p, s') \<Longrightarrow> client_run alloc dealloc poke ok asked s0 s' ((p, n) # held)"
| client_failed: "client_run alloc dealloc poke ok asked s0 s held \<Longrightarrow> ok n \<Longrightarrow>
    alloc n s = Some (Inl e, s') \<Longrightarrow> client_run alloc dealloc poke ok asked s0 s' held"
| client_free: "client_run alloc dealloc poke ok asked s0 s held \<Longrightarrow> (p, n) \<in> set held \<Longrightarrow>
    dealloc p n s = Inr s' \<Longrightarrow> client_run alloc dealloc poke ok asked s0 s' (remove1 (p, n) held)"
| client_write: "client_run alloc dealloc poke ok asked s0 s held \<Longrightarrow> (p, n) \<in> set held \<Longrightarrow>
    k < asked n \<Longrightarrow> client_run alloc dealloc poke ok asked s0 (poke (p + k) v s) held"

definition held_blocks :: "('n \<Rightarrow> nat) \<Rightarrow> (addr \<times> 'n) list \<Rightarrow> block list" where
  "held_blocks given held = map (\<lambda>(p, n). (p, given n)) held"

lemma held_blocks_remove1:
  "(p, n) \<in> set held \<Longrightarrow>
    mset (held_blocks given held) = mset ((p, given n) # held_blocks given (remove1 (p, n) held))"
  by (induction held) (auto simp: held_blocks_def)

section \<open>The interface\<close>

text \<open>
  \<open>inv s A\<close>: the allocator is well formed and exactly the blocks \<open>A\<close> are handed out. An allocation
  returns a block or throws \<open>bad_alloc\<close>; a deallocation of a block of \<open>A\<close> succeeds.
\<close>

locale block_allocator =
  fixes alloc :: "'n \<Rightarrow> 's \<Rightarrow> (addr result \<times> 's) option"
    and dealloc :: "addr \<Rightarrow> 'n \<Rightarrow> 's \<Rightarrow> 's result"
    and poke :: "addr \<Rightarrow> byte \<Rightarrow> 's \<Rightarrow> 's"
    and ok :: "'n \<Rightarrow> bool" and asked :: "'n \<Rightarrow> nat" and given :: "'n \<Rightarrow> nat"
    and inv :: "'s \<Rightarrow> block list \<Rightarrow> bool"
  assumes alloc_result: "inv s A \<Longrightarrow> ok n \<Longrightarrow>
      \<exists>r s'. alloc n s = Some (r, s') \<and>
        (case r of Inr p \<Rightarrow> inv s' ((p, given n) # A) | Inl e \<Rightarrow> e = Bad_alloc \<and> inv s' A)"
    and dealloc_result: "inv s ((p, given n) # A) \<Longrightarrow> ok n \<Longrightarrow> \<exists>s'. dealloc p n s = Inr s' \<and> inv s' A"
    and write_inv: "inv s A \<Longrightarrow> a \<in># bytes_of A \<Longrightarrow> inv (poke a v s) A"
    and inv_perm: "inv s A \<Longrightarrow> mset A = mset B \<Longrightarrow> inv s B"
    and inv_once: "inv s A \<Longrightarrow> once (bytes_of A)"
    and asked_size: "ok n \<Longrightarrow> asked n \<le> given n"
begin

lemma run_inv:
  assumes "client_run alloc dealloc poke ok asked s0 s held" and "inv s0 []"
  shows "inv s (held_blocks given held) \<and> (\<forall>b \<in> set held. ok (snd b))"
  using assms(1)
proof (induction rule: client_run.induct)
  case client_start
  then show ?case using assms(2) by (simp add: held_blocks_def)
next
  case (client_alloc s held n p s')
  then show ?case using alloc_result [of s "held_blocks given held" n] by (auto simp: held_blocks_def)
next
  case (client_failed s held n e s')
  then show ?case using alloc_result [of s "held_blocks given held" n] by auto
next
  case (client_free s held p n s')
  have "inv s ((p, given n) # held_blocks given (remove1 (p, n) held))"
    using client_free.IH inv_perm held_blocks_remove1 [OF client_free.hyps(2)] by blast
  moreover have "ok n" using client_free by auto
  ultimately obtain t where "dealloc p n s = Inr t" "inv t (held_blocks given (remove1 (p, n) held))"
    using dealloc_result by blast
  moreover have "set (remove1 (p, n) held) \<subseteq> set held" by (rule set_remove1_subset)
  ultimately show ?case using client_free by auto
next
  case (client_write s held p n k v)
  have "k < given n" using client_write asked_size [of n] by fastforce
  then have "p + k \<in># bytes_of (held_blocks given held)"
    using client_write.hyps(2) by (force simp: in_bytes_of held_blocks_def)
  then show ?case using client_write write_inv by blast
qed

lemma byte_in_two:
  assumes "i < j" and "j < length bs" and "\<forall>b \<in> set bs. ok (snd b)"
    and "fst (bs ! i) \<le> a" and "a < fst (bs ! i) + asked (snd (bs ! i))"
    and "fst (bs ! j) \<le> a" and "a < fst (bs ! j) + asked (snd (bs ! j))"
  shows "2 \<le> count (bytes_of (held_blocks given bs)) a"
proof -
  have part: "a \<in># bytes_of (held_blocks given xs)"
    if "b \<in> set xs" "ok (snd b)" "fst b \<le> a" "a < fst b + asked (snd b)" for b xs
    using that asked_size [of "snd b"] by (force simp: in_bytes_of held_blocks_def split_beta)
  have "held_blocks given bs = held_blocks given (take j bs) @ held_blocks given (drop j bs)"
    by (simp add: held_blocks_def flip: map_append)
  then have "count (bytes_of (held_blocks given bs)) a =
      count (bytes_of (held_blocks given (take j bs))) a + count (bytes_of (held_blocks given (drop j bs))) a"
    by simp
  moreover have "bs ! i \<in> set (take j bs)" using assms(1,2) by (auto simp: in_set_conv_nth intro!: exI [of _ i])
  then have "a \<in># bytes_of (held_blocks given (take j bs))" using assms by (intro part) auto
  moreover have "bs ! j \<in> set (drop j bs)" using assms(2) by (simp flip: Cons_nth_drop_Suc)
  then have "a \<in># bytes_of (held_blocks given (drop j bs))" using assms by (intro part [of "bs ! j"]) auto
  ultimately show ?thesis by (simp flip: count_greater_zero_iff)
qed

lemma run_disjoint:
  assumes "client_run alloc dealloc poke ok asked s0 s held" and "inv s0 []"
    and "i < length held" and "j < length held" and "i \<noteq> j"
    and "k < asked (snd (held ! i))" and "l < asked (snd (held ! j))"
  shows "fst (held ! i) + k \<noteq> fst (held ! j) + l"
proof
  assume eq: "fst (held ! i) + k = fst (held ! j) + l"
  have inv: "inv s (held_blocks given held)" and ok: "\<forall>b \<in> set held. ok (snd b)"
    using run_inv [OF assms(1,2)] by auto
  have "2 \<le> count (bytes_of (held_blocks given held)) (fst (held ! i) + k)"
    using byte_in_two [of i j held] byte_in_two [of j i held] assms ok eq by (cases "i < j") auto
  then show False using inv_once [OF inv] by (auto simp: once_def dest: spec [of _ "fst (held ! i) + k"])
qed

lemma run_progress:
  assumes "client_run alloc dealloc poke ok asked s0 s held" and "inv s0 []"
  shows "ok n \<Longrightarrow> \<exists>r s'. alloc n s = Some (r, s') \<and> (case r of Inr p \<Rightarrow> True | Inl e \<Rightarrow> e = Bad_alloc)"
    and "(p, n) \<in> set held \<Longrightarrow> \<exists>s'. dealloc p n s = Inr s'"
proof -
  have inv: "inv s (held_blocks given held)" and ok: "\<forall>b \<in> set held. ok (snd b)"
    using run_inv [OF assms(1,2)] by auto
  show "ok n \<Longrightarrow> \<exists>r s'. alloc n s = Some (r, s') \<and> (case r of Inr p \<Rightarrow> True | Inl e \<Rightarrow> e = Bad_alloc)"
    using alloc_result [OF inv] by (fastforce split: sum.splits)
  assume p: "(p, n) \<in> set held"
  from inv have "inv s ((p, given n) # held_blocks given (remove1 (p, n) held))"
    using inv_perm held_blocks_remove1 [OF p] by blast
  then show "\<exists>s'. dealloc p n s = Inr s'" using dealloc_result ok p by force
qed

end


section \<open>The memory pool as an instance\<close>

definition poke_pool :: "addr \<Rightarrow> byte \<Rightarrow> pool \<Rightarrow> pool" where
  "poke_pool a v P = P\<lparr>sys_mem := (sys_mem P)(a := v)\<rparr>"

definition small_request :: "u32 \<Rightarrow> bool" where
  "small_request n \<longleftrightarrow> 0 < unat n \<and> unat n \<le> MAX_BYTES"

definition sgi_inv :: "malloc_fn \<Rightarrow> vector_fn \<Rightarrow> pool \<Rightarrow> block list \<Rightarrow> bool" where
  "sgi_inv mal vec P A \<longleftrightarrow> malloc_law mal \<and> (\<forall>t k. vec t k) \<and> (\<exists>F. pool_inv P F A)"

lemma bytes_of_perm: "mset A = mset B \<Longrightarrow> bytes_of A = bytes_of B"
  using bytes_of_mono [of A B] bytes_of_mono [of B A] by (simp add: subset_mset.antisym)

interpretation sgi: block_allocator
  "pool_allocate mal vec fns" pool_deallocate poke_pool small_request unat "\<lambda>n. unat (ROUNDUP n)" "sgi_inv mal vec"
  for mal vec fns
proof
  fix s A n assume "sgi_inv mal vec s A" "small_request n"
  then obtain F where inv: "malloc_law mal" "pool_inv s F A" and vec: "\<forall>t k. vec t k" and n: "0 < unat n" "unat n \<le> MAX_BYTES"
    by (auto simp: sgi_inv_def small_request_def)
  from allocate_small [OF inv(2,1) n] obtain r P' F' where
    "pool_allocate mal vec fns n s = Some (r, P')" "alloc_post vec (unat (FREELISTINDEX n)) s A r P' F'" by blast
  then show "\<exists>r s'. pool_allocate mal vec fns n s = Some (r, s') \<and>
      (case r of Inr p \<Rightarrow> sgi_inv mal vec s' ((p, unat (ROUNDUP n)) # A) | Inl e \<Rightarrow> e = Bad_alloc \<and> sgi_inv mal vec s' A)"
    using inv(1) vec small_size(2) [OF n] by (cases r) (auto simp: alloc_post_def sgi_inv_def pool_torn_def)
next
  fix s p n A assume "sgi_inv mal vec s ((p, unat (ROUNDUP n)) # A)" "small_request n"
  then show "\<exists>s'. pool_deallocate p n s = Inr s' \<and> sgi_inv mal vec s' A"
    using deallocate_small by (fastforce simp: sgi_inv_def small_request_def)
next
  fix s A a v assume "sgi_inv mal vec s A" "a \<in># bytes_of A"
  then obtain F where "malloc_law mal" "\<forall>t k. vec t k" "pool_inv s F A" by (auto simp: sgi_inv_def)
  moreover from this \<open>a \<in># bytes_of A\<close> have "pool_inv (poke_pool a v s) F A"
    unfolding poke_pool_def by (intro pool_inv_mem) auto
  ultimately show "sgi_inv mal vec (poke_pool a v s) A" by (auto simp: sgi_inv_def)
next
  fix s A B assume "sgi_inv mal vec s A" "mset A = mset B"
  then show "sgi_inv mal vec s B"
    using bytes_of_perm [of A B] by (auto simp: sgi_inv_def pool_inv_def core_def)
next
  fix s A assume "sgi_inv mal vec s A"
  then show "once (bytes_of A)"
    using core_once by (fastforce simp: sgi_inv_def pool_inv_def once_union)
next
  fix n assume "small_request n"
  then show "unat n \<le> unat (ROUNDUP n)" using small_size(3) by (simp add: small_request_def)
qed


text \<open>
  A run that allocates three blocks, writes into one and gives it back; the pool obtains its first chunk
  on the way.
\<close>

abbreviation demo_client :: "pool \<Rightarrow> (addr \<times> u32) list \<Rightarrow> bool" where
  "demo_client \<equiv> client_run (pool_allocate bump_malloc (\<lambda>t k. True) quiet_fns) pool_deallocate poke_pool small_request unat
     (sgi_memory_pool_init demo_sys)"

lemma demo_pool_grows:
  "\<exists>P. pool_allocate bump_malloc (\<lambda>t k. True) quiet_fns 10 (sgi_memory_pool_init demo_sys) = Some (Inr 8, P) \<and>
     free_lists P = (replicate NUM_FREE_LISTS 0)[1 := 24]"
proof -
  let ?P = "sgi_memory_pool_init demo_sys"
  let ?P1 = "?P\<lparr>sys_tick := 1, sys_live := [(8, 640)], start_free := 8, pool_buffers := [(8, 640)], heap_size := 640, end_free := 648\<rparr>"
  have get: "size_to_get 320 ?P = 640" by (simp add: size_to_get_exact sgi_memory_pool_init_def ROUNDUP_def)
  have src: "chunk_source bump_malloc quiet_fns 640 ?P = Some (Inr 8, ?P\<lparr>sys_tick := 1, sys_live := [(8, 640)], start_free := 8\<rparr>)"
    by (simp add: chunk_source_def c_malloc_def bump_malloc_def live_top_def sgi_memory_pool_init_def demo_sys_def Let_def)
  have add: "add_chunk (\<lambda>t k. True) 8 640 (?P\<lparr>sys_tick := 1, sys_live := [(8, 640)], start_free := 8\<rparr>) = (Inr (), ?P1)"
    by (simp add: add_chunk_def size_t_def sgi_memory_pool_init_def demo_sys_def Let_def)
  have "chunk_alloc bump_malloc (\<lambda>t k. True) quiet_fns 16 20 ?P = chunk_alloc bump_malloc (\<lambda>t k. True) quiet_fns 16 20 ?P1"
    using get src add by (subst chunk_alloc.simps) (simp add: ptr_diff_def size_t_def sgi_memory_pool_init_def Let_def)
  also have "\<dots> = Some (Inr (8, 20), ?P1\<lparr>start_free := 328\<rparr>)"
    by (subst chunk_alloc.simps) (simp add: ptr_diff_def size_t_def)
  finally have "re_fill bump_malloc (\<lambda>t k. True) quiet_fns 16 ?P =
      Some (Inr 8, ?P1\<lparr>start_free := 328, free_lists := (replicate NUM_FREE_LISTS 0)[1 := 24],
        sys_mem := link_nodes 16 19 1 24 (sys_mem ?P)\<rparr>)"
    by (simp add: re_fill_def NUM_NODE_def size_t_def sgi_memory_pool_init_def unat_FREELISTINDEX pool_consts Let_def)
  then show ?thesis
    by (simp add: pool_allocate_def demo_indices demo_rounds pool_consts sgi_memory_pool_init_def Let_def)
qed


end
