(* ===== verification/Mem_Fixed.thy ===== *)
theory Mem_Fixed
  imports Mem_Client
begin

text \<open>
  \<open>include/memory_pool/fixed_memory_pool.hpp\<close>: the pool of blocks of one size, with the same
  members as the other pool and a single free list. \<open>B\<close> stands for the template argument
  \<open>__BYTES\<close>; the allocation traits are \<open>malloc_traits_t\<close>. The \<open>assert\<close> of \<open>allocate\<close> is absent
  from a release build: the requested size is not used.
\<close>

section \<open>Operations\<close>

definition fixed_ROUNDUP :: "u32 \<Rightarrow> u32" where
  "fixed_ROUNDUP bytes = (bytes + 4 - 1) AND NOT (4 - 1)"

definition ROUND :: "u32 \<Rightarrow> nat" where
  "ROUND B = unat ((B + 4 - 1) AND NOT (4 - 1))"

definition fixed_init :: "sys \<Rightarrow> pool" where
  "fixed_init s =
    \<lparr>sys_mem = sys_mem s, sys_live = sys_live s, sys_tick = sys_tick s,
     sys_oom = sys_oom s, start_free = 0, end_free = 0, heap_size = 0, pool_buffers = [],
     buffers_reserved = NUM_NODE, free_lists = [0]\<rparr>"

definition fixed_size_to_get :: "nat \<Rightarrow> pool \<Rightarrow> nat" where
  "fixed_size_to_get szTotal P = size_t (2 * szTotal + unat (fixed_ROUNDUP (drop_bit 4 (of_nat (heap_size P)))))"

text \<open>The products are \<open>size_t\<close> and wrap around, so the pool may grow for ever without getting room for a block.\<close>

partial_function (option) fixed_chunk_alloc ::
    "malloc_fn \<Rightarrow> vector_fn \<Rightarrow> pool_fns \<Rightarrow> nat \<Rightarrow> nat \<Rightarrow> pool \<Rightarrow> (addr \<times> nat) pool_op" where
  "fixed_chunk_alloc mal vec fns sz nObjs P =
    (let szTotal = size_t (sz * nObjs);
         szLeft = ptr_diff (end_free P) (start_free P)
     in if szLeft \<ge> szTotal
        then Some (Inr (start_free P, nObjs), P\<lparr>start_free := size_t (start_free P + szTotal)\<rparr>)
        else if szLeft \<ge> sz
        then let n = szLeft div sz
             in Some (Inr (start_free P, n), P\<lparr>start_free := size_t (start_free P + size_t (sz * n))\<rparr>)
        else
          let szGet = fixed_size_to_get szTotal P
          in case chunk_source mal fns szGet P of
               None \<Rightarrow> None
             | Some (Inl e, P1) \<Rightarrow> Some (Inl e, P1)
             | Some (Inr q, P1) \<Rightarrow>
                 if q = 0 then Some (Inl Bad_alloc, P1)
                 else
                   (case add_chunk vec q szGet P1 of
                      (Inl e, P2) \<Rightarrow> Some (Inl e, P2)
                    | (Inr u, P2) \<Rightarrow> fixed_chunk_alloc mal vec fns sz nObjs P2))"

definition fixed_re_fill :: "malloc_fn \<Rightarrow> vector_fn \<Rightarrow> pool_fns \<Rightarrow> nat \<Rightarrow> pool \<Rightarrow> addr pool_op" where
  "fixed_re_fill mal vec fns n P =
    (case fixed_chunk_alloc mal vec fns n NUM_NODE P of
       None \<Rightarrow> None
     | Some (Inl e, P) \<Rightarrow> Some (Inl e, P)
     | Some (Inr (pChunk, nObjs), P) \<Rightarrow>
         if nObjs = 1 then Some (Inr pChunk, P)
         else Some (Inr pChunk,
                P\<lparr>free_lists := (free_lists P)[0 := size_t (pChunk + n)],
                  sys_mem := link_nodes n (nObjs - 1) 1 (size_t (pChunk + n)) (sys_mem P)\<rparr>))"

definition fixed_allocate :: "u32 \<Rightarrow> malloc_fn \<Rightarrow> vector_fn \<Rightarrow> pool_fns \<Rightarrow> u32 \<Rightarrow> pool \<Rightarrow> addr pool_op" where
  "fixed_allocate B mal vec fns n P =
    (let pResult = free_lists P ! 0
     in if pResult = 0 then fixed_re_fill mal vec fns (ROUND B) P
        else Some (Inr pResult, P\<lparr>free_lists := (free_lists P)[0 := load_ptr (sys_mem P) pResult]\<rparr>))"

definition fixed_deallocate :: "addr \<Rightarrow> u32 \<Rightarrow> pool \<Rightarrow> pool result" where
  "fixed_deallocate p n P = push_free 0 p P"

definition fixed_clear :: "pool \<Rightarrow> pool result" where
  "fixed_clear P = bindR (free_buffers (pool_buffers P) P) (\<lambda>P. Inr (P\<lparr>pool_buffers := []\<rparr>))"

section \<open>The invariant\<close>

text \<open>
  As for the other pool, with one difference: the rest of a buffer that is too small for a
  block is given up when the pool grows. \<open>W\<close> are the bytes given up.
\<close>

text \<open>The block sizes for which forty blocks and a sixteenth of the heap do not overflow: up to 96 MB.\<close>

definition round_ok :: "u32 \<Rightarrow> bool" where
  "round_ok B \<longleftrightarrow> 0 < unat B \<and> 2 * NUM_NODE * (unat B + 3) + 2 ^ 28 < 2 ^ 32"

definition fixed_class :: "u32 \<Rightarrow> nat \<Rightarrow> nat" where
  "fixed_class B i = max 4 (ROUND B)"

definition fixed_inv :: "u32 \<Rightarrow> pool \<Rightarrow> (nat \<Rightarrow> addr list) \<Rightarrow> block list \<Rightarrow> addr multiset \<Rightarrow> bool" where
  "fixed_inv B P F A W \<longleftrightarrow> round_ok B \<and>
     core (Suc 0) (fixed_class B) P F A (block_bytes (start_free P, end_free P - start_free P) + W) \<and>
     start_free P \<le> end_free P"

text \<open>When the vector of the buffers cannot grow, the pool is well formed but for its two pointers.\<close>

definition fixed_torn :: "u32 \<Rightarrow> vector_fn \<Rightarrow> pool \<Rightarrow> pool \<Rightarrow> (nat \<Rightarrow> addr list) \<Rightarrow> block list \<Rightarrow> addr multiset \<Rightarrow> bool" where
  "fixed_torn B vec P P' F A W \<longleftrightarrow> buffers_reserved P \<le> length (pool_buffers P) \<and>
     (\<exists>t. \<not> vec t (length (pool_buffers P))) \<and> fixed_inv B (P'\<lparr>start_free := 0, end_free := 0\<rparr>) F A W"

lemma unat_and_not_3: "unat ((w :: u32) AND NOT 3) = unat w div 4 * 4"
proof -
  have "(w AND NOT (mask 2)) + take_bit 2 w = (w AND NOT (mask 2)) OR take_bit 2 w"
    by (rule disjunctive_add) (auto simp: bit_simps)
  also have "\<dots> = w" by (rule bit_word_eqI) (auto simp: bit_simps)
  finally have "w AND NOT 3 = w - take_bit 2 w"
    by (simp add: mask_eq_exp_minus_1 algebra_simps)
  moreover have t: "unat (take_bit 2 w) = unat w mod 4"
    by (simp only: unsigned_take_bit_eq) (simp add: take_bit_eq_mod)
  ultimately have "unat (w AND NOT 3) = unat w - unat w mod 4"
    by (simp only: unat_sub word_le_nat_alt t mod_less_eq_dividend)
  then show ?thesis by (simp add: minus_mod_eq_div_mult)
qed

lemma ROUND_bounds:
  assumes "round_ok B"
  shows "unat B \<le> ROUND B" and "ROUND B < unat B + 4" and "4 \<le> ROUND B"
proof -
  have "B + 4 - 1 = B + 3" by simp
  moreover have "unat (B + 3) = unat B + 3" using assms unat_add_u32 [of B 3] by (simp add: round_ok_def NUM_NODE_def)
  ultimately have u: "unat (B + 4 - 1) = unat B + 3" by (simp only:)
  have "ROUND B = (unat B + 3) div 4 * 4"
    unfolding ROUND_def using unat_and_not_3 [of "B + 4 - 1"] by (simp only: u) simp
  moreover have "1 \<le> (unat B + 3) div 4" 
    using assms div_le_mono [of 4 "unat B + 3" 4] by (simp add: round_ok_def)
  ultimately show "unat B \<le> ROUND B" "ROUND B < unat B + 4" "4 \<le> ROUND B" by linarith+
qed


interpretation fixed_classes: size_classes "Suc 0" "fixed_class B" for B
  by unfold_locales (simp add: fixed_class_def)

lemma fixed_class_eq: "round_ok B \<Longrightarrow> fixed_class B i = ROUND B"
  using ROUND_bounds(3) by (simp add: fixed_class_def)

section \<open>Correctness\<close>

lemma fixed_left:
  assumes "fixed_inv B P F A W"
  shows "ptr_diff (end_free P) (start_free P) = end_free P - start_free P"
    and "0 < b \<Longrightarrow> b \<le> end_free P - start_free P \<Longrightarrow> size_t (start_free P + b) = start_free P + b \<and> size_t b = b"
proof -
  have c: "core (Suc 0) (fixed_class B) P F A (block_bytes (start_free P, end_free P - start_free P) + W)" "start_free P \<le> end_free P"
    using assms by (simp_all add: fixed_inv_def)
  show "ptr_diff (end_free P) (start_free P) = end_free P - start_free P" by (rule fixed_classes.core_span(1) [OF c])
  show "size_t (start_free P + b) = start_free P + b \<and> size_t b = b" if "0 < b" "b \<le> end_free P - start_free P"
  proof -
    have "end_free P < 2 ^ 32" using fixed_classes.core_span(2) [OF c] that by simp
    then show ?thesis using that by (simp add: size_t_def)
  qed
qed

lemma fixed_fits:
  assumes "fixed_inv B P F A W" and "b \<le> end_free P - start_free P" and "0 < b"
  shows "fixed_inv B (P\<lparr>start_free := size_t (start_free P + size_t b)\<rparr>) F ((start_free P, b) # A) W"
proof -
  define l where "l = end_free P - start_free P - b"
  have b: "end_free P - start_free P = b + l" and e: "end_free P - (start_free P + b) = l"
    using assms(2) by (simp_all add: l_def)
  have s: "size_t (start_free P + size_t b) = start_free P + b" using fixed_left(2) [OF assms(1,3,2)] by simp
  have "core (Suc 0) (fixed_class B) P F A (block_bytes (start_free P, b) + (block_bytes (start_free P + b, l) + W))"
    using assms(1) by (simp only: fixed_inv_def b block_bytes_split add.assoc)
  moreover have "start_free P + b \<le> end_free P"
    using assms unfolding fixed_inv_def by linarith
  ultimately show ?thesis
    using assms(1) by (simp add: fixed_inv_def s e fixed_classes.core_hand_out)
qed

definition fixed_post :: "u32 \<Rightarrow> vector_fn \<Rightarrow> nat \<Rightarrow> pool \<Rightarrow> block list \<Rightarrow> addr multiset \<Rightarrow> (addr \<times> nat) result \<Rightarrow> pool \<Rightarrow>
    (nat \<Rightarrow> addr list) \<Rightarrow> addr multiset \<Rightarrow> bool" where
  "fixed_post B vec nObjs P A W r P' F' W' \<longleftrightarrow> W \<subseteq># W' \<and> same_on (bytes_of A) (sys_mem P) (sys_mem P') \<and>
    (case r of
       Inr (p, k) \<Rightarrow> 1 \<le> k \<and> k \<le> nObjs \<and> fixed_inv B P' F' ((p, ROUND B * k) # A) W'
     | Inl e \<Rightarrow> e = Bad_alloc \<and> (fixed_inv B P' F' A W' \<or> fixed_torn B vec P P' F' A W'))"

lemma fixed_chunk_enough:
  assumes "fixed_inv B P F A W" and "0 < nObjs" and "ROUND B * nObjs \<le> end_free P - start_free P"
  shows "\<exists>r P'. fixed_chunk_alloc mal vec fns (ROUND B) nObjs P = Some (Inr r, P') \<and> fixed_post B vec nObjs P A W (Inr r) P' F W"
proof -
  have "0 < ROUND B * nObjs" using assms(1,2) ROUND_bounds(3) [of B] by (simp add: fixed_inv_def)
  with fixed_fits [OF assms(1,3)] fixed_left [OF assms(1)] assms show ?thesis
    by (subst fixed_chunk_alloc.simps) (simp add: fixed_post_def)
qed

text \<open>The sizes do not overflow when \<open>round_ok\<close> holds.\<close>

lemma fixed_sizes:
  assumes "round_ok B" and "n \<le> NUM_NODE"
  shows "size_t (ROUND B * n) = ROUND B * n" and "ROUND B * n \<le> fixed_size_to_get (ROUND B * n) P"
proof -
  have "ROUND B * n \<le> (unat B + 3) * NUM_NODE" using ROUND_bounds(2) [OF assms(1)] assms(2) by (intro mult_le_mono) auto
  then have le: "2 * (ROUND B * n) + 2 ^ 28 < 2 ^ 32" using assms(1) unfolding round_ok_def NUM_NODE_def by linarith
  then have "ROUND B * n < 2 ^ 32" by linarith
  then show "size_t (ROUND B * n) = ROUND B * n" unfolding size_t_def by (rule mod_less)
  let ?h = "drop_bit 4 (of_nat (heap_size P)) :: u32"
  have "unat ?h = unat (of_nat (heap_size P) :: u32) div 16"
    by (simp only: unat_drop_bit_eq) (simp add: drop_bit_eq_div)
  then have h: "unat ?h < 2 ^ 28" using unat_u32_lt [of "of_nat (heap_size P)"] by simp
  have "?h + 4 - 1 = ?h + 3" by simp
  moreover have "unat (?h + 3) = unat ?h + 3" using h unat_add_u32 [of ?h 3] by simp
  ultimately have "unat (?h + 4 - 1) = unat ?h + 3" by (simp only:)
  then have "unat (fixed_ROUNDUP ?h) = (unat ?h + 3) div 4 * 4"
    unfolding fixed_ROUNDUP_def using unat_and_not_3 [of "?h + 4 - 1"] by (simp only:) simp
  then have "unat (fixed_ROUNDUP ?h) \<le> 2 ^ 28" using h by simp
  then show "ROUND B * n \<le> fixed_size_to_get (ROUND B * n) P" using le unfolding fixed_size_to_get_def size_t_def by (subst mod_less) linarith+
qed

text \<open>
  When the pool grows, what is left of the old buffer moves from \<open>span\<close> to \<open>W\<close>; the bytes of
  \<open>R\<close> are not in the free lists, so the generic lemma about new buffers applies with \<open>R\<close> kept
  among the blocks handed out.
\<close>

lemma core_rest_block:
  "core N cs P F A (block_bytes (p, n) + W) \<Longrightarrow> \<exists>bs. bytes_of bs = block_bytes (p, n) + W \<and> core N cs P F (A @ bs) {#}"
proof -
  assume c: "core N cs P F A (block_bytes (p, n) + W)"
  obtain xs where xs: "mset xs = W" using ex_mset by blast
  have "bytes_of (map (\<lambda>a. (a, 1)) xs) = mset xs"
    by (induction xs) (auto simp: block_bytes_def)
  then have "bytes_of ((p, n) # map (\<lambda>a. (a, 1)) xs) = block_bytes (p, n) + W" by (simp add: xs)
  moreover from this c have "core N cs P F (A @ (p, n) # map (\<lambda>a. (a, 1)) xs) {#}"
    by (simp add: core_def ac_simps)
  ultimately show ?thesis by blast
qed

lemma fixed_add_chunk:
  assumes g: "grown (Suc 0) (fixed_class B) mal P n F (A @ bs) (Inr q) P1" and "bytes_of bs = W" and "round_ok B"
  shows "case add_chunk vec q n P1 of
      (Inr u, P2) \<Rightarrow> fixed_inv B P2 F A W \<and> end_free P2 - start_free P2 = n \<and> sys_mem P2 = sys_mem P
    | (Inl e, P2) \<Rightarrow> e = Bad_alloc \<and> fixed_torn B vec P P2 F A W \<and> sys_mem P2 = sys_mem P"
proof -
  have q: "size_t (q + n) = q + n" using g by (simp add: grown_def size_t_def)
  show ?thesis
  proof (cases "length (pool_buffers P1) < buffers_reserved P1 \<or> vec (sys_tick P1) (length (pool_buffers P1))")
    case True
    then show ?thesis using g assms(2,3) q
      by (auto simp: add_chunk_def Let_def grown_def fixed_inv_def core_def chains_def ac_simps)
  next
    case False
    then show ?thesis using g assms(2,3)
      by (auto simp: add_chunk_def Let_def grown_def fixed_torn_def fixed_inv_def core_def chains_def ac_simps)
  qed
qed

lemma fixed_chunk_alloc_correct:
  assumes "fixed_inv B P F A W" and "malloc_law mal" and "0 < nObjs" and "nObjs \<le> NUM_NODE"
  shows "\<exists>r P' W'. fixed_chunk_alloc mal vec fns (ROUND B) nObjs P = Some (r, P') \<and> fixed_post B vec nObjs P A W r P' F W'"
proof -
  let ?sz = "ROUND B" and ?left = "end_free P - start_free P"
  have rB: "round_ok B" using assms(1) by (simp add: fixed_inv_def)
  have sz: "0 < ?sz" using ROUND_bounds(3) [OF rB] by simp
  note left = fixed_left(1) [OF assms(1)] and total = fixed_sizes [OF rB assms(4)]
  consider (fits) "?sz * nObjs \<le> ?left" | (some) "?left < ?sz * nObjs" "?sz \<le> ?left" | (grow) "?left < ?sz" "?left < ?sz * nObjs"
    by linarith
  then show ?thesis
  proof cases
    case fits
    then show ?thesis using fixed_chunk_enough [OF assms(1,3)] by blast
  next
    case some
    let ?k = "?left div ?sz"
    have k: "1 \<le> ?k" "?k \<le> nObjs" "?sz * ?k \<le> ?left"
      using some sz by (auto simp: less_eq_div_iff_mult_less_eq)
        (metis less_imp_le_nat mult.commute less_mult_imp_div_less)
    then have "0 < ?sz * ?k" using sz by simp
    with fixed_fits [OF assms(1) k(3)] k some total(1) show ?thesis
      by (subst fixed_chunk_alloc.simps) (auto simp: fixed_post_def Let_def left)
  next
    case grow
    let ?n = "fixed_size_to_get (?sz * nObjs) P" and ?W = "block_bytes (start_free P, ?left) + W"
    have "core (Suc 0) (fixed_class B) P F A ?W" using assms(1) by (simp add: fixed_inv_def)
    then obtain bs where bs: "bytes_of bs = ?W" "core (Suc 0) (fixed_class B) P F (A @ bs) {#}"
      using core_rest_block by blast
    obtain r P1 where p1: "chunk_source mal fns ?n P = Some (r, P1)"
      and g: "grown (Suc 0) (fixed_class B) mal P ?n F (A @ bs) r P1"
      using fixed_classes.chunk_source_grown [OF bs(2) assms(2)] by blast
    show ?thesis
    proof (cases r)
      case (Inl e)
      with grow p1 total(1) have "fixed_chunk_alloc mal vec fns ?sz nObjs P = Some (Inl e, P1)"
        by (subst fixed_chunk_alloc.simps) (simp add: Let_def left)
      moreover have "fixed_inv B P1 F A ?W" "e = Bad_alloc" "sys_mem P1 = sys_mem P"
        using g Inl rB bs(1) by (auto simp: grown_def fixed_inv_def core_def ac_simps)
      ultimately show ?thesis by (auto simp: fixed_post_def intro!: exI [of _ ?W])
    next
      case (Inr q)
      obtain a P2 where a: "add_chunk vec q ?n P1 = (a, P2)" by fastforce
      note added = fixed_add_chunk [OF g [unfolded Inr] bs(1) rB, of vec, unfolded a]
      have "q \<noteq> 0" using g Inr by (simp add: grown_def)
      with grow p1 Inr a total(1) have step: "fixed_chunk_alloc mal vec fns ?sz nObjs P =
          (case a of Inl e \<Rightarrow> Some (Inl e, P2) | Inr u \<Rightarrow> fixed_chunk_alloc mal vec fns ?sz nObjs P2)"
        by (subst fixed_chunk_alloc.simps) (simp add: Let_def left)
      show ?thesis
      proof (cases a)
        case (Inl e)
        then show ?thesis using step added by (auto simp: fixed_post_def intro!: exI [of _ ?W])
      next
        case (Inr u)
        have enough: "?sz * nObjs \<le> end_free P2 - start_free P2" using added Inr total(2) by simp
        then obtain r' P' where "fixed_chunk_alloc mal vec fns ?sz nObjs P2 = Some (Inr r', P')"
          "fixed_post B vec nObjs P2 A ?W (Inr r') P' F ?W"
          using fixed_chunk_enough [of B P2 F A ?W nObjs mal vec fns] added Inr assms(3) by auto
        then show ?thesis
          using step added Inr by (intro exI [of _ "Inr r'"] exI [of _ P'] exI [of _ ?W]) (simp add: fixed_post_def)
      qed
    qed
  qed
qed

definition fixed_alloc_post :: "u32 \<Rightarrow> vector_fn \<Rightarrow> pool \<Rightarrow> block list \<Rightarrow> addr multiset \<Rightarrow> addr result \<Rightarrow> pool \<Rightarrow>
    (nat \<Rightarrow> addr list) \<Rightarrow> addr multiset \<Rightarrow> bool" where
  "fixed_alloc_post B vec P A W r P' F' W' \<longleftrightarrow> W \<subseteq># W' \<and> same_on (bytes_of A) (sys_mem P) (sys_mem P') \<and>
    (case r of Inr p \<Rightarrow> fixed_inv B P' F' ((p, ROUND B) # A) W'
     | Inl e \<Rightarrow> e = Bad_alloc \<and> (fixed_inv B P' F' A W' \<or> fixed_torn B vec P P' F' A W'))"

lemma fixed_re_fill_correct:
  assumes "fixed_inv B P F A W" and "malloc_law mal" and "F 0 = []"
  shows "\<exists>r P' F' W'. fixed_re_fill mal vec fns (ROUND B) P = Some (r, P') \<and> fixed_alloc_post B vec P A W r P' F' W'"
proof -
  obtain r P1 W1 where c: "fixed_chunk_alloc mal vec fns (ROUND B) NUM_NODE P = Some (r, P1)"
    and post: "fixed_post B vec NUM_NODE P A W r P1 F W1"
    using fixed_chunk_alloc_correct [OF assms(1,2), of NUM_NODE vec fns] by (auto simp: pool_consts)
  have rB: "round_ok B" using assms(1) by (simp add: fixed_inv_def)
  show ?thesis
  proof (cases r)
    case (Inl e)
    then show ?thesis using c post by (auto simp: fixed_re_fill_def fixed_post_def fixed_alloc_post_def)
  next
    case (Inr pk)
    obtain p k where pk: "pk = (p, k)" by fastforce
    have k: "1 \<le> k" "fixed_inv B P1 F ((p, ROUND B * k) # A) W1" "W \<subseteq># W1"
      "same_on (bytes_of A) (sys_mem P) (sys_mem P1)"
      using post Inr pk by (auto simp: fixed_post_def)
    show ?thesis
    proof (cases "k = 1")
      case True
      then show ?thesis using c Inr pk k by (auto simp: fixed_re_fill_def fixed_alloc_post_def)
    next
      case False
      then obtain k' where k': "k = Suc (Suc k')" using k(1) by (cases k; cases "k - 1") auto
      let ?c = "p + ROUND B"
      let ?P = "P1\<lparr>free_lists := (free_lists P1)[0 := ?c], sys_mem := link_nodes (ROUND B) (Suc k') 1 ?c (sys_mem P1)\<rparr>"
      let ?F = "F(0 := nodes ?c (ROUND B) (Suc k'))"
      have "fixed_inv B ?P ?F ((p, ROUND B) # A) W1 \<and> same_on (bytes_of A) (sys_mem P1) (sys_mem ?P)"
        using k(2) assms(3) rB
          fixed_classes.core_link [of B P1 F p 0 k' A "block_bytes (start_free P1, end_free P1 - start_free P1) + W1"]
        by (simp add: fixed_inv_def fixed_class_eq k' del: nodes.simps mult_Suc_right)
      moreover have "?c < 2 ^ 32"
        using fixed_classes.core_addr [OF k(2) [unfolded fixed_inv_def, THEN conjunct2, THEN conjunct1], of ?c] k' ROUND_bounds(3) [OF rB] by auto
      then have "size_t ?c = ?c" by (simp add: size_t_def)
      ultimately show ?thesis
        using c Inr pk k(3,4) k'
        by (auto simp: fixed_re_fill_def fixed_alloc_post_def simp del: nodes.simps intro: same_on_trans)
    qed
  qed
qed

lemma fixed_allocate_small:
  assumes "fixed_inv B P F A W" and "malloc_law mal"
  shows "\<exists>r P' F' W'. fixed_allocate B mal vec fns n P = Some (r, P') \<and> fixed_alloc_post B vec P A W r P' F' W'"
proof (cases "free_lists P ! 0 = 0")
  case True
  have "F 0 = []" using fixed_classes.core_head(2) [of B P F A _ 0] assms(1) True by (auto simp: fixed_inv_def)
  from fixed_re_fill_correct [OF assms this] True show ?thesis by (simp add: fixed_allocate_def)
next
  case False
  have "core (Suc 0) (fixed_class B) P F A (block_bytes (start_free P, end_free P - start_free P) + W)"
    and rB: "round_ok B" using assms(1) by (simp_all add: fixed_inv_def)
  from fixed_classes.core_pop [OF this(1) _ False] False assms(1) rB show ?thesis
    by (auto simp: fixed_allocate_def fixed_alloc_post_def fixed_inv_def fixed_class_eq Let_def
        intro!: exI [of _ "F(0 := tl (F 0))"] exI [of _ W])
qed

lemma fixed_deallocate_small:
  assumes "fixed_inv B P F ((p, ROUND B) # A) W"
  shows "\<exists>P' F'. fixed_deallocate p n P = Inr P' \<and> fixed_inv B P' F' A W \<and>
    same_on (bytes_of A) (sys_mem P) (sys_mem P')"
proof -
  let ?S = "block_bytes (start_free P, end_free P - start_free P) + W"
  have rB: "round_ok B" using assms by (simp add: fixed_inv_def)
  have "core (Suc 0) (fixed_class B) P F A (block_bytes (p, fixed_class B 0) + ?S)"
    using assms by (simp add: fixed_inv_def fixed_classes.core_hand_out fixed_class_eq)
  note push = fixed_classes.core_push [OF this]
  from push assms show ?thesis
    by (auto simp: fixed_deallocate_def fixed_inv_def same_on_def intro!: exI [of _ "F(0 := p # F 0)"])
qed


lemma fixed_inv_init: "round_ok B \<Longrightarrow> live_ok (sys_live s) \<Longrightarrow> sys_oom s = None \<Longrightarrow> fixed_inv B (fixed_init s) (\<lambda>i. []) [] {#}"
  by (simp add: fixed_inv_def core_def chains_def fixed_init_def free_bytes_def class_blocks_def)

section \<open>The pool as an instance of the allocator interface\<close>

definition fixed_request :: "u32 \<Rightarrow> u32 \<Rightarrow> bool" where
  "fixed_request B n \<longleftrightarrow> round_ok B \<and> unat n \<le> unat B"

definition fixed_alloc_inv :: "u32 \<Rightarrow> malloc_fn \<Rightarrow> vector_fn \<Rightarrow> pool \<Rightarrow> block list \<Rightarrow> bool" where
  "fixed_alloc_inv B mal vec P A \<longleftrightarrow> malloc_law mal \<and> (\<forall>t k. vec t k) \<and> (\<exists>F W. fixed_inv B P F A W)"

interpretation fixed: block_allocator
  "fixed_allocate B mal vec fns" fixed_deallocate poke_pool "fixed_request B" unat "\<lambda>n. ROUND B" "fixed_alloc_inv B mal vec"
  for B mal vec fns
proof
  fix s A n assume "fixed_alloc_inv B mal vec s A"
  then obtain F W where inv: "malloc_law mal" "fixed_inv B s F A W" and vec: "\<forall>t k. vec t k" by (auto simp: fixed_alloc_inv_def)
  from fixed_allocate_small [OF inv(2,1)] obtain r P' F' W' where
    "fixed_allocate B mal vec fns n s = Some (r, P')" "fixed_alloc_post B vec s A W r P' F' W'" by blast
  then show "\<exists>r s'. fixed_allocate B mal vec fns n s = Some (r, s') \<and>
      (case r of Inr p \<Rightarrow> fixed_alloc_inv B mal vec s' ((p, ROUND B) # A) | Inl e \<Rightarrow> e = Bad_alloc \<and> fixed_alloc_inv B mal vec s' A)"
    using inv(1) vec by (cases r) (auto simp: fixed_alloc_post_def fixed_alloc_inv_def fixed_torn_def)
next
  fix s p n A assume "fixed_alloc_inv B mal vec s ((p, ROUND B) # A)"
  then show "\<exists>s'. fixed_deallocate p n s = Inr s' \<and> fixed_alloc_inv B mal vec s' A"
    using fixed_deallocate_small by (fastforce simp: fixed_alloc_inv_def)
next
  fix s A a v assume "fixed_alloc_inv B mal vec s A" "a \<in># bytes_of A"
  then obtain F W where "malloc_law mal" "\<forall>t k. vec t k" "fixed_inv B s F A W" by (auto simp: fixed_alloc_inv_def)
  moreover from this \<open>a \<in># bytes_of A\<close> have "fixed_inv B (poke_pool a v s) F A W"
    unfolding poke_pool_def fixed_inv_def by (auto intro!: fixed_classes.core_mem)
  ultimately show "fixed_alloc_inv B mal vec (poke_pool a v s) A" by (auto simp: fixed_alloc_inv_def)
next
  fix s A A' assume "fixed_alloc_inv B mal vec s A" "mset A = mset A'"
  then show "fixed_alloc_inv B mal vec s A'"
    using bytes_of_perm [of A A'] by (auto simp: fixed_alloc_inv_def fixed_inv_def core_def)
next
  fix s A assume "fixed_alloc_inv B mal vec s A"
  then show "once (bytes_of A)"
    using fixed_classes.core_once [of B] by (fastforce simp: fixed_alloc_inv_def fixed_inv_def once_union)
next
  fix n assume "fixed_request B n"
  then show "unat n \<le> ROUND B" using ROUND_bounds(1) [of B] by (simp add: fixed_request_def)
qed

text \<open>
  C33. The same for the fixed-size pool, for block sizes up to 96 MB, for which its sizes do not overflow, and
  as long as the vector of its buffers can grow: whatever sequence of allocations, deallocations and
  writes a client makes, with sizes up to the pool's block size, no two blocks it holds share a byte,
  an allocation returns a block or throws \<open>bad_alloc\<close>, and every block can be given back.
\<close>

theorem fixed_client_safe:
  assumes "client_run (fixed_allocate B mal vec fns) fixed_deallocate poke_pool (fixed_request B) unat (fixed_init s0) P held"
    and "malloc_law mal" and "\<forall>t k. vec t k" and "live_ok (sys_live s0)" and "sys_oom s0 = None" and "round_ok B"
  shows "(\<forall>i < length held. \<forall>j < length held. \<forall>k < unat (snd (held ! i)). \<forall>l < unat (snd (held ! j)).
      i \<noteq> j \<longrightarrow> fst (held ! i) + k \<noteq> fst (held ! j) + l) \<and>
    (\<forall>n. fixed_request B n \<longrightarrow> (\<exists>r P'. fixed_allocate B mal vec fns n P = Some (r, P') \<and>
        (case r of Inr p \<Rightarrow> True | Inl e \<Rightarrow> e = Bad_alloc))) \<and>
    (\<forall>b \<in> set held. \<exists>P'. fixed_deallocate (fst b) (snd b) P = Inr P')"
proof -
  have inv: "fixed_alloc_inv B mal vec (fixed_init s0) []"
    using assms(2,3) fixed_inv_init [OF assms(6,4,5)] by (auto simp: fixed_alloc_inv_def)
  show ?thesis
    using fixed.run_disjoint [OF assms(1) inv] fixed.run_progress [OF assms(1) inv] by auto
qed

section \<open>Concrete pools\<close>

text \<open>The first allocation of a pool whose sizes give \<open>szTotal\<close> and \<open>szGet\<close>.\<close>

lemma first_allocation:
  assumes "size_t (ROUND B * 20) = tot" and "0 < tot" and "tot \<le> get" and "size_t (2 * tot) = get" and "get < 2 ^ 31" and "0 < ROUND B"
  shows "\<exists>P. fixed_allocate B bump_malloc vec quiet_fns n (fixed_init demo_sys) = Some (Inr 8, P) \<and>
    free_lists P = [size_t (8 + ROUND B)] \<and> pool_buffers P = [(8, get)]"
proof -
  let ?P = "fixed_init demo_sys"
  let ?P1 = "?P\<lparr>sys_tick := 1, sys_live := [(8, get)], start_free := 8\<rparr>"
  let ?P2 = "?P1\<lparr>pool_buffers := [(8, get)], heap_size := size_t get, end_free := size_t (8 + get)\<rparr>"
  have gt: "fixed_size_to_get tot ?P = get"
    using assms(4) by (simp add: fixed_size_to_get_def fixed_init_def fixed_ROUNDUP_def)
  have src: "chunk_source bump_malloc quiet_fns get ?P = Some (Inr 8, ?P1)"
    using assms(5) by (simp add: chunk_source_def c_malloc_def bump_malloc_def live_top_def fixed_init_def demo_sys_def Let_def)
  have add: "add_chunk vec 8 get ?P1 = (Inr (), ?P2)"
    by (simp add: add_chunk_def fixed_init_def demo_sys_def NUM_NODE_def Let_def)
  have "fixed_chunk_alloc bump_malloc vec quiet_fns (ROUND B) 20 ?P = fixed_chunk_alloc bump_malloc vec quiet_fns (ROUND B) 20 ?P2"
    using gt src add assms(1,2,6) by (subst fixed_chunk_alloc.simps) (simp add: ptr_diff_def fixed_init_def Let_def)
  also have "\<dots> = Some (Inr (8, 20), ?P2\<lparr>start_free := size_t (8 + tot)\<rparr>)"
    using assms(1,3,5) by (subst fixed_chunk_alloc.simps) (simp add: ptr_diff_def size_t_def nat_add_distrib)
  finally show ?thesis
    by (simp add: fixed_allocate_def fixed_re_fill_def NUM_NODE_def fixed_init_def Let_def)
qed

text \<open>
  A block size for which twenty blocks overflow: the pool takes a buffer of 128 bytes and hands out twenty
  blocks of more than 200 MB from it; the second one lies outside.
\<close>

lemma fixed_sizes_overflow:
  "\<exists>P. fixed_allocate 0x0CCCCCD0 bump_malloc vec quiet_fns 1 (fixed_init demo_sys) = Some (Inr 8, P) \<and>
     free_lists P = [8 + 0x0CCCCCD0] \<and> pool_buffers P = [(8, 128)]"
proof -
  have "ROUND 0x0CCCCCD0 = 0x0CCCCCD0"
    unfolding ROUND_def using unat_and_not_3 [of "0x0CCCCCD0 + 4 - 1"] by simp
  then show ?thesis using first_allocation [of "0x0CCCCCD0" 64 128 vec 1] by (simp add: size_t_def)
qed

text \<open>A client that holds two blocks.\<close>

abbreviation fixed_demo_client :: "pool \<Rightarrow> (addr \<times> u32) list \<Rightarrow> bool" where
  "fixed_demo_client \<equiv> client_run (fixed_allocate 100 bump_malloc (\<lambda>t k. True) quiet_fns) fixed_deallocate poke_pool (fixed_request 100) unat
     (fixed_init demo_sys)"

theorem fixed_client_safe_witness:
  "\<exists>P p. fixed_demo_client P [(p, 100), (8, 90)] \<and> (\<forall>k < 100. \<forall>l < 90. p + k \<noteq> 8 + l) \<and>
    (\<exists>P'. fixed_deallocate p 100 P = Inr P')"
proof -
  have B: "ROUND 100 = 100" unfolding ROUND_def using unat_and_not_3 [of "100 + 4 - 1"] by simp
  have ok: "round_ok 100" "fixed_request 100 90" "fixed_request 100 100" "live_ok (sys_live demo_sys)" "sys_oom demo_sys = None"
    by (simp_all add: fixed_request_def round_ok_def NUM_NODE_def demo_sys_def live_ok_def)
  obtain P1 where P1: "fixed_allocate 100 bump_malloc (\<lambda>t k. True) quiet_fns 90 (fixed_init demo_sys) = Some (Inr 8, P1)"
    "free_lists P1 = [108]"
    using first_allocation [of 100 2000 4000 "\<lambda>t k. True" 90] by (auto simp: B size_t_def)
  have c0: "fixed_demo_client (fixed_init demo_sys) []" by (rule client_run.client_start)
  have c1: "fixed_demo_client P1 [(8, 90)]" using client_run.client_alloc [OF c0 ok(2) P1(1)] .
  obtain P2 where "fixed_allocate 100 bump_malloc (\<lambda>t k. True) quiet_fns 100 P1 = Some (Inr 108, P2)"
    using P1(2) by (simp add: fixed_allocate_def)
  then have c2: "fixed_demo_client P2 [(108, 100), (8, 90)]" using client_run.client_alloc [OF c1 ok(3)] by blast
  note safe = fixed_client_safe [OF c2 bump_malloc_law _ ok(4,5,1), simplified]
  have "108 + k \<noteq> 8 + l" if "k < 100" "l < 90" for k l :: nat
    using safe that by (auto simp: less_Suc_eq dest!: spec [of _ 0])
  then show ?thesis using c2 safe by (intro exI [of _ P2] exI [of _ 108]) auto
qed

end
