(* ===== verification/Async_Transfer.thy ===== *)
theory Async_Transfer
  imports Prelude
begin

text \<open>
  \<open>include/async_io/service\<close>: the buffers of \<open>read_write_buffer.hpp\<close> and \<open>multi_buffer.hpp\<close>, the
  completion conditions of \<open>condition.hpp\<close>, and the composed operations of \<open>read.hpp\<close> and
  \<open>write.hpp\<close> that transfer a whole buffer by several operations of a stream.

  The stream is a template parameter of that code: here a parameter of the definitions, given by
  the result of one operation on a buffer, which may be an exception. A synchronous loop may run
  for ever and is a partial function; an asynchronous operation is the handler that is called at
  each completion and either starts the next operation or calls the user's handler.
\<close>

section \<open>Buffers\<close>

text \<open>\<open>mutable_buffer_t\<close> and \<open>const_buffer_t\<close>: an address and a 32-bit size.\<close>

record buffer_t =
  data_ptr :: nat
  buf_size :: u32

definition buffer_default :: buffer_t where
  "buffer_default = \<lparr>data_ptr = 0, buf_size = 0\<rparr>"

definition buffer_make :: "nat \<Rightarrow> u32 \<Rightarrow> buffer_t" where
  "buffer_make data sz = \<lparr>data_ptr = data, buf_size = sz\<rparr>"

definition buffer_end :: "buffer_t \<Rightarrow> nat" where
  "buffer_end b = data_ptr b + unat (buf_size b)"

text \<open>\<open>operator+\<close> of both classes; the \<open>assert\<close> is absent from a release build.\<close>

definition buffer_plus :: "buffer_t \<Rightarrow> u32 \<Rightarrow> buffer_t result" where
  "buffer_plus b sz =
    (if sz > buf_size b then Inl Network_exception
     else Inr (buffer_make (data_ptr b + unat sz) (buf_size b - sz)))"

text \<open>
  The helpers \<open>buffer\<close>: an array of \<open>n\<close> objects of \<open>sizeof_T\<close> bytes, a vector (\<open>&data[0]\<close> of an
  empty vector has no result), a string.
\<close>

definition buffer_array :: "nat \<Rightarrow> u32 \<Rightarrow> u32 \<Rightarrow> buffer_t" where
  "buffer_array data n sizeof_T = buffer_make data (n * sizeof_T)"

definition buffer_vector :: "nat \<Rightarrow> u32 \<Rightarrow> u32 \<Rightarrow> buffer_t result" where
  "buffer_vector data n sizeof_T =
    (if n = 0 then Inl Access_violation else Inr (buffer_make data (n * sizeof_T)))"

definition buffer_string :: "nat \<Rightarrow> u32 \<Rightarrow> buffer_t" where
  "buffer_string data len = buffer_make data len"

text \<open>\<open>unpack\<close>: one \<open>WSABUF\<close> per argument, from index \<open>Idx\<close> on, in an array of fixed length.\<close>

fun unpack_from :: "nat \<Rightarrow> buffer_t list \<Rightarrow> buffer_t list \<Rightarrow> buffer_t list result" where
  "unpack_from Idx buffers [] = Inr buffers"
| "unpack_from Idx buffers (v # vs) =
    (if Idx < length buffers
     then unpack_from (Suc Idx) (buffers[Idx := buffer_make (data_ptr v) (buf_size v)]) vs
     else Inl Access_violation)"

definition unpack :: "buffer_t list \<Rightarrow> buffer_t list \<Rightarrow> buffer_t list result" where
  "unpack buffers args = unpack_from 0 buffers args"

section \<open>Completion conditions\<close>

definition MAX_BUFFER_LEN :: u32 where
  "MAX_BUFFER_LEN = 64 * 1024"

datatype condition = Transfer_all | Transfer_at_least u32

fun condition_value :: "condition \<Rightarrow> u32 \<Rightarrow> u32" where
  "condition_value Transfer_all t = 2 ^ 32 - 1"
| "condition_value (Transfer_at_least n) t = n"

section \<open>Synchronous transfers\<close>

text \<open>
  \<open>op s b\<close> is one operation of the stream \<open>s\<close> on the buffer \<open>b\<close>: the number of bytes moved, or
  an exception. \<open>log\<close> are the arguments of the calls of \<open>callback\<close>. \<open>go t\<close> is the condition of
  the \<open>while\<close> loop.
\<close>

type_synonym 's stream_op = "'s \<Rightarrow> buffer_t \<Rightarrow> u32 result \<times> 's"
type_synonym 's sync_result = "(u32 result \<times> 's \<times> u32 list) option"

partial_function (option) transfer_loop ::
    "'s stream_op \<Rightarrow> ('s \<Rightarrow> 's) \<Rightarrow> (u32 \<Rightarrow> bool) \<Rightarrow> buffer_t \<Rightarrow> u32 \<Rightarrow> 's \<Rightarrow> u32 list \<Rightarrow> 's sync_result" where
  "transfer_loop op close go b transfers s log =
    (if go transfers then
       if transfers \<ge> buf_size b then Some (Inr transfers, s, log)
       else
         (case buffer_plus b transfers of
            Inl e \<Rightarrow> Some (Inl e, s, log)
          | Inr rest \<Rightarrow>
              (case op s rest of
                 (Inl e, s') \<Rightarrow> Some (Inl e, s', log)
               | (Inr ret, s') \<Rightarrow>
                   let s'' = (if ret = 0 then close s' else s')
                   in transfer_loop op close go b (transfers + ret) s'' (log @ [transfers + ret])))
     else Some (Inr transfers, s, log))"

definition sync_read :: "'s stream_op \<Rightarrow> ('s \<Rightarrow> 's) \<Rightarrow> condition \<Rightarrow> buffer_t \<Rightarrow> 's \<Rightarrow> 's sync_result" where
  "sync_read rd close cond b s = transfer_loop rd close (\<lambda>t. t \<le> condition_value cond t) b 0 s []"

definition sync_write :: "'s stream_op \<Rightarrow> ('s \<Rightarrow> 's) \<Rightarrow> condition \<Rightarrow> buffer_t \<Rightarrow> 's \<Rightarrow> 's sync_result" where
  "sync_write wr close cond b s = transfer_loop wr close (\<lambda>t. t < condition_value cond t) b 0 s []"

text \<open>The overloads with an offset: every operation gets the same offset, and there is no callback.\<close>

definition sync_read_offset ::
    "('s \<Rightarrow> buffer_t \<Rightarrow> nat \<Rightarrow> u32 result \<times> 's) \<Rightarrow> ('s \<Rightarrow> 's) \<Rightarrow> nat \<Rightarrow> condition \<Rightarrow> buffer_t \<Rightarrow> 's \<Rightarrow>
     (u32 result \<times> 's) option" where
  "sync_read_offset rd close offset cond b s =
    map_option (\<lambda>(r, s', log). (r, s'))
      (transfer_loop (\<lambda>s rest. rd s rest offset) close (\<lambda>t. t \<le> condition_value cond t) b 0 s [])"

definition sync_write_offset ::
    "('s \<Rightarrow> buffer_t \<Rightarrow> nat \<Rightarrow> u32 result \<times> 's) \<Rightarrow> ('s \<Rightarrow> 's) \<Rightarrow> nat \<Rightarrow> condition \<Rightarrow> buffer_t \<Rightarrow> 's \<Rightarrow>
     (u32 result \<times> 's) option" where
  "sync_write_offset wr close offset cond b s =
    map_option (\<lambda>(r, s', log). (r, s'))
      (transfer_loop (\<lambda>s rest. wr s rest offset) close (\<lambda>t. t \<le> condition_value cond t) b 0 s [])"

section \<open>Asynchronous transfers\<close>

text \<open>The members of \<open>read_handler_t\<close> and \<open>write_handler_t\<close> that decide what it does.\<close>

record xfer =
  x_buffer :: buffer_t
  x_condition :: condition
  x_transfers :: u32
  x_total :: u32

text \<open>
  What a completion leads to: the next operation on a part of the buffer; the call of the user's
  handler; or its call after the handler has been moved into an operation that failed to start.
\<close>

datatype xfer_out =
    Reissue buffer_t xfer
  | Callback nat u32
  | Callback_moved nat u32

definition next_len :: "u32 \<Rightarrow> u32" where
  "next_len left = (if left > MAX_BUFFER_LEN then MAX_BUFFER_LEN else left)"

text \<open>
  \<open>throws\<close>: the code of the exception thrown by starting the next operation, if any;
  \<open>last_error\<close>: the code of the exception thrown by \<open>operator+\<close>. \<open>report\<close> gives the number of
  bytes reported to the user.
\<close>

definition xfer_step :: "(u32 \<Rightarrow> u32 \<Rightarrow> u32) \<Rightarrow> nat \<Rightarrow> nat option \<Rightarrow> nat \<Rightarrow> u32 \<Rightarrow> xfer \<Rightarrow> xfer_out" where
  "xfer_step report last_error throws error sz h =
    (let h = h\<lparr>x_transfers := x_transfers h + sz\<rparr>;
         t = x_transfers h;
         left = x_total h - t
     in if t < x_total h \<and> sz \<noteq> 0 \<and> error = 0 \<and> t < condition_value (x_condition h) 0
        then
          (case buffer_plus (x_buffer h) t of
             Inl e \<Rightarrow> Callback last_error (report sz t)
           | Inr rest \<Rightarrow>
               (case throws of
                  None \<Rightarrow> Reissue (buffer_make (data_ptr rest) (next_len left)) h
                | Some code \<Rightarrow> Callback_moved code (report sz t)))
        else Callback error (report sz t))"

text \<open>\<open>read_handler_t::operator()\<close> reports no bytes when the last operation moved none.\<close>

definition read_handler :: "nat \<Rightarrow> nat option \<Rightarrow> nat \<Rightarrow> u32 \<Rightarrow> xfer \<Rightarrow> xfer_out" where
  "read_handler = xfer_step (\<lambda>sz t. if sz = 0 then 0 else t)"

definition write_handler :: "nat \<Rightarrow> nat option \<Rightarrow> nat \<Rightarrow> u32 \<Rightarrow> xfer \<Rightarrow> xfer_out" where
  "write_handler = xfer_step (\<lambda>sz t. t)"

text \<open>\<open>async_read\<close>, \<open>async_write\<close>: the handler and the first operation, on the whole buffer.\<close>

definition async_start :: "buffer_t \<Rightarrow> condition \<Rightarrow> buffer_t \<times> xfer" where
  "async_start b cond =
    (b, \<lparr>x_buffer = b, x_condition = cond, x_transfers = 0, x_total = buf_size b\<rparr>)"

text \<open>
  The handlers with an offset move the buffer along and keep the offset of the first operation.
\<close>

record xfer_offset = xfer +
  x_offset :: nat

datatype xfer_offset_out =
    Reissue_at buffer_t nat xfer_offset
  | Callback_at nat u32
  | Callback_moved_at nat u32

definition offset_handler :: "nat \<Rightarrow> nat option \<Rightarrow> nat \<Rightarrow> u32 \<Rightarrow> xfer_offset \<Rightarrow> xfer_offset_out" where
  "offset_handler last_error throws error sz h =
    (let h = h\<lparr>x_transfers := x_transfers h + sz\<rparr>;
         t = x_transfers h
     in if t < x_total h \<and> sz \<noteq> 0 \<and> error = 0 \<and> t < condition_value (x_condition h) 0
        then
          (case buffer_plus (x_buffer h) sz of
             Inl e \<Rightarrow> Callback_at last_error t
           | Inr rest \<Rightarrow>
               (case throws of
                  None \<Rightarrow> Reissue_at rest (x_offset h) (h\<lparr>x_buffer := rest\<rparr>)
                | Some code \<Rightarrow> Callback_moved_at code t))
        else Callback_at error t)"


section \<open>Buffers: the rest of a buffer stays inside it\<close>

lemma buffer_plus_ok:
  assumes "sz \<le> buf_size b"
  shows "\<exists>r. buffer_plus b sz = Inr r \<and> data_ptr r = data_ptr b + unat sz \<and>
    unat (buf_size r) = unat (buf_size b) - unat sz \<and> buffer_end r = buffer_end b"
proof -
  have "unat sz \<le> unat (buf_size b)" using assms by (simp add: word_le_nat_alt)
  then show ?thesis
    using assms by (simp add: buffer_plus_def buffer_make_def buffer_end_def unat_sub not_less)
qed

lemma buffer_plus_throws: "sz > buf_size b \<Longrightarrow> buffer_plus b sz = Inl Network_exception"
  by (simp add: buffer_plus_def)

lemma unpack_from_ok:
  "i + length vs \<le> length bs \<Longrightarrow>
    unpack_from i bs vs = Inr (take i bs @ vs @ drop (i + length vs) bs)"
proof (induction vs arbitrary: i bs)
  case (Cons v vs)
  have v: "buffer_make (data_ptr v) (buf_size v) = v" by (simp add: buffer_make_def)
  have "take (Suc i) (bs[i := v]) = take i bs @ [v]" using Cons.prems by (simp add: take_Suc_conv_app_nth)
  then show ?case using Cons by (simp add: v)
qed simp

section \<open>Synchronous transfers\<close>

text \<open>
  A stream that works: an operation on a nonempty buffer moves at least one byte and at most
  the buffer. For reading, the bytes it moves are the next bytes of \<open>input\<close>, from position \<open>pos\<close>.
\<close>

definition read_law :: "'s stream_op \<Rightarrow> ('s \<Rightarrow> nat) \<Rightarrow> ('s \<Rightarrow> nat \<Rightarrow> byte) \<Rightarrow> (nat \<Rightarrow> byte) \<Rightarrow> bool" where
  "read_law rd pos mem input \<longleftrightarrow> (\<forall>s b. 0 < buf_size b \<longrightarrow> (\<exists>r s'. rd s b = (Inr r, s') \<and>
     0 < r \<and> r \<le> buf_size b \<and> pos s' = pos s + unat r \<and>
     mem s' = (\<lambda>a. if data_ptr b \<le> a \<and> a < data_ptr b + unat r then input (pos s + (a - data_ptr b)) else mem s a)))"

definition filled :: "buffer_t \<Rightarrow> nat \<Rightarrow> nat \<Rightarrow> (nat \<Rightarrow> byte) \<Rightarrow> (nat \<Rightarrow> byte) \<Rightarrow> nat \<Rightarrow> nat \<Rightarrow> byte" where
  "filled b t T input m p =
    (\<lambda>a. if data_ptr b + t \<le> a \<and> a < data_ptr b + T then input (p + (a - (data_ptr b + t))) else m a)"

lemma filled_same [simp]: "filled b t t input m p = m"
  by (rule ext) (auto simp: filled_def)

lemma transfer_loop_reads:
  assumes "read_law rd pos mem input" and "t \<le> buf_size b"
  shows "\<exists>T s' log'. transfer_loop rd close go b t s log = Some (Inr T, s', log') \<and>
    t \<le> T \<and> T \<le> buf_size b \<and> (T = buf_size b \<or> \<not> go T) \<and>
    pos s' = pos s + (unat T - unat t) \<and> mem s' = filled b (unat t) (unat T) input (mem s) (pos s)"
  using assms(2)
proof (induction "unat (buf_size b) - unat t" arbitrary: t s log rule: less_induct)
  case less
  show ?case
  proof (cases "go t \<and> t < buf_size b")
    case False
    then show ?thesis
      using less.prems by (subst transfer_loop.simps) (auto simp: not_less)
  next
    case True
    obtain r where plus: "buffer_plus b t = Inr r" "data_ptr r = data_ptr b + unat t"
      "unat (buf_size r) = unat (buf_size b) - unat t"
      using buffer_plus_ok [OF less.prems] by blast
    have "0 < buf_size r" using plus(3) True by (simp add: word_less_nat_alt)
    with assms(1) obtain n s1 where n: "rd s r = (Inr n, s1)" "0 < n" "n \<le> buf_size r" "pos s1 = pos s + unat n"
      "mem s1 = (\<lambda>a. if data_ptr r \<le> a \<and> a < data_ptr r + unat n then input (pos s + (a - data_ptr r)) else mem s a)"
      unfolding read_law_def by blast
    have "unat t + unat n \<le> unat (buf_size b)" using n(3) plus(3) True by (auto simp: word_le_nat_alt word_less_nat_alt)
    moreover from this have u: "unat (t + n) = unat t + unat n"
      using unat_u32_lt [of "buf_size b"] by (intro unat_add_u32) linarith
    ultimately have le: "t + n \<le> buf_size b" "t \<le> t + n" "0 < unat n"
      using n(2) by (simp_all add: word_le_nat_alt word_less_nat_alt)
    have step: "transfer_loop rd close go b t s log = transfer_loop rd close go b (t + n) s1 (log @ [t + n])"
      using True plus n(1,2) by (subst transfer_loop.simps) (auto simp: not_le)
    have "unat (buf_size b) - unat (t + n) < unat (buf_size b) - unat t"
      using le True u by (auto simp: word_less_nat_alt)
    from less.hyps [OF this le(1), of s1 "log @ [t + n]"] obtain T s' log' where
      IH: "transfer_loop rd close go b (t + n) s1 (log @ [t + n]) = Some (Inr T, s', log')"
      "t + n \<le> T" "T \<le> buf_size b" "T = buf_size b \<or> \<not> go T"
      "pos s' = pos s1 + (unat T - unat (t + n))"
      "mem s' = filled b (unat (t + n)) (unat T) input (mem s1) (pos s1)" by blast
    have "mem s' = filled b (unat t) (unat T) input (mem s) (pos s)"
      unfolding IH(6) using IH(2) u le(3)
      by (rule_tac ext) (auto simp: filled_def n plus(2) word_le_nat_alt)
    moreover have "pos s' = pos s + (unat T - unat t)" "t \<le> T"
      using IH(2,5) n(4) u by (simp_all add: word_le_nat_alt)
    ultimately show ?thesis using step IH by auto
  qed
qed

text \<open>
  \<open>read\<close> with \<open>transfer_all\<close> on a stream that delivers at least one byte per operation ends, however
  the bytes are cut into operations: it returns the size of the buffer and the buffer then
  holds the next bytes of the stream in order; no other memory is written.
\<close>

theorem sync_read_fills_buffer:
  assumes "read_law rd pos mem input"
  shows "\<exists>s' log. sync_read rd close Transfer_all b s = Some (Inr (buf_size b), s', log) \<and>
    pos s' = pos s + unat (buf_size b) \<and>
    mem s' = (\<lambda>a. if data_ptr b \<le> a \<and> a < buffer_end b then input (pos s + (a - data_ptr b)) else mem s a)"
proof -
  obtain T s' log where "sync_read rd close Transfer_all b s = Some (Inr T, s', log)" "T = buf_size b"
    "pos s' = pos s + unat T" "mem s' = filled b 0 (unat T) input (mem s) (pos s)"
    using transfer_loop_reads [OF assms, of 0 b close "\<lambda>t. t \<le> condition_value Transfer_all t" s "[]"] le_u32_max
    by (auto simp: sync_read_def)
  then show ?thesis by (auto simp: filled_def buffer_end_def)
qed


text \<open>
  The two synchronous loops end by different tests. \<open>write\<close> with \<open>transfer_at_least (n)\<close> stops as
  soon as \<open>n\<close> bytes are moved; \<open>read\<close> compares with \<open><=\<close>, so it goes on after exactly \<open>n\<close> bytes
  and returns only when more than \<open>n\<close> bytes, or the whole buffer, are moved.
\<close>

theorem sync_at_least:
  assumes "read_law op pos mem input"
  shows "\<exists>T s' log T2 s2 log2.
    sync_write op close (Transfer_at_least n) b s = Some (Inr T, s', log) \<and> T \<le> buf_size b \<and>
      (T = buf_size b \<or> n \<le> T) \<and>
    sync_read op close (Transfer_at_least n) b s = Some (Inr T2, s2, log2) \<and> T2 \<le> buf_size b \<and>
      (T2 = buf_size b \<or> n < T2)"
  using transfer_loop_reads [OF assms, of 0 b close "\<lambda>t. t < n" s "[]"]
    transfer_loop_reads [OF assms, of 0 b close "\<lambda>t. t \<le> n" s "[]"]
  by (auto simp: sync_read_def sync_write_def not_le not_less)

lemma transfer_loop_stuck:
  assumes "\<And>s b. \<exists>s'. op s b = (Inr 0, s')" and "go t" and "t < buf_size b"
  shows "transfer_loop op close go b t s log = None"
proof (rule ccontr)
  assume "transfer_loop op close go b t s log \<noteq> None"
  then obtain y where y: "transfer_loop op close go b t s log = Some y" by blast
  let ?P = "\<lambda>op close go b t s log y. (\<forall>s b. \<exists>s'. op s b = (Inr 0, s')) \<and> go t \<and> t < buf_size b \<longrightarrow> False"
  have "?P op close go b t s log y"
  proof (rule transfer_loop.raw_induct [where P = ?P, rotated, OF y], rule impI)
    fix rec op close go b t s log and y :: "u32 result \<times> 'a \<times> u32 list"
    assume IH: "\<And>op close go b t s log y. rec op close go b t s log = Some y \<Longrightarrow> ?P op close go b t s log y"
      and body: "(if go t then if t \<ge> buf_size b then Some (Inr t, s, log)
         else case buffer_plus b t of Inl e \<Rightarrow> Some (Inl e, s, log)
           | Inr rest \<Rightarrow> (case op s rest of (Inl e, s') \<Rightarrow> Some (Inl e, s', log)
               | (Inr ret, s') \<Rightarrow> let s'' = (if ret = 0 then close s' else s')
                   in rec op close go b (t + ret) s'' (log @ [t + ret]))
         else Some (Inr t, s, log)) = Some y"
      and hyp: "(\<forall>s b. \<exists>s'. op s b = (Inr 0, s')) \<and> go t \<and> t < buf_size b"
    obtain r where r: "buffer_plus b t = Inr r" using buffer_plus_ok [of t b] hyp by (auto simp: less_imp_le)
    obtain s' where "op s r = (Inr 0, s')" using hyp by blast
    with body hyp r have "rec op close go b t (close s') (log @ [t]) = Some y"
      by (auto simp: not_le [symmetric])
    from IH [OF this] hyp show False by blast
  qed
  with assms show False by blast
qed

text \<open>
  At the end of a stream the synchronous loops do not return: when every operation moves no byte
  (and does not throw), \<open>read\<close> and \<open>write\<close> close the stream again and again and never end. A
  stream whose operations throw once it is closed, as a socket's do, ends them by that exception.
\<close>

theorem sync_end_of_stream_diverges:
  assumes "\<And>s b. \<exists>s'. op s b = (Inr 0, s')" and "0 < buf_size b"
  shows "sync_read op close Transfer_all b s = None \<and> sync_write op close Transfer_all b s = None"
  unfolding sync_read_def sync_write_def
  by (intro conjI transfer_loop_stuck assms) simp_all


section \<open>Asynchronous transfers\<close>

text \<open>
  \<open>xfer_run step h cs\<close>: the handler \<open>h\<close> gets the completions \<open>cs\<close> one after the other; the result
  are the operations it starts and what it ends with, \<open>None\<close> while it still waits. \<open>legal\<close> says
  that no completion reports more bytes than were asked for.
\<close>

type_synonym xfer_handler = "nat \<Rightarrow> u32 \<Rightarrow> xfer \<Rightarrow> xfer_out"

fun xfer_run :: "xfer_handler \<Rightarrow> xfer \<Rightarrow> (nat \<times> u32) list \<Rightarrow> buffer_t list \<times> xfer_out option" where
  "xfer_run step h [] = ([], None)"
| "xfer_run step h (c # cs) =
    (case step (fst c) (snd c) h of
       Reissue req h' \<Rightarrow> (req # fst (xfer_run step h' cs), snd (xfer_run step h' cs))
     | out \<Rightarrow> ([], Some out))"

fun legal :: "xfer_handler \<Rightarrow> xfer \<Rightarrow> buffer_t \<Rightarrow> (nat \<times> u32) list \<Rightarrow> bool" where
  "legal step h req [] \<longleftrightarrow> True"
| "legal step h req (c # cs) \<longleftrightarrow> snd c \<le> buf_size req \<and>
    (case step (fst c) (snd c) h of Reissue req' h' \<Rightarrow> legal step h' req' cs | _ \<Rightarrow> True)"

text \<open>
  The same environment as a function: \<open>os k req\<close> is the number of bytes that the \<open>k\<close>-th operation
  of a stream moves when it is started on \<open>req\<close>, at least one and at most the whole of a nonempty
  buffer. \<open>arrivals os step k n h req\<close> are the completions of at most \<open>n\<close> operations from the \<open>k\<close>-th
  on, as long as the handler starts another.
\<close>

definition os_delivers :: "(nat \<Rightarrow> buffer_t \<Rightarrow> u32) \<Rightarrow> bool" where
  "os_delivers os \<longleftrightarrow> (\<forall>k req. 0 < buf_size req \<longrightarrow> 0 < os k req \<and> os k req \<le> buf_size req)"

fun arrivals ::
    "(nat \<Rightarrow> buffer_t \<Rightarrow> u32) \<Rightarrow> xfer_handler \<Rightarrow> nat \<Rightarrow> nat \<Rightarrow> xfer \<Rightarrow> buffer_t \<Rightarrow> (nat \<times> u32) list" where
  "arrivals os step k 0 h req = []"
| "arrivals os step k (Suc n) h req = (0, os k req) #
    (case step 0 (os k req) h of Reissue req' h' \<Rightarrow> arrivals os step (Suc k) n h' req' | _ \<Rightarrow> [])"

definition moved :: "(nat \<times> u32) list \<Rightarrow> nat" where
  "moved cs = sum_list (map (\<lambda>c. unat (snd c)) cs)"

definition waiting :: "buffer_t \<Rightarrow> condition \<Rightarrow> xfer \<Rightarrow> bool" where
  "waiting b cond h \<longleftrightarrow> x_buffer h = b \<and> x_condition h = cond \<and> x_total h = buf_size b \<and> x_transfers h < buf_size b"

lemma next_len_min: "unat (next_len left) = min (unat left) (64 * 1024)"
  by (auto simp: next_len_def MAX_BUFFER_LEN_def word_less_nat_alt min_def not_less)

lemma xfer_step_ok:
  assumes "waiting b cond h" and "n \<noteq> 0" and "unat (x_transfers h) + unat n \<le> unat (buf_size b)"
  defines "t \<equiv> x_transfers h + n"
  shows "unat t = unat (x_transfers h) + unat n" and "t \<le> buf_size b"
    and "t < buf_size b \<Longrightarrow> t < condition_value cond 0 \<Longrightarrow>
      xfer_step report last_error None 0 n h =
        Reissue \<lparr>data_ptr = data_ptr b + unat t, buf_size = next_len (buf_size b - t)\<rparr> (h\<lparr>x_transfers := t\<rparr>) \<and>
      waiting b cond (h\<lparr>x_transfers := t\<rparr>)"
    and "\<not> (t < buf_size b \<and> t < condition_value cond 0) \<Longrightarrow>
      xfer_step report last_error None 0 n h = Callback 0 (report n t)"
proof -
  show u: "unat t = unat (x_transfers h) + unat n"
    unfolding t_def using assms(3) unat_u32_lt [of "buf_size b"] by (intro unat_add_u32) linarith
  then show le: "t \<le> buf_size b" using assms(3) by (simp add: word_le_nat_alt)
  show "t < buf_size b \<Longrightarrow> t < condition_value cond 0 \<Longrightarrow>
      xfer_step report last_error None 0 n h =
        Reissue \<lparr>data_ptr = data_ptr b + unat t, buf_size = next_len (buf_size b - t)\<rparr> (h\<lparr>x_transfers := t\<rparr>) \<and>
      waiting b cond (h\<lparr>x_transfers := t\<rparr>)"
    using assms(1,2) le by (auto simp: xfer_step_def waiting_def t_def Let_def buffer_plus_def buffer_make_def)
  show "\<not> (t < buf_size b \<and> t < condition_value cond 0) \<Longrightarrow>
      xfer_step report last_error None 0 n h = Callback 0 (report n t)"
    using assms(1) by (auto simp: xfer_step_def waiting_def t_def Let_def)
qed

lemma xfer_run_outcome:
  assumes "waiting b cond h" and "legal (xfer_step report e None) h req cs"
    and "unat (buf_size req) \<le> unat (buf_size b) - unat (x_transfers h)"
    and "\<forall>c \<in> set cs. fst c = 0 \<and> snd c \<noteq> 0"
    and "\<And>n t. n \<noteq> 0 \<Longrightarrow> report n t = t"
    and "xfer_run (xfer_step report e None) h cs = (reqs, out)"
  shows "(\<forall>k < length reqs.
      data_ptr (reqs ! k) = data_ptr b + (unat (x_transfers h) + moved (take (Suc k) cs)) \<and>
      unat (buf_size (reqs ! k)) = min (unat (buf_size b) - (unat (x_transfers h) + moved (take (Suc k) cs))) (64 * 1024)) \<and>
    (case out of
       None \<Rightarrow> length reqs = length cs \<and> unat (x_transfers h) + moved cs < unat (buf_size b)
     | Some res \<Rightarrow> length reqs < length cs \<and> (\<exists>T. res = Callback 0 T \<and> T \<le> buf_size b \<and>
         (T = buf_size b \<or> condition_value cond 0 \<le> T) \<and>
         unat T = unat (x_transfers h) + moved (take (Suc (length reqs)) cs)))"
  using assms(1-4) assms(6)
proof (induction cs arbitrary: h req reqs)
  case Nil
  then show ?case by (auto simp: waiting_def word_less_nat_alt moved_def)
next
  case (Cons c cs)
  let ?n = "snd c" and ?t = "x_transfers h + snd c" and ?step = "xfer_step report e None"
  have c: "fst c = 0" "?n \<noteq> 0" using Cons.prems(4) by auto
  have h: "unat (x_transfers h) < unat (buf_size b)" using Cons.prems(1) by (simp add: waiting_def word_less_nat_alt)
  have "unat (x_transfers h) + unat ?n \<le> unat (buf_size b)"
    using Cons.prems(2,3) h by (auto simp: word_le_nat_alt)
  note step = xfer_step_ok [OF Cons.prems(1) c(2) this]
  show ?case
  proof (cases "?t < buf_size b \<and> ?t < condition_value cond 0")
    case False
    then show ?thesis
      using step(1,2) step(4) [OF False, of report e] c assms(5) [of ?n ?t] Cons.prems(5)
      by (auto simp: moved_def not_less)
  next
    case True
    let ?req = "\<lparr>data_ptr = data_ptr b + unat ?t, buf_size = next_len (buf_size b - ?t)\<rparr>"
    let ?h = "h\<lparr>x_transfers := ?t\<rparr>"
    have s: "?step (fst c) ?n h = Reissue ?req ?h" "waiting b cond ?h" using step(3) [of report e] True c by auto
    obtain reqs' where run: "xfer_run ?step ?h cs = (reqs', out)" "reqs = ?req # reqs'"
      using Cons.prems(5) s(1) by (cases "xfer_run ?step ?h cs") auto
    have req: "unat (buf_size ?req) = min (unat (buf_size b) - unat ?t) (64 * 1024)"
      using step(2) by (simp add: next_len_min unat_sub)
    have mv: "moved (c # xs) = unat ?n + moved xs" for xs
      by (simp add: moved_def)
    have IH: "(\<forall>k < length reqs'.
        data_ptr (reqs' ! k) = data_ptr b + (unat (x_transfers h) + moved (take (Suc (Suc k)) (c # cs))) \<and>
        unat (buf_size (reqs' ! k)) = min (unat (buf_size b) - (unat (x_transfers h) + moved (take (Suc (Suc k)) (c # cs)))) (64 * 1024)) \<and>
      (case out of
         None \<Rightarrow> length reqs = length (c # cs) \<and> unat (x_transfers h) + moved (c # cs) < unat (buf_size b)
       | Some res \<Rightarrow> length reqs < length (c # cs) \<and> (\<exists>T. res = Callback 0 T \<and> T \<le> buf_size b \<and>
           (T = buf_size b \<or> condition_value cond 0 \<le> T) \<and>
           unat T = unat (x_transfers h) + moved (take (Suc (length reqs)) (c # cs))))"
      using Cons.IH [OF s(2) _ _ _ run(1), of ?req] Cons.prems(2,4) s(1) req step(1) run(2)
      by (simp add: mv add.assoc split: option.splits)
    moreover have "data_ptr ?req = data_ptr b + (unat (x_transfers h) + moved (take (Suc 0) (c # cs)))"
      "unat (buf_size ?req) = min (unat (buf_size b) - (unat (x_transfers h) + moved (take (Suc 0) (c # cs)))) (64 * 1024)"
      using req step(1) by (simp_all add: moved_def)
    ultimately show ?thesis unfolding run(2) by (simp only: length_Cons All_less_Suc2 nth_Cons_0 nth_Cons_Suc) blast
  qed
qed

lemma moved_ge_length: "\<forall>c \<in> set cs. snd c \<noteq> 0 \<Longrightarrow> length cs \<le> moved cs"
proof (induction cs)
  case (Cons c cs)
  then have "0 < unat (snd c)" by (simp add: unat_gt_0)
  then show ?case using Cons by (simp add: moved_def)
qed (simp add: moved_def)

lemma xfer_run_completes:
  assumes "waiting b cond h" and "legal (xfer_step report e None) h req cs"
    and "unat (buf_size req) \<le> unat (buf_size b) - unat (x_transfers h)"
    and "\<forall>c \<in> set cs. fst c = 0 \<and> snd c \<noteq> 0" and "unat (buf_size b) - unat (x_transfers h) \<le> length cs"
    and "\<And>n t. n \<noteq> 0 \<Longrightarrow> report n t = t"
  shows "\<exists>reqs T. xfer_run (xfer_step report e None) h cs = (reqs, Some (Callback 0 T)) \<and>
    T \<le> buf_size b \<and> (T = buf_size b \<or> condition_value cond 0 \<le> T)"
proof -
  obtain reqs out where run: "xfer_run (xfer_step report e None) h cs = (reqs, out)" by fastforce
  note outcome = xfer_run_outcome [OF assms(1-4,6) run]
  have "length cs \<le> moved cs" using moved_ge_length assms(4) by blast
  then have "out \<noteq> None" using outcome assms(5) by (cases out) auto
  then show ?thesis using outcome run by auto
qed

text \<open>Whatever the stream delivers, its completions are legal, and they go on until the handler has been called.\<close>

lemma arrivals_legal:
  assumes "os_delivers os" and "waiting b cond h" and "0 < buf_size req"
    and "unat (buf_size req) \<le> unat (buf_size b) - unat (x_transfers h)"
    and "step = xfer_step report e None"
  shows "legal step h req (arrivals os step k n h req) \<and> (\<forall>c \<in> set (arrivals os step k n h req). fst c = 0 \<and> snd c \<noteq> 0) \<and>
    (snd (xfer_run step h (arrivals os step k n h req)) = None \<longrightarrow> length (arrivals os step k n h req) = n) \<and>
    (snd (xfer_run step h (arrivals os step k n h req)) \<noteq> None \<longrightarrow>
       length (arrivals os step k n h req) = Suc (length (fst (xfer_run step h (arrivals os step k n h req)))))"
  using assms(2-4)
proof (induction n arbitrary: k h req)
  case (Suc n)
  let ?n = "os k req" and ?t = "x_transfers h + os k req"
  have n: "0 < ?n" "?n \<le> buf_size req" using assms(1) Suc.prems(2) by (auto simp: os_delivers_def)
  have h: "unat (x_transfers h) < unat (buf_size b)" using Suc.prems(1) by (simp add: waiting_def word_less_nat_alt)
  have "unat (x_transfers h) + unat ?n \<le> unat (buf_size b)" using n(2) Suc.prems(3) h by (simp add: word_le_nat_alt)
  note ok = xfer_step_ok [OF Suc.prems(1) _ this]
  show ?case
  proof (cases "?t < buf_size b \<and> ?t < condition_value cond 0")
    case False
    then show ?thesis using n ok(4) [OF _ False, of report e] by (simp add: assms(5))
  next
    case True
    let ?req = "\<lparr>data_ptr = data_ptr b + unat ?t, buf_size = next_len (buf_size b - ?t)\<rparr>"
    let ?h = "h\<lparr>x_transfers := ?t\<rparr>"
    have s: "step 0 ?n h = Reissue ?req ?h" "waiting b cond ?h" using ok(3) [of report e] True n(1) by (auto simp: assms(5))
    have "unat (buf_size ?req) = min (unat (buf_size b) - unat ?t) (64 * 1024)"
      using ok(2) n(1) by (simp add: next_len_min unat_sub)
    moreover have "unat ?t < unat (buf_size b)" using True by (simp add: word_less_nat_alt)
    ultimately have req: "0 < buf_size ?req" "unat (buf_size ?req) \<le> unat (buf_size b) - unat (x_transfers ?h)"
      by (simp_all add: word_less_nat_alt)
    show ?thesis using Suc.IH [OF s(2) req, of "Suc k"] s(1) n by auto
  qed
qed simp

lemma arrivals_run:
  assumes "os_delivers os" and "async_start b cond = (req, h)" and "0 < buf_size b"
    and "\<And>n t. n \<noteq> 0 \<Longrightarrow> report n t = t" and "step = xfer_step report e None"
    and "cs = arrivals os step 0 (unat (buf_size b)) h req"
  shows "\<exists>reqs T. xfer_run step h cs = (reqs, Some (Callback 0 T)) \<and> length cs = Suc (length reqs) \<and>
    unat T = moved cs \<and> T \<le> buf_size b \<and> (T = buf_size b \<or> condition_value cond 0 \<le> T) \<and>
    (\<forall>k < length reqs. data_ptr (reqs ! k) = data_ptr b + moved (take (Suc k) cs) \<and>
       unat (buf_size (reqs ! k)) = min (unat (buf_size b) - moved (take (Suc k) cs)) (64 * 1024))"
proof -
  have h: "waiting b cond h" "req = b" "x_transfers h = 0"
    using assms(2,3) by (auto simp: async_start_def waiting_def)
  note legal = arrivals_legal [OF assms(1) h(1) _ _ assms(5), of req 0 "unat (buf_size b)", folded assms(6)]
  have l: "legal step h req cs" "\<forall>c \<in> set cs. fst c = 0 \<and> snd c \<noteq> 0" using legal h assms(3) by auto
  obtain reqs T where run: "xfer_run step h cs = (reqs, Some (Callback 0 T))"
  proof -
    obtain reqs out where run: "xfer_run step h cs = (reqs, out)" by fastforce
    note outcome = xfer_run_outcome [OF h(1) l(1) [unfolded assms(5)] _ l(2) assms(4) run [unfolded assms(5)]]
    have "out \<noteq> None"
    proof
      assume "out = None"
      then have "length cs = unat (buf_size b)" "moved cs < unat (buf_size b)" using legal outcome h assms(3) run by auto
      then show False using moved_ge_length [of cs] l(2) by fastforce
    qed
    then show thesis using outcome h run that by auto
  qed
  have "length cs = Suc (length reqs)" using legal h assms(3) run by simp
  then show ?thesis
    using xfer_run_outcome [OF h(1) l(1) [unfolded assms(5)] _ l(2) assms(4) run [unfolded assms(5)]] h run by auto
qed

text \<open>
  C19. An asynchronous transfer finishes. The first operation is started on the whole buffer. When
  every operation on a nonempty buffer moves at least one byte and no error occurs, then however the
  bytes are split, after at most as many operations as the buffer has bytes the user's handler is
  called, with the number \<open>T\<close> of bytes moved by all of them together, which is the whole buffer or
  meets the condition. Every further operation is started on exactly the bytes of the buffer that
  follow those already moved, all of them or the first 64 KiB.
\<close>

theorem async_transfer_completes:
  assumes "step = read_handler e None \<or> step = write_handler e None"
    and "os_delivers os" and "async_start b cond = (req, h)" and "0 < buf_size b"
    and "cs = arrivals os step 0 (unat (buf_size b)) h req"
  shows "req = b \<and> (\<exists>reqs T. xfer_run step h cs = (reqs, Some (Callback 0 T)) \<and> length cs = Suc (length reqs) \<and>
    unat T = moved cs \<and> T \<le> buf_size b \<and> (T = buf_size b \<or> condition_value cond 0 \<le> T) \<and>
    (\<forall>k < length reqs. data_ptr (reqs ! k) = data_ptr b + moved (take (Suc k) cs) \<and>
       unat (buf_size (reqs ! k)) = min (unat (buf_size b) - moved (take (Suc k) cs)) (64 * 1024)))"
proof -
  have "req = b" using assms(3) by (simp add: async_start_def)
  then show ?thesis
    using assms(1) arrivals_run [OF assms(2-4) _ _ assms(5), of "\<lambda>sz t. if sz = 0 then 0 else t" e]
      arrivals_run [OF assms(2-4) _ _ assms(5), of "\<lambda>sz t. t" e]
    by (auto simp: read_handler_def write_handler_def)
qed

text \<open>
  When the peer has closed the stream, a completion without bytes, the asynchronous read reports
  0 bytes to the user although earlier operations have filled part of the buffer, while the
  asynchronous write reports the bytes it has moved. When the next operation cannot be started,
  the handler that is called has already been moved away.
\<close>

theorem async_end_of_stream:
  assumes "waiting b cond h"
  shows "read_handler e throws err 0 h = Callback err 0 \<and>
    write_handler e throws err 0 h = Callback err (x_transfers h) \<and>
    (n \<noteq> 0 \<and> unat (x_transfers h) + unat n < unat (buf_size b) \<and> x_transfers h + n < condition_value cond 0 \<longrightarrow>
      read_handler e (Some code) 0 n h = Callback_moved code (x_transfers h + n) \<and>
      write_handler e (Some code) 0 n h = Callback_moved code (x_transfers h + n))"
proof -
  have "read_handler e (Some code) 0 n h = Callback_moved code (x_transfers h + n) \<and>
      write_handler e (Some code) 0 n h = Callback_moved code (x_transfers h + n)"
    if "n \<noteq> 0" "unat (x_transfers h) + unat n < unat (buf_size b)" "x_transfers h + n < condition_value cond 0"
  proof -
    have "unat (x_transfers h + n) = unat (x_transfers h) + unat n"
      using that(2) unat_u32_lt [of "buf_size b"] by (intro unat_add_u32) linarith
    then have "x_transfers h + n < buf_size b" using that(2) by (simp add: word_less_nat_alt)
    with that assms show ?thesis
      by (auto simp: read_handler_def write_handler_def xfer_step_def waiting_def Let_def buffer_plus_def)
  qed
  then show ?thesis
    by (auto simp: read_handler_def write_handler_def xfer_step_def Let_def)
qed

section \<open>Offsets\<close>

text \<open>A file with content \<open>f\<close> that delivers one byte per operation.\<close>

definition byte_read :: "(nat \<Rightarrow> byte) \<Rightarrow> (nat \<Rightarrow> byte) \<times> nat \<Rightarrow> buffer_t \<Rightarrow> nat \<Rightarrow> u32 result \<times> ((nat \<Rightarrow> byte) \<times> nat)" where
  "byte_read f s b offset = (Inr 1, ((fst s)(data_ptr b := f offset), Suc (snd s)))"

text \<open>
  The overloads with an offset give every operation the offset of the first one: on a file
  that delivers one byte per operation, the buffer is filled with copies of the byte at that
  offset instead of the bytes that follow it.
\<close>

theorem sync_read_offset_repeats:
  "\<exists>m' n. sync_read_offset (byte_read f) close offset Transfer_all b (m, 0) = Some (Inr (buf_size b), (m', n)) \<and>
    m' = (\<lambda>a. if data_ptr b \<le> a \<and> a < buffer_end b then f offset else m a)"
proof -
  have "read_law (\<lambda>s rest. byte_read f s rest offset) snd fst (\<lambda>a. f offset)"
    by (auto simp: read_law_def byte_read_def word_le_nat_alt word_less_nat_alt fun_eq_iff)
  from transfer_loop_reads [OF this, of 0 b close "\<lambda>t. t \<le> condition_value Transfer_all t" "(m, 0)" "[]"]
  show ?thesis using le_u32_max
    by (fastforce simp: sync_read_offset_def filled_def buffer_end_def)
qed


section \<open>Concrete streams\<close>

text \<open>A stream that delivers the byte \<open>i\<close> at its position \<open>i\<close>, one byte per operation.\<close>

definition demo_read :: "(nat \<Rightarrow> byte) \<times> nat \<Rightarrow> buffer_t \<Rightarrow> u32 result \<times> ((nat \<Rightarrow> byte) \<times> nat)" where
  "demo_read s b = (Inr 1, ((fst s)(data_ptr b := of_nat (snd s)), Suc (snd s)))"

lemma demo_read_law: "read_law demo_read snd fst (\<lambda>i. of_nat i)"
  by (auto simp: read_law_def demo_read_def word_le_nat_alt word_less_nat_alt fun_eq_iff)

definition demo_buffer :: buffer_t where
  "demo_buffer = \<lparr>data_ptr = 100, buf_size = 3\<rparr>"

definition demo_state :: "(nat \<Rightarrow> byte) \<times> nat" where
  "demo_state = (\<lambda>a. 0, 7)"

theorem sync_read_fills_buffer_witness:
  "\<exists>s' log. sync_read demo_read (\<lambda>s. s) Transfer_all demo_buffer demo_state = Some (Inr (buf_size demo_buffer), s', log) \<and>
    snd s' = snd demo_state + unat (buf_size demo_buffer) \<and>
    fst s' = (\<lambda>a. if data_ptr demo_buffer \<le> a \<and> a < buffer_end demo_buffer
      then of_nat (snd demo_state + (a - data_ptr demo_buffer)) else fst demo_state a)"
  by (rule sync_read_fills_buffer [OF demo_read_law])

theorem sync_at_least_witness:
  "\<exists>T s' log T2 s2 log2.
    sync_write demo_read (\<lambda>s. s) (Transfer_at_least 2) demo_buffer demo_state = Some (Inr T, s', log) \<and>
      T \<le> buf_size demo_buffer \<and> (T = buf_size demo_buffer \<or> 2 \<le> T) \<and>
    sync_read demo_read (\<lambda>s. s) (Transfer_at_least 2) demo_buffer demo_state = Some (Inr T2, s2, log2) \<and>
      T2 \<le> buf_size demo_buffer \<and> (T2 = buf_size demo_buffer \<or> 2 < T2)"
  by (rule sync_at_least [OF demo_read_law])

theorem sync_end_of_stream_diverges_witness:
  "sync_read (\<lambda>s b. (Inr 0, s)) (\<lambda>s. s) Transfer_all demo_buffer (0 :: nat) = None \<and>
   sync_write (\<lambda>s b. (Inr 0, s)) (\<lambda>s. s) Transfer_all demo_buffer (0 :: nat) = None"
  by (rule sync_end_of_stream_diverges) (simp_all add: demo_buffer_def)

text \<open>A stream that moves at most 40000 bytes per operation: a buffer of 150000 bytes takes four, of which the second and third ask for 64 KiB.\<close>

definition slow_os :: "nat \<Rightarrow> buffer_t \<Rightarrow> u32" where
  "slow_os k req = min 40000 (buf_size req)"

lemma slow_os_delivers: "os_delivers slow_os"
  by (simp add: os_delivers_def slow_os_def)

lemma arrivals_rec: "arrivals os step k n h req = (if n = 0 then [] else (0, os k req) #
    (case step 0 (os k req) h of Reissue req' h' \<Rightarrow> arrivals os step (Suc k) (n - 1) h' req' | _ \<Rightarrow> []))"
  by (cases n) (simp_all split: xfer_out.split)

lemmas split_transfer_simps = arrivals_rec read_handler_def xfer_step_def async_start_def Let_def buffer_plus_def buffer_make_def
  next_len_def MAX_BUFFER_LEN_def slow_os_def

lemma split_arrivals:
  defines "h \<equiv> \<lparr>x_buffer = \<lparr>data_ptr = 100, buf_size = 150000\<rparr>, x_condition = Transfer_all, x_transfers = 0, x_total = 150000\<rparr>"
  shows "arrivals slow_os (read_handler 0 None) 0 150000 h \<lparr>data_ptr = 100, buf_size = 150000\<rparr> =
    [(0, 40000), (0, 40000), (0, 40000), (0, 30000)]"
  unfolding h_def by (simp add: split_transfer_simps)

theorem async_transfer_completes_witness:
  "\<exists>reqs. xfer_run (read_handler 0 None) (snd (async_start \<lparr>data_ptr = 100, buf_size = 150000\<rparr> Transfer_all))
       [(0, 40000), (0, 40000), (0, 40000), (0, 30000)] = (reqs, Some (Callback 0 150000)) \<and>
     map (\<lambda>r. unat (buf_size r)) reqs = [65536, 65536, 30000]"
proof -
  let ?b = "\<lparr>data_ptr = 100, buf_size = 150000 :: u32\<rparr>"
  let ?h = "snd (async_start ?b Transfer_all)"
  have cs: "arrivals slow_os (read_handler 0 None) 0 (unat (buf_size ?b)) ?h ?b = [(0, 40000), (0, 40000), (0, 40000), (0, 30000)]"
    using split_arrivals by (simp add: async_start_def)
  obtain reqs T where run: "xfer_run (read_handler 0 None) ?h [(0, 40000), (0, 40000), (0, 40000), (0, 30000)] = (reqs, Some (Callback 0 T))"
    "length reqs = 3" "unat T = moved [(0, 40000), (0, 40000), (0, 40000), (0, 30000)]"
    "\<forall>k < length reqs. unat (buf_size (reqs ! k)) = min (150000 - moved (take (Suc k) [(0, 40000), (0, 40000), (0, 40000), (0, 30000)])) (64 * 1024)"
    using async_transfer_completes [OF disjI1 [OF HOL.refl] slow_os_delivers _ _ cs [symmetric], of Transfer_all] by (auto simp: async_start_def)
  have "unat T = unat (150000 :: u32)" using run(3) by (simp add: moved_def)
  then have "T = 150000" by (simp only: word_unat_eq_iff)
  moreover have "map (\<lambda>r. unat (buf_size r)) reqs = map (\<lambda>k. unat (buf_size (reqs ! k))) [0, 1, 2]"
    using run(2) by (intro nth_equalityI) (auto simp: less_Suc_eq numeral_3_eq_3 numeral_2_eq_2)
  ultimately show ?thesis using run by (simp add: moved_def)
qed

theorem async_end_of_stream_witness:
  "read_handler 0 None 0 0 (snd (async_start demo_buffer Transfer_all)) = Callback 0 0 \<and>
   write_handler 0 None 0 0 (snd (async_start demo_buffer Transfer_all)) = Callback 0 0"
  using async_end_of_stream [of demo_buffer Transfer_all "snd (async_start demo_buffer Transfer_all)" 0 None 0]
  by (simp add: async_start_def waiting_def demo_buffer_def)

end
