(* ===== verification/Assoc_Vector.thy ===== *)
theory Assoc_Vector
  imports Prelude
begin

text \<open>
  The sorted vector that stands in for \<open>std::map\<close> (\<open>assoc_vector_t\<close>,
  \<open>include/extend_stl/container/assio_vector.hpp\<close>).

  The object is a vector of pairs together with its comparator; an iterator is a position in the
  vector, \<open>end()\<close> the length. A position that is not an iterator of the vector gives
  \<open>Access_violation\<close>. \<open>std::lower_bound\<close> and \<open>std::upper_bound\<close> are the bisection of the
  standard library. The comparator is any function that satisfies the requirements of the
  standard on \<open>Compare\<close>, stated as the locale \<open>strict_weak_order\<close>; \<open>std::less\<close>, the
  default, is an interpretation.
\<close>

section \<open>The object and its operations\<close>

record ('k, 'v) assoc_vector =
  av_base :: "('k \<times> 'v) list"
  av_comp :: "'k \<Rightarrow> 'k \<Rightarrow> bool"

definition std_less :: "'k::linorder \<Rightarrow> 'k \<Rightarrow> bool" where
  "std_less x y \<longleftrightarrow> x < y"

text \<open>The overloads of \<open>assoc_vector_compare_t\<close> on pairs and on a pair and a key.\<close>

definition cmp_data :: "('k \<Rightarrow> 'k \<Rightarrow> bool) \<Rightarrow> 'k \<times> 'v \<Rightarrow> 'k \<times> 'v \<Rightarrow> bool" where
  "cmp_data c lhs rhs \<longleftrightarrow> c (fst lhs) (fst rhs)"

definition cmp_data_key :: "('k \<Rightarrow> 'k \<Rightarrow> bool) \<Rightarrow> 'k \<times> 'v \<Rightarrow> 'k \<Rightarrow> bool" where
  "cmp_data_key c lhs rhs \<longleftrightarrow> c (fst lhs) rhs"

definition cmp_key_data :: "('k \<Rightarrow> 'k \<Rightarrow> bool) \<Rightarrow> 'k \<Rightarrow> 'k \<times> 'v \<Rightarrow> bool" where
  "cmp_key_data c lhs rhs \<longleftrightarrow> c lhs (fst rhs)"

text \<open>
  The bisection of the standard library: among \<open>count\<close> elements from \<open>first\<close> on, the first for
  which the predicate fails.
\<close>

function bisect :: "('a \<Rightarrow> bool) \<Rightarrow> 'a list \<Rightarrow> nat \<Rightarrow> nat \<Rightarrow> nat" where
  "bisect p xs first count =
     (if count = 0 then first
      else let half = count div 2; mid = first + half in
        if p (xs ! mid) then bisect p xs (mid + 1) (count - (half + 1))
        else bisect p xs first half)"
  by pat_completeness auto
termination
  by (relation "measure (\<lambda>(p, xs, first, count). count)") auto

declare bisect.simps [simp del]

definition av_size :: "('k, 'v) assoc_vector \<Rightarrow> nat" where
  "av_size v = length (av_base v)"

definition av_empty :: "('k, 'v) assoc_vector \<Rightarrow> bool" where
  "av_empty v \<longleftrightarrow> av_base v = []"

definition av_new :: "('k \<Rightarrow> 'k \<Rightarrow> bool) \<Rightarrow> ('k, 'v) assoc_vector" where
  "av_new cmp = \<lparr> av_base = [], av_comp = cmp \<rparr>"

definition lower_bound :: "('k, 'v) assoc_vector \<Rightarrow> 'k \<Rightarrow> nat" where
  "lower_bound v k = bisect (\<lambda>x. cmp_data_key (av_comp v) x k) (av_base v) 0 (av_size v)"

definition upper_bound :: "('k, 'v) assoc_vector \<Rightarrow> 'k \<Rightarrow> nat" where
  "upper_bound v k = bisect (\<lambda>x. \<not> cmp_key_data (av_comp v) k x) (av_base v) 0 (av_size v)"

definition equal_range :: "('k, 'v) assoc_vector \<Rightarrow> 'k \<Rightarrow> nat \<times> nat" where
  "equal_range v k = (lower_bound v k, upper_bound v k)"

definition av_find :: "('k, 'v) assoc_vector \<Rightarrow> 'k \<Rightarrow> nat" where
  "av_find v k =
     (let i = lower_bound v k in
      if i \<noteq> av_size v \<and> av_comp v k (fst (av_base v ! i)) then av_size v else i)"

definition av_count :: "('k, 'v) assoc_vector \<Rightarrow> 'k \<Rightarrow> nat" where
  "av_count v k = (if av_find v k \<noteq> av_size v then 1 else 0)"

text \<open>\<open>Base::insert\<close> and \<open>Base::erase\<close>, the vector's own members.\<close>

definition base_insert :: "nat \<Rightarrow> 'a \<Rightarrow> 'a list \<Rightarrow> 'a list" where
  "base_insert i x xs = take i xs @ x # drop i xs"

definition base_erase :: "nat \<Rightarrow> nat \<Rightarrow> 'a list \<Rightarrow> 'a list" where
  "base_erase i j xs = take i xs @ drop j xs"

definition av_insert :: "('k, 'v) assoc_vector \<Rightarrow> 'k \<times> 'v \<Rightarrow> ('k, 'v) assoc_vector \<times> nat \<times> bool" where
  "av_insert v val =
     (let i = lower_bound v (fst val) in
      if i = av_size v \<or> av_comp v (fst val) (fst (av_base v ! i))
      then (v\<lparr>av_base := base_insert i val (av_base v)\<rparr>, i, True)
      else (v, i, False))"

definition av_insert_hint ::
  "('k, 'v) assoc_vector \<Rightarrow> nat \<Rightarrow> 'k \<times> 'v \<Rightarrow> (('k, 'v) assoc_vector \<times> nat) result" where
  "av_insert_hint v pos val =
     (if av_size v < pos then Inl Access_violation
      else if (pos = 0 \<or> cmp_data (av_comp v) (av_base v ! (pos - 1)) val) \<and>
              (pos = av_size v \<or> cmp_data (av_comp v) val (av_base v ! pos))
      then Inr (v\<lparr>av_base := base_insert pos val (av_base v)\<rparr>, pos)
      else (case av_insert v val of (v', i, fresh) \<Rightarrow> Inr (v', i)))"

definition av_insert_range ::
  "('k, 'v) assoc_vector \<Rightarrow> ('k \<times> 'v) list \<Rightarrow> ('k, 'v) assoc_vector" where
  "av_insert_range v vals = fold (\<lambda>val v. fst (av_insert v val)) vals v"

text \<open>\<open>operator[]\<close> refers to the value at the position it returns.\<close>

definition av_index :: "'v \<Rightarrow> ('k, 'v) assoc_vector \<Rightarrow> 'k \<Rightarrow> ('k, 'v) assoc_vector \<times> nat" where
  "av_index dflt v key = (case av_insert v (key, dflt) of (v', i, fresh) \<Rightarrow> (v', i))"

definition av_erase_at :: "('k, 'v) assoc_vector \<Rightarrow> nat \<Rightarrow> ('k, 'v) assoc_vector result" where
  "av_erase_at v pos =
     (if pos < av_size v then Inr (v\<lparr>av_base := base_erase pos (pos + 1) (av_base v)\<rparr>)
      else Inl Access_violation)"

definition av_erase_key ::
  "('k, 'v) assoc_vector \<Rightarrow> 'k \<Rightarrow> (('k, 'v) assoc_vector \<times> nat) result" where
  "av_erase_key v k =
     (let i = av_find v k in
      if i = av_size v then Inr (v, 0)
      else bindR (av_erase_at v i) (\<lambda>v'. Inr (v', 1)))"

definition av_erase_range ::
  "('k, 'v) assoc_vector \<Rightarrow> nat \<Rightarrow> nat \<Rightarrow> ('k, 'v) assoc_vector result" where
  "av_erase_range v i j =
     (if i \<le> j \<and> j \<le> av_size v then Inr (v\<lparr>av_base := base_erase i j (av_base v)\<rparr>)
      else Inl Access_violation)"

definition av_clear :: "('k, 'v) assoc_vector \<Rightarrow> ('k, 'v) assoc_vector" where
  "av_clear v = v\<lparr>av_base := []\<rparr>"

definition av_swap ::
  "('k, 'v) assoc_vector \<Rightarrow> ('k, 'v) assoc_vector
    \<Rightarrow> ('k, 'v) assoc_vector \<times> ('k, 'v) assoc_vector" where
  "av_swap me other =
     (let me1 = me\<lparr>av_base := av_base other\<rparr>; other1 = other\<lparr>av_base := av_base me\<rparr> in
      (me1\<lparr>av_comp := av_comp other1\<rparr>, other1\<lparr>av_comp := av_comp me1\<rparr>))"

definition av_assign ::
  "('k, 'v) assoc_vector \<Rightarrow> ('k, 'v) assoc_vector \<Rightarrow> ('k, 'v) assoc_vector" where
  "av_assign me rhs = snd (av_swap rhs me)"

text \<open>
  The constructor from a range fills a temporary \<open>std::map\<close> (here the sorted list of its nodes;
  an element whose key is present is not inserted) and copies it.
\<close>

fun std_map_insert :: "('k \<Rightarrow> 'k \<Rightarrow> bool) \<Rightarrow> 'k \<times> 'v \<Rightarrow> ('k \<times> 'v) list \<Rightarrow> ('k \<times> 'v) list" where
  "std_map_insert c val [] = [val]"
| "std_map_insert c val (x # xs) =
     (if c (fst val) (fst x) then val # x # xs
      else if c (fst x) (fst val) then x # std_map_insert c val xs
      else x # xs)"

definition av_from_range :: "('k \<Rightarrow> 'k \<Rightarrow> bool) \<Rightarrow> ('k \<times> 'v) list \<Rightarrow> ('k, 'v) assoc_vector" where
  "av_from_range cmp vals =
     (let temp = fold (std_map_insert cmp) vals [] in
      (av_new cmp)\<lparr>av_base := temp\<rparr>)"

text \<open>
  The relational operators compare the vectors, pair by pair with the operators of the element
  types and not with the comparator of the container.
\<close>

fun base_less :: "('k::linorder \<times> 'v::linorder) list \<Rightarrow> ('k \<times> 'v) list \<Rightarrow> bool" where
  "base_less xs [] = False"
| "base_less [] (y # ys) = True"
| "base_less (x # xs) (y # ys) =
     (if fst x < fst y \<or> (\<not> fst y < fst x \<and> snd x < snd y) then True
      else if fst y < fst x \<or> (\<not> fst x < fst y \<and> snd y < snd x) then False
      else base_less xs ys)"

definition av_eq :: "('k, 'v) assoc_vector \<Rightarrow> ('k, 'v) assoc_vector \<Rightarrow> bool" where
  "av_eq lhs rhs \<longleftrightarrow> av_base lhs = av_base rhs"

definition av_less :: "('k::linorder, 'v::linorder) assoc_vector \<Rightarrow> ('k, 'v) assoc_vector \<Rightarrow> bool" where
  "av_less lhs rhs \<longleftrightarrow> base_less (av_base lhs) (av_base rhs)"

section \<open>The invariant and the abstract map\<close>

definition av_wf :: "('k, 'v) assoc_vector \<Rightarrow> bool" where
  "av_wf v \<longleftrightarrow> sorted_wrt (cmp_data (av_comp v)) (av_base v)"

definition equivalent :: "('k \<Rightarrow> 'k \<Rightarrow> bool) \<Rightarrow> 'k \<Rightarrow> 'k \<Rightarrow> bool" where
  "equivalent c x y \<longleftrightarrow> \<not> c x y \<and> \<not> c y x"

text \<open>What the container means: the value stored under a key equivalent to the argument.\<close>

definition av_map :: "('k, 'v) assoc_vector \<Rightarrow> 'k \<rightharpoonup> 'v" where
  "av_map v k = map_option snd (List.find (\<lambda>x. equivalent (av_comp v) k (fst x)) (av_base v))"

text \<open>What a client reads: the element \<open>find\<close> points to.\<close>

definition av_get :: "('k, 'v) assoc_vector \<Rightarrow> 'k \<rightharpoonup> 'v" where
  "av_get v k =
     (if av_find v k = av_size v then None else Some (snd (av_base v ! av_find v k)))"

section \<open>Bisection\<close>

lemma bisect_boundary:
  assumes "\<And>i. first \<le> i \<Longrightarrow> i < first + count \<Longrightarrow> p (xs ! i) \<longleftrightarrow> i < m"
    and "first \<le> m" "m \<le> first + count"
  shows "bisect p xs first count = m"
  using assms
proof (induction p xs first count rule: bisect.induct)
  case (1 p xs first count)
  define half where "half = count div 2"
  show ?case
  proof (cases "count = 0")
    case True
    with 1 show ?thesis by (simp add: bisect.simps)
  next
    case False
    then have half: "half < count" by (simp add: half_def)
    show ?thesis
    proof (cases "p (xs ! (first + half))")
      case True
      then have "first + half < m" using 1(3) [of "first + half"] half by simp
      moreover have "bisect p xs (first + half + 1) (count - (half + 1)) = m"
        using 1(1) [OF False half_def refl True] 1(3-5) half \<open>first + half < m\<close>
        by simp
      ultimately show ?thesis
        using False True by (subst bisect.simps) (simp add: Let_def half_def)
    next
      case nf: False
      then have "m \<le> first + half" using 1(3) [of "first + half"] half by simp
      moreover have "bisect p xs first half = m"
        using 1(2) [OF False half_def refl nf] 1(3-5) half \<open>m \<le> first + half\<close> by simp
      ultimately show ?thesis
        using False nf by (subst bisect.simps) (simp add: Let_def half_def)
    qed
  qed
qed

lemma bisect_append:
  assumes "\<forall>x \<in> set xs. p x" "\<forall>x \<in> set ys. \<not> p x"
  shows "bisect p (xs @ ys) 0 (length (xs @ ys)) = length xs"
  by (rule bisect_boundary) (use assms in \<open>auto simp: nth_append\<close>)

lemma find_append:
  "List.find P (xs @ ys) = (case List.find P xs of None \<Rightarrow> List.find P ys | Some x \<Rightarrow> Some x)"
  by (induction xs) auto

lemma find_none: "\<forall>x \<in> set xs. \<not> P x \<Longrightarrow> List.find P xs = None"
  by (simp add: find_None_iff)

section \<open>Comparators\<close>

text \<open>The requirements of the standard on a comparator (\<open>Compare\<close>).\<close>

locale strict_weak_order =
  fixes lt :: "'k \<Rightarrow> 'k \<Rightarrow> bool"
  assumes asym: "lt x y \<Longrightarrow> \<not> lt y x"
    and negtrans: "lt x z \<Longrightarrow> lt x y \<or> lt y z"
begin

lemma irrefl: "\<not> lt x x"
  using asym by blast

lemma less_trans: "lt x y \<Longrightarrow> lt y z \<Longrightarrow> lt x z"
  using asym negtrans by blast

lemma equivalent_less_iff:
  "equivalent lt x y \<Longrightarrow> lt x z \<longleftrightarrow> lt y z"
  "equivalent lt x y \<Longrightarrow> lt z x \<longleftrightarrow> lt z y"
  unfolding equivalent_def using negtrans by blast+

text \<open>Every key cuts a sorted vector: smaller keys, at most one equivalent key, greater keys.\<close>

definition cut :: "'k \<Rightarrow> ('k \<times> 'v) list \<Rightarrow> ('k \<times> 'v) list \<Rightarrow> ('k \<times> 'v) list \<Rightarrow> bool" where
  "cut k L M U \<longleftrightarrow> (\<forall>x \<in> set L. lt (fst x) k) \<and> (\<forall>x \<in> set U. lt k (fst x)) \<and>
     (M = [] \<or> (\<exists>x. M = [x] \<and> equivalent lt k (fst x)))"

lemma cut_exists:
  "sorted_wrt (cmp_data lt) xs \<Longrightarrow> \<exists>L M U. xs = L @ M @ U \<and> cut k L M U"
proof (induction xs)
  case Nil
  show ?case by (simp add: cut_def)
next
  case (Cons x xs)
  then have above: "lt (fst x) (fst y)" if "y \<in> set xs" for y
    using that by (simp add: cmp_data_def)
  consider (less) "lt (fst x) k" | (greater) "lt k (fst x)" | (equiv) "equivalent lt k (fst x)"
    by (auto simp: equivalent_def)
  then show ?case
  proof cases
    case less
    obtain L M U where "xs = L @ M @ U" "cut k L M U"
      using Cons by auto
    then have "x # xs = (x # L) @ M @ U \<and> cut k (x # L) M U"
      using less by (simp add: cut_def)
    then show ?thesis by blast
  next
    case greater
    have "lt k (fst y)" if "y \<in> set xs" for y
      by (rule less_trans [OF greater above [OF that]])
    with greater have "x # xs = [] @ [] @ (x # xs) \<and> cut k [] [] (x # xs)"
      by (simp add: cut_def)
    then show ?thesis by blast
  next
    case equiv
    have "lt k (fst y)" if "y \<in> set xs" for y
      using negtrans [OF above [OF that], of k] equiv by (simp add: equivalent_def)
    with equiv have "x # xs = [] @ [x] @ xs \<and> cut k [] [x] xs"
      by (simp add: cut_def)
    then show ?thesis by blast
  qed
qed

lemma cut_not_above: "cut k L M U \<Longrightarrow> x \<in> set (L @ M) \<Longrightarrow> \<not> lt k (fst x)"
  using asym by (auto simp: cut_def equivalent_def)

lemma cut_not_below: "cut k L M U \<Longrightarrow> x \<in> set (M @ U) \<Longrightarrow> \<not> lt (fst x) k"
  using asym by (auto simp: cut_def equivalent_def)

lemma lower_bound_cut:
  assumes "cut k L M U" "av_base v = L @ M @ U" "av_comp v = lt"
  shows "lower_bound v k = length L"
  unfolding lower_bound_def av_size_def assms(2,3) cmp_data_key_def
  by (rule bisect_append) (use assms(1) cut_not_below [OF assms(1)] in \<open>auto simp: cut_def\<close>)

lemma upper_bound_cut:
  assumes "cut k L M U" "av_base v = L @ M @ U" "av_comp v = lt"
  shows "upper_bound v k = length (L @ M)"
  unfolding upper_bound_def av_size_def assms(2,3) cmp_key_data_def append_assoc [symmetric]
  by (rule bisect_append) (use assms(1) cut_not_above [OF assms(1)] in \<open>auto simp: cut_def\<close>)

lemma find_cut:
  assumes "cut k L M U" "av_base v = L @ M @ U" "av_comp v = lt"
  shows "av_find v k = (if M = [] then av_size v else length L)"
  using assms(1) unfolding av_find_def Let_def lower_bound_cut [OF assms] av_size_def assms(2,3)
  by (cases U) (auto simp: cut_def equivalent_def nth_append)

lemma map_cut:
  assumes "cut k L M U" "av_base v = L @ M @ U" "av_comp v = lt"
  shows "av_map v k = (if M = [] then None else Some (snd (hd M)))"
proof -
  have "List.find (\<lambda>x. equivalent lt k (fst x)) L = None"
    and "List.find (\<lambda>x. equivalent lt k (fst x)) U = None"
    by (rule find_none; use assms(1) in \<open>auto simp: cut_def equivalent_def\<close>)+
  then show ?thesis
    using assms(1) by (auto simp: av_map_def assms(2,3) find_append cut_def)
qed

lemma get_cut:
  assumes "cut k L M U" "av_base v = L @ M @ U" "av_comp v = lt"
  shows "av_get v k = (if M = [] then None else Some (snd (hd M)))"
  using assms(1) by (auto simp: av_get_def find_cut [OF assms] av_size_def assms(2) cut_def nth_append)

lemma insert_cut:
  assumes "cut (fst val) L M U" "av_base v = L @ M @ U" "av_comp v = lt"
  shows "av_insert v val =
     (if M = [] then (v\<lparr>av_base := L @ val # U\<rparr>, length L, True) else (v, length L, False))"
  using assms(1) unfolding av_insert_def Let_def lower_bound_cut [OF assms] av_size_def assms(2,3)
  by (cases U) (auto simp: cut_def equivalent_def nth_append base_insert_def)

lemma erase_cut:
  assumes "cut k L M U" "av_base v = L @ M @ U" "av_comp v = lt"
  shows "av_erase_key v k =
     (if M = [] then Inr (v, 0) else Inr (v\<lparr>av_base := L @ U\<rparr>, 1))"
  using assms(1) unfolding av_erase_key_def Let_def find_cut [OF assms]
  by (auto simp: av_size_def assms(2) cut_def av_erase_at_def base_erase_def)

lemma std_map_insert_cut:
  assumes "cut (fst val) L M U"
  shows "std_map_insert lt val (L @ M @ U) = (if M = [] then L @ val # U else L @ M @ U)"
  using assms
proof (induction L)
  case Nil
  then show ?case using irrefl by (cases U) (auto simp: cut_def equivalent_def)
next
  case (Cons x L)
  then have "cut (fst val) L M U" and x: "lt (fst x) (fst val)" "\<not> lt (fst val) (fst x)"
    using asym by (auto simp: cut_def)
  then show ?case using Cons.IH by auto
qed

lemma cut_equivalent: "equivalent lt k' k \<Longrightarrow> cut k L M U \<Longrightarrow> cut k' L M U"
  unfolding cut_def equivalent_def using negtrans by (metis (full_types))

lemma obtain_cut:
  assumes "av_wf v" "av_comp v = lt"
  obtains L M U where "av_base v = L @ M @ U" "cut k L M U"
  using cut_exists [of "av_base v" k] assms by (auto simp: av_wf_def)

lemma sorted_cut:
  assumes "sorted_wrt (cmp_data lt) (L @ U)" "cut (fst val) L [] U"
  shows "sorted_wrt (cmp_data lt) (L @ val # U)"
  using assms by (auto simp: sorted_wrt_append cut_def cmp_data_def)

lemma std_map_insert_sorted:
  assumes "sorted_wrt (cmp_data lt) xs"
  shows "sorted_wrt (cmp_data lt) (std_map_insert lt val xs)"
proof -
  obtain L M U where xs: "xs = L @ M @ U" and c: "cut (fst val) L M U"
    using cut_exists [OF assms] by blast
  show ?thesis
    using std_map_insert_cut [OF c] sorted_cut [of L U val] c assms by (auto simp: xs)
qed

lemma get_map:
  assumes "av_wf v" "av_comp v = lt"
  shows "av_get v k = av_map v k"
proof (rule obtain_cut [OF assms, of k])
  fix L M U assume "av_base v = L @ M @ U" "cut k L M U"
  with assms(2) show ?thesis by (simp add: get_cut map_cut)
qed

lemma insert_law:
  assumes "av_wf v" "av_comp v = lt" "av_insert v val = (v', i, fresh)"
  shows "av_wf v'" "av_comp v' = lt" "fresh \<longleftrightarrow> av_map v (fst val) = None"
    "i < av_size v'" "equivalent lt (fst val) (fst (av_base v' ! i))"
    "av_map v' k = (if fresh \<and> equivalent lt k (fst val) then Some (snd val) else av_map v k)"
proof -
  obtain L M U where b: "av_base v = L @ M @ U" and c: "cut (fst val) L M U"
    using obtain_cut [OF assms(1,2)] .
  note facts = b c assms(2)
  show "fresh \<longleftrightarrow> av_map v (fst val) = None" and "av_comp v' = lt"
    using assms(2,3) by (auto simp: insert_cut [OF c b] map_cut [OF c b] split: if_splits)
  show "i < av_size v'" "equivalent lt (fst val) (fst (av_base v' ! i))"
    using assms(2,3) b c irrefl
    by (auto simp: insert_cut [OF c b] av_size_def cut_def equivalent_def split: if_splits)
  show "av_wf v'"
    using assms b c sorted_cut [of L U val]
    by (auto simp: insert_cut [OF c b] av_wf_def split: if_splits)
  show "av_map v' k = (if fresh \<and> equivalent lt k (fst val) then Some (snd val) else av_map v k)"
  proof (cases "M = []")
    case True
    have v': "v' = v\<lparr>av_base := L @ val # U\<rparr>" and fresh
      using assms(2,3) True by (auto simp: insert_cut [OF c b])
    have "cut (fst val) L [val] U"
      using c irrefl by (simp add: cut_def equivalent_def)
    then have "av_map v' k = Some (snd val)" if "equivalent lt k (fst val)"
      using map_cut [OF cut_equivalent [OF that], of L "[val]" U v'] assms(2) by (simp add: v')
    moreover have "av_map v' k = av_map v k" if "\<not> equivalent lt k (fst val)"
      using that True assms(2) by (simp add: av_map_def v' b find_append split: option.split)
    ultimately show ?thesis using \<open>fresh\<close> by simp
  next
    case False
    then show ?thesis using assms(2,3) by (auto simp: insert_cut [OF c b])
  qed
qed

lemma erase_law:
  assumes "av_wf v" "av_comp v = lt"
  shows "\<exists>v'. av_erase_key v k = Inr (v', if av_map v k = None then 0 else 1) \<and> av_wf v' \<and>
    av_comp v' = lt \<and> (\<forall>k'. av_map v' k' = (if equivalent lt k' k then None else av_map v k'))"
proof -
  obtain L M U where b: "av_base v = L @ M @ U" and c: "cut k L M U"
    using obtain_cut [OF assms] .
  define v' where "v' = v\<lparr>av_base := L @ U\<rparr>"
  have "av_erase_key v k = Inr (v', if av_map v k = None then 0 else 1)"
    using c b assms(2) by (auto simp: erase_cut [OF c b] map_cut [OF c b] v'_def)
  moreover have "av_wf v'" "av_comp v' = lt"
    using assms b by (auto simp: av_wf_def v'_def sorted_wrt_append)
  moreover have "av_map v' k' = (if equivalent lt k' k then None else av_map v k')" for k'
  proof (cases "equivalent lt k' k")
    case True
    have "cut k L [] U" using c by (simp add: cut_def)
    then show ?thesis
      using map_cut [OF cut_equivalent [OF True], of L "[]" U v'] True assms(2)
      by (simp add: v'_def)
  next
    case False
    then have "\<not> equivalent lt k' (fst x)" if "x \<in> set M" for x
      using c that equivalent_less_iff [of k "fst x" k'] by (auto simp: cut_def equivalent_def)
    then have "List.find (\<lambda>x. equivalent lt k' (fst x)) M = None"
      by (simp add: find_none)
    then show ?thesis
      using False assms(2) b by (simp add: av_map_def v'_def find_append split: option.split)
  qed
  ultimately show ?thesis by blast
qed

lemma insert_hint_law:
  assumes "av_wf v" "av_comp v = lt" "pos \<le> av_size v"
  shows "av_insert_hint v pos val = Inr (fst (av_insert v val), fst (snd (av_insert v val)))"
proof (cases "(pos = 0 \<or> cmp_data lt (av_base v ! (pos - 1)) val) \<and>
    (pos = av_size v \<or> cmp_data lt val (av_base v ! pos))")
  case True
  define L U where "L = take pos (av_base v)" and "U = drop pos (av_base v)"
  have sorted: "lt (fst (av_base v ! i)) (fst (av_base v ! j))"
    if "i < j" "j < av_size v" for i j
    using assms(1,2) that by (auto simp: av_wf_def av_size_def cmp_data_def sorted_wrt_iff_nth_less)
  have "lt (fst (av_base v ! i)) (fst val)" if "i < pos" for i
  proof -
    have "lt (fst (av_base v ! (pos - 1))) (fst val)"
      using True that by (auto simp: cmp_data_def)
    moreover have "i = pos - 1 \<or> i < pos - 1 \<and> pos - 1 < av_size v"
      using that assms(3) by auto
    ultimately show ?thesis using sorted less_trans by blast
  qed
  moreover have "lt (fst val) (fst (av_base v ! j))" if "pos \<le> j" "j < av_size v" for j
  proof -
    have "lt (fst val) (fst (av_base v ! pos))"
      using True that by (auto simp: cmp_data_def)
    moreover have "j = pos \<or> pos < j" using that by auto
    ultimately show ?thesis using sorted that less_trans by blast
  qed
  ultimately have "cut (fst val) L [] U"
    by (simp add: cut_def L_def U_def all_set_conv_all_nth av_size_def)
  moreover have "av_base v = L @ [] @ U" by (simp add: L_def U_def)
  ultimately have "av_insert v val = (v\<lparr>av_base := L @ val # U\<rparr>, length L, True)"
    using insert_cut assms(2) by fastforce
  then show ?thesis
    using True assms(2,3) by (simp add: av_insert_hint_def L_def U_def base_insert_def av_size_def)
next
  case False
  then show ?thesis
    using assms by (auto simp: av_insert_hint_def split: prod.split)
qed

lemma insert_std_map:
  assumes "av_wf v" "av_comp v = lt"
  shows "av_base (fst (av_insert v val)) = std_map_insert lt val (av_base v)"
proof -
  obtain L M U where b: "av_base v = L @ M @ U" and c: "cut (fst val) L M U"
    using obtain_cut [OF assms] .
  then show ?thesis
    using assms(2) by (simp add: insert_cut [OF c b] std_map_insert_cut [OF c])
qed

lemma insert_range_law:
  assumes "av_wf v" "av_comp v = lt"
  shows "av_base (av_insert_range v vals) = fold (std_map_insert lt) vals (av_base v) \<and>
    av_wf (av_insert_range v vals) \<and> av_comp (av_insert_range v vals) = lt \<and>
    av_map (av_insert_range v vals) k =
      (case av_map v k of None \<Rightarrow> map_option snd (List.find (\<lambda>x. equivalent lt k (fst x)) vals)
       | Some y \<Rightarrow> Some y)"
  using assms
proof (induction vals arbitrary: v)
  case Nil
  then show ?case by (simp add: av_insert_range_def split: option.split)
next
  case (Cons val vals)
  obtain v' i fresh where ins: "av_insert v val = (v', i, fresh)"
    by (cases "av_insert v val") auto
  note law = insert_law [OF Cons.prems ins]
  have "av_insert_range v (val # vals) = av_insert_range v' vals"
    by (simp add: av_insert_range_def ins)
  moreover have "av_base v' = std_map_insert lt val (av_base v)"
    using insert_std_map [OF Cons.prems, of val] by (simp add: ins)
  moreover have "av_map v k = av_map v (fst val)" if "equivalent lt k (fst val)"
    using that equivalent_less_iff [OF that] Cons.prems(2) by (simp add: av_map_def equivalent_def)
  ultimately show ?case
    using Cons.IH [OF law(1,2)] law(3) law(6) [of k] by (auto split: option.splits)
qed

end

interpretation less_order: strict_weak_order "std_less :: 'k::linorder \<Rightarrow> 'k \<Rightarrow> bool"
  by unfold_locales (auto simp: std_less_def)

section \<open>Correctness\<close>

lemma sorted_wrt_base_erase:
  assumes "i \<le> j" "sorted_wrt P xs"
  shows "sorted_wrt P (base_erase i j xs)"
proof -
  have "xs = take i xs @ take (j - i) (drop i xs) @ drop j xs"
    using assms(1) append_take_drop_id [of "j - i" "drop i xs"] by simp
  then have "sorted_wrt P (take i xs @ take (j - i) (drop i xs) @ drop j xs)"
    using assms(2) by simp
  then show ?thesis
    unfolding base_erase_def sorted_wrt_append by auto
qed

lemma erase_range_wf:
  "av_wf v \<Longrightarrow> av_erase_range v i j = Inr v' \<Longrightarrow> av_wf v' \<and> av_size v' = av_size v - (j - i)"
  by (auto simp: av_erase_range_def av_wf_def av_size_def sorted_wrt_base_erase split: if_splits)
    (simp add: base_erase_def)

lemma swap_exchanges: "av_swap v w = (w, v)"
  by (simp add: av_swap_def)

text \<open>
  C29. The sorted vector is a map, for every comparator that is a strict weak order: on a
  well-formed vector \<open>find\<close> reads the value stored under an equivalent key; \<open>insert\<close> keeps the
  vector well-formed, reports whether the key was absent, returns the position of an element with
  that key, and changes the map at that key only and only when it was absent; \<open>erase\<close> by key
  never leaves the vector, returns 1 exactly when the key was present and unmaps that key only.
\<close>

theorem assoc_vector_refines_map:
  assumes "strict_weak_order (av_comp v)" "av_wf v"
  shows "av_get v = av_map v \<and>
    (case av_insert v val of (v', i, fresh) \<Rightarrow>
       av_wf v' \<and> av_comp v' = av_comp v \<and> fresh = (av_map v (fst val) = None) \<and>
       i < av_size v' \<and> equivalent (av_comp v) (fst val) (fst (av_base v' ! i)) \<and>
       av_map v' = (\<lambda>k. if fresh \<and> equivalent (av_comp v) k (fst val)
                       then Some (snd val) else av_map v k)) \<and>
    (\<exists>v'. av_erase_key v key = Inr (v', if av_map v key = None then 0 else 1) \<and> av_wf v' \<and>
       av_comp v' = av_comp v \<and>
       av_map v' = (\<lambda>k. if equivalent (av_comp v) k key then None else av_map v k))"
    (is "?get \<and> ?insert \<and> ?erase")
proof (intro conjI)
  show ?get
    using strict_weak_order.get_map [OF assms refl] by blast
  show ?insert
    using strict_weak_order.insert_law [OF assms refl]
    by (auto simp: fun_eq_iff split: prod.split)
  show ?erase
    using strict_weak_order.erase_law [OF assms refl, of key] by (simp add: fun_eq_iff)
qed

definition sample_vector :: "(nat, string) assoc_vector" where
  "sample_vector = \<lparr> av_base = [(1, ''a''), (4, ''b''), (9, ''c'')], av_comp = std_less \<rparr>"

lemma sample_vector_wf: "av_wf sample_vector"
  by (simp add: av_wf_def sample_vector_def cmp_data_def std_less_def)

theorem assoc_vector_refines_map_witness:
  "av_get sample_vector 4 = Some ''b'' \<and> av_get sample_vector 5 = None \<and>
   (\<exists>v'. av_erase_key sample_vector 4 = Inr (v', 1) \<and> av_wf v' \<and> av_map v' 4 = None \<and>
         av_map v' 9 = Some ''c'')"
proof -
  have comp: "strict_weak_order (av_comp sample_vector)"
    using less_order.strict_weak_order_axioms by (simp add: sample_vector_def)
  have "av_map sample_vector 4 = Some ''b''" "av_map sample_vector 5 = None"
    "av_map sample_vector 9 = Some ''c''" "equivalent (av_comp sample_vector) 4 4"
    "\<not> equivalent (av_comp sample_vector) 9 4"
    by (simp_all add: av_map_def sample_vector_def equivalent_def std_less_def)
  then show ?thesis
    using assoc_vector_refines_map [OF comp sample_vector_wf, of "(5, ''d'')" 4] by fastforce
qed

text \<open>
  Filling the sorted vector in bulk: for every comparator that is a strict weak order, the
  constructor from a range builds what inserting the elements one after the other into an empty
  vector builds, a well-formed vector in which a key has the value of its first occurrence in the
  range; and inserting with a hint gives, for every valid position given as the hint, the vector
  and the position that inserting without it gives.
\<close>

theorem assoc_vector_bulk:
  assumes "strict_weak_order cmp"
  shows "av_from_range cmp vals = av_insert_range (av_new cmp) vals \<and>
    av_wf (av_from_range cmp vals) \<and>
    av_map (av_from_range cmp vals) k =
      map_option snd (List.find (\<lambda>x. equivalent cmp k (fst x)) vals) \<and>
    (pos \<le> av_size (av_from_range cmp vals) \<longrightarrow>
      av_insert_hint (av_from_range cmp vals) pos val =
        (case av_insert (av_from_range cmp vals) val of (v', i, fresh) \<Rightarrow> Inr (v', i)))"
proof -
  have new: "av_wf (av_new cmp)" "av_comp (av_new cmp) = cmp" "av_map (av_new cmp) k = None"
    by (simp_all add: av_new_def av_wf_def av_map_def)
  note law = strict_weak_order.insert_range_law [OF assms new(1,2), of vals k]
  have eq: "av_from_range cmp vals = av_insert_range (av_new cmp) vals"
    using law by (simp add: av_from_range_def Let_def av_new_def)
  have wf: "av_wf (av_from_range cmp vals)" and "av_comp (av_from_range cmp vals) = cmp"
    using law by (simp_all add: eq)
  then have "pos \<le> av_size (av_from_range cmp vals) \<longrightarrow>
      av_insert_hint (av_from_range cmp vals) pos val =
        (case av_insert (av_from_range cmp vals) val of (v', i, fresh) \<Rightarrow> Inr (v', i))"
    using strict_weak_order.insert_hint_law [OF assms wf] by (simp split: prod.split)
  with eq wf show ?thesis using law by (simp add: new)
qed

theorem assoc_vector_bulk_witness:
  "av_from_range std_less [(3::nat, ''x''), (1, ''y'')] =
     av_insert_range (av_new std_less) [(3, ''x''), (1, ''y'')] \<and>
   av_insert_hint (av_from_range std_less [(3::nat, ''x''), (1, ''y'')]) 0 (2, ''w'') =
     (case av_insert (av_from_range std_less [(3, ''x''), (1, ''y'')]) (2, ''w'') of
        (v', i, fresh) \<Rightarrow> Inr (v', i))"
  using assoc_vector_bulk [OF less_order.strict_weak_order_axioms,
      of "[(3::nat, ''x''), (1, ''y'')]" 0 0 "(2, ''w'')"] le0
  by blast

end
