(* ===== verification/Str_Algorithm.thy ===== *)
theory Str_Algorithm
  imports Prelude "HOL-Library.Sublist"
begin

text \<open>
  The string algorithms of \<open>include/extend_stl/string/algorithm.hpp\<close>, on \<open>std::string\<close>.

  Positions and lengths are \<open>size_t\<close>: natural numbers below \<open>2 ^ 32\<close> whose sums and differences
  wrap, with \<open>npos\<close> the largest of them. The members of \<open>std::basic_string\<close> that the algorithms
  call (\<open>find\<close>, \<open>find_first_not_of\<close>, \<open>find_last_not_of\<close>, \<open>erase\<close>, \<open>replace\<close>, \<open>compare\<close>) are
  modelled with the exceptions the standard gives them; a string that would outgrow \<open>limit\<close>, the
  longest string the allocator can hold, is \<open>Bad_alloc\<close>. The loop of \<open>replace_all\<close> may not end:
  it is a partial function whose value \<open>None\<close> means that it never returns.
\<close>

section \<open>The members of the string class\<close>

definition size_plus :: "nat \<Rightarrow> nat \<Rightarrow> nat" where
  "size_plus a b = (a + b) mod 2 ^ 32"

definition size_minus :: "nat \<Rightarrow> nat \<Rightarrow> nat" where
  "size_minus a b = (a + 2 ^ 32 - b) mod 2 ^ 32"

fun find_sub :: "string \<Rightarrow> string \<Rightarrow> nat option" where
  "find_sub pat [] = (if pat = [] then Some 0 else None)"
| "find_sub pat (c # cs) =
     (if prefix pat (c # cs) then Some 0 else map_option Suc (find_sub pat cs))"

definition str_find :: "string \<Rightarrow> string \<Rightarrow> nat" where
  "str_find str pat = (case find_sub pat str of None \<Rightarrow> npos | Some pos \<Rightarrow> pos)"

definition find_first_not_of :: "string \<Rightarrow> char \<Rightarrow> nat" where
  "find_first_not_of str c =
     (let n = length (takeWhile (\<lambda>x. x = c) str) in if n = length str then npos else n)"

fun find_last_not_of :: "string \<Rightarrow> char \<Rightarrow> nat" where
  "find_last_not_of [] c = npos"
| "find_last_not_of (x # xs) c =
     (let n = find_last_not_of xs c in
      if n \<noteq> npos then n + 1 else if x \<noteq> c then 0 else npos)"

definition str_erase :: "string \<Rightarrow> nat \<Rightarrow> nat \<Rightarrow> string result" where
  "str_erase str pos n =
     (if length str < pos then Inl Out_of_range
      else Inr (take pos str @ drop (pos + n) str))"

definition str_replace :: "nat \<Rightarrow> string \<Rightarrow> nat \<Rightarrow> nat \<Rightarrow> string \<Rightarrow> string result" where
  "str_replace limit str pos n new =
     (if length str < pos then Inl Out_of_range
      else let r = take pos str @ new @ drop (pos + n) str in
        if limit < length r then Inl Bad_alloc else Inr r)"

text \<open>\<open>str.compare(pos, n, src) == 0\<close>.\<close>

definition str_compare_eq :: "string \<Rightarrow> nat \<Rightarrow> nat \<Rightarrow> string \<Rightarrow> bool result" where
  "str_compare_eq str pos n src =
     (if length str < pos then Inl Out_of_range
      else Inr (take n (drop pos str) = src))"

section \<open>The algorithms\<close>

partial_function (option) replace_all ::
  "nat \<Rightarrow> string \<Rightarrow> string \<Rightarrow> string \<Rightarrow> (string result) option" where
  "replace_all limit str old_value new_value =
     (let pos = str_find str old_value in
      if pos \<noteq> npos
      then (case str_replace limit str pos (length old_value) new_value of
              Inl e \<Rightarrow> Some (Inl e)
            | Inr str' \<Rightarrow> replace_all limit str' old_value new_value)
      else Some (Inr str))"

definition trim_left :: "string \<Rightarrow> string result" where
  "trim_left str = str_erase str 0 (find_first_not_of str CHR '' '')"

definition trim_right :: "string \<Rightarrow> string result" where
  "trim_right str = str_erase str (size_plus (find_last_not_of str CHR '' '') 1) npos"

definition trim :: "string \<Rightarrow> string result" where
  "trim str =
     bindR (str_erase str 0 (find_first_not_of str CHR '' '')) (\<lambda>str.
       str_erase str (size_plus (find_last_not_of str CHR '' '') 1) npos)"

definition str_erase_char :: "string \<Rightarrow> char \<Rightarrow> string" where
  "str_erase_char str c = filter (\<lambda>x. \<not> x = c) str"

definition is_start_with :: "string \<Rightarrow> string \<Rightarrow> bool result" where
  "is_start_with str src = str_compare_eq str 0 (length src) src"

definition is_end_with :: "string \<Rightarrow> string \<Rightarrow> bool result" where
  "is_end_with str src =
     str_compare_eq str (size_minus (length str) (length src)) (length src) src"

definition ascii_tolower :: "char \<Rightarrow> char" where
  "ascii_tolower c =
     (if 65 \<le> (of_char c :: nat) \<and> (of_char c :: nat) \<le> 90 then char_of ((of_char c :: nat) + 32) else c)"

text \<open>
  \<open>std::search\<close> returns the position of the first match, the end of the text when there is none.
\<close>

fun search_nocase :: "string \<Rightarrow> string \<Rightarrow> nat" where
  "search_nocase [] val = 0"
| "search_nocase (c # cs) val =
     (if prefix (map ascii_tolower val) (map ascii_tolower (c # cs)) then 0
      else 1 + search_nocase cs val)"

definition find_nocase :: "string \<Rightarrow> string \<Rightarrow> bool" where
  "find_nocase str val \<longleftrightarrow> search_nocase str val \<noteq> length str"

text \<open>
  \<open>split\<close> reads the fields with \<open>std::getline\<close> and takes of each the word that \<open>operator>>\<close>
  reads: leading white space is skipped and the word ends at the next white space.
\<close>

definition is_space :: "char \<Rightarrow> bool" where
  "is_space c \<longleftrightarrow> c = CHR '' '' \<or> (9 \<le> (of_char c :: nat) \<and> (of_char c :: nat) \<le> 13)"

definition read_word :: "string \<Rightarrow> string" where
  "read_word s = takeWhile (\<lambda>c. \<not> is_space c) (dropWhile is_space s)"

function getlines :: "char \<Rightarrow> string \<Rightarrow> string list" where
  "getlines sep [] = []"
| "getlines sep (c # cs) =
     takeWhile (\<lambda>x. x \<noteq> sep) (c # cs) # getlines sep (drop 1 (dropWhile (\<lambda>x. x \<noteq> sep) (c # cs)))"
  by pat_completeness auto
termination
  by (relation "measure (\<lambda>(sep, s). length s)")
    (auto simp: le_imp_less_Suc length_dropWhile_le intro!: le_less_trans [OF diff_le_self])

definition split :: "string list \<Rightarrow> string \<Rightarrow> char \<Rightarrow> string list" where
  "split seq str sep = (if str = [] then seq else seq @ map read_word (getlines sep str))"

definition split_nth :: "string \<Rightarrow> char \<Rightarrow> nat \<Rightarrow> string" where
  "split_nth str sep index =
     (let seq = split [] str sep in
      if seq = [] then [] else if length seq \<le> index then [] else seq ! index)"

section \<open>Searching\<close>

lemma find_sub_SomeD:
  "find_sub pat s = Some i \<Longrightarrow>
     i + length pat \<le> length s \<and> s = take i s @ pat @ drop (i + length pat) s"
proof (induction pat s arbitrary: i rule: find_sub.induct)
  case (1 pat)
  then show ?case by (auto split: if_splits)
next
  case (2 pat c cs)
  show ?case
  proof (cases "prefix pat (c # cs)")
    case True
    then obtain rest where "c # cs = pat @ rest" by (rule prefixE)
    then show ?thesis using 2(2) True by (metis add_0 append_Nil append_eq_conv_conj
          find_sub.simps(2) le_add1 length_append option.inject take0)
  next
    case False
    then obtain j where "find_sub pat cs = Some j" "i = Suc j" using 2(2) by auto
    then show ?thesis using 2(1) [OF False, of j] by auto
  qed
qed

lemma find_sub_None: "find_sub pat s = None \<longleftrightarrow> \<not> sublist pat s"
  by (induction pat s rule: find_sub.induct) (auto simp: sublist_Cons_right)

lemma find_sub_char: "c \<notin> set pre \<Longrightarrow> find_sub [c] (pre @ c # s) = Some (length pre)"
  by (induction pre) (auto simp: prefix_def)

section \<open>Replacing\<close>

lemma replace_all_stop:
  "\<not> sublist old s \<Longrightarrow> replace_all limit s old new = Some (Inr s)"
  by (subst replace_all.simps) (simp add: str_find_def find_sub_None [symmetric])

lemma replace_all_step:
  assumes "find_sub old s = Some i" "length s \<le> limit" "limit < npos"
    and "length (take i s @ new @ drop (i + length old) s) \<le> limit"
  shows "replace_all limit s old new =
    replace_all limit (take i s @ new @ drop (i + length old) s) old new"
proof -
  have "i \<le> length s" using find_sub_SomeD [OF assms(1)] by simp
  then have "str_find s old = i" "i \<noteq> npos" "\<not> length s < i"
    using assms by (simp_all add: str_find_def)
  then show ?thesis
    using assms(4) by (subst replace_all.simps) (simp add: str_replace_def Let_def)
qed

lemma replace_all_shorter:
  assumes "length new < length old" "limit < npos"
  shows "length s \<le> limit \<Longrightarrow>
    \<exists>r. replace_all limit s old new = Some (Inr r) \<and> \<not> sublist old r \<and> length r \<le> length s"
proof (induction "length s" arbitrary: s rule: less_induct)
  case less
  show ?case
  proof (cases "find_sub old s")
    case None
    then show ?thesis by (auto simp: find_sub_None replace_all_stop)
  next
    case (Some i)
    define s' where "s' = take i s @ new @ drop (i + length old) s"
    have "i + length old \<le> length s" using find_sub_SomeD [OF Some] by simp
    then have "length s' < length s" using assms(1) by (simp add: s'_def)
    moreover have "replace_all limit s old new = replace_all limit s' old new"
      using replace_all_step [OF Some less(2) assms(2), of new] less(2) \<open>length s' < length s\<close>
      by (simp add: s'_def)
    ultimately show ?thesis using less(1) [of s'] less(2) by fastforce
  qed
qed

definition substitute :: "char \<Rightarrow> string \<Rightarrow> string \<Rightarrow> string" where
  "substitute c new s = concat (map (\<lambda>x. if x = c then new else [x]) s)"

lemma length_substitute: "new \<noteq> [] \<Longrightarrow> length s \<le> length (substitute c new s)"
proof (induction s)
  case (Cons x s)
  then have "Suc 0 \<le> length new" by (cases new) auto
  with Cons show ?case by (auto simp: substitute_def)
qed (simp add: substitute_def)

lemma replace_all_char:
  assumes "c \<notin> set new" "limit < npos"
  shows "c \<notin> set pre \<Longrightarrow> length (pre @ s) \<le> limit \<Longrightarrow>
    length (pre @ substitute c new s) \<le> limit \<Longrightarrow>
    replace_all limit (pre @ s) [c] new = Some (Inr (pre @ substitute c new s))"
proof (induction s arbitrary: pre)
  case Nil
  then show ?case
    using replace_all_stop [of "[c]" pre]
    by (simp add: substitute_def sublist_def in_set_conv_decomp)
next
  case (Cons x s)
  show ?case
  proof (cases "x = c")
    case False
    then show ?thesis using Cons.IH [of "pre @ [x]"] Cons.prems by (simp add: substitute_def)
  next
    case True
    have fits: "length (pre @ new @ s) \<le> limit"
      using Cons.prems(2,3) True length_substitute [of new s c]
      by (cases "new = []") (auto simp: substitute_def)
    have "replace_all limit (pre @ x # s) [c] new = replace_all limit (pre @ new @ s) [c] new"
      using replace_all_step [OF find_sub_char [OF Cons.prems(1)], of s limit new] True Cons.prems
        fits assms(2)
      by simp
    then show ?thesis
      using Cons.IH [of "pre @ new"] Cons.prems True fits assms(1) by (simp add: substitute_def)
  qed
qed

lemma replace_keeps_sublist:
  "sublist old new \<Longrightarrow> sublist old (xs @ new @ ys)"
  by (meson sublist_appendI sublist_order.order_trans)

lemma replace_all_stuck:
  assumes "replace_all limit s old new = Some r" "sublist old new" "sublist old s"
    and "length s \<le> limit" "limit < npos"
  shows "\<exists>e. r = Inl e"
proof -
  let ?P = "\<lambda>lim str ol ne res. sublist ol ne \<longrightarrow> sublist ol str \<longrightarrow> length str \<le> lim \<longrightarrow>
     lim < npos \<longrightarrow> (\<exists>e. res = (Inl e :: string result))"
  have "?P limit s old new r"
  proof (rule replace_all.raw_induct [where P = ?P, rotated, OF assms(1)], intro impI)
    fix ra lim str ol ne res
    assume IH: "\<And>lim str ol ne res. ra lim str ol ne = Some res \<Longrightarrow> ?P lim str ol ne res"
      and step: "(let pos = str_find str ol in
        if pos \<noteq> npos
        then (case str_replace lim str pos (length ol) ne of
                Inl e \<Rightarrow> Some (Inl e) | Inr str' \<Rightarrow> ra lim str' ol ne)
        else Some (Inr str)) = Some res"
      and prems: "sublist ol ne" "sublist ol str" "length str \<le> lim" "lim < npos"
    obtain i where i: "find_sub ol str = Some i"
      using prems(2) find_sub_None by (cases "find_sub ol str") auto
    have "i \<le> length str" using find_sub_SomeD [OF i] by simp
    then have pos: "str_find str ol = i" "i \<noteq> npos"
      using i prems by (simp_all add: str_find_def)
    show "\<exists>e. res = Inl e"
    proof (cases "str_replace lim str i (length ol) ne")
      case (Inl e)
      then show ?thesis using step pos by (intro exI [of _ e]) simp
    next
      case (Inr str')
      then have "ra lim str' ol ne = Some res" using step pos by simp
      moreover have "length str' \<le> lim" "sublist ol str'"
        using Inr prems(1) replace_keeps_sublist
        by (auto simp: str_replace_def Let_def split: if_splits)
      ultimately show ?thesis using IH prems by blast
    qed
  qed
  then show ?thesis using assms(2-5) by blast
qed

section \<open>Trimming and affixes\<close>

definition strip :: "string \<Rightarrow> string" where
  "strip s = rev (dropWhile (\<lambda>c. c = CHR '' '') (rev (dropWhile (\<lambda>c. c = CHR '' '') s)))"

lemma trim_left_dropWhile:
  assumes "length s < npos"
  shows "trim_left s = Inr (dropWhile (\<lambda>c. c = CHR '' '') s)"
proof (cases "length (takeWhile (\<lambda>c. c = CHR '' '') s) = length s")
  case True
  then have blank: "dropWhile (\<lambda>c. c = CHR '' '') s = []"
    by (metis append_Nil2 append_eq_append_conv takeWhile_dropWhile_id)
  show ?thesis
    unfolding trim_left_def str_erase_def find_first_not_of_def blank using True assms by simp
next
  case False
  then show ?thesis
    by (simp add: trim_left_def str_erase_def find_first_not_of_def dropWhile_eq_drop)
qed

lemma find_last_not_of_le: "length s < npos \<Longrightarrow> find_last_not_of s c \<noteq> npos \<Longrightarrow> find_last_not_of s c < length s"
  by (induction s) (auto simp: Let_def split: if_splits)

lemma find_last_not_of_npos: "length s < npos \<Longrightarrow> find_last_not_of s c = npos \<longleftrightarrow> set s \<subseteq> {c}"
proof (induction s)
  case (Cons x s)
  show ?case
  proof (cases "find_last_not_of s c = npos")
    case True
    with Cons show ?thesis by (simp add: npos_def)
  next
    case False
    then have "find_last_not_of s c < length s"
      using Cons.prems find_last_not_of_le [of s c] by simp
    with False Cons show ?thesis by (simp add: Let_def)
  qed
qed simp

lemma take_find_last_not_of:
  "length s < npos \<Longrightarrow> find_last_not_of s c \<noteq> npos \<Longrightarrow>
   take (Suc (find_last_not_of s c)) s = rev (dropWhile (\<lambda>x. x = c) (rev s))"
proof (induction s)
  case (Cons x s)
  show ?case
  proof (cases "find_last_not_of s c = npos")
    case True
    then have "\<forall>y \<in> set s. y = c" using find_last_not_of_npos Cons.prems(1) by fastforce
    then have "dropWhile (\<lambda>x. x = c) (rev s @ [x]) = dropWhile (\<lambda>x. x = c) [x]"
      by (subst dropWhile_append2) auto
    with True Cons.prems show ?thesis by (simp add: Let_def split: if_splits)
  next
    case False
    then obtain y where "y \<in> set (rev s)" "y \<noteq> c"
      using find_last_not_of_npos [of s c] Cons.prems(1) by auto
    then have "dropWhile (\<lambda>x. x = c) (rev s @ [x]) = dropWhile (\<lambda>x. x = c) (rev s) @ [x]"
      by (rule dropWhile_append1)
    with False Cons.IH Cons.prems(1) show ?thesis by (simp add: Let_def)
  qed
qed simp

lemma trim_right_dropWhile:
  assumes "length s < npos"
  shows "trim_right s = Inr (rev (dropWhile (\<lambda>c. c = CHR '' '') (rev s)))"
proof (cases "find_last_not_of s CHR '' '' = npos")
  case True
  then have blank: "dropWhile (\<lambda>c. c = CHR '' '') (rev s) = []"
    using find_last_not_of_npos [OF assms] by auto
  show ?thesis
    unfolding trim_right_def str_erase_def size_plus_def True blank
    using assms by (simp add: npos_def)
next
  case False
  then have "size_plus (find_last_not_of s CHR '' '') 1 = Suc (find_last_not_of s CHR '' '')"
    using find_last_not_of_le [OF assms False] assms by (simp add: size_plus_def npos_def)
  with False show ?thesis
    using take_find_last_not_of [OF assms False] find_last_not_of_le [OF assms False] assms
    by (simp add: trim_right_def str_erase_def)
qed

lemma trim_strip:
  assumes "length s < npos"
  shows "trim s = Inr (strip s)"
proof -
  have "length (dropWhile (\<lambda>c. c = CHR '' '') s) < npos"
    using assms length_dropWhile_le le_less_trans by blast
  then show ?thesis
    using trim_left_dropWhile [OF assms] trim_right_dropWhile
    by (simp add: trim_def trim_left_def trim_right_def strip_def)
qed

lemma is_start_with_prefix: "is_start_with str src = Inr (prefix src str)"
  by (auto simp: is_start_with_def str_compare_eq_def prefix_def) (metis append_take_drop_id)

lemma is_end_with_suffix:
  assumes "length str < 2 ^ 32" "length src < 2 ^ 32"
  shows "is_end_with str src =
    (if length src \<le> length str then Inr (suffix src str) else Inl Out_of_range)"
proof (cases "length src \<le> length str")
  case True
  then have "length str + 2 ^ 32 - length src = (length str - length src) + 2 ^ 32"
    by simp
  then have "size_minus (length str) (length src) = length str - length src"
    unfolding size_minus_def using assms by (simp only: mod_add_self2) simp
  with True show ?thesis
    by (auto simp: is_end_with_def str_compare_eq_def suffix_def) (metis append_take_drop_id)
next
  case False
  then have "size_minus (length str) (length src) = length str + 2 ^ 32 - length src"
    using assms by (simp add: size_minus_def)
  with False assms show ?thesis by (simp add: is_end_with_def str_compare_eq_def)
qed

section \<open>Splitting\<close>

fun join :: "char \<Rightarrow> string list \<Rightarrow> string" where
  "join sep [] = []"
| "join sep [w] = w"
| "join sep (w # v # ws) = w @ sep # join sep (v # ws)"

definition plain_word :: "char \<Rightarrow> string \<Rightarrow> bool" where
  "plain_word sep w \<longleftrightarrow> w \<noteq> [] \<and> sep \<notin> set w \<and> (\<forall>c \<in> set w. \<not> is_space c)"

lemma read_word_plain: "plain_word sep w \<Longrightarrow> read_word w = w"
  by (cases w) (auto simp: plain_word_def read_word_def takeWhile_eq_all_conv)

lemma until_separator:
  "sep \<notin> set w \<Longrightarrow> takeWhile (\<lambda>x. x \<noteq> sep) (w @ sep # rest) = w"
  "sep \<notin> set w \<Longrightarrow> dropWhile (\<lambda>x. x \<noteq> sep) (w @ sep # rest) = sep # rest"
  "sep \<notin> set w \<Longrightarrow> takeWhile (\<lambda>x. x \<noteq> sep) w = w"
  "sep \<notin> set w \<Longrightarrow> dropWhile (\<lambda>x. x \<noteq> sep) w = []"
  by (induction w) auto

lemma getlines_last: "sep \<notin> set w \<Longrightarrow> w \<noteq> [] \<Longrightarrow> getlines sep w = [w]"
  using until_separator(3,4) [of sep w] by (cases w) auto

lemma getlines_next: "sep \<notin> set w \<Longrightarrow> getlines sep (w @ sep # rest) = w # getlines sep rest"
  using until_separator(1,2) [of sep w rest] by (cases w) auto

lemma getlines_join:
  "list_all (plain_word sep) ws \<Longrightarrow> getlines sep (join sep ws) = ws"
  by (induction sep ws rule: join.induct)
    (simp_all add: plain_word_def getlines_last getlines_next)

lemma join_eq_Nil: "list_all (plain_word sep) ws \<Longrightarrow> join sep ws = [] \<longleftrightarrow> ws = []"
  by (induction sep ws rule: join.induct) (auto simp: plain_word_def)

section \<open>Correctness\<close>

text \<open>
  \<open>replace_all\<close>, for strings the allocator can hold. Replacing one character by a string
  without it ends with every occurrence substituted and nothing else changed. Replacing a string
  by a shorter one ends, with a string that no longer contains it. But when the new value contains
  the old one and the old one occurs in the string, no call ever returns a string: it runs for ever
  or fails to allocate; an empty old value is such a case.
\<close>

theorem replace_all_behaviour:
  assumes "length s \<le> limit" "limit < npos"
  shows "(c \<notin> set new \<and> length (substitute c new s) \<le> limit \<longrightarrow>
      replace_all limit s [c] new = Some (Inr (substitute c new s))) \<and>
    (length new < length old \<longrightarrow>
      (\<exists>r. replace_all limit s old new = Some (Inr r) \<and> \<not> sublist old r \<and> length r \<le> length s)) \<and>
    (sublist old new \<and> sublist old s \<longrightarrow> (\<nexists>r. replace_all limit s old new = Some (Inr r)))"
proof (intro conjI impI)
  show "replace_all limit s [c] new = Some (Inr (substitute c new s))"
    if "c \<notin> set new \<and> length (substitute c new s) \<le> limit"
    using replace_all_char [of c new limit "[]" s] that assms by simp
  show "\<exists>r. replace_all limit s old new = Some (Inr r) \<and> \<not> sublist old r \<and> length r \<le> length s"
    if "length new < length old"
    using replace_all_shorter [OF that assms(2,1)] .
  show "\<nexists>r. replace_all limit s old new = Some (Inr r)" if "sublist old new \<and> sublist old s"
    using replace_all_stuck [of limit s old new] that assms by blast
qed

theorem replace_all_behaviour_witness:
  "replace_all 100 ''a,b'' '','' ''; '' = Some (Inr ''a; b'') \<and>
   (\<nexists>r. replace_all 100 ''say hi'' ''hi'' ''hi!'' = Some (Inr r))"
proof -
  have "sublist ''hi'' ''hi!''" "sublist ''hi'' ''say hi''"
    by code_simp+
  then show ?thesis
    using replace_all_behaviour [of "''a,b''" 100 "CHR '',''" "''; ''" "[]"]
      replace_all_behaviour [of "''say hi''" 100 "CHR '' ''" "''hi!''" "''hi''"]
    by (simp add: npos_def substitute_def)
qed

text \<open>
  Splitting inverts joining: when words without separator and white space are joined with a
  separator, \<open>split\<close> appends exactly these words, in order, to the vector it is given, and
  \<open>split\<close> with an index returns the word at the index, the empty string when there is none.
\<close>

theorem split_join:
  assumes "list_all (plain_word sep) ws"
  shows "split seq (join sep ws) sep = seq @ ws \<and>
    split_nth (join sep ws) sep i = (if i < length ws then ws ! i else [])"
proof -
  have plain: "plain_word sep w" if "w \<in> set ws" for w
    using assms that by (simp add: list_all_iff)
  have "map read_word ws = ws"
    by (rule map_idI) (use plain read_word_plain in blast)
  then have "split seq (join sep ws) sep = seq @ ws" for seq
    using join_eq_Nil [OF assms] getlines_join [OF assms] by (auto simp: split_def)
  then show ?thesis by (simp add: split_nth_def)
qed

theorem split_join_witness:
  "split [''z''] ''ab,c'' CHR '','' = [''z'', ''ab'', ''c''] \<and> split_nth ''ab,c'' CHR '','' 1 = ''c''"
  using split_join [of "CHR '',''" "[''ab'', ''c'']" "[''z'']" 1]
  by (simp add: plain_word_def is_space_def)

end
