(* ===== verification/Io_Dispatcher.thy ===== *)
theory Io_Dispatcher
  imports Prelude "HOL-Library.Multiset"
begin

text \<open>
  The completion port and the life of a callback: \<open>async_result.hpp\<close>, \<open>dispatcher.hpp\<close> and
  \<open>dispatcher.cpp\<close> of \<open>include/async_io/service\<close>, and the asynchronous operations of
  \<open>include/async_io/network/socket.hpp\<close>.

  Every asynchronous operation allocates a callback, hands it to the kernel and gives up its
  ownership (\<open>release\<close>) when the kernel has taken it; an \<open>async_callback_base_ptr\<close> that still
  owns the callback deallocates it. The threads of the dispatcher take completed entries from the
  port, at most 64 at a time, and invoke and deallocate their callbacks.

  The kernel answers a start with \<open>K_done\<close>, \<open>K_pending\<close> or \<open>K_failed\<close>. Every socket is opened
  with \<open>FILE_SKIP_COMPLETION_PORT_ON_SUCCESS\<close>, under which the kernel queues a completion for a
  pending operation only. \<open>GetQueuedCompletionStatusEx\<close> with an infinite timeout either delivers
  entries of the port or ends by an APC. A callback is a serial number of its allocation, so
  that a reused address is a new callback. Handlers may throw, and may start operations while they
  run: a handler call is a pair of steps, and every other step may come between them.
\<close>

section \<open>The state\<close>

type_synonym callback = nat
type_synonym entry = "callback \<times> u32 \<times> nat"  \<comment> \<open>callback, bytes transferred, error\<close>

datatype kernel_result = K_done u32 | K_pending | K_failed

datatype action =
    Alloc callback
  | Invoke callback nat u32  \<comment> \<open>callback, error, size\<close>
  | Free callback
  | Throws cxx_error
  | Error_msg

text \<open>
  A thread of \<open>_thread_io\<close>: created but not yet running, blocked in \<open>get_status_ex\<close>, before the
  next entry of a batch, inside the handler of an entry, or left by \<open>break\<close>.
\<close>

datatype io_thread =
    T_created
  | T_waiting
  | T_batch "entry list"
  | T_running entry "entry list"
  | T_exited

text \<open>
  \<open>io_inline\<close> holds the callbacks whose handlers run inside the call that started the operation;
  \<open>io_lost\<close> is an auxiliary variable: allocated callbacks that neither the kernel, nor the port,
  nor a thread will ever use again.
\<close>

record io_state =
  io_heap :: "callback list"
  io_pending :: "callback list"
  io_port :: "entry list"
  io_threads :: "io_thread list"
  io_inline :: "callback list"
  io_lost :: "callback list"
  io_log :: "action list"

definition io_dispatcher :: "nat \<Rightarrow> io_state" where
  "io_dispatcher numThreads =
     \<lparr> io_heap = [], io_pending = [], io_port = [], io_threads = replicate numThreads T_created,
       io_inline = [], io_lost = [], io_log = [] \<rparr>"

section \<open>Callbacks\<close>

definition make_async_callback :: "callback \<Rightarrow> io_state \<Rightarrow> io_state" where
  "make_async_callback c s = s\<lparr>io_heap := c # io_heap s, io_log := io_log s @ [Alloc c]\<rparr>"

definition deallocate :: "callback \<Rightarrow> io_state \<Rightarrow> io_state" where
  "deallocate c s = s\<lparr>io_heap := remove1 c (io_heap s), io_log := io_log s @ [Free c]\<rparr>"

definition invoke :: "callback \<Rightarrow> nat \<Rightarrow> u32 \<Rightarrow> io_state \<Rightarrow> io_state" where
  "invoke c err n s = s\<lparr>io_log := io_log s @ [Invoke c err n]\<rparr>"

definition io_throw :: "cxx_error \<Rightarrow> io_state \<Rightarrow> io_state" where
  "io_throw e s = s\<lparr>io_log := io_log s @ [Throws e]\<rparr>"

section \<open>Starting an operation\<close>

text \<open>
  \<open>async_read\<close>, the two \<open>async_write\<close>, \<open>async_send_to\<close> and \<open>async_recv_from\<close>: an operation that
  completes at once invokes its callback in place; the pointer still owns it.
\<close>

definition start_stream :: "callback \<Rightarrow> kernel_result \<Rightarrow> io_state \<Rightarrow> io_state" where
  "start_stream c r s =
     (let s = make_async_callback c s in
      case r of
        K_failed \<Rightarrow> io_throw Win32_exception (deallocate c s)
      | K_done n \<Rightarrow> invoke c 0 n (s\<lparr>io_inline := c # io_inline s\<rparr>)
      | K_pending \<Rightarrow> s\<lparr>io_pending := c # io_pending s\<rparr>)"

text \<open>The handler that ran in place returns or throws: the pointer deallocates the callback.\<close>

definition end_inline :: "callback \<Rightarrow> io_state \<Rightarrow> io_state" where
  "end_inline c s = deallocate c (s\<lparr>io_inline := remove1 c (io_inline s)\<rparr>)"

text \<open>
  \<open>async_accept\<close>, \<open>async_connect\<close> and \<open>async_disconnect\<close> release the callback whether the kernel
  has completed the operation or not.
\<close>

definition start_control :: "callback \<Rightarrow> kernel_result \<Rightarrow> io_state \<Rightarrow> io_state" where
  "start_control c r s =
     (let s = make_async_callback c s in
      case r of
        K_failed \<Rightarrow> io_throw Win32_exception (deallocate c s)
      | K_done n \<Rightarrow> s\<lparr>io_lost := c # io_lost s\<rparr>
      | K_pending \<Rightarrow> s\<lparr>io_pending := c # io_pending s\<rparr>)"

definition async_accept :: "bool \<Rightarrow> callback \<Rightarrow> kernel_result \<Rightarrow> io_state \<Rightarrow> io_state" where
  "async_accept open c r s =
     (if \<not> open then io_throw Network_exception s else start_control c r s)"

definition async_connect :: "bool \<Rightarrow> bool \<Rightarrow> callback \<Rightarrow> kernel_result \<Rightarrow> io_state \<Rightarrow> io_state" where
  "async_connect open bound c r s =
     (if \<not> open then io_throw Network_exception s
      else if \<not> bound then io_throw Win32_exception s
      else start_control c r s)"

definition async_disconnect :: "callback \<Rightarrow> kernel_result \<Rightarrow> io_state \<Rightarrow> io_state" where
  "async_disconnect c r s = start_control c r s"

text \<open>\<open>post\<close>: the callback goes to the port itself; when that fails the pointer still owns it.\<close>

definition io_post :: "callback \<Rightarrow> bool \<Rightarrow> io_state \<Rightarrow> io_state" where
  "io_post c posted s =
     (let s = make_async_callback c s in
      if posted then s\<lparr>io_port := io_port s @ [(c, 0, 0)]\<rparr>
      else io_throw Win32_exception (deallocate c s))"

section \<open>The kernel and the threads\<close>

definition kernel_completes :: "callback \<Rightarrow> u32 \<Rightarrow> nat \<Rightarrow> io_state \<Rightarrow> io_state" where
  "kernel_completes c n err s =
     s\<lparr>io_pending := remove1 c (io_pending s), io_port := io_port s @ [(c, n, err)]\<rparr>"

definition max_entries :: nat where
  "max_entries = 64"

definition set_thread :: "nat \<Rightarrow> io_thread \<Rightarrow> io_state \<Rightarrow> io_state" where
  "set_thread t th s = s\<lparr>io_threads := (io_threads s)[t := th]\<rparr>"

definition get_status_ex :: "nat \<Rightarrow> nat \<Rightarrow> io_state \<Rightarrow> io_state" where
  "get_status_ex t k s =
     set_thread t (T_batch (take k (io_port s))) (s\<lparr>io_port := drop k (io_port s)\<rparr>)"

definition call_begin :: "nat \<Rightarrow> entry \<Rightarrow> entry list \<Rightarrow> io_state \<Rightarrow> io_state" where
  "call_begin t x xs s = invoke (fst x) (snd (snd x)) (fst (snd x)) (set_thread t (T_running x xs) s)"

text \<open>
  The handler returns: the pointer of \<open>call\<close> deallocates the callback, and the loop goes on. The
  handler throws: the pointer deallocates the callback too, and the exception leaves the loop over
  the entries; the thread reports it and waits again.
\<close>

definition call_end :: "nat \<Rightarrow> bool \<Rightarrow> entry \<Rightarrow> entry list \<Rightarrow> io_state \<Rightarrow> io_state" where
  "call_end t throws x xs s =
     (let s = deallocate (fst x) s in
      if throws
      then set_thread t T_waiting
             (s\<lparr>io_lost := map fst xs @ io_lost s, io_log := io_log s @ [Error_msg]\<rparr>)
      else set_thread t (T_batch xs) s)"

datatype io_event =
    Ev_begin nat
  | Ev_stream callback kernel_result
  | Ev_end_inline callback
  | Ev_accept bool callback kernel_result
  | Ev_connect bool bool callback kernel_result
  | Ev_disconnect callback kernel_result
  | Ev_post callback bool
  | Ev_kernel callback u32 nat
  | Ev_status nat nat
  | Ev_call nat
  | Ev_return nat bool
  | Ev_next nat
  | Ev_apc nat

text \<open>The life of one callback, read off the log.\<close>

datatype phase = New | Allocated | Invoked | Finished | Discarded | Misused

fun phase_step :: "callback \<Rightarrow> phase \<Rightarrow> action \<Rightarrow> phase" where
  "phase_step c p (Alloc d) = (if d \<noteq> c then p else if p = New then Allocated else Misused)"
| "phase_step c p (Invoke d e n) = (if d \<noteq> c then p else if p = Allocated then Invoked else Misused)"
| "phase_step c p (Free d) =
     (if d \<noteq> c then p else if p = Invoked then Finished
      else if p = Allocated then Discarded else Misused)"
| "phase_step c p (Throws e) = p"
| "phase_step c p Error_msg = p"

definition life :: "callback \<Rightarrow> action list \<Rightarrow> phase" where
  "life c log = foldl (phase_step c) New log"

inductive io_step :: "io_state \<Rightarrow> io_event \<Rightarrow> io_state \<Rightarrow> bool" where
  begin_thread: "t < length (io_threads s) \<Longrightarrow> io_threads s ! t = T_created \<Longrightarrow>
    io_step s (Ev_begin t) (set_thread t T_waiting s)"
| stream: "life c (io_log s) = New \<Longrightarrow> io_step s (Ev_stream c r) (start_stream c r s)"
| inline: "c \<in> set (io_inline s) \<Longrightarrow> io_step s (Ev_end_inline c) (end_inline c s)"
| accept: "life c (io_log s) = New \<Longrightarrow> io_step s (Ev_accept op c r) (async_accept op c r s)"
| connect: "life c (io_log s) = New \<Longrightarrow> io_step s (Ev_connect op b c r) (async_connect op b c r s)"
| disconnect: "life c (io_log s) = New \<Longrightarrow> io_step s (Ev_disconnect c r) (async_disconnect c r s)"
| post: "life c (io_log s) = New \<Longrightarrow> io_step s (Ev_post c ok) (io_post c ok s)"
| kernel: "c \<in> set (io_pending s) \<Longrightarrow> io_step s (Ev_kernel c n e) (kernel_completes c n e s)"
| status: "t < length (io_threads s) \<Longrightarrow> io_threads s ! t = T_waiting \<Longrightarrow> 0 < k \<Longrightarrow> k \<le> max_entries \<Longrightarrow>
    k \<le> length (io_port s) \<Longrightarrow> io_step s (Ev_status t k) (get_status_ex t k s)"
| call: "t < length (io_threads s) \<Longrightarrow> io_threads s ! t = T_batch (x # xs) \<Longrightarrow>
    io_step s (Ev_call t) (call_begin t x xs s)"
| return: "t < length (io_threads s) \<Longrightarrow> io_threads s ! t = T_running x xs \<Longrightarrow>
    io_step s (Ev_return t throws) (call_end t throws x xs s)"
| batch_done: "t < length (io_threads s) \<Longrightarrow> io_threads s ! t = T_batch [] \<Longrightarrow>
    io_step s (Ev_next t) (set_thread t T_waiting s)"
| apc: "t < length (io_threads s) \<Longrightarrow> io_threads s ! t = T_waiting \<Longrightarrow>
    io_step s (Ev_apc t) (set_thread t T_exited s)"

inductive io_run :: "io_state \<Rightarrow> io_event list \<Rightarrow> io_state \<Rightarrow> bool" where
  refl: "io_run s [] s"
| step: "io_run s evs s' \<Longrightarrow> io_step s' ev s'' \<Longrightarrow> io_run s (evs @ [ev]) s''"

text \<open>
  One batch of a thread without another thread in between: the loop over the entries inside
  \<open>try\<close>, where \<open>throws\<close> says which handlers throw.
\<close>

fun thread_batch :: "(callback \<Rightarrow> bool) \<Rightarrow> nat \<Rightarrow> entry list \<Rightarrow> io_state \<Rightarrow> io_state" where
  "thread_batch throws t [] s = set_thread t T_waiting s"
| "thread_batch throws t (x # xs) s =
     (let s = call_end t (throws (fst x)) x xs (call_begin t x xs s) in
      if throws (fst x) then s else thread_batch throws t xs s)"

section \<open>Where the callbacks are\<close>

fun thread_waiting :: "io_thread \<Rightarrow> callback list" where
  "thread_waiting (T_batch es) = map fst es"
| "thread_waiting (T_running x es) = map fst es"
| "thread_waiting th = []"

fun thread_running :: "io_thread \<Rightarrow> callback list" where
  "thread_running (T_running x es) = [fst x]"
| "thread_running th = []"

definition held :: "(io_thread \<Rightarrow> callback list) \<Rightarrow> io_thread list \<Rightarrow> callback multiset" where
  "held f ths = (\<Sum>th \<leftarrow> ths. mset (f th))"

definition in_flight :: "io_state \<Rightarrow> callback multiset" where
  "in_flight s = mset (io_pending s) + mset (map fst (io_port s)) + held thread_waiting (io_threads s)"

definition running :: "io_state \<Rightarrow> callback multiset" where
  "running s = mset (io_inline s) + held thread_running (io_threads s)"

lemma held_update:
  "t < length ths \<Longrightarrow> held f (ths[t := th]) + mset (f (ths ! t)) = held f ths + mset (f th)"
proof (induction ths arbitrary: t)
  case (Cons x xs)
  then show ?case by (cases t) (auto simp: held_def ac_simps)
qed simp

lemma held_replicate [simp]: "f th = [] \<Longrightarrow> held f (replicate n th) = {#}"
  by (induction n) (auto simp: held_def)

text \<open>What the log, the heap and the places of the callbacks have to do with each other.\<close>

definition cb_inv :: "callback list \<Rightarrow> callback multiset \<Rightarrow> callback multiset \<Rightarrow> action list \<Rightarrow> bool" where
  "cb_inv heap W R log \<longleftrightarrow> distinct heap \<and> mset heap = W + R \<and>
     (\<forall>c. (c \<in># W \<longrightarrow> life c log = Allocated) \<and> (c \<in># R \<longrightarrow> life c log = Invoked) \<and>
          (c \<notin> set heap \<longrightarrow> life c log \<in> {New, Finished, Discarded}))"

definition io_inv :: "io_state \<Rightarrow> bool" where
  "io_inv s \<longleftrightarrow> cb_inv (io_heap s) (in_flight s + mset (io_lost s)) (running s) (io_log s)"

lemma life_snoc [simp]: "life c (log @ [a]) = phase_step c (life c log) a"
  by (simp add: life_def)

lemma cb_alloc:
  assumes "cb_inv h W R log" "life c log = New"
  shows "cb_inv (c # h) (add_mset c W) R (log @ [Alloc c])"
proof -
  have "c \<notin># W" "c \<notin># R" using assms by (auto simp: cb_inv_def)
  then have "c \<notin> set h" using assms(1) by (simp add: cb_inv_def flip: set_mset_mset)
  with assms show ?thesis by (auto simp: cb_inv_def)
qed

lemma distinct_mset_add:
  assumes "distinct h" "mset h = add_mset c M"
  shows "c \<in> set h \<and> c \<notin># M"
proof -
  have "c \<in> set h" using assms(2) by (metis set_mset_mset union_single_eq_member)
  moreover have "count (mset h) c = 1"
    using assms(1) \<open>c \<in> set h\<close> by (simp add: distinct_count_atmost_1)
  ultimately show ?thesis using assms(2) by (simp add: not_in_iff)
qed

lemma cb_distinct:
  "cb_inv h (add_mset c W) R log \<Longrightarrow> c \<in> set h \<and> c \<notin># W \<and> c \<notin># R"
  "cb_inv h W (add_mset c R) log \<Longrightarrow> c \<in> set h \<and> c \<notin># W \<and> c \<notin># R"
  using distinct_mset_add [of h c "W + R"] by (auto simp: cb_inv_def)

lemma cb_invoke:
  assumes "cb_inv h (add_mset c W) R log"
  shows "cb_inv h W (add_mset c R) (log @ [Invoke c e n])"
  using cb_distinct(1) [OF assms] assms unfolding cb_inv_def by auto

lemma cb_finish:
  assumes "cb_inv h W (add_mset c R) log"
  shows "cb_inv (remove1 c h) W R (log @ [Free c])"
  using cb_distinct(2) [OF assms] assms unfolding cb_inv_def by auto

lemma cb_discard:
  assumes "cb_inv h (add_mset c W) R log"
  shows "cb_inv (remove1 c h) W R (log @ [Free c])"
  using cb_distinct(1) [OF assms] assms unfolding cb_inv_def by auto

lemma cb_note: "cb_inv h W R (log @ [Throws e]) \<longleftrightarrow> cb_inv h W R log"
  "cb_inv h W R (log @ [Error_msg]) \<longleftrightarrow> cb_inv h W R log"
  by (simp_all add: cb_inv_def)

section \<open>The invariant\<close>

lemmas io_ops = start_stream_def end_inline_def start_control_def async_accept_def
  async_connect_def async_disconnect_def io_post_def kernel_completes_def make_async_callback_def
  deallocate_def invoke_def io_throw_def Let_def

lemmas io_places = io_inv_def in_flight_def running_def

lemma remove1_mset: "c \<in> set xs \<Longrightarrow> mset xs = add_mset c (mset (remove1 c xs))"
  by simp

text \<open>A callback that has been allocated and is then discarded leaves everything as it was.\<close>

lemma cb_alloc_discard:
  assumes "cb_inv h W R log" "life c log = New"
  shows "cb_inv (remove1 c (c # h)) W R ((log @ [Alloc c]) @ [Free c])"
  using cb_discard [OF cb_alloc [OF assms]] .

lemma inv_start_stream:
  assumes "io_inv s" "life c (io_log s) = New"
  shows "io_inv (start_stream c r s)"
proof (cases r)
  case (K_done n)
  then show ?thesis
    using cb_invoke [OF cb_alloc [OF assms(1) [unfolded io_inv_def] assms(2)]]
    by (simp add: io_ops io_places)
next
  case K_pending
  then show ?thesis
    using cb_alloc [OF assms(1) [unfolded io_inv_def] assms(2)] by (simp add: io_ops io_places)
next
  case K_failed
  then show ?thesis
    using cb_alloc_discard [OF assms(1) [unfolded io_inv_def] assms(2)]
    by (simp add: io_ops io_places cb_note(1) [of _ _ _ "_ @ [_, _]", simplified])
qed

lemma inv_start_control:
  assumes "io_inv s" "life c (io_log s) = New"
  shows "io_inv (start_control c r s)"
proof (cases r)
  case K_failed
  then show ?thesis
    using inv_start_stream [OF assms, of r] by (simp add: start_control_def start_stream_def)
next
  case K_pending
  then show ?thesis
    using inv_start_stream [OF assms, of r] by (simp add: start_control_def start_stream_def)
next
  case (K_done n)
  then show ?thesis
    using cb_alloc [OF assms(1) [unfolded io_inv_def] assms(2)] by (simp add: io_ops io_places)
qed

lemma inv_throw: "io_inv s \<Longrightarrow> io_inv (io_throw e s)"
  by (simp add: io_places io_throw_def cb_note)

lemma inv_post:
  assumes "io_inv s" "life c (io_log s) = New"
  shows "io_inv (io_post c ok s)"
proof (cases ok)
  case True
  then show ?thesis
    using cb_alloc [OF assms(1) [unfolded io_inv_def] assms(2)] by (simp add: io_ops io_places)
next
  case False
  then show ?thesis
    using inv_start_stream [OF assms, of K_failed] by (simp add: io_post_def start_stream_def)
qed

lemma inv_end_inline:
  assumes "io_inv s" "c \<in> set (io_inline s)"
  shows "io_inv (end_inline c s)"
proof -
  have "running s = add_mset c (mset (remove1 c (io_inline s)) + held thread_running (io_threads s))"
    using remove1_mset [OF assms(2)] by (simp add: running_def)
  then show ?thesis
    using cb_finish assms(1) by (simp add: io_ops io_inv_def) (simp add: in_flight_def running_def)
qed

lemma inv_kernel:
  assumes "io_inv s" "c \<in> set (io_pending s)"
  shows "io_inv (kernel_completes c n e s)"
proof -
  define P where "P = remove1 c (io_pending s)"
  have "mset (io_pending s) = add_mset c (mset P)"
    using assms(2) by (simp add: P_def)
  then show ?thesis
    using assms(1) by (simp add: io_ops io_places P_def [symmetric])
qed

lemma held_waiting_idle:
  assumes "t < length ths" "ths ! t = T_waiting"
  shows "held thread_waiting (ths[t := T_batch es]) = held thread_waiting ths + mset (map fst es)"
    "held thread_running (ths[t := T_batch es]) = held thread_running ths"
    "held thread_waiting (ths[t := T_exited]) = held thread_waiting ths"
    "held thread_running (ths[t := T_exited]) = held thread_running ths"
  using held_update [OF assms(1), of thread_waiting] held_update [OF assms(1), of thread_running]
  by (simp_all add: assms(2))

lemma held_call:
  assumes "t < length ths" "ths ! t = T_batch (x # xs)"
  shows "held thread_waiting ths = add_mset (fst x) (held thread_waiting (ths[t := T_running x xs]))"
    "held thread_running (ths[t := T_running x xs]) = add_mset (fst x) (held thread_running ths)"
  using held_update [OF assms(1), of thread_waiting "T_running x xs"]
    held_update [OF assms(1), of thread_running "T_running x xs"]
  by (simp_all add: assms(2))

lemma held_return:
  assumes "t < length ths" "ths ! t = T_running x xs"
  shows "held thread_waiting (ths[t := T_batch xs]) = held thread_waiting ths"
    "held thread_running ths = add_mset (fst x) (held thread_running (ths[t := T_batch xs]))"
    "held thread_waiting ths = held thread_waiting (ths[t := T_waiting]) + mset (map fst xs)"
    "held thread_running ths = add_mset (fst x) (held thread_running (ths[t := T_waiting]))"
  using held_update [OF assms(1), of thread_waiting "T_batch xs"]
    held_update [OF assms(1), of thread_running "T_batch xs"]
    held_update [OF assms(1), of thread_waiting T_waiting]
    held_update [OF assms(1), of thread_running T_waiting]
  by (simp_all add: assms(2))

lemma held_batch_done:
  assumes "t < length ths" "ths ! t = T_batch [] \<or> ths ! t = T_created"
  shows "held thread_waiting (ths[t := T_waiting]) = held thread_waiting ths"
    "held thread_running (ths[t := T_waiting]) = held thread_running ths"
  using held_update [OF assms(1), of thread_waiting T_waiting]
    held_update [OF assms(1), of thread_running T_waiting] assms(2)
  by auto

lemma inv_call:
  assumes "io_inv s" "t < length (io_threads s)" "io_threads s ! t = T_batch (x # xs)"
  shows "io_inv (call_begin t x xs s)"
  using cb_invoke assms(1) held_call [OF assms(2,3)]
  by (simp add: io_places call_begin_def invoke_def set_thread_def)

lemma inv_return:
  assumes "io_inv s" "t < length (io_threads s)" "io_threads s ! t = T_running x xs"
  shows "io_inv (call_end t throws x xs s)"
proof (cases throws)
  case True
  then show ?thesis
    using cb_finish assms(1) held_return(3,4) [OF assms(2,3)]
    by (simp add: io_places call_end_def deallocate_def set_thread_def Let_def
        cb_note(2) [of _ _ _ "_ @ [_]", simplified] ac_simps)
next
  case False
  then show ?thesis
    using cb_finish assms(1) held_return(1,2) [OF assms(2,3)]
    by (simp add: io_places call_end_def deallocate_def set_thread_def Let_def)
qed

lemma io_step_inv: "io_step s ev s' \<Longrightarrow> io_inv s \<Longrightarrow> io_inv s'"
proof (induction rule: io_step.induct)
  case (begin_thread t s)
  then show ?case
    using held_batch_done [OF begin_thread(1)] by (simp add: io_places set_thread_def)
next
  case (status t s k)
  then have "mset (map fst (io_port s)) = mset (map fst (take k (io_port s))) + mset (map fst (drop k (io_port s)))"
    by (metis append_take_drop_id map_append mset_append)
  with status show ?case
    using held_waiting_idle(1,2) [OF status(1,2)]
    by (simp add: io_places get_status_ex_def set_thread_def ac_simps)
next
  case (batch_done t s)
  then show ?case
    using held_batch_done [OF batch_done(1)] by (simp add: io_places set_thread_def)
next
  case (apc t s)
  then show ?case
    using held_waiting_idle(3,4) [OF apc(1,2)] by (simp add: io_places set_thread_def)
qed (simp_all add: inv_start_stream inv_start_control inv_end_inline inv_post inv_kernel inv_call
    inv_return inv_throw async_accept_def async_connect_def async_disconnect_def)

lemma io_inv_initial: "io_inv (io_dispatcher n)"
  by (simp add: io_places io_dispatcher_def cb_inv_def life_def)

lemma io_run_inv: "io_run s evs s' \<Longrightarrow> io_inv s \<Longrightarrow> io_inv s'"
  by (induction rule: io_run.induct) (auto intro: io_step_inv)

section \<open>Nothing is lost\<close>

text \<open>
  Regular events: no handler called by a thread throws, and no accept, connect or disconnect is
  completed by the kernel at once.
\<close>

fun regular :: "io_event \<Rightarrow> bool" where
  "regular (Ev_return t throws) \<longleftrightarrow> \<not> throws"
| "regular (Ev_accept op c r) \<longleftrightarrow> r \<in> {K_pending, K_failed}"
| "regular (Ev_connect op b c r) \<longleftrightarrow> r \<in> {K_pending, K_failed}"
| "regular (Ev_disconnect c r) \<longleftrightarrow> r \<in> {K_pending, K_failed}"
| "regular ev \<longleftrightarrow> True"

text \<open>The kernel, or the port, has taken the callback of the operation.\<close>

fun accepted :: "callback \<Rightarrow> io_event \<Rightarrow> bool" where
  "accepted c (Ev_stream d r) \<longleftrightarrow> d = c \<and> r \<noteq> K_failed"
| "accepted c (Ev_accept op d r) \<longleftrightarrow> d = c \<and> op \<and> r \<noteq> K_failed"
| "accepted c (Ev_connect op b d r) \<longleftrightarrow> d = c \<and> op \<and> b \<and> r \<noteq> K_failed"
| "accepted c (Ev_disconnect d r) \<longleftrightarrow> d = c \<and> r \<noteq> K_failed"
| "accepted c (Ev_post d ok) \<longleftrightarrow> d = c \<and> ok"
| "accepted c ev \<longleftrightarrow> False"

definition io_idle :: "io_state \<Rightarrow> bool" where
  "io_idle s \<longleftrightarrow> io_pending s = [] \<and> io_port s = [] \<and> io_inline s = [] \<and>
     list_all (\<lambda>th. th \<in> {T_created, T_waiting, T_exited}) (io_threads s)"

lemmas io_fields = io_ops set_thread_def get_status_ex_def call_begin_def call_end_def

lemma regular_keeps_lost: "io_step s ev s' \<Longrightarrow> regular ev \<Longrightarrow> io_lost s' = io_lost s"
  by (induction rule: io_step.induct) (auto simp: io_fields split: kernel_result.splits)

lemma regular_run_lost: "io_run s evs s' \<Longrightarrow> list_all regular evs \<Longrightarrow> io_lost s' = io_lost s"
  by (induction rule: io_run.induct) (auto simp: regular_keeps_lost)

lemma held_idle: "list_all (\<lambda>th. th \<in> {T_created, T_waiting, T_exited}) ths \<Longrightarrow>
    held thread_waiting ths = {#} \<and> held thread_running ths = {#}"
  by (induction ths) (auto simp: held_def)

lemma idle_heap_lost:
  assumes "io_inv s" "io_idle s"
  shows "mset (io_heap s) = mset (io_lost s)"
  using assms held_idle [of "io_threads s"] by (simp add: io_places cb_inv_def io_idle_def)

definition taken :: "callback \<Rightarrow> io_state \<Rightarrow> bool" where
  "taken c s \<longleftrightarrow> life c (io_log s) \<in> {Allocated, Invoked, Finished}"

lemma accepted_taken: "io_step s ev s' \<Longrightarrow> accepted c ev \<Longrightarrow> taken c s'"
  by (induction rule: io_step.induct)
    (auto simp: io_fields taken_def split: kernel_result.splits simp flip: append_assoc)

lemma running_invoked: "io_inv s \<Longrightarrow> c \<in># running s \<Longrightarrow> life c (io_log s) = Invoked"
  by (simp add: io_inv_def cb_inv_def)

lemma held_member: "t < length ths \<Longrightarrow> c \<in> set (f (ths ! t)) \<Longrightarrow> c \<in># held f ths"
  by (induction ths arbitrary: t) (auto simp: held_def nth_Cons' split: if_splits)

lemma waiting_allocated: "io_inv s \<Longrightarrow> c \<in># in_flight s \<Longrightarrow> life c (io_log s) = Allocated"
  by (simp add: io_inv_def cb_inv_def)

lemma step_taken:
  "io_step s ev s' \<Longrightarrow> io_inv s \<Longrightarrow> taken c s \<Longrightarrow> taken c s'"
proof (induction rule: io_step.induct)
  case (inline d s)
  then have "life d (io_log s) = Invoked" by (simp add: running_invoked running_def)
  with inline show ?case by (auto simp: io_fields taken_def)
next
  case (call t s x xs)
  then have "fst x \<in># in_flight s"
    using held_member [of t "io_threads s" "fst x" thread_waiting] by (simp add: in_flight_def)
  with call show ?case using waiting_allocated by (auto simp: io_fields taken_def)
next
  case (return t s x xs throws)
  then have "fst x \<in># running s"
    using held_member [of t "io_threads s" "fst x" thread_running] by (simp add: running_def)
  with return show ?case
    using running_invoked by (auto simp: io_fields taken_def simp flip: append_assoc)
qed (auto simp: io_fields taken_def split: kernel_result.splits simp flip: append_assoc)

lemma run_taken:
  "io_run s evs s' \<Longrightarrow> io_inv s \<Longrightarrow> ev \<in> set evs \<Longrightarrow> accepted c ev \<Longrightarrow> taken c s'"
proof (induction rule: io_run.induct)
  case (step s evs s' ev' s'')
  then show ?case
    using accepted_taken step_taken io_run_inv by auto
qed simp

section \<open>A batch of completions\<close>

text \<open>The entries whose handlers are called: up to and including the first that throws.\<close>

fun served :: "(callback \<Rightarrow> bool) \<Rightarrow> entry list \<Rightarrow> entry list" where
  "served throws [] = []"
| "served throws (x # xs) = (if throws (fst x) then [x] else x # served throws xs)"

fun is_invoke :: "action \<Rightarrow> bool" where
  "is_invoke (Invoke c e n) \<longleftrightarrow> True"
| "is_invoke a \<longleftrightarrow> False"

definition invocation :: "entry \<Rightarrow> action" where
  "invocation x = Invoke (fst x) (snd (snd x)) (fst (snd x))"

lemma run_snoc: "io_run s evs s' \<Longrightarrow> io_step s' ev s'' \<Longrightarrow> \<exists>evs. io_run s evs s''"
  by (blast intro: io_run.step)

lemma thread_batch_run:
  assumes "\<exists>evs. io_run s0 evs s" "t < length (io_threads s)" "io_threads s ! t = T_batch es"
  shows "\<exists>evs. io_run s0 evs (thread_batch throws t es s)"
  using assms
proof (induction es arbitrary: s)
  case Nil
  then show ?case using run_snoc io_step.batch_done by fastforce
next
  case (Cons x xs)
  define s1 where "s1 = call_begin t x xs s"
  define s2 where "s2 = call_end t (throws (fst x)) x xs s1"
  have s1: "t < length (io_threads s1)" "io_threads s1 ! t = T_running x xs"
    using Cons.prems(2) by (simp_all add: s1_def call_begin_def invoke_def set_thread_def)
  have "\<exists>evs. io_run s0 evs s1"
    unfolding s1_def using Cons.prems run_snoc io_step.call by blast
  then have run: "\<exists>evs. io_run s0 evs s2"
    unfolding s2_def using s1 run_snoc io_step.return by blast
  show ?case
  proof (cases "throws (fst x)")
    case True
    then show ?thesis using run by (simp add: s1_def s2_def)
  next
    case False
    then have "t < length (io_threads s2)" "io_threads s2 ! t = T_batch xs"
      using s1 by (simp_all add: s2_def io_fields)
    then show ?thesis using Cons.IH [OF run] False by (simp add: s1_def s2_def)
  qed
qed

lemma thread_batch_outcome:
  "filter is_invoke (io_log (thread_batch throws t es s)) =
     filter is_invoke (io_log s) @ map invocation (served throws es) \<and>
   io_lost (thread_batch throws t es s) =
     map fst (drop (length (served throws es)) es) @ io_lost s \<and>
   io_port (thread_batch throws t es s) = io_port s \<and>
   (t < length (io_threads s) \<longrightarrow> io_threads (thread_batch throws t es s) ! t = T_waiting)"
proof (induction es arbitrary: s)
  case Nil
  then show ?case by (simp add: set_thread_def)
next
  case (Cons x xs)
  show ?case
    using Cons.IH [of "call_end t False x xs (call_begin t x xs s)"]
    by (simp add: io_fields invocation_def)
qed

section \<open>Running the model\<close>

text \<open>The step relation as a function, for concrete runs.\<close>

definition guard :: "bool \<Rightarrow> 'a \<Rightarrow> 'a option" where
  "guard b x = (if b then Some x else None)"

fun io_exec :: "io_state \<Rightarrow> io_event \<Rightarrow> io_state option" where
  "io_exec s (Ev_begin t) =
     guard (t < length (io_threads s) \<and> io_threads s ! t = T_created) (set_thread t T_waiting s)"
| "io_exec s (Ev_stream c r) = guard (life c (io_log s) = New) (start_stream c r s)"
| "io_exec s (Ev_end_inline c) = guard (c \<in> set (io_inline s)) (end_inline c s)"
| "io_exec s (Ev_accept op c r) = guard (life c (io_log s) = New) (async_accept op c r s)"
| "io_exec s (Ev_connect op b c r) = guard (life c (io_log s) = New) (async_connect op b c r s)"
| "io_exec s (Ev_disconnect c r) = guard (life c (io_log s) = New) (async_disconnect c r s)"
| "io_exec s (Ev_post c ok) = guard (life c (io_log s) = New) (io_post c ok s)"
| "io_exec s (Ev_kernel c n e) = guard (c \<in> set (io_pending s)) (kernel_completes c n e s)"
| "io_exec s (Ev_status t k) =
     guard (t < length (io_threads s) \<and> io_threads s ! t = T_waiting \<and> 0 < k \<and> k \<le> max_entries \<and>
            k \<le> length (io_port s)) (get_status_ex t k s)"
| "io_exec s (Ev_call t) =
     (if t < length (io_threads s)
      then case io_threads s ! t of T_batch (x # xs) \<Rightarrow> Some (call_begin t x xs s) | _ \<Rightarrow> None
      else None)"
| "io_exec s (Ev_return t throws) =
     (if t < length (io_threads s)
      then case io_threads s ! t of T_running x xs \<Rightarrow> Some (call_end t throws x xs s) | _ \<Rightarrow> None
      else None)"
| "io_exec s (Ev_next t) =
     guard (t < length (io_threads s) \<and> io_threads s ! t = T_batch []) (set_thread t T_waiting s)"
| "io_exec s (Ev_apc t) =
     guard (t < length (io_threads s) \<and> io_threads s ! t = T_waiting) (set_thread t T_exited s)"

lemma io_exec_step: "io_exec s ev = Some s' \<longleftrightarrow> io_step s ev s'"
proof
  show "io_exec s ev = Some s' \<Longrightarrow> io_step s ev s'"
    by (cases ev) (auto simp: guard_def intro: io_step.intros
        split: if_splits io_thread.splits list.splits)
  show "io_step s ev s' \<Longrightarrow> io_exec s ev = Some s'"
    by (induction rule: io_step.induct) (auto simp: guard_def)
qed

fun io_execs :: "io_state \<Rightarrow> io_event list \<Rightarrow> io_state option" where
  "io_execs s [] = Some s"
| "io_execs s (ev # evs) = (case io_exec s ev of None \<Rightarrow> None | Some s' \<Rightarrow> io_execs s' evs)"

lemma io_execs_run: "io_run s0 pre s \<Longrightarrow> io_execs s evs = Some s' \<Longrightarrow> io_run s0 (pre @ evs) s'"
proof (induction evs arbitrary: s pre)
  case (Cons ev evs)
  then obtain s1 where "io_step s ev s1" "io_execs s1 evs = Some s'"
    by (auto simp: io_exec_step split: option.splits)
  then show ?case using Cons.IH [of "pre @ [ev]" s1] io_run.step [OF Cons.prems(1)] by simp
qed simp

text \<open>A run with a read that waits, a posted handler and a read that completes at once.\<close>

definition demo_events :: "io_event list" where
  "demo_events = [Ev_begin 0, Ev_stream 1 K_pending, Ev_post 2 True, Ev_stream 3 (K_done 5), Ev_end_inline 3,
     Ev_kernel 1 7 0, Ev_status 0 2, Ev_call 0, Ev_return 0 False, Ev_call 0, Ev_return 0 False,
     Ev_next 0]"

definition demo_final :: io_state where
  "demo_final = \<lparr> io_heap = [], io_pending = [], io_port = [], io_threads = [T_waiting],
     io_inline = [], io_lost = [],
     io_log = [Alloc 1, Alloc 2, Alloc 3, Invoke 3 0 5, Free 3, Invoke 2 0 0, Free 2,
               Invoke 1 0 7, Free 1] \<rparr>"

lemma demo_events_run: "io_run (io_dispatcher 1) demo_events demo_final"
  using io_execs_run [OF io_run.refl, of "io_dispatcher 1" demo_events demo_final]
  by (simp add: demo_events_def demo_final_def io_dispatcher_def guard_def io_fields max_entries_def
      life_def)

section \<open>Correctness\<close>

text \<open>
  C11. The life of a callback. In every reachable state of a dispatcher with any number of threads,
  whatever operations are started, however they complete and whichever handlers throw: a callback
  is allocated once, invoked at most once, only while it is allocated, and deallocated at most
  once, after which nothing uses it; the allocated callbacks are exactly those that wait for
  their completion or run.
\<close>

theorem callback_life:
  assumes "io_run (io_dispatcher n) evs s"
  shows "life c (io_log s) \<noteq> Misused \<and> distinct (io_heap s) \<and>
    (c \<in> set (io_heap s) \<longleftrightarrow> life c (io_log s) \<in> {Allocated, Invoked})"
proof -
  have inv: "cb_inv (io_heap s) (in_flight s + mset (io_lost s)) (running s) (io_log s)"
    using io_run_inv [OF assms io_inv_initial] by (simp add: io_inv_def)
  show ?thesis
  proof (cases "c \<in> set (io_heap s)")
    case True
    then have "c \<in># in_flight s + mset (io_lost s) \<or> c \<in># running s"
      using inv by (metis cb_inv_def set_mset_mset union_iff)
    with True inv show ?thesis by (auto simp: cb_inv_def)
  next
    case False
    with inv show ?thesis by (auto simp: cb_inv_def)
  qed
qed

text \<open>
  C12. Every accepted operation is answered. In a run in which no handler throws and the kernel
  completes no accept, connect or disconnect at once, when nothing is pending, queued or running
  any more, all memory of callbacks has been given back and the callback of every operation that
  the kernel or the port accepted has been invoked exactly once.
\<close>

theorem callbacks_answered:
  assumes "io_run (io_dispatcher n) evs s" "list_all regular evs" "io_idle s"
  shows "io_heap s = [] \<and>
    (\<forall>c ev. ev \<in> set evs \<and> accepted c ev \<longrightarrow> life c (io_log s) = Finished)"
proof -
  have inv: "io_inv s" using io_run_inv [OF assms(1) io_inv_initial] .
  have "io_lost s = []"
    using regular_run_lost [OF assms(1,2)] by (simp add: io_dispatcher_def)
  then have heap: "io_heap s = []"
    using idle_heap_lost [OF inv assms(3)] by simp
  have "life c (io_log s) = Finished" if "ev \<in> set evs" "accepted c ev" for c ev
  proof -
    have "life c (io_log s) \<in> {New, Finished, Discarded}"
      using inv heap by (simp add: io_inv_def cb_inv_def)
    then show ?thesis
      using run_taken [OF assms(1) io_inv_initial that] by (auto simp: taken_def)
  qed
  with heap show ?thesis by blast
qed

theorem callback_life_witness:
  "io_run (io_dispatcher 1) demo_events demo_final \<and> life 3 (io_log demo_final) \<noteq> Misused \<and>
   3 \<notin> set (io_heap demo_final)"
  using callback_life [OF demo_events_run, of 3] demo_events_run by (simp add: demo_final_def)

theorem callbacks_answered_witness:
  "io_heap demo_final = [] \<and> life 1 (io_log demo_final) = Finished"
proof -
  have "list_all regular demo_events" "io_idle demo_final"
    "Ev_stream 1 K_pending \<in> set demo_events" "accepted 1 (Ev_stream 1 K_pending)"
    by (simp_all add: demo_events_def demo_final_def io_idle_def)
  then show ?thesis using callbacks_answered [OF demo_events_run] by blast
qed

text \<open>
  One batch of completions. A thread that takes \<open>k\<close> entries calls their handlers in the order
  of the port, up to and including the first that throws. The callbacks of the entries behind that
  one are taken from the port but never invoked and never deallocated; without an exception all
  are called. What the thread does is a run of the dispatcher, and it waits again afterwards.
\<close>

theorem batch_served:
  assumes "t < length (io_threads s)" "io_threads s ! t = T_waiting"
    and "0 < k" "k \<le> max_entries" "k \<le> length (io_port s)"
  shows "\<exists>s' evs. s' = thread_batch throws t (take k (io_port s)) (get_status_ex t k s) \<and>
    io_run s evs s' \<and> io_threads s' ! t = T_waiting \<and> io_port s' = drop k (io_port s) \<and>
    filter is_invoke (io_log s') =
      filter is_invoke (io_log s) @ map invocation (served throws (take k (io_port s))) \<and>
    io_lost s' =
      map fst (drop (length (served throws (take k (io_port s)))) (take k (io_port s))) @ io_lost s"
proof -
  define s1 where "s1 = get_status_ex t k s"
  have s1: "t < length (io_threads s1)" "io_threads s1 ! t = T_batch (take k (io_port s))"
    "io_port s1 = drop k (io_port s)" "io_log s1 = io_log s" "io_lost s1 = io_lost s"
    using assms(1) by (simp_all add: s1_def get_status_ex_def set_thread_def)
  have "\<exists>evs. io_run s evs s1"
    unfolding s1_def using run_snoc [OF io_run.refl io_step.status [OF assms]] .
  then obtain evs where "io_run s evs (thread_batch throws t (take k (io_port s)) s1)"
    using thread_batch_run [OF _ s1(1,2)] by blast
  then show ?thesis
    using thread_batch_outcome [of throws t "take k (io_port s)" s1] s1 unfolding s1_def by auto
qed

theorem batch_served_witness:
  "\<exists>s' evs. io_run (set_thread 0 T_waiting (io_dispatcher 1)\<lparr>io_port := [(1, 4, 0), (2, 5, 0)]\<rparr>) evs s' \<and>
    filter is_invoke (io_log s') = [Invoke 1 0 4] \<and> io_lost s' = [2]"
  using batch_served [of 0 "set_thread 0 T_waiting (io_dispatcher 1)\<lparr>io_port := [(1, 4, 0), (2, 5, 0)]\<rparr>" 2 "\<lambda>c. c = 1"]
  by (auto simp: io_dispatcher_def set_thread_def max_entries_def invocation_def)

lemma lost_grows: "io_step s ev s' \<Longrightarrow> set (io_lost s) \<subseteq> set (io_lost s')"
  by (induction rule: io_step.induct) (auto simp: io_fields split: kernel_result.splits)

lemma run_lost_grows: "io_run s evs s' \<Longrightarrow> set (io_lost s) \<subseteq> set (io_lost s')"
  by (induction rule: io_run.induct) (auto dest: lost_grows)

lemma lost_allocated: "io_inv s \<Longrightarrow> c \<in> set (io_lost s) \<Longrightarrow> life c (io_log s) = Allocated"
  by (simp add: io_inv_def cb_inv_def)

text \<open>
  An accept, a connect or a disconnect that the kernel completes at once is never answered:
  its callback is released although no completion will be queued for it, so in every continuation
  it stays allocated and is not invoked.
\<close>

theorem immediate_control_unanswered:
  assumes "io_run (io_dispatcher n) evs s" "life c (io_log s) = New"
    and "s1 \<in> {async_accept True c (K_done m) s, async_connect True True c (K_done m) s,
               async_disconnect c (K_done m) s}"
    and "io_run s1 evs' s'"
  shows "life c (io_log s') = Allocated"
proof -
  have s1: "s1 = start_control c (K_done m) s"
    using assms(3) by (auto simp: async_accept_def async_connect_def async_disconnect_def)
  have "io_inv s1"
    unfolding s1 by (rule inv_start_control [OF io_run_inv [OF assms(1) io_inv_initial] assms(2)])
  moreover have "c \<in> set (io_lost s')"
    using run_lost_grows [OF assms(4)] by (auto simp: s1 start_control_def Let_def)
  ultimately show ?thesis using io_run_inv [OF assms(4)] lost_allocated by blast
qed

theorem immediate_control_unanswered_witness:
  "life 1 (io_log (async_accept True 1 (K_done 0) (io_dispatcher 2))) = Allocated"
proof -
  have "life 1 (io_log (io_dispatcher 2)) = New"
    by (simp add: io_dispatcher_def life_def)
  from immediate_control_unanswered [OF io_run.refl this _ io_run.refl] show ?thesis by blast
qed

end
