(* ===== verification/Net_Session.thy ===== *)
theory Net_Session
  imports Async_Transfer Io_Dispatcher
begin

text \<open>
  Sessions and clients: \<open>include/async_io/network.hpp\<close> and \<open>network.cpp\<close>.

  A handler of the user is modelled by what calling it does: it returns or throws. Every call of a
  user handler and every operation on the socket is recorded, in order; a function of the library
  returns what it recorded, how it left (a value or an exception), and whether the client's socket
  is open afterwards. An empty \<open>std::function\<close> throws \<open>bad_function_call\<close> when it is called. All
  exceptions of the library derive from \<open>std::exception\<close>. Assertions are those of a release
  build.
\<close>

section \<open>Effects\<close>

datatype net_call =
    Error_handler string
  | Read_handler u32
  | Write_handler u32
  | Disconnect_handler
  | Connect_handler bool
  | Async_disconnect
  | Start_operation
  | Socket_open
  | Socket_connect
  | Socket_close
  | Set_options

type_synonym 'a act = "bool \<Rightarrow> net_call list \<times> 'a result \<times> bool"

definition retA :: "'a \<Rightarrow> 'a act" where
  "retA x = (\<lambda>op. ([], Inr x, op))"

definition bindA :: "'a act \<Rightarrow> ('a \<Rightarrow> 'b act) \<Rightarrow> 'b act" where
  "bindA m f = (\<lambda>op. case m op of
      (l, Inl e, op') \<Rightarrow> (l, Inl e, op')
    | (l, Inr x, op') \<Rightarrow> (case f x op' of (l', r, op'') \<Rightarrow> (l @ l', r, op'')))"

definition thenA :: "unit act \<Rightarrow> 'b act \<Rightarrow> 'b act" where
  "thenA m n = bindA m (\<lambda>_. n)"

definition tryA :: "'a act \<Rightarrow> (cxx_error \<Rightarrow> 'a act) \<Rightarrow> 'a act" where
  "tryA m h = (\<lambda>op. case m op of
      (l, Inl e, op') \<Rightarrow> (case h e op' of (l', r, op'') \<Rightarrow> (l @ l', r, op''))
    | (l, Inr x, op') \<Rightarrow> (l, Inr x, op'))"

text \<open>A call that is recorded and returns, or throws the given exception.\<close>

definition does :: "net_call \<Rightarrow> cxx_error option \<Rightarrow> unit act" where
  "does c e = (\<lambda>op. ([c], case e of None \<Rightarrow> Inr () | Some x \<Rightarrow> Inl x, op))"

definition whenA :: "bool \<Rightarrow> unit act \<Rightarrow> unit act" where
  "whenA b m = (if b then m else retA ())"

lemmas act_defs = retA_def bindA_def thenA_def tryA_def does_def whenA_def

section \<open>Sessions\<close>

text \<open>
  The handlers the server was given, \<open>None\<close> when none was registered (what each throws, if
  anything), what \<open>async_disconnect\<close> on the socket throws, and the texts of exceptions
  (\<open>what()\<close>) and of error codes (\<open>error_msg\<close>).
\<close>

record session =
  error_handler :: "(string \<Rightarrow> cxx_error option) option"
  disconnect_handler :: "cxx_error option option"
  sck_disconnect :: "cxx_error option"
  what :: "cxx_error \<Rightarrow> string"
  error_msg :: "nat \<Rightarrow> string"

definition call_error :: "session \<Rightarrow> string \<Rightarrow> unit act" where
  "call_error s msg =
     (case error_handler s of
        None \<Rightarrow> (\<lambda>op. ([], Inl Bad_function_call, op))
      | Some f \<Rightarrow> does (Error_handler msg) (f msg))"

definition disconnect :: "session \<Rightarrow> unit act" where
  "disconnect s =
     thenA
       (tryA (case disconnect_handler s of
                None \<Rightarrow> retA ()
              | Some e \<Rightarrow> does Disconnect_handler e)
          (\<lambda>e. call_error s ''has an exception in disconnect_handler_''))
       (tryA (does Async_disconnect (sck_disconnect s)) (\<lambda>e. call_error s (what s e)))"

definition handle_read :: "session \<Rightarrow> (u32 \<Rightarrow> cxx_error option) \<Rightarrow> nat \<Rightarrow> u32 \<Rightarrow> unit act" where
  "handle_read s rd error sz =
     tryA
       (if error = 0
        then (if sz = 0 then disconnect s else does (Read_handler sz) (rd sz))
        else thenA (whenA (sz \<noteq> 0 \<and> error_handler s \<noteq> None) (call_error s (error_msg s error)))
               (disconnect s))
       (\<lambda>e. call_error s ''has an exception in read_handler'')"

definition handle_write :: "session \<Rightarrow> (u32 \<Rightarrow> cxx_error option) \<Rightarrow> nat \<Rightarrow> u32 \<Rightarrow> unit act" where
  "handle_write s wr error sz =
     tryA
       (if error = 0
        then whenA (sz \<noteq> 0) (does (Write_handler sz) (wr sz))
        else whenA (error_handler s \<noteq> None) (call_error s (error_msg s error)))
       (\<lambda>e. call_error s ''has an exception in write_handler_'')"

text \<open>
  \<open>_run_impl\<close>: an exception of starting an operation is reported, and disconnects when the
  operation is a read; \<open>start\<close> is what the operation does while it is started.
\<close>

definition run_impl :: "session \<Rightarrow> unit act \<Rightarrow> bool \<Rightarrow> bool act" where
  "run_impl s start is_read_op =
     tryA (thenA start (retA True))
       (\<lambda>e. thenA (whenA (error_handler s \<noteq> None) (call_error s (what s e)))
              (thenA (whenA is_read_op (disconnect s)) (retA False)))"

text \<open>
  How a single operation on the socket starts (\<open>socket_handle_t::async_read\<close>): it throws, it waits
  for its completion, or it completes at once and runs its handler in place.
\<close>

datatype op_start = Op_throws cxx_error | Op_waits | Op_inline nat u32

definition start_op :: "(nat \<Rightarrow> u32 \<Rightarrow> unit act) \<Rightarrow> op_start \<Rightarrow> unit act" where
  "start_op handler r =
     (case r of
        Op_throws e \<Rightarrow> does Start_operation (Some e)
      | Op_waits \<Rightarrow> does Start_operation None
      | Op_inline err n \<Rightarrow> thenA (does Start_operation None) (handler err n))"

definition async_read_some :: "session \<Rightarrow> (u32 \<Rightarrow> cxx_error option) \<Rightarrow> op_start \<Rightarrow> bool act" where
  "async_read_some s rd r = run_impl s (start_op (handle_read s rd) r) True"

definition async_write :: "session \<Rightarrow> (u32 \<Rightarrow> cxx_error option) \<Rightarrow> op_start \<Rightarrow> bool act" where
  "async_write s wr r = run_impl s (start_op (handle_write s wr) r) False"

text \<open>
  \<open>session::async_read\<close> once the composed read on the whole buffer has been started: the handler
  of the composed read is the lambda that calls \<open>_handle_read\<close>. \<open>None\<close>: it still waits.
\<close>

definition session_read ::
  "session \<Rightarrow> (u32 \<Rightarrow> cxx_error option) \<Rightarrow> nat \<Rightarrow> buffer_t \<Rightarrow> (nat \<times> u32) list \<Rightarrow> unit act option" where
  "session_read s rd last_error b cs =
     (case xfer_run (Async_Transfer.read_handler last_error None)
             (snd (async_start b Transfer_all)) cs of
        (reqs, Some (Callback err n)) \<Rightarrow> Some (handle_read s rd err n)
      | _ \<Rightarrow> None)"

section \<open>Clients\<close>

record net_client =
  error_handle :: "(string \<Rightarrow> cxx_error option) option"
  connect_handle :: "(bool \<Rightarrow> cxx_error option) option"
  disconnect_handle :: "cxx_error option option"
  cli_what :: "cxx_error \<Rightarrow> string"
  cli_error_msg :: "nat \<Rightarrow> string"

definition close_socket :: "unit act" where
  "close_socket = (\<lambda>op. ([Socket_close], Inr (), False))"

definition client_stop :: "unit act" where
  "client_stop = (\<lambda>op. (if op then close_socket else retA ()) op)"

definition client_disconnect :: "net_client \<Rightarrow> unit act" where
  "client_disconnect c =
     tryA (thenA client_stop
             (case disconnect_handle c of None \<Rightarrow> retA () | Some e \<Rightarrow> does Disconnect_handler e))
       (\<lambda>e. retA ())"

definition client_error :: "net_client \<Rightarrow> string \<Rightarrow> unit act" where
  "client_error c msg =
     (case error_handle c of None \<Rightarrow> retA () | Some f \<Rightarrow> does (Error_handler msg) (f msg))"

definition client_run_impl :: "net_client \<Rightarrow> unit act \<Rightarrow> bool act" where
  "client_run_impl c op =
     tryA (thenA op (retA True))
       (\<lambda>e. thenA (client_error c (cli_what c e)) (thenA (client_disconnect c) (retA False)))"

text \<open>\<open>cli_handler_wrapper_t::operator()\<close>, the completion of a client's operation.\<close>

definition cli_handler :: "net_client \<Rightarrow> (u32 \<Rightarrow> cxx_error option) \<Rightarrow> nat \<Rightarrow> u32 \<Rightarrow> unit act" where
  "cli_handler c handler error sz =
     (if error = 0
      then (if sz = 0 then client_disconnect c else does (Read_handler sz) (handler sz))
      else thenA (whenA (sz \<noteq> 0) (client_error c (cli_error_msg c error))) (client_disconnect c))"

definition on_connect :: "net_client \<Rightarrow> nat \<Rightarrow> unit act" where
  "on_connect c error =
     tryA (thenA (case connect_handle c of
                    None \<Rightarrow> retA ()
                  | Some f \<Rightarrow> does (Connect_handler (error = 0)) (f (error = 0)))
             (if error = 0 then does Set_options None
              else thenA (client_error c (cli_error_msg c error)) (client_disconnect c)))
       (\<lambda>e. retA ())"

definition open_socket :: "cxx_error option \<Rightarrow> unit act" where
  "open_socket e = (\<lambda>op. case e of
      None \<Rightarrow> ([Socket_open], Inr (), True)
    | Some x \<Rightarrow> ([Socket_open], Inl x, op))"

text \<open>
  \<open>start\<close>: what opening and connecting throw, if anything, and the value of \<open>GetLastError()\<close>
  after \<open>connect\<close> has returned.
\<close>

definition client_start ::
  "net_client \<Rightarrow> cxx_error option \<Rightarrow> cxx_error option \<Rightarrow> nat \<Rightarrow> bool act" where
  "client_start c open_fails connect_fails last_error =
     tryA (thenA (\<lambda>op. (if \<not> op then open_socket open_fails else retA ()) op)
            (thenA (does Socket_connect connect_fails)
              (thenA (on_connect c last_error) (retA True))))
       (\<lambda>e. thenA (client_error c (cli_what c e)) (retA False))"

section \<open>What a session does\<close>

text \<open>An error handler is registered, and it does not throw.\<close>

definition reliable :: "session \<Rightarrow> bool" where
  "reliable s \<longleftrightarrow> (\<exists>f. error_handler s = Some f \<and> (\<forall>msg. f msg = None))"

text \<open>The calls of \<open>disconnect\<close> then.\<close>

definition disconnect_calls :: "session \<Rightarrow> net_call list" where
  "disconnect_calls s =
     (case disconnect_handler s of
        None \<Rightarrow> []
      | Some None \<Rightarrow> [Disconnect_handler]
      | Some (Some e) \<Rightarrow> [Disconnect_handler, Error_handler ''has an exception in disconnect_handler_'']) @
     [Async_disconnect] @
     (case sck_disconnect s of None \<Rightarrow> [] | Some e \<Rightarrow> [Error_handler (what s e)])"

lemma call_error_reliable: "reliable s \<Longrightarrow> call_error s msg op = ([Error_handler msg], Inr (), op)"
  by (auto simp: reliable_def call_error_def does_def)

lemma disconnect_reliable: "reliable s \<Longrightarrow> disconnect s op = (disconnect_calls s, Inr (), op)"
  by (simp add: disconnect_def disconnect_calls_def act_defs call_error_reliable split: option.split)

lemma handle_read_reliable:
  "reliable s \<Longrightarrow> handle_read s rd error sz op =
     (if error = 0 \<and> sz \<noteq> 0
      then Read_handler sz # (if rd sz = None then [] else [Error_handler ''has an exception in read_handler''])
      else (if error \<noteq> 0 \<and> sz \<noteq> 0 then [Error_handler (error_msg s error)] else []) @ disconnect_calls s,
      Inr (), op)"
  using disconnect_reliable [of s op] call_error_reliable [of s]
  by (auto simp: handle_read_def act_defs reliable_def split: option.split)

lemma handle_write_reliable:
  "reliable s \<Longrightarrow> handle_write s wr error sz op =
     (if error = 0
      then if sz = 0 then []
           else Write_handler sz # (if wr sz = None then [] else [Error_handler ''has an exception in write_handler_''])
      else [Error_handler (error_msg s error)],
      Inr (), op)"
  using call_error_reliable [of s]
  by (auto simp: handle_write_def act_defs reliable_def split: option.split)

lemma run_impl_reliable:
  assumes "reliable s"
  shows "start op = (l, Inr (), op') \<Longrightarrow> run_impl s start is_read op = (l, Inr True, op')"
    "start op = (l, Inl e, op') \<Longrightarrow> run_impl s start is_read op =
       (l @ Error_handler (what s e) # (if is_read then disconnect_calls s else []), Inr False, op')"
  using assms disconnect_reliable [of s op'] call_error_reliable [of s]
  by (auto simp: run_impl_def act_defs reliable_def)

section \<open>The composed read below a session\<close>

lemma condition_all: "t < buf_size b \<Longrightarrow> t < condition_value Transfer_all 0"
  using unat_u32_lt [of "buf_size b"] by (simp add: word_less_nat_alt)

lemma xfer_run_closed:
  assumes "waiting b Transfer_all h" "\<forall>c \<in> set cs. fst c = 0 \<and> snd c \<noteq> 0"
    and "unat (x_transfers h) + moved cs < unat (buf_size b)"
  shows "\<exists>reqs. xfer_run (Async_Transfer.read_handler e None) h (cs @ [(err, 0)]) =
    (reqs, Some (Callback err 0))"
  using assms
proof (induction cs arbitrary: h)
  case Nil
  then show ?case by (simp add: Async_Transfer.read_handler_def xfer_step_def)
next
  case (Cons c cs)
  have c: "fst c = 0" "snd c \<noteq> 0" "unat (x_transfers h) + unat (snd c) \<le> unat (buf_size b)"
    using Cons.prems by (auto simp: moved_def)
  note ok = xfer_step_ok [OF Cons.prems(1) c(2,3)]
  have "x_transfers h + snd c < buf_size b"
    using ok(1) Cons.prems(3) by (simp add: word_less_nat_alt moved_def)
  note step = ok(3) [OF this condition_all [OF this], of "\<lambda>sz t. if sz = 0 then 0 else t" e]
  define h' where "h' = h\<lparr>x_transfers := x_transfers h + snd c\<rparr>"
  have "\<exists>reqs. xfer_run (Async_Transfer.read_handler e None) h' (cs @ [(err, 0)]) =
      (reqs, Some (Callback err 0))"
    using Cons.IH [of h'] Cons.prems(2,3) step ok(1) by (simp add: h'_def moved_def)
  then show ?case
    using step c(1) by (auto simp: Async_Transfer.read_handler_def h'_def)
qed

lemma xfer_run_whole:
  assumes "0 < buf_size b" "async_start b Transfer_all = (req, h)"
    and "legal (Async_Transfer.read_handler e None) h req cs"
    and "\<forall>c \<in> set cs. fst c = 0 \<and> snd c \<noteq> 0" "unat (buf_size b) \<le> length cs"
  shows "\<exists>reqs. xfer_run (Async_Transfer.read_handler e None) h cs =
    (reqs, Some (Callback 0 (buf_size b)))"
proof -
  have h: "waiting b Transfer_all h" "req = b" "x_transfers h = 0"
    using assms(1,2) by (auto simp: async_start_def waiting_def)
  obtain reqs T where "xfer_run (Async_Transfer.read_handler e None) h cs = (reqs, Some (Callback 0 T))"
    "T \<le> buf_size b" "T = buf_size b \<or> condition_value Transfer_all 0 \<le> T"
    using xfer_run_completes [OF h(1), of "\<lambda>sz t. if sz = 0 then 0 else t" e req cs] assms(3-5) h
    by (auto simp: Async_Transfer.read_handler_def)
  moreover have "T = buf_size b"
    using calculation(2,3) condition_all [of T b] by (metis leD order.not_eq_order_implies_strict)
  ultimately show ?thesis by blast
qed

section \<open>What a client does\<close>

definition client_quiet :: "net_client \<Rightarrow> bool" where
  "client_quiet c \<longleftrightarrow> (case error_handle c of None \<Rightarrow> True | Some f \<Rightarrow> \<forall>msg. f msg = None)"

definition client_error_calls :: "net_client \<Rightarrow> string \<Rightarrow> net_call list" where
  "client_error_calls c msg = (if error_handle c = None then [] else [Error_handler msg])"

definition client_disconnect_calls :: "net_client \<Rightarrow> bool \<Rightarrow> net_call list" where
  "client_disconnect_calls c op =
     (if op then [Socket_close] else []) @
     (if disconnect_handle c = None then [] else [Disconnect_handler])"

lemma client_disconnect_closes:
  "client_disconnect c op = (client_disconnect_calls c op, Inr (), False)"
  by (auto simp: client_disconnect_def client_stop_def close_socket_def client_disconnect_calls_def
      act_defs split: option.split)

lemma client_error_quiet:
  "client_quiet c \<Longrightarrow> client_error c msg op = (client_error_calls c msg, Inr (), op)"
  by (auto simp: client_quiet_def client_error_def client_error_calls_def act_defs split: option.splits)

section \<open>Correctness\<close>

text \<open>
  C14. A session whose server has a non-throwing error handler. The completion of a read with data
  calls the read handler once with the size, and reports its exception if it throws; every
  other completion of a read disconnects once, after reporting an error that came with data. The
  completion of a write calls the write handler, or reports the error, and never disconnects. An
  operation that throws when it is started is reported; a read then disconnects too. No exception
  leaves any of them.
\<close>

theorem session_contract:
  assumes "reliable s"
  shows "handle_read s rd error sz op =
      (if error = 0 \<and> sz \<noteq> 0
       then Read_handler sz # (if rd sz = None then [] else [Error_handler ''has an exception in read_handler''])
       else (if error \<noteq> 0 \<and> sz \<noteq> 0 then [Error_handler (error_msg s error)] else []) @ disconnect_calls s,
       Inr (), op) \<and>
    handle_write s wr error sz op =
      (if error = 0
       then if sz = 0 then []
            else Write_handler sz # (if wr sz = None then [] else [Error_handler ''has an exception in write_handler_''])
       else [Error_handler (error_msg s error)],
       Inr (), op) \<and>
    async_read_some s rd (Op_throws e) op =
      (Start_operation # Error_handler (what s e) # disconnect_calls s, Inr False, op) \<and>
    async_write s wr (Op_throws e) op =
      ([Start_operation, Error_handler (what s e)], Inr False, op) \<and>
    async_read_some s rd (Op_inline error sz) op =
      (Start_operation # fst (handle_read s rd error sz op), Inr True, op)"
  (is "?read \<and> ?sent \<and> ?recv_throws \<and> ?send_throws \<and> ?inline")
proof (intro conjI)
  show ?read by (rule handle_read_reliable [OF assms])
  show ?sent by (rule handle_write_reliable [OF assms])
  have "start_op h (Op_throws e) op = ([Start_operation], Inl e, op)" for h
    by (simp add: start_op_def does_def)
  then show ?recv_throws ?send_throws
    unfolding async_read_some_def async_write_def
    by (simp_all add: run_impl_reliable(2) [OF assms])
  have "start_op (handle_read s rd) (Op_inline error sz) op =
      (Start_operation # fst (handle_read s rd error sz op), Inr (), op)"
    by (simp add: start_op_def thenA_def bindA_def does_def handle_read_reliable [OF assms])
  then show ?inline
    unfolding async_read_some_def by (rule run_impl_reliable(1) [OF assms])
qed

definition sample_session :: session where
  "sample_session = \<lparr> error_handler = Some (\<lambda>msg. None), disconnect_handler = Some None,
     sck_disconnect = None, what = (\<lambda>e. ''error''), error_msg = (\<lambda>n. ''code'') \<rparr>"

lemma sample_session_reliable: "reliable sample_session"
  by (simp add: reliable_def sample_session_def)

theorem session_contract_witness:
  "handle_read sample_session (\<lambda>n. None) 0 5 True = ([Read_handler 5], Inr (), True) \<and>
   handle_read sample_session (\<lambda>n. None) 0 0 True = ([Disconnect_handler, Async_disconnect], Inr (), True)"
  using session_contract [OF sample_session_reliable, of "\<lambda>n. None" 0 5 True]
    session_contract [OF sample_session_reliable, of "\<lambda>n. None" 0 0 True]
  by (simp add: disconnect_calls_def sample_session_def)

text \<open>
  C15. Reading a message through a session, with a non-throwing error handler and a read handler
  that does not throw. When every operation on a nonempty buffer delivers at least one byte, then
  however the bytes of the message are split, after at most as many operations as the buffer has
  bytes the read handler is called, once, with the size of the whole buffer, and nothing else is
  called. When the stream ends before, with or without an error, the read handler is not called and
  the session disconnects.
\<close>

theorem session_read_message:
  assumes "reliable s" "0 < buf_size b" "async_start b Transfer_all = (req, h)"
    and "rd (buf_size b) = None"
  shows "(os_delivers os \<longrightarrow>
      (\<exists>run. session_read s rd e b (arrivals os (Async_Transfer.read_handler e None) 0 (unat (buf_size b)) h req) = Some run \<and>
        run op = ([Read_handler (buf_size b)], Inr (), op))) \<and>
    ((\<forall>c \<in> set cs. fst c = 0 \<and> snd c \<noteq> 0) \<and> moved cs < unat (buf_size b) \<longrightarrow>
      (\<exists>run. session_read s rd e b (cs @ [(err, 0)]) = Some run \<and>
        run op = (disconnect_calls s, Inr (), op)))"
proof (intro conjI impI)
  have h: "h = snd (async_start b Transfer_all)" using assms(3) by simp
  show "\<exists>run. session_read s rd e b (arrivals os (Async_Transfer.read_handler e None) 0 (unat (buf_size b)) h req) = Some run \<and>
      run op = ([Read_handler (buf_size b)], Inr (), op)"
    if law: "os_delivers os"
  proof -
    obtain reqs T where run: "xfer_run (Async_Transfer.read_handler e None) h (arrivals os (Async_Transfer.read_handler e None) 0 (unat (buf_size b)) h req) =
        (reqs, Some (Callback 0 T))" "T \<le> buf_size b" "T = buf_size b \<or> condition_value Transfer_all 0 \<le> T"
      using arrivals_run [OF law assms(3,2), of "\<lambda>sz t. if sz = 0 then 0 else t" "Async_Transfer.read_handler e None" e]
      by (auto simp: Async_Transfer.read_handler_def)
    have "T = buf_size b"
      using run(2,3) condition_all [of T b] by (metis leD order.not_eq_order_implies_strict)
    then show ?thesis
      using assms(2,4) run(1) by (simp add: session_read_def h [symmetric] handle_read_reliable [OF assms(1)])
        (auto simp: word_gt_0)
  qed
  show "\<exists>run. session_read s rd e b (cs @ [(err, 0)]) = Some run \<and> run op = (disconnect_calls s, Inr (), op)"
    if partial: "(\<forall>c \<in> set cs. fst c = 0 \<and> snd c \<noteq> 0) \<and> moved cs < unat (buf_size b)"
  proof -
    have "waiting b Transfer_all h" "x_transfers h = 0"
      using assms(2,3) by (auto simp: async_start_def waiting_def)
    then obtain reqs where "xfer_run (Async_Transfer.read_handler e None) h (cs @ [(err, 0)]) =
        (reqs, Some (Callback err 0))"
      using xfer_run_closed [of b h cs e err] partial by auto
    then show ?thesis
      by (simp add: session_read_def h [symmetric] handle_read_reliable [OF assms(1)])
  qed
qed

text \<open>A message of 150000 bytes that arrives in four pieces is delivered once; one whose stream breaks off disconnects.\<close>

theorem session_read_message_witness:
  "(\<exists>run. session_read sample_session (\<lambda>n. None) 0 \<lparr>data_ptr = 100, buf_size = 150000\<rparr>
       [(0, 40000), (0, 40000), (0, 40000), (0, 30000)] = Some run \<and> run True = ([Read_handler 150000], Inr (), True)) \<and>
   (\<exists>run. session_read sample_session (\<lambda>n. None) 0 \<lparr>data_ptr = 100, buf_size = 150000\<rparr> [(0, 3), (10054, 0)] = Some run \<and>
       run True = ([Disconnect_handler, Async_disconnect], Inr (), True))"
proof -
  let ?b = "\<lparr>data_ptr = 100, buf_size = 150000 :: u32\<rparr>"
  have start: "async_start ?b Transfer_all = (?b, \<lparr>x_buffer = ?b, x_condition = Transfer_all, x_transfers = 0, x_total = 150000\<rparr>)"
    by (simp add: async_start_def)
  show ?thesis
    using session_read_message [OF sample_session_reliable _ start, of "\<lambda>n. None" slow_os 0 True "[(0, 3)]" 10054] split_arrivals slow_os_delivers
    by (simp add: moved_def disconnect_calls_def sample_session_def)
qed

text \<open>
  The handlers of the sessions as the dispatcher sees them: whether the completion of a read, taken
  from the port with its size and its error, lets an exception out. \<open>who\<close> gives the session and the
  read handler of a callback.
\<close>

definition completion_throws ::
  "(callback \<Rightarrow> session \<times> (u32 \<Rightarrow> cxx_error option)) \<Rightarrow> entry list \<Rightarrow> callback \<Rightarrow> bool" where
  "completion_throws who es c =
     (case map_of es c of
        None \<Rightarrow> False
      | Some (n, err) \<Rightarrow>
          (case handle_read (fst (who c)) (snd (who c)) err n True of
             (l, Inl e, op) \<Rightarrow> True | (l, Inr u, op) \<Rightarrow> False))"

lemma served_all: "(\<And>x. x \<in> set es \<Longrightarrow> \<not> throws (fst x)) \<Longrightarrow> served throws es = es"
  by (induction es) auto

text \<open>
  C16. Sessions and dispatcher together, for completions of single reads taken from the port. When
  every session of a batch has an error handler that does not throw, the batch is served to the end,
  whatever the read handlers do: every completion is delivered and no callback is lost. In a session
  without an error handler, or whose error handler throws, an exception of the read handler leaves
  the completion handler, and the rest of the batch is lost with it.
\<close>

theorem sessions_serve_batch:
  assumes "\<forall>x \<in> set es. reliable (fst (who (fst x)))"
  shows "filter is_invoke (io_log (thread_batch (completion_throws who es) t es st)) =
      filter is_invoke (io_log st) @ map invocation es \<and>
    io_lost (thread_batch (completion_throws who es) t es st) = io_lost st \<and>
    (n \<noteq> 0 \<and> rd n \<noteq> None \<and>
       (case error_handler s of None \<Rightarrow> True | Some f \<Rightarrow> f ''has an exception in read_handler'' \<noteq> None) \<longrightarrow>
      filter is_invoke (io_log (thread_batch (completion_throws (who(c := (s, rd))) ((c, n, 0) # es)) t ((c, n, 0) # es) st)) =
        filter is_invoke (io_log st) @ [Invoke c 0 n] \<and>
      io_lost (thread_batch (completion_throws (who(c := (s, rd))) ((c, n, 0) # es)) t ((c, n, 0) # es) st) =
        map fst es @ io_lost st)"
proof (intro conjI impI)
  have "\<not> completion_throws who es (fst x)" if "x \<in> set es" for x
    using assms that handle_read_reliable [of "fst (who (fst x))" "snd (who (fst x))"]
    by (auto simp: completion_throws_def split: option.split)
  then have "served (completion_throws who es) es = es" by (simp add: served_all)
  then show "filter is_invoke (io_log (thread_batch (completion_throws who es) t es st)) =
      filter is_invoke (io_log st) @ map invocation es"
    "io_lost (thread_batch (completion_throws who es) t es st) = io_lost st"
    using thread_batch_outcome [of "completion_throws who es" t es st] by simp_all
next
  assume no: "n \<noteq> 0 \<and> rd n \<noteq> None \<and>
    (case error_handler s of None \<Rightarrow> True | Some f \<Rightarrow> f ''has an exception in read_handler'' \<noteq> None)"
  have throws: "completion_throws (who(c := (s, rd))) ((c, n, 0) # es) c"
    using no by (auto simp: completion_throws_def handle_read_def act_defs call_error_def split: option.splits)
  show "io_lost (thread_batch (completion_throws (who(c := (s, rd))) ((c, n, 0) # es)) t ((c, n, 0) # es) st) =
      map fst es @ io_lost st"
    "filter is_invoke (io_log (thread_batch (completion_throws (who(c := (s, rd))) ((c, n, 0) # es)) t ((c, n, 0) # es) st)) =
      filter is_invoke (io_log st) @ [Invoke c 0 n]"
    using thread_batch_outcome [of "completion_throws (who(c := (s, rd))) ((c, n, 0) # es)" t
        "(c, n, 0) # es" st] throws
    by (simp_all add: invocation_def)
qed

text \<open>Two sessions whose read handlers throw; and a third one, whose error handler throws too, in front of them.\<close>

theorem sessions_serve_batch_witness:
  "io_lost (thread_batch (completion_throws (\<lambda>c. (sample_session, \<lambda>n. Some Runtime_error))
      [(1, 3, 0), (2, 4, 0)]) 0 [(1, 3, 0), (2, 4, 0)] (io_dispatcher 1)) = [] \<and>
   io_lost (thread_batch (completion_throws ((\<lambda>c. (sample_session, \<lambda>n. Some Runtime_error))
        (3 := (sample_session\<lparr>error_handler := Some (\<lambda>msg. Some Runtime_error)\<rparr>, \<lambda>n. Some Runtime_error)))
      [(3, 5, 0), (1, 3, 0), (2, 4, 0)]) 0 [(3, 5, 0), (1, 3, 0), (2, 4, 0)] (io_dispatcher 1)) = [1, 2]"
  using sessions_serve_batch [of "[(1, 3, 0), (2, 4, 0)]" "\<lambda>c. (sample_session, \<lambda>n. Some Runtime_error)" 0 "io_dispatcher 1"
      5 "\<lambda>n. Some Runtime_error" "sample_session\<lparr>error_handler := Some (\<lambda>msg. Some Runtime_error)\<rparr>" 3] sample_session_reliable
  by (simp add: io_dispatcher_def)

text \<open>
  A client whose error handler, if any, does not throw. An operation that throws makes the call
  return false, after the error has been reported, the socket closed and the disconnect handler
  called; otherwise the call returns true. \<open>start\<close> returns false only when opening or connecting
  throws; after a successful connect it returns true whatever \<open>GetLastError()\<close> then says, and if that
  value is not zero the client has reported an error, closed its socket and called its disconnect
  handler.
\<close>

theorem client_contract:
  assumes "client_quiet c"
  shows "(oper op = (l, Inl e, op') \<longrightarrow> client_run_impl c oper op =
      (l @ client_error_calls c (cli_what c e) @ client_disconnect_calls c op', Inr False, False)) \<and>
    (oper op = (l, Inr (), op') \<longrightarrow> client_run_impl c oper op = (l, Inr True, op')) \<and>
    fst (snd (client_start c ofail cfail n op)) = Inr ((op \<or> ofail = None) \<and> cfail = None) \<and>
    (connect_handle c = None \<and> n \<noteq> 0 \<longrightarrow> client_start c None None n False =
      ([Socket_open, Socket_connect] @ client_error_calls c (cli_error_msg c n) @
       client_disconnect_calls c True, Inr True, False)) \<and>
    (connect_handle c = None \<longrightarrow>
      client_start c None None 0 False = ([Socket_open, Socket_connect, Set_options], Inr True, True))"
proof -
  note quiet = client_error_quiet [OF assms] client_disconnect_closes [of c]
  have conn: "fst (snd (on_connect c n op)) = Inr ()" for op
    by (cases "connect_handle c") (auto simp: on_connect_def act_defs quiet split: option.split)
  have start: "fst (snd (client_start c ofail cfail n op)) = Inr ((op \<or> ofail = None) \<and> cfail = None)"
    using conn [of op] conn [of True]
    by (auto simp: client_start_def open_socket_def act_defs quiet split: option.split prod.split sum.split)
  show ?thesis
    using start by (auto simp: client_run_impl_def client_start_def on_connect_def open_socket_def act_defs quiet)
qed

definition sample_client :: net_client where
  "sample_client = \<lparr> error_handle = Some (\<lambda>msg. None), connect_handle = None,
     disconnect_handle = Some None, cli_what = (\<lambda>e. ''error''), cli_error_msg = (\<lambda>n. ''code'') \<rparr>"

theorem client_contract_witness:
  "client_start sample_client None None 997 False =
     ([Socket_open, Socket_connect, Error_handler ''code'', Socket_close, Disconnect_handler],
      Inr True, False)"
proof -
  have "client_quiet sample_client" by (simp add: client_quiet_def sample_client_def)
  from client_contract [OF this, of "retA ()" True "[]" Runtime_error True None None 997] show ?thesis
    by (simp add: sample_client_def client_error_calls_def client_disconnect_calls_def)
qed

end
