(* ===== verification/Net_Server.thy ===== *)
theory Net_Server
  imports Prelude "HOL-Library.Multiset"
begin

text \<open>
  The socket pool and the accept thread of the server: \<open>sync_sequence_container_t\<close> of
  \<open>include/extend_stl/container/sync_container.hpp\<close>, \<open>object_pool_t\<close> of
  \<open>include/utility/object_pool.hpp\<close> with the traits of \<open>include/async_io/network.hpp\<close>, and
  \<open>server::impl\<close> and the life of a session's socket in \<open>network.cpp\<close>.

  Every member of the synchronised container holds its mutex from entry to exit, so each is one
  atomic step; \<open>front()\<close> and \<open>pop_front()\<close> of an empty container have no defined result,
  \<open>Access_violation\<close>. Taking an object from the pool is three such steps, between which other
  threads may act.
\<close>

section \<open>The synchronised sequence\<close>

definition seq_size :: "'a list \<Rightarrow> nat" where
  "seq_size q = length q"

definition seq_empty :: "'a list \<Rightarrow> bool" where
  "seq_empty q \<longleftrightarrow> q = []"

definition seq_clear :: "'a list \<Rightarrow> 'a list" where
  "seq_clear q = []"

definition seq_at :: "'a list \<Rightarrow> nat \<Rightarrow> 'a result" where
  "seq_at q pos = (if pos < length q then Inr (q ! pos) else Inl Access_violation)"

definition seq_top :: "'a list \<Rightarrow> 'a result" where
  "seq_top q = (case q of [] \<Rightarrow> Inl Access_violation | x # xs \<Rightarrow> Inr x)"

definition seq_pop_top :: "'a list \<Rightarrow> 'a list result" where
  "seq_pop_top q = (case q of [] \<Rightarrow> Inl Access_violation | x # xs \<Rightarrow> Inr xs)"

definition seq_push_front :: "'a \<Rightarrow> 'a list \<Rightarrow> 'a list" where
  "seq_push_front x q = x # q"

definition seq_push_back :: "'a \<Rightarrow> 'a list \<Rightarrow> 'a list" where
  "seq_push_back x q = q @ [x]"

section \<open>The object pool\<close>

text \<open>\<open>object_pool_traits_t::pop\<close> when no other thread acts, \<open>None\<close> the null pointer.\<close>

definition traits_pop :: "'a list \<Rightarrow> ('a option \<times> 'a list) result" where
  "traits_pop q =
     (if seq_empty q then Inr (None, q)
      else bindR (seq_top q) (\<lambda>val. bindR (seq_pop_top q) (\<lambda>q'. Inr (Some val, q'))))"

definition traits_push :: "'a \<Rightarrow> 'a list \<Rightarrow> 'a list" where
  "traits_push val q = seq_push_back val q"

text \<open>\<open>raw_aciquire\<close>, with what the create handler gives when it is called.\<close>

definition raw_acquire :: "'a result \<Rightarrow> 'a list \<Rightarrow> ('a \<times> 'a list) result" where
  "raw_acquire create q =
     bindR (traits_pop q) (\<lambda>(obj, q').
       case obj of
         None \<Rightarrow> bindR create (\<lambda>x. Inr (x, q'))
       | Some x \<Rightarrow> Inr (x, q'))"

definition raw_release :: "'a \<Rightarrow> 'a list \<Rightarrow> 'a list" where
  "raw_release val q = traits_push val q"

text \<open>
  The same with other threads: where a thread that takes an object is, the queue, and, as
  auxiliary variables, all objects put and taken so far, in order.
\<close>

datatype 'a pop_pc =
    P_start
  | P_nonempty
  | P_have 'a
  | P_fault cxx_error

record 'a shared_pool =
  sp_queue :: "'a list"
  sp_poppers :: "'a pop_pc list"
  sp_put :: "'a list"
  sp_taken :: "'a list"

definition sp_goto :: "nat \<Rightarrow> 'a pop_pc \<Rightarrow> 'a shared_pool \<Rightarrow> 'a shared_pool" where
  "sp_goto t pc p = p\<lparr>sp_poppers := (sp_poppers p)[t := pc]\<rparr>"

definition pop_atom :: "nat \<Rightarrow> 'a shared_pool \<Rightarrow> 'a shared_pool" where
  "pop_atom t p =
     (case sp_poppers p ! t of
        P_start \<Rightarrow> (if seq_empty (sp_queue p) then p else sp_goto t P_nonempty p)
      | P_nonempty \<Rightarrow>
          (case seq_top (sp_queue p) of
             Inl e \<Rightarrow> sp_goto t (P_fault e) p
           | Inr x \<Rightarrow> sp_goto t (P_have x) p)
      | P_have x \<Rightarrow>
          (case seq_pop_top (sp_queue p) of
             Inl e \<Rightarrow> sp_goto t (P_fault e) p
           | Inr q \<Rightarrow> sp_goto t P_start (p\<lparr>sp_queue := q, sp_taken := sp_taken p @ [x]\<rparr>))
      | P_fault e \<Rightarrow> p)"

inductive pool_step :: "'a shared_pool \<Rightarrow> 'a shared_pool \<Rightarrow> bool" where
  put: "pool_step p (p\<lparr>sp_queue := traits_push x (sp_queue p), sp_put := sp_put p @ [x]\<rparr>)"
| take: "t < length (sp_poppers p) \<Longrightarrow> pool_step p (pop_atom t p)"

definition new_pool :: "nat \<Rightarrow> 'a shared_pool" where
  "new_pool n = \<lparr> sp_queue = [], sp_poppers = replicate n P_start, sp_put = [], sp_taken = [] \<rparr>"

section \<open>The server\<close>

text \<open>
  Where the sockets are: in the pool, in an outstanding accept, in a session, or closed by their
  destructor. A socket is a number; the pool's create handler makes new ones.
\<close>

record server_impl =
  sv_pool :: "nat list"
  sv_accepting :: "nat list"
  sv_sessions :: "nat list"
  sv_closed :: "nat list"
  sv_next :: nat

definition new_server :: server_impl where
  "new_server = \<lparr> sv_pool = [], sv_accepting = [], sv_sessions = [], sv_closed = [], sv_next = 0 \<rparr>"

definition MAX_ACCEPT_NUM :: nat where
  "MAX_ACCEPT_NUM = 10"

text \<open>
  One round of the loop in \<open>_thread_impl\<close>: a socket is acquired (outside the \<open>try\<close>), then
  \<open>async_accept\<close> takes it or throws, in which case its destructor closes it. \<open>env i\<close> says whether
  a socket can be created and whether the accept starts.
\<close>

definition accept_one :: "bool \<times> bool \<Rightarrow> server_impl \<Rightarrow> server_impl result" where
  "accept_one env s =
     bindR (raw_acquire (if fst env then Inr (sv_next s) else Inl Win32_exception) (sv_pool s))
       (\<lambda>(sck, pool).
          let s = s\<lparr>sv_pool := pool, sv_next := (if seq_empty (sv_pool s) then sv_next s + 1 else sv_next s)\<rparr> in
          Inr (if snd env then s\<lparr>sv_accepting := sck # sv_accepting s\<rparr>
               else s\<lparr>sv_closed := sck # sv_closed s\<rparr>))"

definition accept_round :: "(nat \<Rightarrow> bool \<times> bool) \<Rightarrow> server_impl \<Rightarrow> server_impl result" where
  "accept_round env s = foldR (\<lambda>i. accept_one (env i)) [0..<MAX_ACCEPT_NUM] s"

text \<open>
  \<open>_handle_accept\<close> puts the socket into a session; the session lives on only when the accept
  succeeded and the accept handler keeps it. The destructor of a session releases its socket.
\<close>

definition end_session :: "nat \<Rightarrow> server_impl \<Rightarrow> server_impl" where
  "end_session sck s =
     s\<lparr>sv_sessions := remove1 sck (sv_sessions s), sv_pool := raw_release sck (sv_pool s)\<rparr>"

definition server_handle_accept :: "nat \<Rightarrow> nat \<Rightarrow> bool \<Rightarrow> server_impl \<Rightarrow> server_impl" where
  "server_handle_accept error sck kept s =
     (let s = s\<lparr>sv_accepting := remove1 sck (sv_accepting s), sv_sessions := sck # sv_sessions s\<rparr> in
      if error \<noteq> 0 \<or> \<not> kept then end_session sck s else s)"

inductive server_step :: "server_impl \<Rightarrow> server_impl \<Rightarrow> bool" where
  accepts: "accept_round env s = Inr s' \<Longrightarrow> server_step s s'"
| accepted: "sck \<in> set (sv_accepting s) \<Longrightarrow> server_step s (server_handle_accept error sck kept s)"
| ended: "sck \<in> set (sv_sessions s) \<Longrightarrow> server_step s (end_session sck s)"

section \<open>The pool under one and under several takers\<close>

lemma traits_pop_total: "traits_pop q = Inr (case q of [] \<Rightarrow> (None, []) | x # xs \<Rightarrow> (Some x, xs))"
  by (simp add: traits_pop_def seq_empty_def seq_top_def seq_pop_top_def split: list.split)

lemma raw_acquire_total:
  "raw_acquire create q = (case q of [] \<Rightarrow> bindR create (\<lambda>x. Inr (x, [])) | x # xs \<Rightarrow> Inr (x, xs))"
  by (simp add: raw_acquire_def traits_pop_total split: list.split)

fun popper_ok :: "'a list \<Rightarrow> 'a pop_pc \<Rightarrow> bool" where
  "popper_ok q P_start \<longleftrightarrow> True"
| "popper_ok q P_nonempty \<longleftrightarrow> q \<noteq> []"
| "popper_ok q (P_have x) \<longleftrightarrow> (\<exists>xs. q = x # xs)"
| "popper_ok q (P_fault e) \<longleftrightarrow> False"

definition pool_inv :: "'a shared_pool \<Rightarrow> bool" where
  "pool_inv p \<longleftrightarrow> (\<exists>pc. sp_poppers p = [pc] \<and> popper_ok (sp_queue p) pc) \<and>
     sp_taken p @ sp_queue p = sp_put p"

lemma popper_ok_push: "popper_ok q pc \<Longrightarrow> popper_ok (traits_push x q) pc"
  by (cases pc) (auto simp: traits_push_def seq_push_back_def)

lemma pop_atom_inv:
  assumes "pool_inv p"
  shows "pool_inv (pop_atom 0 p)"
proof -
  obtain pc where pc: "sp_poppers p = [pc]" "popper_ok (sp_queue p) pc"
    using assms by (auto simp: pool_inv_def)
  show ?thesis
  proof (cases pc)
    case P_start
    then show ?thesis using assms pc by (auto simp: pool_inv_def pop_atom_def sp_goto_def seq_empty_def)
  next
    case P_nonempty
    then obtain x xs where "sp_queue p = x # xs" using pc by (cases "sp_queue p") auto
    then show ?thesis using assms pc P_nonempty by (simp add: pool_inv_def pop_atom_def sp_goto_def seq_top_def)
  next
    case (P_have x)
    then obtain xs where "sp_queue p = x # xs" using pc by auto
    then show ?thesis using assms pc P_have by (simp add: pool_inv_def pop_atom_def sp_goto_def seq_pop_top_def)
  next
    case (P_fault e)
    then show ?thesis using pc by simp
  qed
qed

lemma pool_step_inv: "pool_step p p' \<Longrightarrow> pool_inv p \<Longrightarrow> pool_inv p'"
proof (induction rule: pool_step.induct)
  case (put p x)
  then show ?case
    using popper_ok_push by (auto simp: pool_inv_def traits_push_def seq_push_back_def)
next
  case (take t p)
  then have "t = 0" by (auto simp: pool_inv_def)
  with take show ?case by (simp add: pop_atom_inv)
qed

lemma pool_reachable_inv:
  assumes "rtranclp pool_step (new_pool 1) p"
  shows "pool_inv p"
  using assms
proof (induction rule: rtranclp_induct)
  case base
  show ?case by (simp add: new_pool_def pool_inv_def)
qed (rule pool_step_inv)

section \<open>Sockets\<close>

definition sockets :: "server_impl \<Rightarrow> nat list" where
  "sockets s = sv_pool s @ sv_accepting s @ sv_sessions s @ sv_closed s"

text \<open>Every socket ever created is in exactly one place.\<close>

definition server_inv :: "server_impl \<Rightarrow> bool" where
  "server_inv s \<longleftrightarrow> mset (sockets s) = mset [0..<sv_next s]"

lemmas server_places = server_inv_def sockets_def

lemma server_inv_accept_one:
  assumes "server_inv s" "accept_one env s = Inr s'"
  shows "server_inv s'"
proof (cases "sv_pool s")
  case Nil
  then have "fst env" using assms(2) by (auto simp: accept_one_def raw_acquire_total split: if_splits)
  then have "s' = (let s = s\<lparr>sv_pool := [], sv_next := sv_next s + 1\<rparr> in
      if snd env then s\<lparr>sv_accepting := (sv_next s - 1) # sv_accepting s\<rparr>
      else s\<lparr>sv_closed := (sv_next s - 1) # sv_closed s\<rparr>)"
    using assms(2) Nil by (auto simp: accept_one_def raw_acquire_total Let_def seq_empty_def)
  with Nil show ?thesis using assms(1) by (simp add: server_places Let_def del: mset_upt)
next
  case (Cons x xs)
  then have "s' = (let s = s\<lparr>sv_pool := xs, sv_next := sv_next s\<rparr> in
      if snd env then s\<lparr>sv_accepting := x # sv_accepting s\<rparr> else s\<lparr>sv_closed := x # sv_closed s\<rparr>)"
    using assms(2) by (auto simp: accept_one_def raw_acquire_total Let_def seq_empty_def)
  with Cons show ?thesis using assms(1) by (simp add: server_places Let_def)
qed

lemma server_inv_accept_round:
  assumes "server_inv s" "accept_round env s = Inr s'"
  shows "server_inv s'"
proof -
  have "foldR (\<lambda>i. accept_one (env i)) is s = Inr s' \<Longrightarrow> server_inv s \<Longrightarrow> server_inv s'" for "is" s
    by (induction "is" arbitrary: s) (auto simp: result_simps bindR_Inr_iff dest: server_inv_accept_one)
  then show ?thesis using assms by (auto simp: accept_round_def)
qed

lemma server_inv_end:
  assumes "server_inv s" "sck \<in> set (sv_sessions s)"
  shows "server_inv (end_session sck s)"
proof -
  define rest where "rest = remove1 sck (sv_sessions s)"
  have "mset (sv_sessions s) = add_mset sck (mset rest)"
    using assms(2) by (simp add: rest_def)
  then show ?thesis
    using assms(1) by (simp add: server_places end_session_def raw_release_def traits_push_def
        seq_push_back_def rest_def [symmetric])
qed

lemma server_inv_accepted:
  assumes "server_inv s" "sck \<in> set (sv_accepting s)"
  shows "server_inv (server_handle_accept error sck kept s)"
proof -
  define rest where "rest = remove1 sck (sv_accepting s)"
  define s1 where "s1 = s\<lparr>sv_accepting := rest, sv_sessions := sck # sv_sessions s\<rparr>"
  have "mset (sv_accepting s) = add_mset sck (mset rest)"
    using assms(2) by (simp add: rest_def)
  then have "server_inv s1" using assms(1) by (simp add: server_places s1_def)
  then show ?thesis
    using server_inv_end [of s1 sck] by (simp add: server_handle_accept_def Let_def s1_def rest_def)
qed

lemma server_step_inv: "server_step s s' \<Longrightarrow> server_inv s \<Longrightarrow> server_inv s'"
  by (induction rule: server_step.induct)
    (auto intro: server_inv_accept_round server_inv_end server_inv_accepted)

lemma server_reachable_inv: "rtranclp server_step new_server s \<Longrightarrow> server_inv s"
proof (induction rule: rtranclp_induct)
  case base
  show ?case by (simp add: server_places new_server_def)
qed (rule server_step_inv)

section \<open>Correctness\<close>

text \<open>
  C30. The pool with one taking thread, as in the server, where only the accept thread takes sockets
  while sessions on any thread give theirs back. However the steps interleave, the taker never
  reads or pops an empty container, and the objects come out in the order in which they were given
  back, each once; when the pool is not empty, finishing the take delivers its first object.
\<close>

theorem single_taker_fifo:
  assumes "rtranclp pool_step (new_pool 1) p"
  shows "(\<forall>e. sp_poppers p \<noteq> [P_fault e]) \<and> sp_taken p @ sp_queue p = sp_put p \<and>
    (sp_queue p \<noteq> [] \<longrightarrow> (\<exists>k \<le> 3. sp_taken ((pop_atom 0 ^^ k) p) = sp_taken p @ [hd (sp_queue p)]))"
proof (intro conjI allI impI)
  have inv: "pool_inv p" by (rule pool_reachable_inv [OF assms])
  then obtain pc where pc: "sp_poppers p = [pc]" "popper_ok (sp_queue p) pc"
    by (auto simp: pool_inv_def)
  show "sp_poppers p \<noteq> [P_fault e]" for e using pc by auto
  show "sp_taken p @ sp_queue p = sp_put p" using inv by (simp add: pool_inv_def)
  assume "sp_queue p \<noteq> []"
  then obtain x xs where q: "sp_queue p = x # xs" by (cases "sp_queue p") auto
  have have_step: "sp_taken (pop_atom 0 r) = sp_taken r @ [x]"
    if "sp_poppers r = [P_have x]" "sp_queue r = x # xs" for r
    using that by (simp add: pop_atom_def seq_pop_top_def sp_goto_def)
  have nonempty_step: "sp_poppers (pop_atom 0 r) = [P_have x] \<and> sp_queue (pop_atom 0 r) = x # xs \<and>
      sp_taken (pop_atom 0 r) = sp_taken r"
    if "sp_poppers r = [P_nonempty]" "sp_queue r = x # xs" for r
    using that by (simp add: pop_atom_def seq_top_def sp_goto_def)
  have start_step: "sp_poppers (pop_atom 0 r) = [P_nonempty] \<and> sp_queue (pop_atom 0 r) = x # xs \<and>
      sp_taken (pop_atom 0 r) = sp_taken r"
    if "sp_poppers r = [P_start]" "sp_queue r = x # xs" for r
    using that by (simp add: pop_atom_def seq_empty_def sp_goto_def)
  show "\<exists>k \<le> 3. sp_taken ((pop_atom 0 ^^ k) p) = sp_taken p @ [hd (sp_queue p)]"
  proof (cases pc)
    case P_start
    then show ?thesis
      using start_step [of p] nonempty_step [of "pop_atom 0 p"] have_step [of "pop_atom 0 (pop_atom 0 p)"] pc q
      by (intro exI [of _ 3]) (simp add: numeral_3_eq_3)
  next
    case P_nonempty
    then show ?thesis
      using nonempty_step [of p] have_step [of "pop_atom 0 p"] pc q
      by (intro exI [of _ 2]) (simp add: numeral_2_eq_2)
  next
    case (P_have y)
    then show ?thesis using have_step [of p] pc q by (intro exI [of _ 1]) simp
  next
    case (P_fault e)
    then show ?thesis using pc by simp
  qed
qed

text \<open>Two objects are given back, the first is taken, the taker has begun on the second when another thread gives back a third.\<close>

definition fifo_demo :: "nat shared_pool" where
  "fifo_demo = (let put = (\<lambda>x p. p\<lparr>sp_queue := traits_push x (sp_queue p), sp_put := sp_put p @ [x]\<rparr>) in
     put 30 (pop_atom 0 (pop_atom 0 (pop_atom 0 (pop_atom 0 (put 20 (put 10 (new_pool 1))))))))"

lemma fifo_demo_simps:
  "sp_taken fifo_demo = [10]" "sp_queue fifo_demo = [20, 30]" "sp_poppers fifo_demo = [P_nonempty]"
  by (simp_all add: fifo_demo_def new_pool_def pop_atom_def sp_goto_def seq_empty_def seq_top_def seq_pop_top_def traits_push_def seq_push_back_def)

lemma fifo_demo_reachable: "rtranclp pool_step (new_pool 1) fifo_demo"
proof -
  have take: "pool_step\<^sup>*\<^sup>* (new_pool 1) (pop_atom 0 p)" if "pool_step\<^sup>*\<^sup>* (new_pool 1) p" for p :: "nat shared_pool"
    using that pool_reachable_inv [OF that] by (intro rtranclp.rtrancl_into_rtrancl [OF that] pool_step.take) (auto simp: pool_inv_def)
  have put: "pool_step\<^sup>*\<^sup>* (new_pool 1) (p\<lparr>sp_queue := traits_push x (sp_queue p), sp_put := sp_put p @ [x]\<rparr>)"
    if "pool_step\<^sup>*\<^sup>* (new_pool 1) p" for x and p :: "nat shared_pool"
    by (rule rtranclp.rtrancl_into_rtrancl [OF that pool_step.put])
  show ?thesis unfolding fifo_demo_def Let_def by (intro put take rtranclp.rtrancl_refl)
qed

theorem single_taker_fifo_witness:
  "sp_put fifo_demo = [10, 20, 30] \<and> sp_taken fifo_demo = [10] \<and> sp_queue fifo_demo = [20, 30] \<and>
   (\<exists>k \<le> 3. sp_taken ((pop_atom 0 ^^ k) fifo_demo) = [10, 20])"
  using single_taker_fifo [OF fifo_demo_reachable] by (simp add: fifo_demo_simps)

text \<open>
  With two taking threads the three steps are not enough: both see that the container is not empty
  and read the same first object, and the second to pop finds the container empty.
\<close>

theorem two_takers_race:
  "\<exists>p. rtranclp pool_step (new_pool 2) p \<and> sp_put p = [x] \<and>
     sp_poppers p = [P_start, P_fault Access_violation] \<and> sp_taken p = [x]"
proof -
  define p0 where "p0 = (new_pool 2)\<lparr>sp_queue := traits_push x [], sp_put := [x]\<rparr>"
  define p where "p = (pop_atom 1 \<circ> pop_atom 0 \<circ> pop_atom 1 \<circ> pop_atom 0 \<circ> pop_atom 1 \<circ> pop_atom 0) p0"
  have len: "length (sp_poppers (pop_atom t q)) = length (sp_poppers q)" for t and q :: "'a shared_pool"
    by (auto simp: pop_atom_def sp_goto_def split: pop_pc.split sum.split)
  have two: "rtranclp pool_step (new_pool 2) (pop_atom t q)"
    if "rtranclp pool_step (new_pool 2) q" "t < length (sp_poppers q)" for t and q :: "'a shared_pool"
    using that by (meson pool_step.take rtranclp.rtrancl_into_rtrancl)
  have "pool_step (new_pool 2) p0"
    using pool_step.put [of "new_pool 2" x] by (simp add: p0_def new_pool_def)
  then have "rtranclp pool_step (new_pool 2) p0" by simp
  then have "rtranclp pool_step (new_pool 2) p"
    unfolding p_def comp_def by (intro two) (simp_all add: len p0_def new_pool_def)
  moreover have "sp_put p = [x] \<and> sp_poppers p = [P_start, P_fault Access_violation] \<and> sp_taken p = [x]"
    by (simp add: p_def p0_def new_pool_def pop_atom_def sp_goto_def seq_empty_def seq_top_def
        seq_pop_top_def traits_push_def seq_push_back_def numeral_2_eq_2)
  ultimately show ?thesis by blast
qed

text \<open>
  C31. A socket is in one place. In every reachable state of the server, each socket ever created is
  in the pool, in one outstanding accept, in one session, or closed, and in no two of these:
  accepts that fail to start or fail, sessions the user does not keep and sessions that end lose
  or duplicate none.
\<close>

theorem sockets_in_one_place:
  assumes "rtranclp server_step new_server s"
  shows "distinct (sv_pool s @ sv_accepting s @ sv_sessions s @ sv_closed s) \<and>
    set (sv_pool s @ sv_accepting s @ sv_sessions s @ sv_closed s) = {0..<sv_next s}"
proof -
  have m: "mset (sockets s) = mset [0..<sv_next s]"
    using server_reachable_inv [OF assms] by (simp add: server_inv_def)
  then have "distinct (sockets s)" by (metis distinct_upt mset_eq_imp_distinct_iff)
  moreover have "set (sockets s) = {0..<sv_next s}"
    using mset_eq_setD [OF m] by simp
  ultimately show ?thesis by (simp add: sockets_def)
qed

theorem sockets_in_one_place_witness:
  "\<exists>s. rtranclp server_step new_server s \<and> sv_next s = 10 \<and> set (sv_pool s) \<subseteq> {0..<10}"
proof -
  obtain s where r: "accept_round (\<lambda>i. (True, i < 7)) new_server = Inr s" and n: "sv_next s = 10"
    by (simp add: accept_round_def MAX_ACCEPT_NUM_def accept_one_def raw_acquire_total new_server_def
        result_simps upt_rec numeral_eq_Suc Let_def seq_empty_def)
  then have "rtranclp server_step new_server s"
    using server_step.accepts by blast
  with n sockets_in_one_place [OF this] show ?thesis by auto
qed

text \<open>
  The socket is acquired outside the \<open>try\<close> of the loop: when the pool is empty and no socket can
  be created, the exception leaves the accept thread, which ends the process.
\<close>

lemma accept_round_throws:
  "sv_pool s = [] \<Longrightarrow> \<not> fst (env 0) \<Longrightarrow> accept_round env s = Inl Win32_exception"
  by (simp add: accept_round_def MAX_ACCEPT_NUM_def upt_rec accept_one_def raw_acquire_total result_simps)

end
