(* ===== verification/Timer_Service.thy ===== *)
theory Timer_Service
  imports Assoc_Vector
begin

text \<open>
  Timers: \<open>timer_service_t\<close>, \<open>waitable_timer_t\<close> and \<open>basic_timer_t\<close> of
  \<open>include/async_io/timer/impl\<close>.

  A timer is registered under its handle; the service's thread waits for the update event and for
  the handles it has last copied. Each operation holds the mutex while it touches the map, and sets
  the update event after it has released it: these are separate steps, between which the thread
  and other callers may act. \<open>ts_unsignalled\<close> is an auxiliary variable, the number of calls between
  their two steps. \<open>WaitForMultipleObjectsEx\<close> fails for more than \<open>MAXIMUM_WAIT_OBJECTS\<close> handles;
  otherwise it reports the index of a signalled handle, or the APC that ends the thread. The update
  event and the timers are auto-reset. A handler is a number.
\<close>

section \<open>Waitable timers\<close>

record waitable_timer =
  wt_period :: int
  wt_due :: int
  wt_armed :: "(int \<times> int) option"  \<comment> \<open>due time in units of 100 ns, relative when negative; period\<close>

definition new_waitable_timer :: "int \<Rightarrow> int \<Rightarrow> waitable_timer" where
  "new_waitable_timer period due = \<lparr> wt_period = period, wt_due = due, wt_armed = None \<rparr>"

text \<open>\<open>ok\<close>: what the system call returns. The members are assigned before the call.\<close>

definition wt_set_timer :: "int \<Rightarrow> int \<Rightarrow> bool \<Rightarrow> waitable_timer \<Rightarrow> waitable_timer \<times> cxx_error option" where
  "wt_set_timer period delay ok t =
     (let t = t\<lparr>wt_period := period, wt_due := delay\<rparr> in
      if ok then (t\<lparr>wt_armed := Some (- (delay * 10000), period)\<rparr>, None)
      else (t, Some Win32_exception))"

definition wt_async_wait :: "bool \<Rightarrow> waitable_timer \<Rightarrow> waitable_timer \<times> cxx_error option" where
  "wt_async_wait ok t = wt_set_timer (wt_period t) (wt_due t) ok t"

definition wt_cancel :: "bool \<Rightarrow> waitable_timer \<Rightarrow> waitable_timer \<times> cxx_error option" where
  "wt_cancel ok t = (if ok then (t\<lparr>wt_armed := None\<rparr>, None) else (t, Some Win32_exception))"

section \<open>The service\<close>

type_synonym timer_id = nat

record timer_service =
  ts_timers :: "(timer_id \<times> (waitable_timer \<times> nat)) list"
  ts_update :: bool
  ts_handles :: "timer_id option list"  \<comment> \<open>\<open>None\<close> is the update event\<close>
  ts_posted :: "(timer_id \<times> nat) list"
  ts_running :: bool
  ts_unsignalled :: nat

definition new_service :: timer_service where
  "new_service = \<lparr> ts_timers = [], ts_update = False, ts_handles = [None], ts_posted = [],
     ts_running = True, ts_unsignalled = 0 \<rparr>"

definition MAXIMUM_WAIT_OBJECTS :: nat where
  "MAXIMUM_WAIT_OBJECTS = 64"

text \<open>
  \<open>add_timer\<close> up to the release of the mutex; \<open>tid\<close> is the handle of the timer it creates. A
  handle that is already registered is not inserted (\<open>std::map::insert\<close>).
\<close>

definition add_timer :: "timer_id \<Rightarrow> int \<Rightarrow> int \<Rightarrow> nat \<Rightarrow> timer_service \<Rightarrow> timer_service result" where
  "add_timer tid period due handler s =
     (if MAXIMUM_WAIT_OBJECTS < length (ts_timers s) then Inl Out_of_range
      else Inr (s\<lparr>ts_timers := std_map_insert std_less (tid, (new_waitable_timer period due, handler)) (ts_timers s),
                  ts_unsignalled := ts_unsignalled s + 1\<rparr>))"

text \<open>\<open>erase_timer\<close> up to the release of the mutex; \<open>ok\<close> is the result of the cancellation.\<close>

definition erase_timer :: "timer_id \<Rightarrow> bool \<Rightarrow> timer_service \<Rightarrow> timer_service result" where
  "erase_timer tid ok s =
     (case map_of (ts_timers s) tid of
        None \<Rightarrow> Inr (s\<lparr>ts_unsignalled := ts_unsignalled s + 1\<rparr>)
      | Some (t, h) \<Rightarrow>
          (case wt_cancel ok t of
             (t', Some e) \<Rightarrow> Inl e
           | (t', None) \<Rightarrow>
               Inr (s\<lparr>ts_timers := filter (\<lambda>x. fst x \<noteq> tid) (ts_timers s),
                      ts_unsignalled := ts_unsignalled s + 1\<rparr>)))"

text \<open>The second step of both: \<open>update_.set_event()\<close>.\<close>

definition set_update :: "timer_service \<Rightarrow> timer_service" where
  "set_update s = s\<lparr>ts_update := True, ts_unsignalled := ts_unsignalled s - 1\<rparr>"

definition service_async_wait :: "timer_id \<Rightarrow> bool \<Rightarrow> timer_service \<Rightarrow> timer_service \<times> cxx_error option" where
  "service_async_wait tid ok s =
     (case map_of (ts_timers s) tid of
        None \<Rightarrow> (s, None)
      | Some (t, h) \<Rightarrow>
          (case wt_async_wait ok t of (t', e) \<Rightarrow>
             (s\<lparr>ts_timers := map (\<lambda>x. if fst x = tid then (tid, (t', h)) else x) (ts_timers s)\<rparr>, e)))"

definition copy_handles :: "timer_service \<Rightarrow> timer_service" where
  "copy_handles s = s\<lparr>ts_handles := None # map (\<lambda>x. Some (fst x)) (ts_timers s)\<rparr>"

datatype wait_result = W_io_completion | W_failed | W_object nat

text \<open>One turn of the loop of \<open>_ThreadCallback\<close> with the result of the wait.\<close>

definition thread_turn :: "wait_result \<Rightarrow> timer_service \<Rightarrow> timer_service" where
  "thread_turn res s =
     (case res of
        W_io_completion \<Rightarrow> s\<lparr>ts_running := False\<rparr>
      | W_failed \<Rightarrow> copy_handles s
      | W_object i \<Rightarrow>
          (if i = 0 then copy_handles (s\<lparr>ts_update := False\<rparr>)
           else if length (ts_timers s) < i then s
           else case ts_handles s ! i of
                  None \<Rightarrow> s
                | Some tid \<Rightarrow>
                    (case map_of (ts_timers s) tid of
                       None \<Rightarrow> s
                     | Some (t, h) \<Rightarrow> s\<lparr>ts_posted := ts_posted s @ [(tid, h)]\<rparr>)))"

text \<open>What the wait may report in a state.\<close>

fun wait_law :: "timer_service \<Rightarrow> wait_result \<Rightarrow> bool" where
  "wait_law s W_io_completion \<longleftrightarrow> True"
| "wait_law s W_failed \<longleftrightarrow> True"
| "wait_law s (W_object i) \<longleftrightarrow>
     length (ts_handles s) \<le> MAXIMUM_WAIT_OBJECTS \<and> i < length (ts_handles s) \<and> (i = 0 \<longrightarrow> ts_update s)"

inductive timer_step :: "timer_service \<Rightarrow> timer_service \<Rightarrow> bool" where
  add: "add_timer tid period due h s = Inr s' \<Longrightarrow> timer_step s s'"
| erase: "erase_timer tid ok s = Inr s' \<Longrightarrow> timer_step s s'"
| signal: "0 < ts_unsignalled s \<Longrightarrow> timer_step s (set_update s)"
| wait: "timer_step s (fst (service_async_wait tid ok s))"
| turn: "ts_running s \<Longrightarrow> wait_law s res \<Longrightarrow> timer_step s (thread_turn res s)"

section \<open>The handle of the user\<close>

text \<open>\<open>basic_timer_t\<close>: the identifier of its timer, 0 for none.\<close>

definition basic_timer_cancel :: "timer_id \<Rightarrow> bool \<Rightarrow> timer_service \<Rightarrow> (timer_id \<times> timer_service) result" where
  "basic_timer_cancel tid ok s = bindR (erase_timer tid ok s) (\<lambda>s'. Inr (0, set_update s'))"

definition basic_timer_destroy :: "timer_id \<Rightarrow> bool \<Rightarrow> timer_service \<Rightarrow> timer_service result" where
  "basic_timer_destroy tid ok s =
     (if tid \<noteq> 0 then bindR (erase_timer tid ok s) (\<lambda>s'. Inr (set_update s')) else Inr s)"

text \<open>\<open>async_wait\<close> with a handler: the timer is added on the first call only.\<close>

definition basic_timer_async_wait ::
  "timer_id \<Rightarrow> timer_id \<Rightarrow> int \<Rightarrow> int \<Rightarrow> nat \<Rightarrow> bool \<Rightarrow> timer_service \<Rightarrow> (timer_id \<times> timer_service) result" where
  "basic_timer_async_wait tid fresh duration delay handler ok s =
     bindR (if tid = 0
            then bindR (add_timer fresh duration delay handler s) (\<lambda>s'. Inr (fresh, set_update s'))
            else Inr (tid, s))
       (\<lambda>(tid', s').
          case service_async_wait tid' ok s' of
            (s'', None) \<Rightarrow> Inr (tid', s'')
          | (s'', Some e) \<Rightarrow> Inl e)"

section \<open>The view of the thread\<close>

definition current :: "timer_service \<Rightarrow> bool" where
  "current s \<longleftrightarrow> ts_handles s = None # map (\<lambda>x. Some (fst x)) (ts_timers s)"

definition sorted_timers :: "timer_service \<Rightarrow> bool" where
  "sorted_timers s \<longleftrightarrow> sorted_wrt (cmp_data std_less) (ts_timers s)"

definition timer_inv :: "timer_service \<Rightarrow> bool" where
  "timer_inv s \<longleftrightarrow> sorted_timers s \<and> length (ts_timers s) \<le> 65 \<and>
     (current s \<or> ts_update s \<or> 0 < ts_unsignalled s)"

lemma length_std_map_insert: "length (std_map_insert c x xs) \<le> Suc (length xs)"
  by (induction xs) auto

lemma cmp_data_eta: "cmp_data c = (\<lambda>x y. c (fst x) (fst y))"
  by (simp add: fun_eq_iff cmp_data_def)

lemma std_less_eta: "std_less = (<)"
  by (simp add: fun_eq_iff std_less_def)

lemma timers_by_keys:
  "sorted_timers s \<longleftrightarrow> sorted_wrt std_less (map fst (ts_timers s))"
  "current s \<longleftrightarrow> ts_handles s = None # map Some (map fst (ts_timers s))"
  by (simp_all add: sorted_timers_def current_def sorted_wrt_map cmp_data_eta comp_def)

lemma async_wait_keys:
  assumes "s' = fst (service_async_wait tid ok s)"
  shows "map fst (ts_timers s') = map fst (ts_timers s)" "ts_handles s' = ts_handles s"
    "ts_update s' = ts_update s" "ts_unsignalled s' = ts_unsignalled s"
  using assms by (auto simp: service_async_wait_def split: option.split prod.split)

lemma timer_step_inv: "timer_step s s' \<Longrightarrow> timer_inv s \<Longrightarrow> timer_inv s'"
proof (induction rule: timer_step.induct)
  case (add tid period due h s s')
  then show ?case
    using less_order.std_map_insert_sorted [of "ts_timers s"]
      length_std_map_insert [of std_less "(tid, (new_waitable_timer period due, h))" "ts_timers s"]
    by (auto simp: timer_inv_def add_timer_def sorted_timers_def MAXIMUM_WAIT_OBJECTS_def split: if_splits)
next
  case (erase tid ok s s')
  have "length (filter (\<lambda>x. fst x \<noteq> tid) (ts_timers s)) \<le> 65"
    using erase(2) le_trans [OF length_filter_le] by (auto simp: timer_inv_def)
  with erase show ?case
    by (auto simp: timer_inv_def erase_timer_def sorted_timers_def sorted_wrt_filter
        split: option.splits prod.splits)
next
  case (signal s)
  then show ?case by (simp add: timer_inv_def set_update_def sorted_timers_def)
next
  case (wait s tid ok)
  define s' where "s' = fst (service_async_wait tid ok s)"
  note keys = async_wait_keys [OF s'_def]
  have "length (ts_timers s') = length (ts_timers s)"
    using keys(1) by (metis length_map)
  then show ?case
    using wait keys by (simp add: timer_inv_def timers_by_keys s'_def [symmetric])
next
  case (turn s res)
  then show ?case
    by (cases res) (auto simp: timer_inv_def thread_turn_def copy_handles_def current_def sorted_timers_def
        split: option.splits)
qed

lemma timer_reachable_inv: "rtranclp timer_step new_service s \<Longrightarrow> timer_inv s"
proof (induction rule: rtranclp_induct)
  case base
  show ?case by (simp add: timer_inv_def new_service_def current_def sorted_timers_def)
qed (rule timer_step_inv)

lemma sorted_timers_lookup:
  assumes "sorted_timers s" "i < length (ts_timers s)"
  shows "map_of (ts_timers s) (fst (ts_timers s ! i)) = Some (snd (ts_timers s ! i))"
proof -
  have "distinct (map fst (ts_timers s))"
    using assms(1) strict_sorted_iff [of "map fst (ts_timers s)"]
    by (simp add: timers_by_keys std_less_eta)
  then show ?thesis using assms(2) by (metis map_of_eq_Some_iff nth_mem prod.collapse)
qed

section \<open>The handle of a timer\<close>

lemma std_map_insert_fresh:
  "k \<notin> fst ` set xs \<Longrightarrow> filter (\<lambda>x. fst x \<noteq> k) (std_map_insert std_less (k, y) xs) = xs"
proof (induction xs)
  case (Cons x xs)
  then have "std_less k (fst x) \<or> std_less (fst x) k" by (auto simp: std_less_def)
  with Cons show ?case
    by (auto simp: filter_id_conv image_iff)
qed simp

lemma map_of_std_map_insert:
  "k \<notin> fst ` set xs \<Longrightarrow> map_of (std_map_insert std_less (k, y) xs) k = Some y"
proof (induction xs)
  case (Cons x xs)
  then have "std_less k (fst x) \<or> std_less (fst x) k" "fst x \<noteq> k" by (auto simp: std_less_def)
  with Cons show ?case by (cases x) auto
qed simp

text \<open>A handle that waits with a new timer and is then cancelled leaves the registered timers alone.\<close>

lemma basic_timer_wait_cancel:
  assumes "tid \<notin> fst ` set (ts_timers s)" "length (ts_timers s) \<le> MAXIMUM_WAIT_OBJECTS"
  shows "\<exists>s1 s2. basic_timer_async_wait 0 tid period due h True s = Inr (tid, s1) \<and>
    map_of (ts_timers s1) tid =
      Some (\<lparr> wt_period = period, wt_due = due, wt_armed = Some (- (due * 10000), period) \<rparr>, h) \<and>
    basic_timer_cancel tid True s1 = Inr (0, s2) \<and> ts_timers s2 = ts_timers s \<and> ts_update s2"
proof -
  define y where "y = (new_waitable_timer period due, h)"
  define xs where "xs = std_map_insert std_less (tid, y) (ts_timers s)"
  define z where "z = (\<lparr> wt_period = period, wt_due = due, wt_armed = Some (- (due * 10000), period) \<rparr>, h)"
  define ys where "ys = map (\<lambda>x. if fst x = tid then (tid, z) else x) xs"
  have xs: "map_of xs tid = Some y" unfolding xs_def by (rule map_of_std_map_insert [OF assms(1)])
  have "map_of (map (\<lambda>x. if fst x = tid then (tid, z) else x) l) tid = map_option (\<lambda>_. z) (map_of l tid)"
    for l :: "(nat \<times> waitable_timer \<times> nat) list"
    by (induction l) auto
  then have ys: "map_of ys tid = Some z" using xs by (simp add: ys_def)
  have "filter (\<lambda>x. fst x \<noteq> tid) ys = filter (\<lambda>x. fst x \<noteq> tid) xs"
    unfolding ys_def by (induction xs) auto
  also have "... = ts_timers s" unfolding xs_def by (rule std_map_insert_fresh [OF assms(1)])
  finally have filt: "filter (\<lambda>x. fst x \<noteq> tid) ys = ts_timers s" .
  define s1 where "s1 = s\<lparr>ts_timers := ys, ts_update := True, ts_unsignalled := ts_unsignalled s + 1 - 1\<rparr>"
  have arm: "wt_async_wait True (new_waitable_timer period due) = (fst z, None)" and z: "z = (fst z, h)"
    by (simp_all add: z_def wt_async_wait_def wt_set_timer_def new_waitable_timer_def)
  have "add_timer tid period due h s =
      Inr (s\<lparr>ts_timers := xs, ts_unsignalled := ts_unsignalled s + 1\<rparr>)"
    using assms(2) by (simp add: add_timer_def xs_def y_def)
  then have "basic_timer_async_wait 0 tid period due h True s = Inr (tid, s1)"
    using xs [unfolded y_def] arm z
    by (simp add: basic_timer_async_wait_def set_update_def service_async_wait_def s1_def ys_def)
  moreover have "map_of (ts_timers s1) tid = Some z" using ys by (simp add: s1_def)
  moreover have "\<exists>s2. basic_timer_cancel tid True s1 = Inr (0, s2) \<and> ts_timers s2 = ts_timers s \<and> ts_update s2"
    using ys filt z by (simp add: basic_timer_cancel_def erase_timer_def s1_def wt_cancel_def
        set_update_def split: prod.split)
  ultimately show ?thesis unfolding z_def by blast
qed

section \<open>Correctness\<close>

text \<open>
  C32. The thread's view of the timers. However adding, erasing, waiting and the thread interleave,
  whenever the thread's copy of the handles is out of date the update event is set or a caller is
  about to set it, and the turn that takes the update event makes the copy current. With a current
  copy, the tick of any registered timer posts that timer's handler and nothing else.
\<close>

theorem timer_view:
  assumes "rtranclp timer_step new_service s"
  shows "(current s \<or> ts_update s \<or> 0 < ts_unsignalled s) \<and>
    current (thread_turn (W_object 0) s) \<and>
    (current s \<and> i < length (ts_timers s) \<longrightarrow>
      thread_turn (W_object (Suc i)) s =
        s\<lparr>ts_posted := ts_posted s @ [(fst (ts_timers s ! i), snd (snd (ts_timers s ! i)))]\<rparr>)"
proof (intro conjI impI)
  have inv: "timer_inv s" by (rule timer_reachable_inv [OF assms])
  then show "current s \<or> ts_update s \<or> 0 < ts_unsignalled s" by (simp add: timer_inv_def)
  show "current (thread_turn (W_object 0) s)"
    by (simp add: thread_turn_def copy_handles_def current_def)
  assume "current s \<and> i < length (ts_timers s)"
  then show "thread_turn (W_object (Suc i)) s =
      s\<lparr>ts_posted := ts_posted s @ [(fst (ts_timers s ! i), snd (snd (ts_timers s ! i)))]\<rparr>"
    using sorted_timers_lookup [of s i] inv
    by (simp add: thread_turn_def current_def timer_inv_def split: prod.split)
qed

definition one_timer :: timer_service where
  "one_timer = \<lparr> ts_timers = [(8, (new_waitable_timer 100 0, 7))], ts_update = False,
     ts_handles = [None, Some 8], ts_posted = [], ts_running = True, ts_unsignalled = 0 \<rparr>"

lemma one_timer_reachable: "rtranclp timer_step new_service one_timer"
proof -
  define s1 where "s1 = new_service\<lparr>ts_timers := [(8, (new_waitable_timer 100 0, 7))], ts_unsignalled := 1\<rparr>"
  have "timer_step new_service s1"
    by (rule timer_step.add [of 8 100 0 7]) (simp add: add_timer_def new_service_def s1_def)
  moreover have "timer_step s1 (set_update s1)"
    by (rule timer_step.signal) (simp add: s1_def)
  moreover have "timer_step (set_update s1) (thread_turn (W_object 0) (set_update s1))"
    by (rule timer_step.turn) (simp_all add: s1_def set_update_def new_service_def MAXIMUM_WAIT_OBJECTS_def)
  moreover have "thread_turn (W_object 0) (set_update s1) = one_timer"
    by (simp add: thread_turn_def copy_handles_def s1_def set_update_def new_service_def one_timer_def)
  ultimately show ?thesis by (metis converse_rtranclp_into_rtranclp rtranclp.rtrancl_refl)
qed

theorem timer_view_witness:
  "ts_posted (thread_turn (W_object (Suc 0)) one_timer) = [(8, 7)]"
  using timer_view [OF one_timer_reachable, of 0] by (simp add: one_timer_def current_def)

text \<open>
  The limit on timers is off by two. Adding is refused only above 64 registered timers, so 65
  can be registered; but the thread waits on the update event as well, and with 64 or more timers a
  current copy has more handles than a wait can take: every wait fails or ends the thread, and no
  timer is ever posted.
\<close>

theorem timer_limit:
  assumes "MAXIMUM_WAIT_OBJECTS \<le> length (ts_timers s)" "current s" "wait_law s res"
  shows "(length (ts_timers s) = MAXIMUM_WAIT_OBJECTS \<longrightarrow> (\<exists>s'. add_timer tid period due h s = Inr s')) \<and>
    ts_posted (thread_turn res s) = ts_posted s \<and>
    ts_timers (thread_turn res s) = ts_timers s \<and> current (thread_turn res s)"
  using assms by (cases res) (auto simp: add_timer_def thread_turn_def current_def copy_handles_def)

definition many_timers :: timer_service where
  "many_timers = copy_handles
     (new_service\<lparr>ts_timers := map (\<lambda>i. (i, (new_waitable_timer 100 0, i))) [1..<65]\<rparr>)"

theorem timer_limit_witness:
  "\<exists>s'. add_timer 65 100 0 65 many_timers = Inr s'"
proof -
  have "MAXIMUM_WAIT_OBJECTS \<le> length (ts_timers many_timers)" "current many_timers"
    "wait_law many_timers W_failed" "length (ts_timers many_timers) = MAXIMUM_WAIT_OBJECTS"
    by (simp_all add: many_timers_def copy_handles_def current_def MAXIMUM_WAIT_OBJECTS_def)
  from timer_limit [OF this(1-3)] this(4) show ?thesis by blast
qed

text \<open>
  A tick can be lost. The thread compares the index of the signalled handle in its copy with the
  present number of timers: when another timer has been erased and the update event is not yet
  set, the tick of the last timer is discarded, and an auto-reset timer does not repeat it.
\<close>

lemma stale_tick_discarded:
  assumes "ts_timers s = [(b, y)]" "ts_handles s = [None, Some a, Some b]"
  shows "thread_turn (W_object 2) s = s"
  using assms by (simp add: thread_turn_def)

end
