(* ===== verification/Sync_Condition.thy ===== *)
theory Sync_Condition
  imports Prelude
begin

text \<open>
  Condition variables: \<open>detail::semaphore\<close>, \<open>detail::multiple_event_t\<close> and \<open>condition_t\<close> of
  \<open>include/multi_thread/lock.hpp\<close>, at the granularity of the interlocked and kernel calls the
  code makes, and the interface a client relies on (locale \<open>condition_variable\<close>): a signal given
  after a thread has begun to wait is not lost. \<open>condition_t\<close> over \<open>semaphore\<close> is an instance
  for runs of at most \<open>LONG_MAX\<close> steps, the width of its counters.
\<close>

section \<open>The semaphore and the condition\<close>

text \<open>
  The members of \<open>semaphore\<close> and \<open>condition_t\<close>, and the threads inside their member functions by
  the call they are about to make: \<open>blocked\<close> are in \<open>WaitForSingleObject\<close>, \<open>at_test\<close> before
  \<open>InterlockedCompareExchange\<close> of \<open>signal\<close>, \<open>at_release\<close> before \<open>ReleaseSemaphore\<close>,
  \<open>at_count\<close> before \<open>InterlockedExchangeAdd\<close> and \<open>at_decr\<close> before \<open>InterlockedDecrement\<close>.
\<close>

record semaphore_condition =
  sem_count :: nat
  signal_count :: u32
  wait_count :: u32
  blocked :: nat
  at_test :: nat
  at_release :: nat
  at_count :: nat
  at_decr :: nat

definition LONG_MAX :: nat where
  "LONG_MAX = 2 ^ 31 - 1"

definition new_condition :: semaphore_condition where
  "new_condition = \<lparr>sem_count = 0, signal_count = 0, wait_count = 0, blocked = 0, at_test = 0,
     at_release = 0, at_count = 0, at_decr = 0\<rparr>"

text \<open>\<open>semaphore::signal(count)\<close>: its two calls. \<open>ReleaseSemaphore\<close> fails, without effect, when the
  maximum would be passed.\<close>

definition sem_release :: "int \<Rightarrow> semaphore_condition \<Rightarrow> semaphore_condition" where
  "sem_release count c = (if count \<le> 0 then c
     else if int (sem_count c) + count \<le> int LONG_MAX
       then c\<lparr>sem_count := sem_count c + nat count\<rparr> else c)"

definition sem_add_count :: "int \<Rightarrow> semaphore_condition \<Rightarrow> semaphore_condition" where
  "sem_add_count count c = (if count \<le> 0 then c
     else c\<lparr>signal_count := signal_count c + word_of_int count\<rparr>)"

text \<open>\<open>condition_t::wait\<close> up to the blocking call, and the two ways the call returns.\<close>

definition cond_wait :: "semaphore_condition \<Rightarrow> semaphore_condition" where
  "cond_wait c = c\<lparr>wait_count := wait_count c + 1, blocked := Suc (blocked c)\<rparr>"

definition sem_wake :: "semaphore_condition \<Rightarrow> semaphore_condition option" where
  "sem_wake c = (if sem_count c > 0 \<and> blocked c > 0
     then Some (c\<lparr>sem_count := sem_count c - 1, blocked := blocked c - 1,
                 signal_count := signal_count c - 1\<rparr>) else None)"

definition sem_timeout :: "semaphore_condition \<Rightarrow> semaphore_condition option" where
  "sem_timeout c = (if blocked c > 0
     then Some (c\<lparr>blocked := blocked c - 1, signal_count := signal_count c - 1\<rparr>) else None)"

text \<open>\<open>condition_t::signal\<close>: a thread enters, and each of its calls.\<close>

definition cond_signal :: "semaphore_condition \<Rightarrow> semaphore_condition" where
  "cond_signal c = c\<lparr>at_test := Suc (at_test c)\<rparr>"

datatype sig_pc = At_Test | At_Release | At_Count | At_Decr

fun sig_exec :: "sig_pc \<Rightarrow> semaphore_condition \<Rightarrow> semaphore_condition option" where
  "sig_exec At_Test c = (if at_test c = 0 then None else Some (
     let c' = c\<lparr>at_test := at_test c - 1\<rparr> in
     if wait_count c \<noteq> 0 then c'\<lparr>at_release := Suc (at_release c)\<rparr> else c'))"
| "sig_exec At_Release c = (if at_release c = 0 then None else Some (
     sem_release 1 (c\<lparr>at_release := at_release c - 1, at_count := Suc (at_count c)\<rparr>)))"
| "sig_exec At_Count c = (if at_count c = 0 then None else Some (
     sem_add_count 1 (c\<lparr>at_count := at_count c - 1, at_decr := Suc (at_decr c)\<rparr>)))"
| "sig_exec At_Decr c = (if at_decr c = 0 then None else Some (
     c\<lparr>at_decr := at_decr c - 1, wait_count := wait_count c - 1\<rparr>))"

text \<open>\<open>condition_t::broadcast\<close>: its test and the signal of all, and its final exchange; other
  threads may run between the two.\<close>

definition cond_broadcast_release :: "semaphore_condition \<Rightarrow> semaphore_condition" where
  "cond_broadcast_release c = (if wait_count c \<noteq> 0
     then sem_add_count (sint (wait_count c)) (sem_release (sint (wait_count c)) c) else c)"

definition cond_broadcast_exchange :: "semaphore_condition \<Rightarrow> semaphore_condition" where
  "cond_broadcast_exchange c = c\<lparr>wait_count := 0\<rparr>"

text \<open>\<open>reset\<close>: waits for as many counts as \<open>signal_count\<close> says, \<^term>\<open>None\<close> when it blocks.\<close>

definition cond_reset :: "semaphore_condition \<Rightarrow> semaphore_condition option" where
  "cond_reset c = (if sint (signal_count c) \<le> int (sem_count c)
     then Some (c\<lparr>sem_count := sem_count c - nat (sint (signal_count c)), signal_count := 0\<rparr>)
     else None)"

section \<open>The emulation by events\<close>

text \<open>
  \<open>multiple_event_t\<close>: manual-reset events and the position of the last one set.
  \<open>SignalObjectAndWait\<close> sets its first argument and then waits for the second.
\<close>

record multiple_event =
  events :: "bool list"
  me_pos :: int

definition WAIT_OBJECT_0 :: u32 where "WAIT_OBJECT_0 = 0"
definition WAIT_TIMEOUT :: u32 where "WAIT_TIMEOUT = 258"
definition WAIT_FAILED :: u32 where "WAIT_FAILED = 0xFFFFFFFF"

definition new_multiple_event :: "nat \<Rightarrow> multiple_event" where
  "new_multiple_event size' = \<lparr>events = replicate size' False, me_pos = -1\<rparr>"

definition me_signal :: "int \<Rightarrow> multiple_event \<Rightarrow> multiple_event" where
  "me_signal count e = (if count \<le> 0 then e else
     let size' = int (length (events e));
         mx = (if me_pos e + count \<ge> size' then size' - 1 else me_pos e + count) in
     e\<lparr>events := fold (\<lambda>i es. es[nat i := True]) [me_pos e + 1 .. mx] (events e),
       me_pos := me_pos e + (mx - me_pos e)\<rparr>)"

definition signal_object_and_wait :: "nat \<Rightarrow> nat \<Rightarrow> bool list \<Rightarrow> bool list \<times> u32" where
  "signal_object_and_wait i j es = (let es' = es[i := True] in
     (es', if es' ! j then WAIT_OBJECT_0 else WAIT_TIMEOUT))"

definition me_wait :: "multiple_event \<Rightarrow> multiple_event \<times> bool" where
  "me_wait e = (let wait_pos = (if me_pos e < 0 then 0 else me_pos e);
       (es, ret) = signal_object_and_wait (nat wait_pos) (nat wait_pos) (events e) in
     (e\<lparr>events := es, me_pos := (if wait_pos = 0 then me_pos e else me_pos e - 1)\<rparr>,
      ret = WAIT_FAILED))"

definition me_reset :: "multiple_event \<Rightarrow> multiple_event" where
  "me_reset e = e\<lparr>events := fold (\<lambda>i es. es[nat i := False]) [0 .. me_pos e] (events e), me_pos := -1\<rparr>"

section \<open>The interface of a condition variable\<close>

text \<open>
  A thread calls \<open>start_wait\<close> while it holds the client's lock and blocks; it goes on by \<open>wake\<close>,
  which uses up a permission a signal has given, or by \<open>expire\<close>, which does not (a timeout or a
  spurious wake-up). A signal begins with \<open>start_signal\<close> and goes on by steps \<open>advance\<close>.
  \<open>waiting\<close> counts the blocked threads, \<open>ready\<close> the permissions, \<open>pending\<close> the signals under way that have not
  decided yet. The law for \<open>advance\<close> is the heart: a signal under way becomes a permission, or it ends
  because there are permissions for all who wait. Counters have a width, so the invariant is
  indexed by the number of steps made and the laws hold below \<open>limit\<close>.
\<close>

locale condition_variable =
  fixes fresh :: 'c
    and start_wait start_signal :: "'c \<Rightarrow> 'c"
    and wake expire :: "'c \<Rightarrow> 'c option"
    and advance :: "'p \<Rightarrow> 'c \<Rightarrow> 'c option"
    and waiting ready pending weight :: "'c \<Rightarrow> nat"
    and cinv :: "nat \<Rightarrow> 'c \<Rightarrow> bool"
    and limit :: nat
  assumes fresh: "cinv 0 fresh" "waiting fresh = 0" "pending fresh = 0"
    and inv_mono: "cinv n c \<Longrightarrow> cinv (Suc n) c"
    and start_wait: "cinv n c \<Longrightarrow> cinv (Suc n) (start_wait c)"
      "waiting (start_wait c) = Suc (waiting c)" "ready (start_wait c) = ready c"
      "pending (start_wait c) = pending c" "weight (start_wait c) = weight c"
    and start_signal: "cinv n c \<Longrightarrow> cinv (Suc n) (start_signal c)"
      "waiting (start_signal c) = waiting c" "ready (start_signal c) = ready c"
      "pending (start_signal c) = Suc (pending c)"
    and wake: "wake c = Some c' \<Longrightarrow> cinv n c \<Longrightarrow> cinv (Suc n) c'"
      "wake c = Some c' \<Longrightarrow> waiting c = Suc (waiting c')"
      "wake c = Some c' \<Longrightarrow> ready c = Suc (ready c')"
      "wake c = Some c' \<Longrightarrow> pending c' = pending c"
      "wake c = Some c' \<Longrightarrow> weight c' + 2 \<le> weight c"
    and expire: "expire c = Some c' \<Longrightarrow> cinv n c \<Longrightarrow> cinv (Suc n) c'"
      "expire c = Some c' \<Longrightarrow> waiting c = Suc (waiting c')"
      "expire c = Some c' \<Longrightarrow> ready c' = ready c"
      "expire c = Some c' \<Longrightarrow> pending c' = pending c"
    and advance: "advance p c = Some c' \<Longrightarrow> cinv n c \<Longrightarrow> n < limit \<Longrightarrow> cinv (Suc n) c'"
      "advance p c = Some c' \<Longrightarrow> waiting c' = waiting c"
      "advance p c = Some c' \<Longrightarrow> cinv n c \<Longrightarrow> n < limit \<Longrightarrow> ready c \<le> ready c'"
      "advance p c = Some c' \<Longrightarrow> cinv n c \<Longrightarrow> n < limit \<Longrightarrow>
         ready c + pending c \<le> ready c' + pending c' \<or> waiting c' \<le> ready c'"
      "advance p c = Some c' \<Longrightarrow> cinv n c \<Longrightarrow> n < limit \<Longrightarrow> weight c' < weight c"
    and progress: "0 < pending c \<Longrightarrow> \<exists>p c'. advance p c = Some c'"
      "0 < ready c \<Longrightarrow> 0 < waiting c \<Longrightarrow> \<exists>c'. wake c = Some c'"

section \<open>The semaphore condition is an instance\<close>

definition sem_pending :: "semaphore_condition \<Rightarrow> nat" where
  "sem_pending c = at_test c + at_release c"

definition sem_weight :: "semaphore_condition \<Rightarrow> nat" where
  "sem_weight c = 6 * at_test c + 5 * at_release c + 2 * at_count c + at_decr c + 2 * sem_count c"

text \<open>The counters agree: \<open>wait_count\<close> and the count of the semaphore make up the threads that
  wait, the signals that have released and not yet counted down, and \<open>t\<close> waits that timed out.\<close>

definition sem_inv :: "nat \<Rightarrow> semaphore_condition \<Rightarrow> bool" where
  "sem_inv n c \<longleftrightarrow> sem_count c + at_test c + at_release c \<le> n \<and>
     (\<exists>t. wait_count c + of_nat (sem_count c) = of_nat (blocked c + at_count c + at_decr c + t) \<and>
          signal_count c + of_nat (at_count c + t) = of_nat (sem_count c) \<and>
          blocked c + at_count c + at_decr c + t \<le> n)"

lemma sem_inv_zero:
  assumes "sem_inv n c" "n < LONG_MAX" "wait_count c = 0"
  shows "blocked c \<le> sem_count c"
proof -
  obtain t where t: "(of_nat (sem_count c) :: u32) = of_nat (blocked c + at_count c + at_decr c + t)"
    and le: "blocked c + at_count c + at_decr c + t \<le> n" "sem_count c \<le> n"
    using assms(1,3) by (auto simp: sem_inv_def)
  have "sem_count c < 2 ^ 32" "blocked c + at_count c + at_decr c + t < 2 ^ 32"
    using le assms(2) by (simp_all add: LONG_MAX_def)
  then have "sem_count c = blocked c + at_count c + at_decr c + t"
    using arg_cong [OF t, of unat] by (simp only: unat_of_nat_u32)
  then show ?thesis by simp
qed

lemma sem_release_one: "sem_count c < LONG_MAX \<Longrightarrow> sem_release 1 c = c\<lparr>sem_count := Suc (sem_count c)\<rparr>"
  by (simp add: sem_release_def)

lemma sem_inv_sig_exec:
  assumes "sig_exec p c = Some c'" "sem_inv n c" "n < LONG_MAX"
  shows "sem_inv (Suc n) c' \<and> sem_count c \<le> sem_count c' \<and> sem_weight c' < sem_weight c \<and>
    (sem_count c + sem_pending c \<le> sem_count c' + sem_pending c' \<or> blocked c' \<le> sem_count c')"
proof (cases p)
  case At_Test
  then show ?thesis using assms sem_inv_zero [OF assms(2,3)]
    by (auto simp: sem_inv_def sem_weight_def sem_pending_def Let_def split: if_splits; force)
next
  case At_Release
  have "at_release c > 0 \<Longrightarrow> sem_count c < LONG_MAX" using assms(2,3) by (auto simp: sem_inv_def)
  then show ?thesis using assms At_Release
    by (auto simp: sem_inv_def sem_weight_def sem_pending_def sem_release_one split: if_splits;
        force simp: algebra_simps)
next
  case At_Count
  then show ?thesis using assms
    by (auto simp: sem_inv_def sem_weight_def sem_pending_def sem_add_count_def gr0_conv_Suc
        algebra_simps split: if_splits)
next
  case At_Decr
  then show ?thesis using assms
    by (auto simp: sem_inv_def sem_weight_def sem_pending_def gr0_conv_Suc algebra_simps
        split: if_splits)
qed

lemma sem_inv_waits:
  "sem_inv n c \<Longrightarrow> sem_inv (Suc n) (cond_wait c)"
  "sem_inv n c \<Longrightarrow> sem_inv (Suc n) (cond_signal c)"
  "sem_wake c = Some c' \<Longrightarrow> sem_inv n c \<Longrightarrow> sem_inv (Suc n) c'"
  "sem_timeout c = Some c' \<Longrightarrow> sem_inv n c \<Longrightarrow> sem_inv (Suc n) c'"
proof -
  show "sem_inv n c \<Longrightarrow> sem_inv (Suc n) (cond_wait c)" "sem_inv n c \<Longrightarrow> sem_inv (Suc n) (cond_signal c)"
    by (auto simp: sem_inv_def cond_wait_def cond_signal_def algebra_simps; force)+
  show "sem_wake c = Some c' \<Longrightarrow> sem_inv n c \<Longrightarrow> sem_inv (Suc n) c'"
    by (auto simp: sem_inv_def sem_wake_def gr0_conv_Suc algebra_simps split: if_splits; force)
next
  assume step: "sem_timeout c = Some c'" and "sem_inv n c"
  then obtain t where t: "wait_count c + of_nat (sem_count c) = of_nat (blocked c + at_count c + at_decr c + t)"
    "signal_count c + of_nat (at_count c + t) = of_nat (sem_count c)"
    "blocked c + at_count c + at_decr c + t \<le> n" "sem_count c + at_test c + at_release c \<le> n"
    by (auto simp: sem_inv_def)
  then show "sem_inv (Suc n) c'" using step unfolding sem_inv_def
    by (intro conjI exI [of _ "Suc t"])
      (auto simp: sem_timeout_def gr0_conv_Suc algebra_simps split: if_splits)
qed

interpretation sem: condition_variable new_condition cond_wait cond_signal sem_wake sem_timeout
  sig_exec blocked sem_count sem_pending sem_weight sem_inv LONG_MAX
proof
  show "0 < sem_pending c \<Longrightarrow> \<exists>p c'. sig_exec p c = Some c'" for c
    by (cases "at_test c") (fastforce intro: exI [of _ At_Release] exI [of _ At_Test] simp: sem_pending_def)+
  show "0 < sem_count c \<Longrightarrow> 0 < blocked c \<Longrightarrow> \<exists>c'. sem_wake c = Some c'" for c
    by (simp add: sem_wake_def)
  show "sig_exec p c = Some c' \<Longrightarrow> blocked c' = blocked c" for p c c'
    by (cases p) (auto simp: sem_release_def sem_add_count_def Let_def split: if_splits)
qed (use sem_inv_sig_exec sem_inv_waits in
    \<open>auto simp: new_condition_def sem_inv_def sem_pending_def sem_weight_def cond_wait_def
      cond_signal_def sem_wake_def sem_timeout_def split: if_splits\<close>)

section \<open>Broadcast, reset and events\<close>

text \<open>
  \<open>broadcast\<close> is not part of the instance: its exchange forgets a thread that began to wait after
  the release, so the signal after it finds a count of zero and wakes nobody.
\<close>

theorem broadcast_loses_waiter:
  "let c = cond_broadcast_exchange (cond_wait (cond_broadcast_release (cond_wait new_condition)));
       woke = the (sem_wake c); c' = the (sig_exec At_Test (cond_signal woke)) in
     blocked c = 2 \<and> blocked c' = 1 \<and> sem_count c' = 0 \<and> (\<forall>p. sig_exec p c' = None) \<and>
     sem_wake c' = None"
proof -
  have "sig_exec p (new_condition\<lparr>blocked := Suc 0, wait_count := 0, sem_count := 0,
      signal_count := s\<rparr>) = None" for p s
    by (cases p) (simp_all add: new_condition_def)
  then show ?thesis
    by (simp add: cond_broadcast_exchange_def cond_wait_def cond_broadcast_release_def new_condition_def
        sem_add_count_def sem_release_def LONG_MAX_def sem_wake_def cond_signal_def)
qed

text \<open>\<open>reset\<close> without other activity: it never blocks, but every wait that timed out (\<open>t\<close> of them) leaves a
  count behind, which a later wait takes for a signal.\<close>

lemma cond_reset_leaves:
  assumes "sem_inv n c" "n < LONG_MAX" "at_count c = 0"
  shows "\<exists>t. signal_count c + of_nat t = of_nat (sem_count c) \<and>
    cond_reset c = Some (c\<lparr>sem_count := if t \<le> sem_count c then t else sem_count c, signal_count := 0\<rparr>)"
proof -
  obtain t where t: "signal_count c + of_nat t = of_nat (sem_count c)" and le: "t \<le> n" "sem_count c \<le> n"
    using assms by (auto simp: sem_inv_def)
  have "signal_count c = of_int (int (sem_count c) - int t)" using t by (simp add: eq_diff_eq)
  then have "sint (signal_count c) = int (sem_count c) - int t"
    using le assms(2) by (simp add: LONG_MAX_def signed_of_int signed_take_bit_int_eq_self del: of_int_diff)
  then show ?thesis using t by (intro exI [of _ t]) (auto simp: cond_reset_def nat_diff_distrib)
qed

text \<open>The wait of the event emulation returns at once, whatever has been signalled, and always
  reports failure.\<close>

lemma me_wait_never_waits:
  "0 < length (events e) \<Longrightarrow> me_pos e < int (length (events e)) \<Longrightarrow>
     snd (signal_object_and_wait (nat (max 0 (me_pos e))) (nat (max 0 (me_pos e))) (events e)) = WAIT_OBJECT_0 \<and>
     \<not> snd (me_wait e)"
  by (auto simp: me_wait_def signal_object_and_wait_def Let_def WAIT_OBJECT_0_def WAIT_FAILED_def)

end
