(* ===== verification/Work_Queue.thy ===== *)
theory Work_Queue
  imports Sync_Condition "HOL-Library.Multiset"
begin

text \<open>
  Queues between threads: the schedulers of \<open>include/multi_thread/thread_pool/scheduler.hpp\<close> and
  \<open>blocking_queue_t\<close> of \<open>include/extend_stl/container/blocking_queue.hpp\<close>. All have a container, a
  lock and a condition; they differ in where \<open>push\<close> inserts and in the condition. What happens
  under the lock is one step; the calls of the condition interleave with all other threads.
  In the locale of condition variables: elements come out in order, none is lost or duplicated,
  and no consumer stays blocked while there is an element for it.
\<close>

section \<open>Schedulers\<close>

text \<open>\<open>woken\<close> counts the threads whose wait has returned and which are about to lock again.\<close>

record ('a, 'c) sched =
  queue :: "'a list"
  not_empty :: 'c
  woken :: nat

definition new_sched :: "'c \<Rightarrow> ('a, 'c) sched" where
  "new_sched c = \<lparr>queue = [], not_empty = c, woken = 0\<rparr>"

text \<open>Where \<open>push\<close> puts the task: \<open>push_back\<close> of the first-in-first-out scheduler,
  \<open>push_front\<close> of the last-in-first-out one.\<close>

definition fifo_push :: "'a \<Rightarrow> 'a list \<Rightarrow> 'a list" where
  "fifo_push task q = q @ [task]"

definition lifo_push :: "'a \<Rightarrow> 'a list \<Rightarrow> 'a list" where
  "lifo_push task q = task # q"

definition sched_push :: "('a \<Rightarrow> 'a list \<Rightarrow> 'a list) \<Rightarrow> ('c \<Rightarrow> 'c) \<Rightarrow> 'a \<Rightarrow> ('a, 'c) sched \<Rightarrow> ('a, 'c) sched" where
  "sched_push ins start_signal task s =
     s\<lparr>queue := ins task (queue s), not_empty := start_signal (not_empty s)\<rparr>"

text \<open>\<open>pop\<close> from where it holds the lock: it takes the front or begins to wait.\<close>

definition sched_pop :: "('c \<Rightarrow> 'c) \<Rightarrow> ('a, 'c) sched \<Rightarrow> 'a option \<times> ('a, 'c) sched" where
  "sched_pop start_wait s = (case queue s of
     [] \<Rightarrow> (None, s\<lparr>not_empty := start_wait (not_empty s)\<rparr>)
   | val # rest \<Rightarrow> (Some val, s\<lparr>queue := rest\<rparr>))"

definition sched_retry :: "('c \<Rightarrow> 'c) \<Rightarrow> ('a, 'c) sched \<Rightarrow> ('a option \<times> ('a, 'c) sched) option" where
  "sched_retry start_wait s = (if woken s = 0 then None
     else Some (sched_pop start_wait (s\<lparr>woken := woken s - 1\<rparr>)))"

definition sched_clear :: "('a, 'c) sched \<Rightarrow> ('a, 'c) sched" where
  "sched_clear s = s\<lparr>queue := []\<rparr>"

definition sched_size :: "('a, 'c) sched \<Rightarrow> nat" where
  "sched_size s = length (queue s)"

definition sched_empty :: "('a, 'c) sched \<Rightarrow> bool" where
  "sched_empty s \<longleftrightarrow> queue s = []"

text \<open>
  What can happen to a queue: a thread pushes, a thread calls \<open>pop\<close>, a wait returns, a thread goes
  on after its wait, a signal goes on, the queue is cleared. The result of \<open>pop\<close> is recorded.
\<close>

datatype 'a sched_event = Push 'a | Pop "'a option" | Woke | Expired | Retry "'a option" | Signal | Clear

inductive sched_step ::
  "('a \<Rightarrow> 'a list \<Rightarrow> 'a list) \<Rightarrow> ('c \<Rightarrow> 'c) \<Rightarrow> ('c \<Rightarrow> 'c) \<Rightarrow> ('c \<Rightarrow> 'c option) \<Rightarrow> ('c \<Rightarrow> 'c option) \<Rightarrow>
   ('p \<Rightarrow> 'c \<Rightarrow> 'c option) \<Rightarrow> ('a, 'c) sched \<Rightarrow> 'a sched_event \<Rightarrow> ('a, 'c) sched \<Rightarrow> bool"
  for ins start_wait start_signal wake expire advance
  where
  push: "sched_step ins start_wait start_signal wake expire advance s (Push x) (sched_push ins start_signal x s)"
| pop: "sched_pop start_wait s = (r, s') \<Longrightarrow>
    sched_step ins start_wait start_signal wake expire advance s (Pop r) s'"
| woke: "wake (not_empty s) = Some c \<Longrightarrow>
    sched_step ins start_wait start_signal wake expire advance s Woke (s\<lparr>not_empty := c, woken := Suc (woken s)\<rparr>)"
| expired: "expire (not_empty s) = Some c \<Longrightarrow>
    sched_step ins start_wait start_signal wake expire advance s Expired (s\<lparr>not_empty := c, woken := Suc (woken s)\<rparr>)"
| retry: "sched_retry start_wait s = Some (r, s') \<Longrightarrow>
    sched_step ins start_wait start_signal wake expire advance s (Retry r) s'"
| signal: "advance p (not_empty s) = Some c \<Longrightarrow>
    sched_step ins start_wait start_signal wake expire advance s Signal (s\<lparr>not_empty := c\<rparr>)"
| clear: "sched_step ins start_wait start_signal wake expire advance s Clear (sched_clear s)"

inductive_cases sched_stepE: "sched_step ins sw ss wk ex adv s e s'"

inductive sched_run ::
  "('a \<Rightarrow> 'a list \<Rightarrow> 'a list) \<Rightarrow> ('c \<Rightarrow> 'c) \<Rightarrow> ('c \<Rightarrow> 'c) \<Rightarrow> ('c \<Rightarrow> 'c option) \<Rightarrow> ('c \<Rightarrow> 'c option) \<Rightarrow>
   ('p \<Rightarrow> 'c \<Rightarrow> 'c option) \<Rightarrow> ('a, 'c) sched \<Rightarrow> 'a sched_event list \<Rightarrow> ('a, 'c) sched \<Rightarrow> bool"
  for ins start_wait start_signal wake expire advance
  where
  start: "sched_run ins start_wait start_signal wake expire advance s [] s"
| next_step: "sched_run ins start_wait start_signal wake expire advance s es s' \<Longrightarrow>
    sched_step ins start_wait start_signal wake expire advance s' e s'' \<Longrightarrow>
    sched_run ins start_wait start_signal wake expire advance s (es @ [e]) s''"

text \<open>The schedulers of the thread pool, which use \<open>semaphore_condition\<close> and wait without a timeout.\<close>

definition no_timeout :: "'c \<Rightarrow> 'c option" where
  "no_timeout c = None"

abbreviation scheduler_step :: "('a \<Rightarrow> 'a list \<Rightarrow> 'a list) \<Rightarrow> ('a, semaphore_condition) sched \<Rightarrow> 'a sched_event \<Rightarrow>
    ('a, semaphore_condition) sched \<Rightarrow> bool" where
  "scheduler_step ins \<equiv> sched_step ins cond_wait cond_signal sem_wake no_timeout sig_exec"

abbreviation scheduler_run :: "('a \<Rightarrow> 'a list \<Rightarrow> 'a list) \<Rightarrow> ('a, semaphore_condition) sched \<Rightarrow> 'a sched_event list \<Rightarrow>
    ('a, semaphore_condition) sched \<Rightarrow> bool" where
  "scheduler_run ins \<equiv> sched_run ins cond_wait cond_signal sem_wake no_timeout sig_exec"

section \<open>The blocking queue\<close>

text \<open>
  \<open>std::condition_variable\<close>: \<open>notify_one\<close> lets one blocked thread go if there is one; a wait may
  also end without a notification. \<open>cv_notified\<close> of the \<open>cv_blocked\<close> threads have been notified;
  \<open>cv_calls\<close> threads are about to call \<open>notify_one\<close>.
\<close>

record std_condition =
  cv_blocked :: nat
  cv_notified :: nat
  cv_calls :: nat

definition new_cv :: std_condition where
  "new_cv = \<lparr>cv_blocked = 0, cv_notified = 0, cv_calls = 0\<rparr>"

definition cv_wait :: "std_condition \<Rightarrow> std_condition" where
  "cv_wait c = c\<lparr>cv_blocked := Suc (cv_blocked c)\<rparr>"

definition cv_call_notify :: "std_condition \<Rightarrow> std_condition" where
  "cv_call_notify c = c\<lparr>cv_calls := Suc (cv_calls c)\<rparr>"

definition cv_notify_one :: "unit \<Rightarrow> std_condition \<Rightarrow> std_condition option" where
  "cv_notify_one u c = (if cv_calls c = 0 then None else Some (let c' = c\<lparr>cv_calls := cv_calls c - 1\<rparr> in
     if cv_notified c < cv_blocked c then c'\<lparr>cv_notified := Suc (cv_notified c)\<rparr> else c'))"

definition cv_wake :: "std_condition \<Rightarrow> std_condition option" where
  "cv_wake c = (if cv_notified c > 0 \<and> cv_blocked c > 0
     then Some (c\<lparr>cv_notified := cv_notified c - 1, cv_blocked := cv_blocked c - 1\<rparr>) else None)"

definition cv_spurious :: "std_condition \<Rightarrow> std_condition option" where
  "cv_spurious c = (if cv_notified c < cv_blocked c
     then Some (c\<lparr>cv_blocked := cv_blocked c - 1\<rparr>) else None)"

text \<open>\<open>put\<close>, \<open>get\<close> and \<open>clear\<close> are \<open>sched_push\<close>, \<open>sched_pop\<close> and \<open>sched_clear\<close> on this condition.\<close>

definition bq_put :: "'a \<Rightarrow> ('a, std_condition) sched \<Rightarrow> ('a, std_condition) sched" where
  "bq_put x = sched_push fifo_push cv_call_notify x"

definition bq_get :: "('a, std_condition) sched \<Rightarrow> 'a option \<times> ('a, std_condition) sched" where
  "bq_get = sched_pop cv_wait"

definition bq_for_each :: "('a \<Rightarrow> 'b \<Rightarrow> 'b) \<Rightarrow> ('a, std_condition) sched \<Rightarrow> 'b \<Rightarrow> 'b" where
  "bq_for_each func s acc = fold func (queue s) acc"

abbreviation bq_run :: "('a, std_condition) sched \<Rightarrow> 'a sched_event list \<Rightarrow> ('a, std_condition) sched \<Rightarrow> bool" where
  "bq_run \<equiv> sched_run fifo_push cv_wait cv_call_notify cv_wake cv_spurious cv_notify_one"

interpretation cv: condition_variable new_cv cv_wait cv_call_notify cv_wake cv_spurious cv_notify_one
  cv_blocked cv_notified cv_calls "\<lambda>c. 4 * cv_calls c + 2 * cv_notified c" "\<lambda>n c. True" limit for limit
  by unfold_locales
    (auto simp: new_cv_def cv_wait_def cv_call_notify_def cv_notify_one_def cv_wake_def cv_spurious_def
      Let_def split: if_splits)

section \<open>Order, and no lost wake-ups\<close>

text \<open>What a run has given to the queue and taken from it; the steps threads inside the queue make
  by themselves.\<close>

fun given :: "'a sched_event list \<Rightarrow> 'a list" where
  "given [] = []"
| "given (Push x # es) = x # given es"
| "given (_ # es) = given es"

fun taken :: "'a sched_event list \<Rightarrow> 'a list" where
  "taken [] = []"
| "taken (Pop (Some x) # es) = x # taken es"
| "taken (Retry (Some x) # es) = x # taken es"
| "taken (_ # es) = taken es"

fun internal :: "'a sched_event \<Rightarrow> bool" where
  "internal Woke = True"
| "internal Signal = True"
| "internal (Retry r) = True"
| "internal _ = False"

lemma given_append [simp]: "given (es @ es') = given es @ given es'"
  by (induction es rule: given.induct) auto

lemma taken_append [simp]: "taken (es @ es') = taken es @ taken es'"
  by (induction es rule: taken.induct) auto

lemma sched_run_trans:
  "sched_run ins sw ss wk ex adv s1 es' s2 \<Longrightarrow> sched_run ins sw ss wk ex adv s es s1 \<Longrightarrow>
   sched_run ins sw ss wk ex adv s (es @ es') s2"
  by (induction rule: sched_run.induct) (auto intro: sched_run.intros simp flip: append_assoc)

lemma sched_step_mset:
  assumes "sched_step ins sw ss wk ex adv s e s'" "e \<noteq> Clear" "\<And>x q. mset (ins x q) = add_mset x (mset q)"
  shows "mset (queue s) + mset (given [e]) = mset (taken [e]) + mset (queue s')"
  using assms by (auto elim!: sched_stepE simp: sched_push_def sched_pop_def sched_retry_def
      split: list.splits if_splits)

lemma sched_run_mset:
  assumes "sched_run ins sw ss wk ex adv (new_sched c) es s" "Clear \<notin> set es"
    "\<And>x q. mset (ins x q) = add_mset x (mset q)"
  shows "mset (given es) = mset (taken es) + mset (queue s)"
  using assms(1,2)
proof (induction "new_sched c :: ('a, 'b) sched" es s rule: sched_run.induct)
  case (next_step es s' e s'')
  then show ?case using sched_step_mset [OF next_step(3) _ assms(3)] by (auto simp: ac_simps)
qed (simp add: new_sched_def)

lemma sched_step_fifo:
  assumes "sched_step fifo_push sw ss wk ex adv s e s'" "e \<noteq> Clear"
  shows "queue s @ given [e] = taken [e] @ queue s'"
  using assms by (auto elim!: sched_stepE simp: sched_push_def sched_pop_def sched_retry_def fifo_push_def
      split: list.splits if_splits)

lemma sched_run_fifo:
  assumes "sched_run fifo_push sw ss wk ex adv (new_sched c) es s" "Clear \<notin> set es"
  shows "given es = taken es @ queue s"
  using assms
proof (induction "new_sched c :: ('a, 'b) sched" es s rule: sched_run.induct)
  case (next_step es s' e s'')
  then show ?case using sched_step_fifo [OF next_step(3)] by auto
qed (simp add: new_sched_def)

lemma fifo_lifo_mset:
  "mset (fifo_push x q) = add_mset x (mset q)" "mset (lifo_push x q) = add_mset x (mset q)"
  by (simp_all add: fifo_push_def lifo_push_def)

context condition_variable
begin

text \<open>What makes wake-ups safe: every element has a permission, a signal under way or a thread that is about
  to look; or all who wait have a permission.\<close>

lemma step_inv:
  assumes step: "sched_step ins start_wait start_signal wake ex advance s e s'"
    and inv: "cinv n (not_empty s)" "n < limit"
      "length (queue s) \<le> ready (not_empty s) + pending (not_empty s) + woken s \<or>
       waiting (not_empty s) \<le> ready (not_empty s)"
    and ins: "\<And>x q. length (ins x q) = Suc (length q)" and ex: "\<And>c c'. ex c = Some c' \<Longrightarrow> expire c = Some c'"
  shows "cinv (Suc n) (not_empty s') \<and>
    (length (queue s') \<le> ready (not_empty s') + pending (not_empty s') + woken s' \<or>
     waiting (not_empty s') \<le> ready (not_empty s'))"
  using step
proof cases
  case (push x)
  then show ?thesis using inv by (auto simp: sched_push_def ins start_signal)
next
  case (pop r)
  then show ?thesis using inv inv_mono by (auto simp: sched_pop_def start_wait split: list.splits)
next
  case (woke c)
  then show ?thesis using inv wake [OF woke(3)] by auto
next
  case (expired c)
  then show ?thesis using inv expire [OF ex [OF expired(3)]] by auto
next
  case (retry r)
  then show ?thesis using inv inv_mono
    by (auto simp: sched_retry_def sched_pop_def start_wait split: list.splits if_splits)
next
  case (signal p c)
  then show ?thesis using inv advance [OF signal(3)] by fastforce
next
  case clear
  then show ?thesis using inv inv_mono by (auto simp: sched_clear_def)
qed

lemma run_inv:
  assumes "sched_run ins start_wait start_signal wake ex advance (new_sched fresh) es s" "length es \<le> limit"
    and "\<And>x q. length (ins x q) = Suc (length q)" "\<And>c c'. ex c = Some c' \<Longrightarrow> expire c = Some c'"
  shows "cinv (length es) (not_empty s) \<and>
    (length (queue s) \<le> ready (not_empty s) + pending (not_empty s) + woken s \<or>
     waiting (not_empty s) \<le> ready (not_empty s))"
  using assms(1,2)
proof (induction "new_sched fresh :: ('a, 'c) sched" es s rule: sched_run.induct)
  case (next_step es s' e s'')
  then show ?case using step_inv [OF next_step(3) _ _ _ assms(3,4), of "length es"] by simp
qed (simp add: new_sched_def fresh)

text \<open>Threads left to themselves come to rest after a bounded number of steps, and at rest nobody waits
  while there is an element.\<close>

lemma internal_step_decreases:
  assumes "sched_step ins start_wait start_signal wake ex advance s e s'" "internal e"
    "cinv n (not_empty s)" "n < limit"
  shows "Suc (weight (not_empty s') + woken s') \<le> weight (not_empty s) + woken s"
  using assms
proof cases
  case (woke c)
  then show ?thesis using wake(5) [OF woke(3)] by simp
next
  case (retry r)
  then show ?thesis by (auto simp: sched_retry_def sched_pop_def start_wait split: list.splits if_splits)
next
  case (signal p c)
  then show ?thesis using advance(5) [OF signal(3) assms(3,4)] by simp
qed auto

lemma internal_run_bounded:
  assumes "sched_run ins start_wait start_signal wake ex advance s es' s'"
    and "sched_run ins start_wait start_signal wake ex advance (new_sched fresh) es s"
    and "list_all internal es'" "length es + length es' \<le> limit"
    and "\<And>x q. length (ins x q) = Suc (length q)" "\<And>c c'. ex c = Some c' \<Longrightarrow> expire c = Some c'"
  shows "length es' + weight (not_empty s') + woken s' \<le> weight (not_empty s) + woken s"
  using assms(1-4)
proof (induction rule: sched_run.induct)
  case (next_step s es' s1 e s2)
  have "cinv (length (es @ es')) (not_empty s1)"
    using run_inv [OF sched_run_trans [OF next_step(1,4)] _ assms(5,6)] next_step(6) by simp
  then show ?case using next_step internal_step_decreases [OF next_step(2)] by fastforce
qed simp

lemma at_rest:
  assumes "sched_run ins start_wait start_signal wake ex advance (new_sched fresh) es s" "length es \<le> limit"
    and "\<And>x q. length (ins x q) = Suc (length q)" "\<And>c c'. ex c = Some c' \<Longrightarrow> expire c = Some c'"
    and rest: "\<And>e s'. internal e \<Longrightarrow> \<not> sched_step ins start_wait start_signal wake ex advance s e s'"
  shows "woken s = 0 \<and> (queue s = [] \<or> waiting (not_empty s) = 0)"
proof -
  have "woken s = 0" using rest [of "Retry _"] retry [of start_wait s]
    by (metis internal.simps(3) neq0_conv prod.collapse sched_retry_def)
  moreover have "pending (not_empty s) = 0"
    using rest [of Signal] signal [of advance _ s] progress(1) by fastforce
  moreover have "ready (not_empty s) = 0 \<or> waiting (not_empty s) = 0"
    using rest [of Woke] woke [of wake s] progress(2) by fastforce
  ultimately show ?thesis using run_inv [OF assms(1-4)] by auto
qed

end

section \<open>Property\<close>

text \<open>
  C23. The queues of the thread pool and \<open>blocking_queue_t\<close>. In every run without \<open>Clear\<close>, under any interleaving of
  producers, consumers and the calls inside the condition: elements are taken in the order in which they were
  given, none is lost or duplicated; the threads in the queue come to rest after a bounded number of steps; and at
  rest no consumer is blocked while there is an element. For the scheduler's own condition this holds for runs of up
  to \<open>LONG_MAX\<close> steps.
\<close>

theorem queues_deliver:
  "(scheduler_run fifo_push (new_sched new_condition) es s \<and> length es \<le> LONG_MAX \<and> Clear \<notin> set es \<longrightarrow>
      given es = taken es @ queue s \<and>
      (\<forall>es' s'. scheduler_run fifo_push s es' s' \<and> list_all internal es' \<and> length es + length es' \<le> LONG_MAX \<longrightarrow>
         length es' \<le> sem_weight (not_empty s) + woken s) \<and>
      ((\<forall>e s'. internal e \<longrightarrow> \<not> scheduler_step fifo_push s e s') \<longrightarrow>
         queue s = [] \<or> blocked (not_empty s) = 0)) \<and>
   (bq_run (new_sched new_cv) es b \<and> Clear \<notin> set es \<longrightarrow>
      given es = taken es @ queue b \<and>
      (\<forall>es' b'. bq_run b es' b' \<and> list_all internal es' \<longrightarrow>
         length es' \<le> 4 * cv_calls (not_empty b) + 2 * cv_notified (not_empty b) + woken b) \<and>
      ((\<forall>e b'. internal e \<longrightarrow> \<not> sched_step fifo_push cv_wait cv_call_notify cv_wake cv_spurious cv_notify_one b e b') \<longrightarrow>
         queue b = [] \<or> cv_blocked (not_empty b) = 0))"
proof (intro conjI impI allI)
  assume run: "scheduler_run fifo_push (new_sched new_condition) es s \<and> length es \<le> LONG_MAX \<and> Clear \<notin> set es"
  note laws = fifo_push_def no_timeout_def
  show "given es = taken es @ queue s" using run by (elim conjE) (rule sched_run_fifo)
  show "length es' \<le> sem_weight (not_empty s) + woken s"
    if "scheduler_run fifo_push s es' s' \<and> list_all internal es' \<and> length es + length es' \<le> LONG_MAX" for es' s'
    using sem.internal_run_bounded [of fifo_push no_timeout s es' s' es] run that by (simp add: laws)
  show "queue s = [] \<or> blocked (not_empty s) = 0"
    if "\<forall>e s'. internal e \<longrightarrow> \<not> scheduler_step fifo_push s e s'"
    using sem.at_rest [of fifo_push no_timeout es s] run that by (simp add: laws)
next
  assume run: "bq_run (new_sched new_cv) es b \<and> Clear \<notin> set es"
  note laws = fifo_push_def
  show "given es = taken es @ queue b" using run by (elim conjE) (rule sched_run_fifo)
  show "length es' \<le> 4 * cv_calls (not_empty b) + 2 * cv_notified (not_empty b) + woken b"
    if "bq_run b es' b' \<and> list_all internal es'" for es' b'
    using cv.internal_run_bounded [of fifo_push cv_spurious b es' b' es "length es + length es'"] run that
    by (simp add: laws)
  show "queue b = [] \<or> cv_blocked (not_empty b) = 0"
    if "\<forall>e b'. internal e \<longrightarrow> \<not> sched_step fifo_push cv_wait cv_call_notify cv_wake cv_spurious cv_notify_one b e b'"
    using cv.at_rest [of fifo_push cv_spurious es b "length es"] run that by (simp add: laws)
qed

lemma sched_run_Cons:
  "sched_step ins sw ss wk ex adv s e s1 \<Longrightarrow> sched_run ins sw ss wk ex adv s1 es s2 \<Longrightarrow>
   sched_run ins sw ss wk ex adv s (e # es) s2"
  using sched_run_trans [OF _ sched_run.next_step [OF sched_run.start, of ins sw ss wk ex adv s e s1]] by fastforce

lemmas sched_ops = sched_pop_def sched_push_def sched_retry_def new_sched_def fifo_push_def lifo_push_def
  new_condition_def cond_wait_def cond_signal_def sem_wake_def sem_release_def sem_add_count_def LONG_MAX_def
  new_cv_def cv_wait_def cv_call_notify_def cv_notify_one_def cv_wake_def Let_def

text \<open>A consumer that waits before the element comes, on both conditions.\<close>

lemma demo_scheduler_run:
  "\<exists>s. scheduler_run fifo_push (new_sched new_condition)
     [Pop None, Push (7::nat), Signal, Signal, Woke, Retry (Some 7)] s"
  apply (rule exI)
  apply (rule sched_run_Cons, rule sched_step.pop, simp add: sched_ops)
  apply (rule sched_run_Cons, rule sched_step.push)
  apply (rule sched_run_Cons, rule sched_step.signal [where p = At_Test], simp add: sched_ops)
  apply (rule sched_run_Cons, rule sched_step.signal [where p = At_Release], simp add: sched_ops)
  apply (rule sched_run_Cons, rule sched_step.woke, simp add: sched_ops)
  apply (rule sched_run_Cons, rule sched_step.retry, simp add: sched_ops)
  apply (rule sched_run.start)
  done

lemma demo_bq_run:
  "\<exists>b. bq_run (new_sched new_cv) [Pop None, Push (7::nat), Signal, Woke, Retry (Some 7)] b"
  apply (rule exI)
  apply (rule sched_run_Cons, rule sched_step.pop, simp add: sched_ops)
  apply (rule sched_run_Cons, rule sched_step.push)
  apply (rule sched_run_Cons, rule sched_step.signal [where p = "()"], simp add: sched_ops)
  apply (rule sched_run_Cons, rule sched_step.woke, simp add: sched_ops)
  apply (rule sched_run_Cons, rule sched_step.retry, simp add: sched_ops)
  apply (rule sched_run.start)
  done

theorem queues_deliver_witness:
  "(\<exists>s. let es = [Pop None, Push (7::nat), Signal, Signal, Woke, Retry (Some 7)] in
      scheduler_run fifo_push (new_sched new_condition) es s \<and> queue s = []) \<and>
   (\<exists>b. let es = [Pop None, Push (7::nat), Signal, Woke, Retry (Some 7)] in
      bq_run (new_sched new_cv) es b \<and> queue b = [])"
proof -
  let ?es = "[Pop None, Push (7::nat), Signal, Signal, Woke, Retry (Some 7)]"
    and ?bs = "[Pop None, Push (7::nat), Signal, Woke, Retry (Some 7)]"
  obtain s where s: "scheduler_run fifo_push (new_sched new_condition) ?es s" using demo_scheduler_run by blast
  obtain b where b: "bq_run (new_sched new_cv) ?bs b" using demo_bq_run by blast
  have "queue s = []" using conjunct1 [OF queues_deliver [of ?es s b]] s by (simp add: LONG_MAX_def)
  moreover have "queue b = []" using conjunct2 [OF queues_deliver [of ?bs s b]] b by simp
  ultimately show ?thesis using s b unfolding Let_def by blast
qed

end
