(* ===== verification/Thread_Pool.thy ===== *)
theory Thread_Pool
  imports Work_Queue
begin

text \<open>
  The thread pool: \<open>thread_pool_impl_t\<close>, its worker threads and size policies
  (\<open>include/multi_thread/thread_pool\<close>), on the schedulers of \<open>Work_Queue\<close>. Every call on the
  shared counter is a step of its own; tasks are opaque and return. An empty \<open>std::function\<close> is
  \<^term>\<open>None\<close>; it is what ends a worker.
\<close>

section \<open>The pool\<close>

text \<open>
  The members of the pool, and its threads by what they are about to do: \<open>idle\<close> call \<open>pop\<close>,
  \<open>got\<close> have a task and count down \<open>active_num_\<close>, \<open>running\<close> are in the task, \<open>returned\<close> are about to count up,
  \<open>exited\<close> have left \<open>run\<close>. Threads inside \<open>pop\<close> are those of the scheduler.
\<close>

record 't thread_pool =
  scheduler :: "('t option, semaphore_condition) sched"
  workers :: nat
  active_num :: u32
  idle :: nat
  got :: "'t multiset"
  running :: "'t multiset"
  returned :: nat
  exited :: nat

text \<open>\<open>resize\<close> creates threads; shrinking destroys workers, whose destructor waits for a thread that
  ends only on an empty task: it does not return by itself (\<^term>\<open>None\<close>).\<close>

definition tp_resize :: "nat \<Rightarrow> 't thread_pool \<Rightarrow> 't thread_pool option" where
  "tp_resize work_cnt p = (if workers p > work_cnt then None
     else Some (p\<lparr>workers := work_cnt, idle := idle p + (work_cnt - workers p)\<rparr>))"

definition empty_pool :: "'t thread_pool" where
  "empty_pool = \<lparr>scheduler = new_sched new_condition, workers = 0, active_num = 0, idle = 0,
     got = {#}, running = {#}, returned = 0, exited = 0\<rparr>"

definition new_thread_pool :: "nat \<Rightarrow> 't thread_pool" where
  "new_thread_pool cnt = the (tp_resize (if cnt = 0 then 4 else cnt) empty_pool)"

text \<open>The size policies: what \<open>schedule\<close> asks for when it believes that all workers are busy.\<close>

definition static_size :: "nat \<Rightarrow> 't thread_pool \<Rightarrow> 't thread_pool option" where
  "static_size cnt p = Some p"

definition dynamic_size :: "nat \<Rightarrow> 't thread_pool \<Rightarrow> 't thread_pool option" where
  "dynamic_size cnt p = tp_resize cnt p"

type_synonym 't size_policy = "nat \<Rightarrow> 't thread_pool \<Rightarrow> 't thread_pool option"
type_synonym 't insert = "'t option \<Rightarrow> 't option list \<Rightarrow> 't option list"

definition tp_push :: "'t insert \<Rightarrow> 't option \<Rightarrow> 't thread_pool \<Rightarrow> 't thread_pool" where
  "tp_push ins task p = p\<lparr>scheduler := sched_push ins cond_signal task (scheduler p)\<rparr>"

definition tp_schedule :: "'t size_policy \<Rightarrow> 't insert \<Rightarrow> 't option \<Rightarrow> 't thread_pool \<Rightarrow> 't thread_pool option" where
  "tp_schedule size_ctl ins task p = map_option (tp_push ins task)
     (if active_num p = of_nat (workers p) then size_ctl (workers p + 1) p else Some p)"

text \<open>\<open>terminate\<close> pushes an empty task for every worker, then destroys the workers, which waits for
  their threads.\<close>

definition tp_terminate :: "'t insert \<Rightarrow> 't thread_pool \<Rightarrow> 't thread_pool" where
  "tp_terminate ins p = (tp_push ins None ^^ workers p) p"

definition tp_clear :: "'t thread_pool \<Rightarrow> 't thread_pool" where
  "tp_clear p = p\<lparr>scheduler := sched_clear (scheduler p)\<rparr>"

definition tp_empty :: "'t thread_pool \<Rightarrow> bool" where
  "tp_empty p = sched_empty (scheduler p)"

text \<open>\<open>exceute_task\<close> (as it is spelt) after \<open>pop\<close>: no result means that the thread waits in \<open>pop\<close>; an
  empty task ends \<open>run\<close>.\<close>

fun tp_dispatch :: "'t option option \<Rightarrow> 't thread_pool \<Rightarrow> 't thread_pool" where
  "tp_dispatch None p = p"
| "tp_dispatch (Some None) p = p\<lparr>exited := Suc (exited p)\<rparr>"
| "tp_dispatch (Some (Some t)) p = p\<lparr>got := add_mset t (got p)\<rparr>"

definition tp_pop :: "'t thread_pool \<Rightarrow> ('t option option \<times> 't thread_pool) option" where
  "tp_pop p = (if idle p = 0 then None else
     let (r, s) = sched_pop cond_wait (scheduler p) in
     Some (r, tp_dispatch r (p\<lparr>idle := idle p - 1, scheduler := s\<rparr>)))"

definition tp_retry :: "'t thread_pool \<Rightarrow> ('t option option \<times> 't thread_pool) option" where
  "tp_retry p = map_option (\<lambda>(r, s). (r, tp_dispatch r (p\<lparr>scheduler := s\<rparr>)))
     (sched_retry cond_wait (scheduler p))"

definition tp_begin :: "'t \<Rightarrow> 't thread_pool \<Rightarrow> 't thread_pool option" where
  "tp_begin t p = (if t \<in># got p then Some (p\<lparr>got := got p - {#t#}, active_num := active_num p - 1,
     running := add_mset t (running p)\<rparr>) else None)"

definition tp_finish :: "'t \<Rightarrow> 't thread_pool \<Rightarrow> 't thread_pool option" where
  "tp_finish t p = (if t \<in># running p then Some (p\<lparr>running := running p - {#t#}, returned := Suc (returned p)\<rparr>)
     else None)"

definition tp_count :: "'t thread_pool \<Rightarrow> 't thread_pool option" where
  "tp_count p = (if returned p = 0 then None
     else Some (p\<lparr>returned := returned p - 1, active_num := active_num p + 1, idle := Suc (idle p)\<rparr>))"

section \<open>Runs of the pool\<close>

datatype 't pool_event = Queue "'t option sched_event" | Begin 't | Finish 't | Count

inductive tp_step :: "'t size_policy \<Rightarrow> 't insert \<Rightarrow> 't thread_pool \<Rightarrow> 't pool_event \<Rightarrow> 't thread_pool \<Rightarrow> bool"
  for size_ctl ins where
  schedule: "tp_schedule size_ctl ins task p = Some p' \<Longrightarrow> tp_step size_ctl ins p (Queue (Push task)) p'"
| terminate: "tp_step size_ctl ins p (Queue (Push None)) (tp_push ins None p)"
| clear: "tp_step size_ctl ins p (Queue Clear) (tp_clear p)"
| pop: "tp_pop p = Some (r, p') \<Longrightarrow> tp_step size_ctl ins p (Queue (Pop r)) p'"
| retry: "tp_retry p = Some (r, p') \<Longrightarrow> tp_step size_ctl ins p (Queue (Retry r)) p'"
| woke: "sem_wake (not_empty (scheduler p)) = Some c \<Longrightarrow> tp_step size_ctl ins p (Queue Woke)
    (p\<lparr>scheduler := (scheduler p)\<lparr>not_empty := c, woken := Suc (woken (scheduler p))\<rparr>\<rparr>)"
| signal: "sig_exec pc (not_empty (scheduler p)) = Some c \<Longrightarrow> tp_step size_ctl ins p (Queue Signal)
    (p\<lparr>scheduler := (scheduler p)\<lparr>not_empty := c\<rparr>\<rparr>)"
| begins: "tp_begin t p = Some p' \<Longrightarrow> tp_step size_ctl ins p (Begin t) p'"
| finish: "tp_finish t p = Some p' \<Longrightarrow> tp_step size_ctl ins p (Finish t) p'"
| count: "tp_count p = Some p' \<Longrightarrow> tp_step size_ctl ins p Count p'"

inductive_cases tp_stepE: "tp_step size_ctl ins p e p'"

inductive tp_run :: "'t size_policy \<Rightarrow> 't insert \<Rightarrow> 't thread_pool \<Rightarrow> 't pool_event list \<Rightarrow> 't thread_pool \<Rightarrow> bool"
  for size_ctl ins where
  start: "tp_run size_ctl ins p [] p"
| next_step: "tp_run size_ctl ins p es p' \<Longrightarrow> tp_step size_ctl ins p' e p'' \<Longrightarrow>
    tp_run size_ctl ins p (es @ [e]) p''"

text \<open>The queue's part of a run, the tasks that have run to their end, and the steps of the pool's own threads.\<close>

fun queue_events :: "'t pool_event list \<Rightarrow> 't option sched_event list" where
  "queue_events [] = []"
| "queue_events (Queue e # es) = e # queue_events es"
| "queue_events (_ # es) = queue_events es"

fun finished :: "'t pool_event list \<Rightarrow> 't list" where
  "finished [] = []"
| "finished (Finish t # es) = t # finished es"
| "finished (_ # es) = finished es"

fun own_step :: "'t pool_event \<Rightarrow> bool" where
  "own_step (Queue (Pop r)) = True"
| "own_step (Queue e) = internal e"
| "own_step _ = True"

lemma queue_events_append [simp]: "queue_events (es @ es') = queue_events es @ queue_events es'"
  by (induction es rule: queue_events.induct) auto

lemma finished_append [simp]: "finished (es @ es') = finished es @ finished es'"
  by (induction es rule: finished.induct) auto

lemma length_queue_events: "length (queue_events es) \<le> length es"
  by (induction es rule: queue_events.induct) auto

section \<open>Where threads and tasks are\<close>

text \<open>
  Each thread is in one place, \<open>active_num\<close> is minus the number of threads that run a task, and
  every task taken from the queue is with a thread or finished; every worker that ended has taken an empty task.
\<close>

definition tp_inv :: "nat \<Rightarrow> 't pool_event list \<Rightarrow> 't thread_pool \<Rightarrow> bool" where
  "tp_inv n es p \<longleftrightarrow> workers p = n \<and>
     idle p + blocked (not_empty (scheduler p)) + woken (scheduler p) + size (got p) + size (running p) +
       returned p + exited p = n \<and>
     active_num p + of_nat (size (running p) + returned p) = 0 \<and>
     mset (taken (queue_events es)) =
       image_mset Some (got p + running p + mset (finished es)) + replicate_mset (exited p) None"

text \<open>So the comparison of \<open>schedule\<close> with the number of workers never succeeds: the size policy is never asked.\<close>

lemma active_num_not_size:
  assumes "tp_inv n es p" "0 < n" "n < 2 ^ 31"
  shows "active_num p \<noteq> of_nat (workers p)"
proof
  let ?k = "size (running p) + returned p"
  assume "active_num p = of_nat (workers p)"
  then have "(of_nat (n + ?k) :: u32) = 0" using assms(1) by (auto simp: tp_inv_def)
  moreover have "n + ?k < 2 ^ 32" using assms by (auto simp: tp_inv_def)
  ultimately have "n + ?k = 0" using unat_of_nat_u32 [of "n + ?k"] by simp
  then show False using assms(2) by simp
qed

lemma tp_schedule_push:
  "tp_inv n es p \<Longrightarrow> 0 < n \<Longrightarrow> n < 2 ^ 31 \<Longrightarrow> tp_schedule size_ctl ins task p = Some (tp_push ins task p)"
  by (simp add: tp_schedule_def active_num_not_size)

lemma sched_pop_blocked:
  "sched_pop cond_wait s = (r, s') \<Longrightarrow> woken s' = woken s \<and>
     blocked (not_empty s') = (case r of None \<Rightarrow> Suc (blocked (not_empty s)) | Some _ \<Rightarrow> blocked (not_empty s))"
  by (auto simp: sched_pop_def cond_wait_def split: list.splits)

lemma tp_popE:
  assumes "tp_pop p = Some (r, p')"
  obtains s' where "sched_pop cond_wait (scheduler p) = (r, s')" "0 < idle p"
    "p' = tp_dispatch r (p\<lparr>idle := idle p - 1, scheduler := s'\<rparr>)"
  using assms by (auto simp: tp_pop_def split: if_splits prod.splits)

lemma tp_retryE:
  assumes "tp_retry p = Some (r, p')"
  obtains s' where "sched_pop cond_wait ((scheduler p)\<lparr>woken := woken (scheduler p) - 1\<rparr>) = (r, s')"
    "0 < woken (scheduler p)" "p' = tp_dispatch r (p\<lparr>idle := idle p, scheduler := s'\<rparr>)"
  using assms by (auto simp: tp_retry_def sched_retry_def split: if_splits prod.splits)

lemma tp_dispatch_inv:
  assumes "tp_inv n es (p\<lparr>idle := i, scheduler := s0\<rparr>)"
    and "i + blocked (not_empty s0) + woken s0 =
      Suc (i' + woken s' + (case r of None \<Rightarrow> blocked (not_empty s') - 1 | Some _ \<Rightarrow> blocked (not_empty s')))"
    and "r = None \<Longrightarrow> 0 < blocked (not_empty s')"
    and "e = Queue (Pop r) \<or> e = Queue (Retry r)"
  shows "tp_inv n (es @ [e]) (tp_dispatch r (p\<lparr>idle := i', scheduler := s'\<rparr>))"
proof (cases r)
  case None
  then show ?thesis using assms by (auto simp: tp_inv_def)
next
  case (Some task)
  then show ?thesis using assms by (cases task) (auto simp: tp_inv_def)
qed

lemma tp_step_inv:
  assumes step: "tp_step size_ctl ins p e p'" and inv: "tp_inv n es p" and n: "0 < n" "n < 2 ^ 31"
  shows "tp_inv n (es @ [e]) p'"
  using step
proof cases
  case (schedule task)
  then show ?thesis using inv tp_schedule_push [OF inv n]
    by (auto simp: tp_inv_def tp_push_def sched_push_def cond_signal_def)
next
  case (pop r)
  from tp_popE [OF pop(2)] obtain s' where "sched_pop cond_wait (scheduler p) = (r, s')" "0 < idle p"
    "p' = tp_dispatch r (p\<lparr>idle := idle p - 1, scheduler := s'\<rparr>)" .
  then show ?thesis using inv pop(1) sched_pop_blocked [of "scheduler p" r s']
    by (simp only:, intro tp_dispatch_inv [where p = p and i = "idle p" and ?s0.0 = "scheduler p"])
      (auto split: option.splits)
next
  case (retry r)
  from tp_retryE [OF retry(2)] obtain s' where
    "sched_pop cond_wait ((scheduler p)\<lparr>woken := woken (scheduler p) - 1\<rparr>) = (r, s')"
    "0 < woken (scheduler p)" "p' = tp_dispatch r (p\<lparr>idle := idle p, scheduler := s'\<rparr>)" .
  then show ?thesis using inv retry(1) sched_pop_blocked [of "(scheduler p)\<lparr>woken := woken (scheduler p) - 1\<rparr>" r s']
    by (simp only:, intro tp_dispatch_inv [where p = p and i = "idle p" and ?s0.0 = "scheduler p"])
      (auto split: option.splits)
next
  case (signal pc c)
  then show ?thesis using inv sem.advance(2) [OF signal(3)] by (simp add: tp_inv_def)
next
  case (woke c)
  then show ?thesis using inv sem.wake(2) [OF woke(3)] by (simp add: tp_inv_def)
next
  case (begins t)
  then show ?thesis using inv by (auto simp: tp_inv_def tp_begin_def size_Diff_singleton
        multi_member_split algebra_simps split: if_splits dest!: multi_member_split)
next
  case (finish t)
  then show ?thesis using inv by (auto simp: tp_inv_def tp_finish_def algebra_simps
        split: if_splits dest!: multi_member_split)
next
  case count
  then show ?thesis using inv by (auto simp: tp_inv_def tp_count_def gr0_conv_Suc algebra_simps split: if_splits)
qed (use inv in \<open>simp_all add: tp_inv_def tp_push_def sched_push_def cond_signal_def tp_clear_def sched_clear_def\<close>)

lemma tp_step_scheduler:
  assumes step: "tp_step size_ctl ins p e p'" and inv: "tp_inv n es p" and n: "0 < n" "n < 2 ^ 31"
  shows "case e of Queue se \<Rightarrow> scheduler_step ins (scheduler p) se (scheduler p')
    | _ \<Rightarrow> scheduler p' = scheduler p"
  using step
proof cases
  case (schedule task)
  then show ?thesis using tp_schedule_push [OF inv n]
    by (auto simp: tp_push_def intro: sched_step.push)
next
  case (pop r)
  have "scheduler (tp_dispatch r q) = scheduler q" for q :: "'a thread_pool"
    by (cases "(r, q)" rule: tp_dispatch.cases) auto
  then show ?thesis using pop by (auto simp: tp_pop_def intro!: sched_step.pop split: if_splits prod.splits)
next
  case (retry r)
  have "scheduler (tp_dispatch r q) = scheduler q" for q :: "'a thread_pool"
    by (cases "(r, q)" rule: tp_dispatch.cases) auto
  then show ?thesis using retry by (auto simp: tp_retry_def intro!: sched_step.retry)
qed (auto simp: tp_push_def tp_clear_def tp_begin_def tp_finish_def tp_count_def split: if_splits
    intro: sched_step.intros)

definition pool_size :: "nat \<Rightarrow> nat" where
  "pool_size cnt = (if cnt = 0 then 4 else cnt)"

lemma tp_run_inv:
  assumes "tp_run size_ctl ins (new_thread_pool cnt) es p" "cnt < 2 ^ 31"
  shows "tp_inv (pool_size cnt) es p \<and> scheduler_run ins (new_sched new_condition) (queue_events es) (scheduler p)"
  using assms(1)
proof (induction "new_thread_pool cnt :: 'a thread_pool" es p rule: tp_run.induct)
  case start
  then show ?case
    by (auto simp: tp_inv_def new_thread_pool_def tp_resize_def empty_pool_def pool_size_def new_sched_def
        new_condition_def intro: sched_run.start)
next
  case (next_step es p' e p'')
  have size: "0 < pool_size cnt" "pool_size cnt < 2 ^ 31" using assms(2) by (simp_all add: pool_size_def)
  show ?case using next_step(2) tp_step_inv [OF next_step(3) _ size, of es]
      tp_step_scheduler [OF next_step(3) _ size, of es]
    by (cases e) (auto intro: sched_run.next_step)
qed

lemma tp_run_trans:
  "tp_run size_ctl ins p1 es' p2 \<Longrightarrow> tp_run size_ctl ins p es p1 \<Longrightarrow> tp_run size_ctl ins p (es @ es') p2"
  by (induction rule: tp_run.induct) (auto intro: tp_run.intros simp flip: append_assoc)

section \<open>Coming to rest\<close>

definition tp_weight :: "'t thread_pool \<Rightarrow> nat" where
  "tp_weight p = sem_weight (not_empty (scheduler p)) + woken (scheduler p) + idle p +
     4 * length (queue (scheduler p)) + 4 * size (got p) + 3 * size (running p) + 2 * returned p"

lemma sched_pop_weight:
  "sched_pop cond_wait s = (r, s') \<Longrightarrow> sem_weight (not_empty s') = sem_weight (not_empty s) \<and>
     length (queue s) = length (queue s') + (case r of None \<Rightarrow> 0 | Some _ \<Rightarrow> 1)"
  by (auto simp: sched_pop_def sem.start_wait split: list.splits)

lemma tp_dispatch_weight:
  "tp_weight (tp_dispatch r p) = tp_weight p + (case r of Some (Some t) \<Rightarrow> 4 | _ \<Rightarrow> 0)"
  by (cases "(r, p)" rule: tp_dispatch.cases) (auto simp: tp_weight_def)

lemma own_step_decreases:
  assumes step: "tp_step size_ctl ins p e p'" and "own_step e"
    and inv: "sem_inv n (not_empty (scheduler p))" "n < LONG_MAX"
  shows "Suc (tp_weight p') \<le> tp_weight p"
  using step
proof cases
  case (pop r)
  from tp_popE [OF pop(2)] obtain s' where "sched_pop cond_wait (scheduler p) = (r, s')" "0 < idle p"
    "p' = tp_dispatch r (p\<lparr>idle := idle p - 1, scheduler := s'\<rparr>)" .
  then show ?thesis using sched_pop_weight [of "scheduler p" r s'] sched_pop_blocked [of "scheduler p" r s']
    by (simp add: tp_dispatch_weight) (auto simp: tp_weight_def split: option.splits)
next
  case (retry r)
  from tp_retryE [OF retry(2)] obtain s' where
    "sched_pop cond_wait ((scheduler p)\<lparr>woken := woken (scheduler p) - 1\<rparr>) = (r, s')"
    "0 < woken (scheduler p)" "p' = tp_dispatch r (p\<lparr>idle := idle p, scheduler := s'\<rparr>)" .
  then show ?thesis using sched_pop_weight [of "(scheduler p)\<lparr>woken := woken (scheduler p) - 1\<rparr>" r s']
      sched_pop_blocked [of "(scheduler p)\<lparr>woken := woken (scheduler p) - 1\<rparr>" r s']
    by (simp add: tp_dispatch_weight) (auto simp: tp_weight_def split: option.splits)
next
  case (woke c)
  then show ?thesis using sem.wake(5) [OF woke(3)] by (simp add: tp_weight_def)
next
  case (signal pc c)
  then show ?thesis using sem.advance(5) [OF signal(3) inv] by (simp add: tp_weight_def)
qed (use assms(2) in \<open>auto simp: tp_begin_def tp_finish_def tp_count_def tp_weight_def split: if_splits
    dest!: multi_member_split\<close>)

lemma own_run_bounded:
  assumes "tp_run size_ctl ins p es' p'" "tp_run size_ctl ins (new_thread_pool cnt) es p" "cnt < 2 ^ 31"
    "list_all own_step es'" "length es + length es' \<le> LONG_MAX" "\<And>x q. length (ins x q) = Suc (length q)"
  shows "length es' + tp_weight p' \<le> tp_weight p"
  using assms(1,2,4,5)
proof (induction rule: tp_run.induct)
  case (next_step p es' p1 e p2)
  let ?q = "queue_events (es @ es')"
  have "length ?q < LONG_MAX" using next_step(6) length_queue_events [of "es @ es'"] by simp
  moreover have "scheduler_run ins (new_sched new_condition) ?q (scheduler p1)"
    using tp_run_inv [OF tp_run_trans [OF next_step(1,4)] assms(3)] by simp
  ultimately have "sem_inv (length ?q) (not_empty (scheduler p1))" "length ?q < LONG_MAX"
    using sem.run_inv [of ins no_timeout ?q "scheduler p1"] assms(6) by (auto simp: no_timeout_def)
  then show ?case using next_step own_step_decreases [OF next_step(2)] by fastforce
qed simp

lemma pool_at_rest:
  assumes run: "tp_run size_ctl ins (new_thread_pool cnt) es p" "cnt < 2 ^ 31" "length es \<le> LONG_MAX"
    and ins: "\<And>x q. length (ins x q) = Suc (length q)"
    and rest: "\<And>e q. own_step e \<Longrightarrow> \<not> tp_step size_ctl ins p e q"
  shows "idle p = 0 \<and> got p = {#} \<and> running p = {#} \<and> returned p = 0 \<and> woken (scheduler p) = 0 \<and>
    (queue (scheduler p) = [] \<or> blocked (not_empty (scheduler p)) = 0)"
proof -
  have "idle p = 0 \<or> (\<exists>r q. tp_pop p = Some (r, q))" by (auto simp: tp_pop_def split: prod.splits)
  then have "idle p = 0" using rest [of "Queue (Pop _)"] tp_step.pop own_step.simps(1) by metis
  moreover have "got p = {#} \<or> (\<exists>t q. tp_begin t p = Some q)" "running p = {#} \<or> (\<exists>t q. tp_finish t p = Some q)"
    by (auto simp: tp_begin_def tp_finish_def)
  then have "got p = {#}" "running p = {#}"
    using rest [of "Begin _"] rest [of "Finish _"] tp_step.begins tp_step.finish own_step.simps by metis+
  moreover have "returned p = 0" using rest [of Count] tp_step.count [of p]
    by (cases "returned p") (auto simp: tp_count_def)
  moreover have "woken (scheduler p) = 0 \<and> (queue (scheduler p) = [] \<or> blocked (not_empty (scheduler p)) = 0)"
  proof (rule sem.at_rest [of ins no_timeout "queue_events es"])
    fix e :: "'a option sched_event" and s assume e: "internal e"
    show "\<not> scheduler_step ins (scheduler p) e s"
    proof
      assume "scheduler_step ins (scheduler p) e s"
      then show False using e
      proof cases
        case (woke c)
        then show False using rest [of "Queue Woke"] tp_step.woke by fastforce
      next
        case (retry r)
        then show False using rest [of "Queue (Retry r)"] tp_step.retry [of p r] by (force simp: tp_retry_def)
      next
        case (signal pc c)
        then show False using rest [of "Queue Signal"] tp_step.signal by fastforce
      qed auto
    qed
  qed (use tp_run_inv [OF run(1,2)] run(3) length_queue_events [of es] ins in \<open>auto simp: no_timeout_def\<close>)
  ultimately show ?thesis by simp
qed

text \<open>The steps of the pool's own threads give nothing to the queue and do not clear it.\<close>

lemma own_events: "list_all own_step es \<Longrightarrow> given (queue_events es) = [] \<and> Queue Clear \<notin> set es"
proof (induction es)
  case (Cons e es)
  then show ?case by (cases e rule: own_step.cases) (auto elim: internal.elims)
qed simp

lemma Queue_Clear: "Clear \<in> set (queue_events es) \<longleftrightarrow> Queue Clear \<in> set es"
  by (induction es rule: queue_events.induct) auto

lemma Some_None_mset:
  assumes "image_mset Some A + replicate_mset k None = image_mset Some B + replicate_mset n None"
  shows "A = B \<and> k = n"
proof -
  have "count (image_mset Some M) None = 0" for M :: "'a multiset" by (simp add: count_eq_zero_iff)
  then have "k = n" using arg_cong [OF assms, of "\<lambda>M. count M None"] by simp
  moreover have "image_mset the (image_mset Some M) = M" for M :: "'a multiset" by (simp add: multiset.map_comp)
  ultimately show ?thesis using assms by (metis add_right_cancel)
qed

text \<open>A queue that ends with the empty tasks of \<open>terminate\<close> is used up when all of them have been taken.\<close>

lemma queue_used_up:
  assumes "map Some ts @ replicate n None = took @ rest" "count (mset took) None = n" "0 < n"
  shows "rest = []"
proof (rule ccontr)
  assume "rest \<noteq> []"
  then have "last rest = None" using assms(1,3) by (metis last_appendR last_replicate neq0_conv replicate_empty)
  then have "0 < count (mset rest) None" using \<open>rest \<noteq> []\<close> by (metis count_mset_gt_0 last_in_set set_mset_mset)
  moreover have "count (mset (map Some ts)) None = 0" by (simp add: count_eq_zero_iff)
  ultimately show False using arg_cong [OF assms(1), of "\<lambda>xs. count (mset xs) None"] assms(2) by simp
qed

section \<open>Properties\<close>

text \<open>
  C24. Shutting down a first-in-first-out pool. When all tasks have been scheduled and \<open>terminate\<close> has
  pushed an empty task for every worker, the pool's threads make a bounded number of steps, whatever their order; and when they have come to rest every
  task has run exactly once to its end, every worker has ended, so that \<open>terminate\<close> can join them, and the queue is empty.
\<close>

theorem thread_pool_shutdown:
  assumes "tp_run size_ctl fifo_push (new_thread_pool cnt) es p" "cnt < 2 ^ 31"
    and "given (queue_events es) = map Some ts @ replicate (workers p) None" "Queue Clear \<notin> set es"
    and "tp_run size_ctl fifo_push p es' p'" "list_all own_step es'" "length es + length es' \<le> LONG_MAX"
  shows "length es' + tp_weight p' \<le> tp_weight p \<and>
    ((\<forall>e q. own_step e \<longrightarrow> \<not> tp_step size_ctl fifo_push p' e q) \<longrightarrow>
       mset (finished (es @ es')) = mset ts \<and> exited p' = workers p' \<and> queue (scheduler p') = [])"
proof (intro conjI impI)
  note ins = fifo_push_def
  show "length es' + tp_weight p' \<le> tp_weight p"
    using own_run_bounded [OF assms(5,1,2,6,7)] by (simp add: ins)
  assume rest: "\<forall>e q. own_step e \<longrightarrow> \<not> tp_step size_ctl fifo_push p' e q"
  note run = tp_run_trans [OF assms(5,1)]
  let ?n = "pool_size cnt" and ?took = "taken (queue_events (es @ es'))"
  have inv: "tp_inv ?n (es @ es') p'" "workers p = ?n"
    using tp_run_inv [OF run assms(2)] tp_run_inv [OF assms(1,2)] by (auto simp: tp_inv_def)
  have at: "idle p' = 0" "got p' = {#}" "running p' = {#}" "returned p' = 0" "woken (scheduler p') = 0"
    "queue (scheduler p') = [] \<or> blocked (not_empty (scheduler p')) = 0"
    using pool_at_rest [OF run assms(2)] assms(7) rest by (auto simp: ins)
  have order: "map Some ts @ replicate ?n None = ?took @ queue (scheduler p')"
    using sched_run_fifo [OF conjunct2 [OF tp_run_inv [OF run assms(2)]]] own_events [OF assms(6)] assms(3,4) inv(2)
      Queue_Clear [of "es @ es'"] by auto
  have took: "mset ?took = image_mset Some (mset (finished (es @ es'))) + replicate_mset (exited p') None"
    using inv(1) at by (simp add: tp_inv_def)
  then have "count (mset ?took) None = exited p'" by (simp only:) (simp add: count_eq_zero_iff)
  moreover have "blocked (not_empty (scheduler p')) = 0 \<Longrightarrow> exited p' = ?n" using at inv(1) by (simp add: tp_inv_def)
  ultimately have empty: "queue (scheduler p') = []"
    using at(6) queue_used_up [OF order] by (metis neq0_conv pool_size_def zero_neq_numeral)
  then have "image_mset Some (mset (finished (es @ es'))) + replicate_mset (exited p') None =
      image_mset Some (mset ts) + replicate_mset ?n None"
    using took arg_cong [OF order, of mset] by simp
  from Some_None_mset [OF this] show "mset (finished (es @ es')) = mset ts" "exited p' = workers p'"
    "queue (scheduler p') = []" using inv(1) empty by (auto simp: tp_inv_def)
qed

text \<open>
  The dynamic pools never grow: \<open>active_num_\<close> counts down while a task runs, so it is minus the number of busy
  workers and never equals the number of workers, and the number of threads stays what the constructor chose.
\<close>

theorem dynamic_pool_never_grows:
  assumes "tp_run dynamic_size ins (new_thread_pool cnt) es p" "cnt < 2 ^ 31"
  shows "workers p = (if cnt = 0 then 4 else cnt) \<and>
    active_num p = - of_nat (size (running p) + returned p) \<and> size (running p) + returned p \<le> workers p \<and>
    tp_schedule dynamic_size ins task p = Some (tp_push ins task p)"
  using tp_run_inv [OF assms] tp_schedule_push [of "pool_size cnt" es p] assms(2)
  by (auto simp: tp_inv_def pool_size_def algebra_simps eq_neg_iff_add_eq_0 simp del: of_nat_add)

section \<open>Runs of a small pool\<close>

lemma tp_run_Cons:
  "tp_step size_ctl ins p e p1 \<Longrightarrow> tp_run size_ctl ins p1 es p2 \<Longrightarrow> tp_run size_ctl ins p (e # es) p2"
  using tp_run_trans [OF _ tp_run.next_step [OF tp_run.start, of size_ctl ins p e p1]] by fastforce

lemmas tp_ops = tp_schedule_def tp_push_def tp_pop_def tp_retry_def tp_begin_def tp_finish_def tp_count_def
  new_thread_pool_def tp_resize_def empty_pool_def static_size_def dynamic_size_def sched_ops

text \<open>One worker, one task, then \<open>terminate\<close>.\<close>

abbreviation demo_given :: "nat pool_event list" where
  "demo_given \<equiv> [Queue (Push (Some 7)), Queue Signal, Queue (Push None), Queue Signal]"

definition demo_full :: "'t insert \<Rightarrow> 't \<Rightarrow> 't thread_pool" where
  "demo_full ins t = (new_thread_pool 1)\<lparr>scheduler := (new_sched new_condition)\<lparr>queue := ins None (ins (Some t) [])\<rparr>\<rparr>"

lemma demo_given_run:
  "tp_run size_ctl ins (new_thread_pool 1) demo_given (demo_full ins 7)"
  unfolding demo_full_def
  apply (rule tp_run_Cons, rule tp_step.schedule, simp add: tp_ops)
  apply (rule tp_run_Cons, rule tp_step.signal [where pc = At_Test], simp add: tp_ops)
  apply (rule tp_run_Cons, rule tp_step.terminate)
  apply (rule tp_run_Cons, rule tp_step.signal [where pc = At_Test], simp add: tp_ops)
  apply (simp add: tp_ops tp_run.start)
  done

abbreviation demo_own :: "nat pool_event list" where
  "demo_own \<equiv> [Queue (Pop (Some (Some 7))), Begin 7, Finish 7, Count, Queue (Pop (Some None))]"

definition demo_end :: "'t thread_pool" where
  "demo_end = (new_thread_pool 1)\<lparr>idle := 0, exited := 1\<rparr>"

lemma demo_own_run: "tp_run size_ctl fifo_push (demo_full fifo_push 7) demo_own demo_end"
  unfolding demo_full_def
  apply (rule tp_run_Cons, rule tp_step.pop, simp add: tp_ops)
  apply (rule tp_run_Cons, rule tp_step.begins, simp add: tp_ops)
  apply (rule tp_run_Cons, rule tp_step.finish, simp add: tp_ops)
  apply (rule tp_run_Cons, rule tp_step.count, simp add: tp_ops)
  apply (rule tp_run_Cons, rule tp_step.pop, simp add: tp_ops)
  apply (simp add: tp_ops demo_end_def tp_run.start)
  done

text \<open>A pool whose threads have all ended, with no signal under way, is at rest.\<close>

lemma ended_at_rest:
  assumes "idle p = 0" "got p = {#}" "running p = {#}" "returned p = 0" "scheduler p = (new_sched new_condition)\<lparr>queue := q\<rparr>"
    "own_step e"
  shows "\<not> tp_step size_ctl ins p e p'"
proof
  assume "tp_step size_ctl ins p e p'"
  then show False
  proof cases
    case (signal pc c)
    then show False using assms(5) by (cases pc) (simp_all add: sched_ops)
  qed (use assms in \<open>auto simp: tp_ops\<close>)
qed

theorem thread_pool_shutdown_witness:
  "tp_run static_size fifo_push (new_thread_pool 1) (demo_given @ demo_own) demo_end \<and>
   mset (finished (demo_given @ demo_own)) = mset [7] \<and> exited (demo_end :: nat thread_pool) = workers (demo_end :: nat thread_pool)"
proof -
  have "\<forall>e q. own_step e \<longrightarrow> \<not> tp_step static_size fifo_push (demo_end :: nat thread_pool) e q"
    using ended_at_rest [of "demo_end :: nat thread_pool" "[]"]
    by (auto simp: demo_end_def new_thread_pool_def tp_resize_def empty_pool_def new_sched_def)
  then have "mset (finished (demo_given @ demo_own)) = mset [7]"
    "exited (demo_end :: nat thread_pool) = workers (demo_end :: nat thread_pool)"
    using thread_pool_shutdown [OF demo_given_run _ _ _ demo_own_run, where size_ctl = static_size and ts = "[7]"]
    by (simp_all add: demo_full_def tp_ops)
  then show ?thesis using tp_run_trans [OF demo_own_run demo_given_run] by blast
qed

text \<open>A dynamic pool of one worker, which is busy while another task waits: it stays at one worker.\<close>

lemma demo_busy_run:
  "\<exists>p. tp_run dynamic_size fifo_push (new_thread_pool 1)
     [Queue (Push (Some (7::nat))), Queue (Pop (Some (Some 7))), Begin 7, Queue (Push (Some 8))] p \<and>
     running p = {#7#} \<and> queue (scheduler p) = [Some 8]"
  apply (rule exI, rule conjI)
   apply (rule tp_run_Cons, rule tp_step.schedule, simp add: tp_ops)
   apply (rule tp_run_Cons, rule tp_step.pop, simp add: tp_ops)
   apply (rule tp_run_Cons, rule tp_step.begins, simp add: tp_ops)
   apply (rule tp_run_Cons, rule tp_step.schedule, simp add: tp_ops)
   apply (rule tp_run.start)
  apply simp
  done

theorem dynamic_pool_never_grows_witness:
  "\<exists>es p. tp_run dynamic_size fifo_push (new_thread_pool 1) es p \<and> running p = {#7::nat#} \<and>
     queue (scheduler p) = [Some 8] \<and> workers p = 1"
  using demo_busy_run dynamic_pool_never_grows [of fifo_push 1] by fastforce

text \<open>With the last-in-first-out scheduler the empty tasks overtake: the pool shuts down without running the task.\<close>

theorem lifo_shutdown_drops_tasks:
  "\<exists>p. tp_run static_size lifo_push (new_thread_pool 1) (demo_given @ [Queue (Pop (Some None))]) p \<and>
     exited p = workers p \<and> queue (scheduler p) = [Some 7] \<and>
     (\<forall>e q. own_step e \<longrightarrow> \<not> tp_step static_size lifo_push p e q)"
proof -
  let ?p = "(demo_full lifo_push (7::nat))\<lparr>idle := 0, exited := 1,
    scheduler := (new_sched new_condition)\<lparr>queue := [Some 7]\<rparr>\<rparr>"
  have "tp_step static_size lifo_push (demo_full lifo_push 7) (Queue (Pop (Some None))) ?p"
    by (rule tp_step.pop) (simp add: demo_full_def tp_ops)
  then have "tp_run static_size lifo_push (new_thread_pool 1) (demo_given @ [Queue (Pop (Some None))]) ?p"
    using tp_run.next_step [OF demo_given_run] by blast
  moreover have "\<forall>e q. own_step e \<longrightarrow> \<not> tp_step static_size lifo_push ?p e q"
    using ended_at_rest [of ?p "[Some 7]"] by (simp add: demo_full_def tp_ops)
  ultimately show ?thesis by (intro exI [of _ ?p]) (simp add: demo_full_def tp_ops)
qed

end
