(* ===== verification/Net_Socket.thy ===== *)
theory Net_Socket
  imports Prelude
begin

text \<open>
  Socket handles: \<open>socket_handle_t\<close> of \<open>include/async_io/network/socket.cpp\<close> and
  \<open>socket.hpp\<close>, the options of \<open>socket_option.hpp\<close> and \<open>ip_address\<close>. Winsock is a parameter:
  a record of functions on a state of any type. Each operation is a function of the handle and that state; it returns
  a value or an exception and the state after it. Of the asynchronous operations this theory has the
  calls they make on the socket; their callbacks are in \<open>Io_Dispatcher\<close>.
\<close>

section \<open>Winsock\<close>

text \<open>
  The functions the code calls. \<open>WSASocket\<close> returns a handle or fails; \<open>associate\<close> is the
  association with the completion port by \<open>io_.bind\<close>; \<open>WSARecv\<close> is asked for a number of bytes;
  an option is named by its level and name and its value is the bytes of its representation.
\<close>

type_synonym SOCKET = nat

record sockaddr_in =
  sin_family :: int
  sin_port :: "16 word"
  s_addr :: u32

text \<open>
  The calls with an \<open>OVERLAPPED\<close> structure, and how the system answers one. They are made with whatever
  the handle holds, \<open>INVALID_SOCKET\<close> included.
\<close>

datatype overlapped_call =
    Ov_AcceptEx "SOCKET option"
  | Ov_ConnectEx sockaddr_in
  | Ov_DisconnectEx bool
  | Ov_Recv nat
  | Ov_Send "bytes list"
  | Ov_SendTo bytes "sockaddr_in option"
  | Ov_RecvFrom nat

datatype overlapped_answer = Ov_done nat | Ov_pending | Ov_failed

record 'w winsock =
  WSASocket :: "int \<Rightarrow> int \<Rightarrow> int \<Rightarrow> 'w \<Rightarrow> SOCKET option \<times> 'w"
  associate :: "SOCKET \<Rightarrow> 'w \<Rightarrow> bool \<times> 'w"
  set_modes :: "SOCKET \<Rightarrow> 'w \<Rightarrow> bool \<times> 'w"
  closesocket :: "SOCKET \<Rightarrow> 'w \<Rightarrow> 'w"
  sys_shutdown :: "SOCKET \<Rightarrow> int \<Rightarrow> 'w \<Rightarrow> 'w"
  cancel_io :: "SOCKET \<Rightarrow> 'w \<Rightarrow> 'w"
  sys_bind :: "SOCKET \<Rightarrow> sockaddr_in \<Rightarrow> 'w \<Rightarrow> bool \<times> 'w"
  sys_listen :: "SOCKET \<Rightarrow> int \<Rightarrow> 'w \<Rightarrow> bool \<times> 'w"
  sys_connect :: "SOCKET \<Rightarrow> sockaddr_in \<Rightarrow> 'w \<Rightarrow> bool \<times> 'w"
  WSARecv :: "SOCKET \<Rightarrow> nat \<Rightarrow> 'w \<Rightarrow> bytes option \<times> 'w"
  WSASend :: "SOCKET \<Rightarrow> bytes \<Rightarrow> 'w \<Rightarrow> nat option \<times> 'w"
  WSARecvFrom :: "SOCKET \<Rightarrow> nat \<Rightarrow> 'w \<Rightarrow> (bytes \<times> sockaddr_in) option \<times> 'w"
  WSASendTo :: "SOCKET \<Rightarrow> bytes \<Rightarrow> sockaddr_in option \<Rightarrow> 'w \<Rightarrow> nat option \<times> 'w"
  setsockopt :: "SOCKET \<Rightarrow> int \<Rightarrow> int \<Rightarrow> bytes \<Rightarrow> 'w \<Rightarrow> bool \<times> 'w"
  getsockopt :: "SOCKET \<Rightarrow> int \<Rightarrow> int \<Rightarrow> nat \<Rightarrow> 'w \<Rightarrow> bytes option \<times> 'w"
  WSAIoctl :: "SOCKET \<Rightarrow> nat \<Rightarrow> bytes \<Rightarrow> nat \<Rightarrow> 'w \<Rightarrow> bytes option \<times> 'w"
  overlapped :: "SOCKET option \<Rightarrow> overlapped_call \<Rightarrow> 'w \<Rightarrow> overlapped_answer \<times> 'w"

text \<open>A handle is \<open>INVALID_SOCKET\<close> or open. An operation has the handle and Winsock's state as its state.\<close>

type_synonym socket_handle = "SOCKET option"
type_synonym ('w, 'a) sock_op = "socket_handle \<times> 'w \<Rightarrow> 'a result \<times> (socket_handle \<times> 'w)"

definition is_open :: "socket_handle \<Rightarrow> bool" where
  "is_open h \<longleftrightarrow> h \<noteq> None"

text \<open>The guard of the operations: they throw on a handle that is not open, else they go on with the socket.\<close>

definition with_socket :: "(SOCKET \<Rightarrow> ('w, 'a) sock_op) \<Rightarrow> ('w, 'a) sock_op" where
  "with_socket f hw = (case fst hw of None \<Rightarrow> (Inl Network_exception, hw) | Some s \<Rightarrow> f s hw)"

text \<open>A call that may fail, where failure is thrown as \<open>win32_exception_t\<close>.\<close>

definition or_throw :: "('w \<Rightarrow> 'a option \<times> 'w) \<Rightarrow> ('w, 'a) sock_op" where
  "or_throw f hw = (let (r, w) = f (snd hw) in
     (case r of None \<Rightarrow> Inl Win32_exception | Some x \<Rightarrow> Inr x, (fst hw, w)))"

definition succeeded :: "bool \<times> 'w \<Rightarrow> unit option \<times> 'w" where
  "succeeded r = (if fst r then Some () else None, snd r)"

section \<open>Byte order and addresses\<close>

definition htonl :: "u32 \<Rightarrow> u32" where
  "htonl a = rep_u32 (rev (u32_rep a))"

definition htons :: "16 word \<Rightarrow> 16 word" where
  "htons p = push_bit 8 p OR drop_bit 8 p"

text \<open>\<open>ntohl\<close> is the same function. \<open>inet_addr\<close> and \<open>inet_ntoa\<close> are parameters.\<close>

record ip_address =
  address :: u32

definition ip_address_parse :: "(string \<Rightarrow> u32) \<Rightarrow> string \<Rightarrow> ip_address" where
  "ip_address_parse inet_addr str = \<lparr>address = htonl (inet_addr str)\<rparr>"

definition ip_address_string :: "(u32 \<Rightarrow> string) \<Rightarrow> ip_address \<Rightarrow> string" where
  "ip_address_string inet_ntoa addr = inet_ntoa (address addr)"

text \<open>The conversions of \<open>win32/network/network_helper.hpp\<close>.\<close>

definition ip_2_string :: "(u32 \<Rightarrow> string) \<Rightarrow> u32 \<Rightarrow> string" where
  "ip_2_string inet_ntoa ip = inet_ntoa ip"

definition string_2_ip :: "(string \<Rightarrow> u32) \<Rightarrow> string \<Rightarrow> u32" where
  "string_2_ip inet_addr ip = htonl (inet_addr ip)"

section \<open>The operations of a handle\<close>

definition socket_open :: "'w winsock \<Rightarrow> int \<Rightarrow> int \<Rightarrow> int \<Rightarrow> ('w, unit) sock_op" where
  "socket_open os family type protocol hw = (case fst hw of
     Some s \<Rightarrow> (Inl Network_exception, hw)
   | None \<Rightarrow> (case WSASocket os family type protocol (snd hw) of
       (None, w) \<Rightarrow> (Inl Win32_exception, (None, w))
     | (Some s, w) \<Rightarrow> (case associate os s w of
         (False, w) \<Rightarrow> (Inl Win32_exception, (Some s, w))
       | (True, w) \<Rightarrow> (case set_modes os s w of
           (False, w) \<Rightarrow> (Inl Win32_exception, (Some s, w))
         | (True, w) \<Rightarrow> (Inr (), (Some s, w))))))"

definition shutdown_socket :: "'w winsock \<Rightarrow> int \<Rightarrow> ('w, unit) sock_op" where
  "shutdown_socket os shut hw = (case fst hw of None \<Rightarrow> (Inr (), hw)
     | Some s \<Rightarrow> (Inr (), (fst hw, sys_shutdown os s shut (snd hw))))"

definition socket_close :: "'w winsock \<Rightarrow> ('w, unit) sock_op" where
  "socket_close os hw = (case fst hw of None \<Rightarrow> (Inr (), hw)
     | Some s \<Rightarrow> (Inr (), (None, closesocket os s (snd hw))))"

definition cancel_socket :: "'w winsock \<Rightarrow> ('w, unit) sock_op" where
  "cancel_socket os = with_socket (\<lambda>s hw. (Inr (), (fst hw, cancel_io os s (snd hw))))"

definition sockaddr_of :: "int \<Rightarrow> ip_address \<Rightarrow> 16 word \<Rightarrow> sockaddr_in" where
  "sockaddr_of family addr port =
     \<lparr>sin_family = family, sin_port = htons port, s_addr = htonl (address addr)\<rparr>"

definition bind_socket :: "'w winsock \<Rightarrow> int \<Rightarrow> 16 word \<Rightarrow> ip_address \<Rightarrow> ('w, unit) sock_op" where
  "bind_socket os family port addr =
     with_socket (\<lambda>s. or_throw (succeeded \<circ> sys_bind os s (sockaddr_of family addr port)))"

definition listen_socket :: "'w winsock \<Rightarrow> int \<Rightarrow> ('w, unit) sock_op" where
  "listen_socket os n = with_socket (\<lambda>s. or_throw (succeeded \<circ> sys_listen os s n))"

definition connect_socket :: "'w winsock \<Rightarrow> int \<Rightarrow> ip_address \<Rightarrow> 16 word \<Rightarrow> ('w, unit) sock_op" where
  "connect_socket os family addr port =
     with_socket (\<lambda>s. or_throw (succeeded \<circ> sys_connect os s (sockaddr_of family addr port)))"

text \<open>\<open>read\<close> and \<open>write\<close> refuse an empty buffer; \<open>recv_from\<close> does so with another exception.\<close>

definition read_socket :: "'w winsock \<Rightarrow> nat \<Rightarrow> ('w, bytes) sock_op" where
  "read_socket os len = with_socket (\<lambda>s hw. if len = 0 then (Inl Network_exception, hw)
     else or_throw (WSARecv os s len) hw)"

definition write_socket :: "'w winsock \<Rightarrow> bytes \<Rightarrow> ('w, nat) sock_op" where
  "write_socket os buf = with_socket (\<lambda>s hw. if buf = [] then (Inl Network_exception, hw)
     else or_throw (WSASend os s buf) hw)"

definition send_to :: "'w winsock \<Rightarrow> bytes \<Rightarrow> sockaddr_in option \<Rightarrow> ('w, nat) sock_op" where
  "send_to os buf addr = with_socket (\<lambda>s hw. if buf = [] then (Inl Network_exception, hw)
     else or_throw (WSASendTo os s buf addr) hw)"

definition recv_from :: "'w winsock \<Rightarrow> nat \<Rightarrow> ('w, bytes \<times> sockaddr_in) sock_op" where
  "recv_from os len = with_socket (\<lambda>s hw. if len = 0 then (Inl Win32_exception, hw)
     else or_throw (WSARecvFrom os s len) hw)"

section \<open>Options\<close>

text \<open>\<open>boolean_t\<close> and \<open>integer_t\<close> hold an \<open>int\<close>, \<open>linger\<close> two 16-bit numbers; an option has a level and a name
  and its bytes.\<close>

record sock_option =
  opt_level :: int
  opt_name :: int
  opt_data :: bytes

definition boolean_option :: "int \<Rightarrow> int \<Rightarrow> bool \<Rightarrow> sock_option" where
  "boolean_option level name val =
     \<lparr>opt_level = level, opt_name = name, opt_data = u32_rep (if val then 1 else 0)\<rparr>"

definition boolean_value :: "sock_option \<Rightarrow> bool" where
  "boolean_value opt \<longleftrightarrow> rep_u32 (opt_data opt) \<noteq> 0"

definition boolean_resize :: "nat \<Rightarrow> sock_option \<Rightarrow> sock_option result" where
  "boolean_resize n opt = (if n = 1
     then Inr (opt\<lparr>opt_data := u32_rep (if hd (opt_data opt) \<noteq> 0 then 1 else 0)\<rparr>)
     else if n = 4 then Inr opt else Inl Runtime_error)"

definition integer_option :: "int \<Rightarrow> int \<Rightarrow> u32 \<Rightarrow> sock_option" where
  "integer_option level name val = \<lparr>opt_level = level, opt_name = name, opt_data = u32_rep val\<rparr>"

definition integer_value :: "sock_option \<Rightarrow> bool" where
  "integer_value opt \<longleftrightarrow> rep_u32 (opt_data opt) \<noteq> 0"

definition integer_resize :: "nat \<Rightarrow> sock_option \<Rightarrow> sock_option result" where
  "integer_resize n opt = (if n \<noteq> 4 then Inl Network_exception else Inr opt)"

definition u16_rep :: "16 word \<Rightarrow> bytes" where
  "u16_rep w = [ucast w, ucast (drop_bit 8 w)]"

definition SOL_SOCKET :: int where "SOL_SOCKET = 0xffff"
definition SO_LINGER :: int where "SO_LINGER = 0x0080"
definition SO_REUSEADDR :: int where "SO_REUSEADDR = 0x0004"

definition linger_option :: "bool \<Rightarrow> u32 \<Rightarrow> sock_option" where
  "linger_option on time = \<lparr>opt_level = SOL_SOCKET, opt_name = SO_LINGER,
     opt_data = u16_rep (if on then 1 else 0) @ u16_rep (ucast time)\<rparr>"

definition linger_enabled :: "sock_option \<Rightarrow> bool" where
  "linger_enabled opt \<longleftrightarrow> take 2 (opt_data opt) \<noteq> [0, 0]"

definition linger_timeout :: "sock_option \<Rightarrow> int" where
  "linger_timeout opt = uint (opt_data opt ! 2) + 256 * uint (opt_data opt ! 3)"

definition set_option :: "'w winsock \<Rightarrow> sock_option \<Rightarrow> ('w, bool) sock_op" where
  "set_option os opt hw = (case fst hw of None \<Rightarrow> (Inr False, hw)
     | Some s \<Rightarrow> (let (ok, w) = setsockopt os s (opt_level opt) (opt_name opt) (opt_data opt) (snd hw) in
         (Inr ok, (fst hw, w))))"

text \<open>\<open>get_option\<close>: what \<open>getsockopt\<close> writes replaces the first bytes of the option, then \<open>resize\<close>.\<close>

definition get_option :: "'w winsock \<Rightarrow> (nat \<Rightarrow> sock_option \<Rightarrow> sock_option result) \<Rightarrow> sock_option \<Rightarrow>
    ('w, sock_option option) sock_op" where
  "get_option os resize opt hw = (case fst hw of None \<Rightarrow> (Inr None, hw)
     | Some s \<Rightarrow> (case getsockopt os s (opt_level opt) (opt_name opt) (length (opt_data opt)) (snd hw) of
         (None, w) \<Rightarrow> (Inr None, (fst hw, w))
       | (Some bs, w) \<Rightarrow> (bindR (resize (length bs) (opt\<lparr>opt_data := put_block 0 bs (opt_data opt)\<rparr>))
           (\<lambda>opt. Inr (Some opt)), (fst hw, w))))"

text \<open>The keep-alive control: \<open>tcp_keepalive\<close> has three 32-bit fields.\<close>

record tcp_keepalive =
  onoff :: u32
  keepalivetime :: u32
  keepaliveinterval :: u32

definition io_keepalive :: "u32 \<Rightarrow> tcp_keepalive" where
  "io_keepalive in_time = (let k = \<lparr>onoff = (if in_time \<noteq> 0 then 1 else 0), keepalivetime = in_time * 1000,
     keepaliveinterval = 2 * 1000\<rparr> in k\<lparr>onoff := 0\<rparr>)"

definition keepalive_bytes :: "tcp_keepalive \<Rightarrow> bytes" where
  "keepalive_bytes k = u32_rep (onoff k) @ u32_rep (keepalivetime k) @ u32_rep (keepaliveinterval k)"

definition io_control :: "'w winsock \<Rightarrow> nat \<Rightarrow> bytes \<Rightarrow> nat \<Rightarrow> ('w, bool) sock_op" where
  "io_control os cmd in_buffer out_size hw = (case fst hw of None \<Rightarrow> (Inr False, hw)
     | Some s \<Rightarrow> (case WSAIoctl os s cmd in_buffer out_size (snd hw) of
         (None, w) \<Rightarrow> (Inl Win32_exception, (fst hw, w))
       | (Some out, w) \<Rightarrow> (Inr True, (fst hw, w))))"

text \<open>\<open>dis_connect\<close> shuts the connection down and either marks the address reusable or closes.\<close>

definition dis_connect :: "'w winsock \<Rightarrow> int \<Rightarrow> bool \<Rightarrow> ('w, unit) sock_op" where
  "dis_connect os shut reuse = with_socket (\<lambda>s hw.
     let hw = (fst hw, sys_shutdown os s shut (snd hw)) in
     if reuse then (Inr (), snd (set_option os (boolean_option SOL_SOCKET SO_REUSEADDR True) hw))
     else socket_close os hw)"

text \<open>
  The asynchronous operations. Only \<open>async_accept\<close> and \<open>async_connect\<close> test that the handle is open;
  \<open>async_connect\<close> binds the socket to any local address first.
\<close>

definition start_overlapped :: "'w winsock \<Rightarrow> overlapped_call \<Rightarrow> ('w, overlapped_answer) sock_op" where
  "start_overlapped os c hw = (case overlapped os (fst hw) c (snd hw) of
     (Ov_failed, w) \<Rightarrow> (Inl Win32_exception, (fst hw, w))
   | (r, w) \<Rightarrow> (Inr r, (fst hw, w)))"

definition sock_async_accept :: "'w winsock \<Rightarrow> SOCKET option \<Rightarrow> ('w, overlapped_answer) sock_op" where
  "sock_async_accept os remote_sck = with_socket (\<lambda>s. start_overlapped os (Ov_AcceptEx remote_sck))"

definition sock_async_connect :: "'w winsock \<Rightarrow> ip_address \<Rightarrow> 16 word \<Rightarrow> ('w, overlapped_answer) sock_op" where
  "sock_async_connect os addr port = with_socket (\<lambda>s hw.
     case sys_bind os s \<lparr>sin_family = 2, sin_port = 0, s_addr = 0\<rparr> (snd hw) of
       (False, w) \<Rightarrow> (Inl Win32_exception, (fst hw, w))
     | (True, w) \<Rightarrow> start_overlapped os (Ov_ConnectEx (sockaddr_of 2 addr port)) (fst hw, w))"

definition sock_async_disconnect :: "'w winsock \<Rightarrow> bool \<Rightarrow> ('w, overlapped_answer) sock_op" where
  "sock_async_disconnect os is_reuse = start_overlapped os (Ov_DisconnectEx is_reuse)"

definition sock_async_read :: "'w winsock \<Rightarrow> nat \<Rightarrow> ('w, overlapped_answer) sock_op" where
  "sock_async_read os len = start_overlapped os (Ov_Recv len)"

definition sock_async_write :: "'w winsock \<Rightarrow> bytes \<Rightarrow> ('w, overlapped_answer) sock_op" where
  "sock_async_write os buf = start_overlapped os (Ov_Send [buf])"

definition sock_async_write_all :: "'w winsock \<Rightarrow> bytes list \<Rightarrow> ('w, overlapped_answer) sock_op" where
  "sock_async_write_all os args = start_overlapped os (Ov_Send args)"

definition sock_async_send_to :: "'w winsock \<Rightarrow> bytes \<Rightarrow> sockaddr_in option \<Rightarrow> ('w, overlapped_answer) sock_op" where
  "sock_async_send_to os buf addr = start_overlapped os (Ov_SendTo buf addr)"

definition sock_async_recv_from :: "'w winsock \<Rightarrow> nat \<Rightarrow> ('w, overlapped_answer) sock_op" where
  "sock_async_recv_from os len = start_overlapped os (Ov_RecvFrom len)"

text \<open>The destructor closes; the copy constructor copies the handle, and so does the assignment.\<close>

definition copy_handle :: "socket_handle \<Rightarrow> socket_handle" where
  "copy_handle h = h"

definition construct_socket :: "'w winsock \<Rightarrow> int \<Rightarrow> int \<Rightarrow> int \<Rightarrow> 'w \<Rightarrow> socket_handle result \<times> 'w" where
  "construct_socket os family type protocol w = (let (r, (h, w)) = socket_open os family type protocol (None, w) in
     (case r of Inl e \<Rightarrow> Inl e | Inr u \<Rightarrow> Inr h, w))"

section \<open>The life of a handle\<close>

text \<open>
  What a program does with one handle object, and the calls of Winsock that this leads to, observed by
  wrapping Winsock so that it records for each call the socket it is made on.
\<close>

datatype sock_cmd = Open int int int | Shutdown int | Close | Cancel | Bind int "16 word" ip_address | Listen int
  | Connect int ip_address "16 word" | Read nat | Send bytes | Send_To bytes "sockaddr_in option" | Recv_From nat
  | Set_Option sock_option | Get_Option "nat \<Rightarrow> sock_option \<Rightarrow> sock_option result" sock_option
  | Io_Control nat bytes nat | Dis_Connect int bool
  | Async_Accept "SOCKET option" | Async_Connect ip_address "16 word" | Async_Disconnect bool | Async_Read nat | Async_Write bytes
  | Async_Write_All "bytes list" | Async_Send_To bytes "sockaddr_in option" | Async_Recv_From nat

fun exec_cmd :: "'w winsock \<Rightarrow> sock_cmd \<Rightarrow> socket_handle \<times> 'w \<Rightarrow> socket_handle \<times> 'w" where
  "exec_cmd os (Open f t p) hw = snd (socket_open os f t p hw)"
| "exec_cmd os (Shutdown shut) hw = snd (shutdown_socket os shut hw)"
| "exec_cmd os Close hw = snd (socket_close os hw)"
| "exec_cmd os Cancel hw = snd (cancel_socket os hw)"
| "exec_cmd os (Bind f p a) hw = snd (bind_socket os f p a hw)"
| "exec_cmd os (Listen n) hw = snd (listen_socket os n hw)"
| "exec_cmd os (Connect f a p) hw = snd (connect_socket os f a p hw)"
| "exec_cmd os (Read n) hw = snd (read_socket os n hw)"
| "exec_cmd os (Send bs) hw = snd (write_socket os bs hw)"
| "exec_cmd os (Send_To bs a) hw = snd (send_to os bs a hw)"
| "exec_cmd os (Recv_From n) hw = snd (recv_from os n hw)"
| "exec_cmd os (Set_Option opt) hw = snd (set_option os opt hw)"
| "exec_cmd os (Get_Option r opt) hw = snd (get_option os r opt hw)"
| "exec_cmd os (Io_Control c bs n) hw = snd (io_control os c bs n hw)"
| "exec_cmd os (Dis_Connect shut reuse) hw = snd (dis_connect os shut reuse hw)"
| "exec_cmd os (Async_Accept remote) hw = snd (sock_async_accept os remote hw)"
| "exec_cmd os (Async_Connect a p) hw = snd (sock_async_connect os a p hw)"
| "exec_cmd os (Async_Disconnect reuse) hw = snd (sock_async_disconnect os reuse hw)"
| "exec_cmd os (Async_Read n) hw = snd (sock_async_read os n hw)"
| "exec_cmd os (Async_Write bs) hw = snd (sock_async_write os bs hw)"
| "exec_cmd os (Async_Write_All bss) hw = snd (sock_async_write_all os bss hw)"
| "exec_cmd os (Async_Send_To bs a) hw = snd (sock_async_send_to os bs a hw)"
| "exec_cmd os (Async_Recv_From n) hw = snd (sock_async_recv_from os n hw)"

text \<open>The operations that do not test whether the handle is open.\<close>

fun unguarded :: "sock_cmd \<Rightarrow> bool" where
  "unguarded (Async_Disconnect reuse) = True"
| "unguarded (Async_Read n) = True"
| "unguarded (Async_Write bs) = True"
| "unguarded (Async_Write_All bss) = True"
| "unguarded (Async_Send_To bs a) = True"
| "unguarded (Async_Recv_From n) = True"
| "unguarded cmd = False"

text \<open>Exceptions do not end the program here: it may catch them and go on. At the end the destructor closes.\<close>

definition handle_life :: "'w winsock \<Rightarrow> sock_cmd list \<Rightarrow> 'w \<Rightarrow> socket_handle \<times> 'w" where
  "handle_life os cmds w = exec_cmd os Close (fold (exec_cmd os) cmds (None, w))"

text \<open>\<open>Used_invalid\<close> is a call on \<open>INVALID_SOCKET\<close>.\<close>

datatype call = Opened SOCKET | Used SOCKET | Closed SOCKET | Used_invalid

definition record_call :: "call \<Rightarrow> ('w \<Rightarrow> 'a \<times> 'w) \<Rightarrow> 'w \<times> call list \<Rightarrow> 'a \<times> ('w \<times> call list)" where
  "record_call c f wt = (let (r, w) = f (fst wt) in (r, (w, snd wt @ [c])))"

definition record_void :: "call \<Rightarrow> ('w \<Rightarrow> 'w) \<Rightarrow> 'w \<times> call list \<Rightarrow> 'w \<times> call list" where
  "record_void c f wt = (f (fst wt), snd wt @ [c])"

definition recorded :: "'w winsock \<Rightarrow> ('w \<times> call list) winsock" where
  "recorded os = \<lparr>
     WSASocket = \<lambda>f t p wt. (let (r, w) = WSASocket os f t p (fst wt) in
       (r, (w, snd wt @ (case r of None \<Rightarrow> [] | Some s \<Rightarrow> [Opened s])))),
     associate = \<lambda>s. record_call (Used s) (associate os s),
     set_modes = \<lambda>s. record_call (Used s) (set_modes os s),
     closesocket = \<lambda>s. record_void (Closed s) (closesocket os s),
     sys_shutdown = \<lambda>s n. record_void (Used s) (sys_shutdown os s n),
     cancel_io = \<lambda>s. record_void (Used s) (cancel_io os s),
     sys_bind = \<lambda>s a. record_call (Used s) (sys_bind os s a),
     sys_listen = \<lambda>s n. record_call (Used s) (sys_listen os s n),
     sys_connect = \<lambda>s a. record_call (Used s) (sys_connect os s a),
     WSARecv = \<lambda>s n. record_call (Used s) (WSARecv os s n),
     WSASend = \<lambda>s bs. record_call (Used s) (WSASend os s bs),
     WSARecvFrom = \<lambda>s n. record_call (Used s) (WSARecvFrom os s n),
     WSASendTo = \<lambda>s bs a. record_call (Used s) (WSASendTo os s bs a),
     setsockopt = \<lambda>s l n bs. record_call (Used s) (setsockopt os s l n bs),
     getsockopt = \<lambda>s l n k. record_call (Used s) (getsockopt os s l n k),
     WSAIoctl = \<lambda>s c bs n. record_call (Used s) (WSAIoctl os s c bs n),
     overlapped = \<lambda>h c. record_call (case h of None \<Rightarrow> Used_invalid | Some s \<Rightarrow> Used s) (overlapped os h c)\<rparr>"

text \<open>The protocol: a socket is opened when none is open, used while it is open, and closed once; a call on \<open>INVALID_SOCKET\<close> is made only while none is open. The function follows a sequence
  of calls, from the socket that is open, and fails on a call that breaks the protocol.\<close>

fun protocol :: "SOCKET option \<Rightarrow> call list \<Rightarrow> SOCKET option option" where
  "protocol h [] = Some h"
| "protocol None (Opened s # cs) = protocol (Some s) cs"
| "protocol None (Used_invalid # cs) = protocol None cs"
| "protocol (Some s) (Used s' # cs) = (if s = s' then protocol (Some s) cs else None)"
| "protocol (Some s) (Closed s' # cs) = (if s = s' then protocol None cs else None)"
| "protocol _ _ = None"

lemma protocol_append: "protocol h (cs @ cs') = Option.bind (protocol h cs) (\<lambda>h. protocol h cs')"
  by (induction h cs rule: protocol.induct) auto

lemmas socket_ops = socket_open_def shutdown_socket_def socket_close_def cancel_socket_def bind_socket_def
  listen_socket_def connect_socket_def read_socket_def write_socket_def send_to_def recv_from_def set_option_def
  get_option_def io_control_def dis_connect_def sock_async_accept_def sock_async_connect_def sock_async_disconnect_def
  sock_async_read_def sock_async_write_def sock_async_write_all_def sock_async_send_to_def sock_async_recv_from_def
  start_overlapped_def with_socket_def or_throw_def succeeded_def

lemma exec_cmd_protocol:
  assumes "protocol h0 (snd (snd hw)) = Some (fst hw)"
  shows "protocol h0 (snd (snd (exec_cmd (recorded os) cmd hw))) = Some (fst (exec_cmd (recorded os) cmd hw))"
proof -
  obtain h w tr where hw: "hw = (h, w, tr)" by (cases hw) auto
  show ?thesis using assms
    by (cases h; cases cmd) (auto simp: hw socket_ops recorded_def record_call_def record_void_def protocol_append Let_def
        split: prod.splits option.splits bool.splits if_splits overlapped_answer.splits)
qed

lemma exec_cmd_guarded:
  assumes "Used_invalid \<notin> set (snd (snd hw))" "\<not> unguarded cmd"
  shows "Used_invalid \<notin> set (snd (snd (exec_cmd (recorded os) cmd hw)))"
proof -
  obtain h w tr where hw: "hw = (h, w, tr)" by (cases hw) auto
  show ?thesis using assms
    by (cases h; cases cmd) (auto simp: hw socket_ops recorded_def record_call_def record_void_def Let_def
        split: prod.splits option.splits bool.splits if_splits overlapped_answer.splits)
qed

lemma fold_guarded:
  "Used_invalid \<notin> set (snd (snd hw)) \<Longrightarrow> \<forall>cmd \<in> set cmds. \<not> unguarded cmd \<Longrightarrow>
   Used_invalid \<notin> set (snd (snd (fold (exec_cmd (recorded os)) cmds hw)))"
  by (induction cmds arbitrary: hw) (simp_all add: exec_cmd_guarded)

lemma fold_protocol:
  "protocol h0 (snd (snd hw)) = Some (fst hw) \<Longrightarrow>
   protocol h0 (snd (snd (fold (exec_cmd (recorded os)) cmds hw))) = Some (fst (fold (exec_cmd (recorded os)) cmds hw))"
  by (induction cmds arbitrary: hw) (simp_all add: exec_cmd_protocol)

text \<open>
  C22. The life of a socket handle that is neither copied nor assigned: whatever operations, synchronous and
  asynchronous, a program calls on it, in whatever order and whichever of them throw, for any behaviour of Winsock, every socket that is opened is used only while it is open and closed
  exactly once, and after the destructor none is open. An operation on a handle that is not open makes no call on a socket, but for the asynchronous
  operations that do not test it: these, and only these, call Winsock with \<open>INVALID_SOCKET\<close>.
\<close>

theorem handle_life_protocol:
  "protocol None (snd (snd (handle_life (recorded os) cmds (w, [])))) = Some None \<and>
   fst (handle_life (recorded os) cmds (w, [])) = None \<and>
   ((\<forall>cmd \<in> set cmds. \<not> unguarded cmd) \<longrightarrow> Used_invalid \<notin> set (snd (snd (handle_life (recorded os) cmds (w, [])))))"
proof -
  let ?hw = "fold (exec_cmd (recorded os)) cmds (None, (w, []))"
  have "protocol None (snd (snd (exec_cmd (recorded os) Close ?hw))) = Some (fst (exec_cmd (recorded os) Close ?hw))"
    by (intro exec_cmd_protocol fold_protocol) simp
  moreover have "fst (exec_cmd (recorded os) Close ?hw) = None" by (simp add: socket_close_def split: option.splits)
  moreover have "Used_invalid \<notin> set (snd (snd (exec_cmd (recorded os) Close ?hw)))" if "\<forall>cmd \<in> set cmds. \<not> unguarded cmd"
    using that by (intro exec_cmd_guarded fold_guarded) simp_all
  ultimately show ?thesis by (simp add: handle_life_def)
qed

text \<open>A Winsock that gives the sockets 1, 2, ... and on which everything succeeds.\<close>

definition easy_winsock :: "nat winsock" where
  "easy_winsock = \<lparr>WSASocket = \<lambda>f t p w. (Some (Suc w), Suc w), associate = \<lambda>s w. (True, w), set_modes = \<lambda>s w. (True, w),
     closesocket = \<lambda>s w. w, sys_shutdown = \<lambda>s n w. w, cancel_io = \<lambda>s w. w, sys_bind = \<lambda>s a w. (True, w),
     sys_listen = \<lambda>s n w. (True, w), sys_connect = \<lambda>s a w. (True, w), WSARecv = \<lambda>s n w. (Some [], w),
     WSASend = \<lambda>s bs w. (Some (length bs), w), WSARecvFrom = \<lambda>s n w. (None, w), WSASendTo = \<lambda>s bs a w. (None, w),
     setsockopt = \<lambda>s l n bs w. (True, w), getsockopt = \<lambda>s l n k w. (None, w), WSAIoctl = \<lambda>s c bs n w. (None, w),
     overlapped = \<lambda>h c w. (if h = None then Ov_failed else Ov_pending, w)\<rparr>"

theorem handle_life_protocol_witness:
  "snd (snd (handle_life (recorded easy_winsock) [Open 2 1 6, Open 2 1 6, Send [1, 2], Async_Accept None, Close, Send [3], Open 2 1 6, Cancel] (0, []))) =
     [Opened 1, Used 1, Used 1, Used 1, Used 1, Closed 1, Opened 2, Used 2, Used 2, Used 2, Closed 2] \<and>
   Used_invalid \<notin> set (snd (snd (handle_life (recorded easy_winsock) [Open 2 1 6, Open 2 1 6, Send [1, 2], Async_Accept None, Close, Send [3], Open 2 1 6, Cancel] (0, []))))"
  using handle_life_protocol [of easy_winsock "[Open 2 1 6, Open 2 1 6, Send [1, 2], Async_Accept None, Close, Send [3], Open 2 1 6, Cancel]" 0]
  by (simp add: handle_life_def socket_ops recorded_def record_call_def record_void_def easy_winsock_def Let_def)

text \<open>Flaws outside of it. A copied handle is closed twice; an asynchronous read on a closed handle reaches Winsock; and when the constructor that opens throws after
  \<open>WSASocket\<close>, no destructor runs and the socket is never closed.\<close>

lemma copied_handle_closed_twice:
  "snd (exec_cmd (recorded os) Close (copy_handle h, snd (exec_cmd (recorded os) Close (h, (w, tr))))) =
   (case h of None \<Rightarrow> (w, tr) | Some s \<Rightarrow> (closesocket os s (closesocket os s w), tr @ [Closed s, Closed s]))"
  by (cases h) (auto simp: copy_handle_def socket_close_def recorded_def record_void_def)

lemma closed_handle_read:
  "snd (snd (handle_life (recorded os) [Async_Read n] (w, []))) = [Used_invalid]"
  by (cases "overlapped os None (Ov_Recv n) w"; cases "fst (overlapped os None (Ov_Recv n) w)")
    (auto simp: handle_life_def socket_ops recorded_def record_call_def)

lemma failed_constructor_leaks:
  assumes "WSASocket os f t p w = (Some s, w1)" "associate os s w1 = (False, w2)"
  shows "construct_socket (recorded os) f t p (w, []) = (Inl Win32_exception, (w2, [Opened s, Used s]))"
  using assms by (simp add: construct_socket_def socket_open_def recorded_def record_call_def)

section \<open>Addresses\<close>

lemma htonl_bytes: "u32_rep (htonl a) = rev (u32_rep a)"
  by (simp add: htonl_def u32_rep_def [of a])

lemma htonl_htonl [simp]: "htonl (htonl a) = a"
  by (simp add: htonl_def [of "htonl a"] htonl_bytes)

text \<open>
  Addresses. For any \<open>inet_addr\<close> and \<open>inet_ntoa\<close> that are inverse on the addresses printed, the address a
  socket is bound or connected to is the one that was written; but printing an address that was parsed gives the address with its
  octets reversed, so it reads back as the address only when the octets are symmetric. The same holds for the conversions of the
  network helper.
\<close>

theorem address_conversions:
  assumes inet: "\<And>a. inet_addr (inet_ntoa a) = a"
  shows "s_addr (sockaddr_of family (ip_address_parse inet_addr str) port) = inet_addr str \<and>
    u32_rep (inet_addr (ip_address_string inet_ntoa (ip_address_parse inet_addr str))) =
      rev (u32_rep (inet_addr str)) \<and>
    (inet_addr (ip_address_string inet_ntoa (ip_address_parse inet_addr str)) = inet_addr str \<longleftrightarrow>
       u32_rep (inet_addr str) = rev (u32_rep (inet_addr str))) \<and>
    string_2_ip inet_addr (ip_2_string inet_ntoa ip) = htonl ip"
proof -
  have "(htonl a = a) = (u32_rep a = rev (u32_rep a))" for a
    by (metis htonl_bytes htonl_def rep_u32_rep)
  then show ?thesis
    by (simp add: sockaddr_of_def ip_address_parse_def ip_address_string_def string_2_ip_def ip_2_string_def inet
        htonl_bytes)
qed

text \<open>A pair of inverse functions: the four bytes of the address as characters.\<close>

definition demo_ntoa :: "u32 \<Rightarrow> string" where
  "demo_ntoa a = map (\<lambda>b. char_of (unat b)) (u32_rep a)"

definition demo_addr :: "string \<Rightarrow> u32" where
  "demo_addr str = rep_u32 (map (\<lambda>c. of_nat (of_char c)) str)"

lemma demo_inet: "demo_addr (demo_ntoa a) = a"
proof -
  have "unat b < 2 ^ 8" for b :: byte using unsigned_less [of b] by simp
  then have "of_nat (of_char (char_of (unat b))) = b" for b :: byte by simp
  then show ?thesis by (simp add: demo_addr_def demo_ntoa_def comp_def)
qed

theorem address_conversions_witness:
  "let str = demo_ntoa 0x0100007F in
     s_addr (sockaddr_of 2 (ip_address_parse demo_addr str) 80) = 0x0100007F \<and>
     u32_rep (demo_addr (ip_address_string demo_ntoa (ip_address_parse demo_addr str))) = rev (u32_rep 0x0100007F)"
  using address_conversions [of demo_addr demo_ntoa 2 "demo_ntoa 0x0100007F" 80] by (simp add: demo_inet)

section \<open>Option values\<close>

text \<open>
  Option values. A boolean option that is read back is the one set, whether \<open>getsockopt\<close> returns the whole \<open>int\<close> or only
  its first byte; a linger option has the timeout modulo 65536; \<open>value()\<close> of an integer option only says whether
  it is not zero; and the keep-alive control is never on.
\<close>

theorem option_values:
  "boolean_value (boolean_option level name v) = v \<and>
   (\<exists>opt. fst (get_option (os\<lparr>getsockopt := \<lambda>s l n k w. (Some (u32_rep (if v then 1 else 0)), w)\<rparr>) boolean_resize
       (boolean_option level name old) (Some s, w)) = Inr (Some opt) \<and> boolean_value opt = v) \<and>
   (\<exists>opt. fst (get_option (os\<lparr>getsockopt := \<lambda>s l n k w. (Some [if v then 1 else 0], w)\<rparr>) boolean_resize
       (boolean_option level name old) (Some s, w)) = Inr (Some opt) \<and> boolean_value opt = v) \<and>
   linger_enabled (linger_option v time) = v \<and> linger_timeout (linger_option v time) = uint time mod 65536 \<and>
   (integer_value (integer_option level name val) \<longleftrightarrow> val \<noteq> 0) \<and>
   onoff (io_keepalive in_time) = 0 \<and> keepalivetime (io_keepalive in_time) = in_time * 1000"
proof -
  have one: "u32_rep 1 = [1, 0, 0, 0]" "u32_rep 0 = [0, 0, 0, 0]" by (simp_all add: u32_rep_def)
  have "uint (ucast (ucast time :: 16 word) :: byte) + 256 * uint (ucast (drop_bit 8 (ucast time :: 16 word)) :: byte) =
      uint time mod 65536"
  proof -
    define y where "y = (ucast time :: 16 word)"
    have y: "uint y = uint time mod 65536" unfolding y_def by (simp add: unsigned_ucast_eq take_bit_eq_mod)
    have "uint (ucast y :: byte) = take_bit 8 (uint y)"
      "uint (ucast (drop_bit 8 y) :: byte) = take_bit 8 (drop_bit 8 (uint y))"
      by (simp_all add: unsigned_ucast_eq unsigned_drop_bit_eq take_bit_drop_bit)
    then have "uint (ucast y :: byte) = uint y mod 256" "uint (ucast (drop_bit 8 y) :: byte) = uint y div 256 mod 256"
      by (simp_all add: take_bit_eq_mod drop_bit_eq_div)
    moreover have "uint y = uint y mod (256 * 256)" by (simp add: y)
    ultimately show ?thesis unfolding y_def [symmetric] y [symmetric] using zmod_zmult2_eq [of 256 "uint y" 256] by simp
  qed
  then show ?thesis
    by (auto simp: boolean_value_def boolean_option_def get_option_def boolean_resize_def put_block_def one
        linger_enabled_def linger_timeout_def linger_option_def u16_rep_def integer_value_def integer_option_def
        io_keepalive_def)
qed

end
