(* ===== verification/Sock_Tunnel.thy ===== *)
theory Sock_Tunnel
  imports Net_Socket "HOL-Library.Sublist"
begin

text \<open>
  The SOCKS4 example (\<open>Example/Network/Sock4a\<close>): \<open>Tunnel\<close>, which relays between a client and a server with one
  buffer, as a state machine over the completions of its operations, and the request and reply of \<open>socks4.hpp\<close> as
  wire formats. The dispatcher delivers each completion once (\<open>Io_Dispatcher\<close>); a write of the tunnel is the composed write
  of \<open>Async_Transfer\<close>, which completes without an error only after the whole buffer.
\<close>

section \<open>The tunnel\<close>

text \<open>The operations that can be outstanding on the two sockets; a write carries its length, its bytes are those in the
  buffer when they are sent.\<close>

datatype tunnel_op = Cli_Read | Svr_Write nat | Svr_Read | Cli_Write nat

record tunnel =
  tn_buffer :: bytes
  tn_ops :: "tunnel_op list"
  sock_open :: bool

definition BUFFER_SIZE :: nat where
  "BUFFER_SIZE = 1024"

definition new_tunnel :: tunnel where
  "new_tunnel = \<lparr>tn_buffer = replicate BUFFER_SIZE 0, tn_ops = [], sock_open = True\<rparr>"

definition tn_start_op :: "tunnel_op \<Rightarrow> tunnel \<Rightarrow> tunnel" where
  "tn_start_op op t = t\<lparr>tn_ops := op # tn_ops t\<rparr>"

definition tn_DisConnect :: "tunnel \<Rightarrow> tunnel" where
  "tn_DisConnect t = t\<lparr>sock_open := False\<rparr>"

text \<open>\<open>Start\<close>: \<open>connect_throws\<close> and \<open>read_throws\<close> say which of its calls throw; the exception is only printed.\<close>

definition tn_Start :: "bool \<Rightarrow> bool \<Rightarrow> tunnel \<Rightarrow> tunnel" where
  "tn_Start connect_throws read_throws t = (if connect_throws \<or> read_throws then t else tn_start_op Cli_Read t)"

definition OnSvrConnect :: "u32 \<Rightarrow> tunnel \<Rightarrow> tunnel" where
  "OnSvrConnect error t = (if error = 0 then t else tn_DisConnect t)"

text \<open>The four handlers have one shape: disconnect when nothing was moved, on an error, or when starting the next
  operation throws.\<close>

definition tn_handler :: "tunnel_op \<Rightarrow> bool \<Rightarrow> u32 \<Rightarrow> nat \<Rightarrow> tunnel \<Rightarrow> tunnel" where
  "tn_handler next_op throws error bytes t =
     (if bytes = 0 \<or> error \<noteq> 0 \<or> throws then tn_DisConnect t else tn_start_op next_op t)"

definition OnCliRead :: "bool \<Rightarrow> u32 \<Rightarrow> nat \<Rightarrow> tunnel \<Rightarrow> tunnel" where
  "OnCliRead throws error bytes = tn_handler (Svr_Write bytes) throws error bytes"

definition OnSvrWrite :: "bool \<Rightarrow> u32 \<Rightarrow> nat \<Rightarrow> tunnel \<Rightarrow> tunnel" where
  "OnSvrWrite throws error bytes = tn_handler Svr_Read throws error bytes"

definition OnSvrRead :: "bool \<Rightarrow> u32 \<Rightarrow> nat \<Rightarrow> tunnel \<Rightarrow> tunnel" where
  "OnSvrRead throws error bytes = tn_handler (Cli_Write bytes) throws error bytes"

definition OnCliWrite :: "bool \<Rightarrow> u32 \<Rightarrow> nat \<Rightarrow> tunnel \<Rightarrow> tunnel" where
  "OnCliWrite throws error bytes = tn_handler Cli_Read throws error bytes"

text \<open>
  A step is the completion of an outstanding operation. The kernel fills the buffer before a read completes, and has taken
  a prefix of the write from it. The event says what went over which connection.
\<close>

datatype tunnel_event = From_Cli bytes | To_Svr bytes | From_Svr bytes | To_Cli bytes | Connected

definition filled :: "tunnel_op \<Rightarrow> bytes \<Rightarrow> tunnel \<Rightarrow> tunnel" where
  "filled op data t = t\<lparr>tn_ops := remove1 op (tn_ops t), tn_buffer := put_block 0 data (tn_buffer t)\<rparr>"

definition sent :: "tunnel_op \<Rightarrow> tunnel \<Rightarrow> tunnel" where
  "sent op t = t\<lparr>tn_ops := remove1 op (tn_ops t)\<rparr>"

inductive tunnel_step :: "tunnel \<Rightarrow> tunnel_event \<Rightarrow> tunnel \<Rightarrow> bool" where
  cli_read: "Cli_Read \<in> set (tn_ops t) \<Longrightarrow> length data \<le> BUFFER_SIZE \<Longrightarrow>
    tunnel_step t (From_Cli data) (OnCliRead throws error (length data) (filled Cli_Read data t))"
| svr_write: "Svr_Write n \<in> set (tn_ops t) \<Longrightarrow> k \<le> n \<Longrightarrow> error \<noteq> 0 \<or> k = 0 \<or> k = n \<Longrightarrow>
    tunnel_step t (To_Svr (take k (tn_buffer t))) (OnSvrWrite throws error k (sent (Svr_Write n) t))"
| svr_read: "Svr_Read \<in> set (tn_ops t) \<Longrightarrow> length data \<le> BUFFER_SIZE \<Longrightarrow>
    tunnel_step t (From_Svr data) (OnSvrRead throws error (length data) (filled Svr_Read data t))"
| cli_write: "Cli_Write n \<in> set (tn_ops t) \<Longrightarrow> k \<le> n \<Longrightarrow> error \<noteq> 0 \<or> k = 0 \<or> k = n \<Longrightarrow>
    tunnel_step t (To_Cli (take k (tn_buffer t))) (OnCliWrite throws error k (sent (Cli_Write n) t))"
| connected: "tunnel_step t Connected (OnSvrConnect error t)"

inductive_cases tunnel_stepE: "tunnel_step t e t'"

inductive tunnel_run :: "tunnel \<Rightarrow> tunnel_event list \<Rightarrow> tunnel \<Rightarrow> bool" where
  started: "tunnel_run (tn_Start ct rt new_tunnel) [] (tn_Start ct rt new_tunnel)"
| completed: "tunnel_run t0 es t \<Longrightarrow> tunnel_step t e t' \<Longrightarrow> tunnel_run t0 (es @ [e]) t'"

fun from_cli :: "tunnel_event list \<Rightarrow> bytes" where
  "from_cli [] = []" | "from_cli (From_Cli bs # es) = bs @ from_cli es" | "from_cli (_ # es) = from_cli es"

fun to_svr :: "tunnel_event list \<Rightarrow> bytes" where
  "to_svr [] = []" | "to_svr (To_Svr bs # es) = bs @ to_svr es" | "to_svr (_ # es) = to_svr es"

fun from_svr :: "tunnel_event list \<Rightarrow> bytes" where
  "from_svr [] = []" | "from_svr (From_Svr bs # es) = bs @ from_svr es" | "from_svr (_ # es) = from_svr es"

fun to_cli :: "tunnel_event list \<Rightarrow> bytes" where
  "to_cli [] = []" | "to_cli (To_Cli bs # es) = bs @ to_cli es" | "to_cli (_ # es) = to_cli es"

lemma relay_append [simp]:
  "from_cli (es @ es') = from_cli es @ from_cli es'" "to_svr (es @ es') = to_svr es @ to_svr es'"
  "from_svr (es @ es') = from_svr es @ from_svr es'" "to_cli (es @ es') = to_cli es @ to_cli es'"
proof -
  show "from_cli (es @ es') = from_cli es @ from_cli es'" by (induction es rule: from_cli.induct) auto
  show "to_svr (es @ es') = to_svr es @ to_svr es'" by (induction es rule: to_svr.induct) auto
  show "from_svr (es @ es') = from_svr es @ from_svr es'" by (induction es rule: from_svr.induct) auto
  show "to_cli (es @ es') = to_cli es @ to_cli es'" by (induction es rule: to_cli.induct) auto
qed

text \<open>
  The invariant: at most one operation is outstanding. What was read and not yet passed on is in the buffer; after an error the
  tunnel has passed on a prefix.
\<close>

definition tunnel_inv :: "tunnel_event list \<Rightarrow> tunnel \<Rightarrow> bool" where
  "tunnel_inv es t \<longleftrightarrow> length (tn_buffer t) = BUFFER_SIZE \<and> (case tn_ops t of
       [] \<Rightarrow> prefix (to_svr es) (from_cli es) \<and> prefix (to_cli es) (from_svr es)
     | [Svr_Write n] \<Rightarrow> n \<le> BUFFER_SIZE \<and> from_cli es = to_svr es @ take n (tn_buffer t) \<and> to_cli es = from_svr es
     | [Cli_Write n] \<Rightarrow> n \<le> BUFFER_SIZE \<and> from_svr es = to_cli es @ take n (tn_buffer t) \<and> to_svr es = from_cli es
     | [_] \<Rightarrow> to_svr es = from_cli es \<and> to_cli es = from_svr es
     | _ \<Rightarrow> False)"

lemmas tunnel_ops = OnCliRead_def OnSvrWrite_def OnSvrRead_def OnCliWrite_def OnSvrConnect_def tn_handler_def
  tn_DisConnect_def tn_start_op_def filled_def sent_def tn_Start_def new_tunnel_def

lemma one_op: "tunnel_inv es t \<Longrightarrow> op \<in> set (tn_ops t) \<Longrightarrow> tn_ops t = [op]"
  by (auto simp: tunnel_inv_def split: list.splits tunnel_op.splits)

lemma tunnel_step_inv:
  assumes "tunnel_step t e t'" "tunnel_inv es t"
  shows "tunnel_inv (es @ [e]) t'"
  using assms(1)
proof cases
  case (cli_read data throws error)
  then show ?thesis using assms(2) one_op [OF assms(2) cli_read(3)]
    by (auto simp: tunnel_inv_def tunnel_ops put_block_def)
next
  case (svr_write n k error throws)
  then show ?thesis using assms(2) one_op [OF assms(2) svr_write(3)]
    by (auto simp: tunnel_inv_def tunnel_ops take_is_prefix le_iff_add take_add)
next
  case (svr_read data throws error)
  then show ?thesis using assms(2) one_op [OF assms(2) svr_read(3)]
    by (auto simp: tunnel_inv_def tunnel_ops put_block_def)
next
  case (cli_write n k error throws)
  then show ?thesis using assms(2) one_op [OF assms(2) cli_write(3)]
    by (auto simp: tunnel_inv_def tunnel_ops take_is_prefix le_iff_add take_add)
next
  case (connected error)
  then show ?thesis using assms(2)
    by (auto simp: tunnel_inv_def tunnel_ops split: list.splits tunnel_op.splits)
qed

lemma tunnel_run_inv: "tunnel_run t0 es t \<Longrightarrow> tunnel_inv es t"
proof (induction rule: tunnel_run.induct)
  case (started ct rt)
  then show ?case by (simp add: tunnel_inv_def tunnel_ops)
next
  case (completed t0 es t e t')
  then show ?case by (simp add: tunnel_step_inv)
qed

text \<open>
  C25. The tunnel relays faithfully. In every run, whatever the completions and errors: at most one operation is outstanding, so the
  one buffer is never filled while it is being sent; what the server has received is a prefix of what the client sent, and what the
  client has received a prefix of what the server sent; and while the tunnel waits for the client nothing is held back in it.
\<close>

theorem tunnel_relays:
  assumes "tunnel_run t0 es t"
  shows "length (tn_ops t) \<le> 1 \<and> prefix (to_svr es) (from_cli es) \<and> prefix (to_cli es) (from_svr es) \<and>
    (tn_ops t = [Cli_Read] \<longrightarrow> to_svr es = from_cli es \<and> to_cli es = from_svr es)"
  using tunnel_run_inv [OF assms] by (auto simp: tunnel_inv_def split: list.splits tunnel_op.splits)

lemma demo_relay_run:
  "\<exists>t. tunnel_run (tn_Start False False new_tunnel) [From_Cli [1, 2], To_Svr [1, 2], From_Svr [3], To_Cli [3]] t \<and>
     tn_ops t = [Cli_Read]"
proof -
  let ?t0 = "tn_Start False False new_tunnel"
  let ?t1 = "OnCliRead False 0 2 (filled Cli_Read [1, 2] ?t0)"
  let ?t2 = "OnSvrWrite False 0 2 (sent (Svr_Write 2) ?t1)"
  let ?t3 = "OnSvrRead False 0 1 (filled Svr_Read [3] ?t2)"
  let ?t4 = "OnCliWrite False 0 1 (sent (Cli_Write 1) ?t3)"
  note ops = tunnel_ops put_block_def BUFFER_SIZE_def numeral_2_eq_2
  have s1: "tunnel_step ?t0 (From_Cli [1, 2]) ?t1" using cli_read [of ?t0 "[1, 2]" False 0] by (simp add: ops)
  have s2: "tunnel_step ?t1 (To_Svr [1, 2]) ?t2" using svr_write [of 2 ?t1 2 0 False] by (simp add: ops)
  have s3: "tunnel_step ?t2 (From_Svr [3]) ?t3" using svr_read [of ?t2 "[3]" False 0] by (simp add: ops)
  have s4: "tunnel_step ?t3 (To_Cli [3]) ?t4" using cli_write [of 1 ?t3 1 0 False] by (simp add: ops)
  have "tunnel_run ?t0 [From_Cli [1, 2], To_Svr [1, 2], From_Svr [3], To_Cli [3]] ?t4"
    using completed [OF completed [OF completed [OF completed [OF started s1] s2] s3] s4]
    by (simp only: append_Nil append_Cons)
  then show ?thesis by (intro exI [of _ ?t4]) (simp add: ops)
qed

theorem tunnel_relays_witness:
  "\<exists>es t. tunnel_run (tn_Start False False new_tunnel) es t \<and> tn_ops t = [Cli_Read] \<and>
     from_cli es = [1, 2] \<and> to_svr es = from_cli es \<and> length (tn_ops t) \<le> 1"
proof -
  obtain t where t: "tunnel_run (tn_Start False False new_tunnel) [From_Cli [1, 2], To_Svr [1, 2], From_Svr [3], To_Cli [3]] t"
    "tn_ops t = [Cli_Read]" using demo_relay_run by blast
  from tunnel_relays [OF t(1)] t show ?thesis by fastforce
qed

section \<open>The SOCKS4 messages\<close>

definition socks4_version :: byte where "socks4_version = 4"

record socks4_request =
  rq_command :: byte
  rq_port :: "16 word"
  rq_address :: u32
  rq_user_id :: bytes

text \<open>\<open>buffers\<close> of a request: six of the seven buffers are set, the last is empty.\<close>

definition request_buffers :: "socks4_request \<Rightarrow> bytes list" where
  "request_buffers r = [[socks4_version], [rq_command r], u16_rep (rq_port r), u32_rep (rq_address r),
     rq_user_id r, [0], []]"

record socks4_reply =
  rp_null_byte :: byte
  rp_status :: byte
  rp_port :: byte
  rp_address :: u32

text \<open>Reading a reply fills its buffers in turn from the bytes received: one byte each for \<open>null_byte_\<close>,
  \<open>status_\<close> and \<open>port_\<close>, which is declared \<open>std::uint8_t\<close>, four for \<open>address_\<close>, and an empty fifth buffer.\<close>

definition read_reply :: "bytes \<Rightarrow> (socks4_reply \<times> bytes) option" where
  "read_reply bs = (case bs of
     n # s # p # a # b # c # d # rest \<Rightarrow>
       Some (\<lparr>rp_null_byte = n, rp_status = s, rp_port = p, rp_address = rep_u32 [a, b, c, d]\<rparr>, rest)
   | _ \<Rightarrow> None)"

definition reply_success :: "socks4_reply \<Rightarrow> bool" where
  "reply_success r \<longleftrightarrow> rp_null_byte r = 0 \<and> rp_status r = 0x5a"

definition reply_endpoint :: "socks4_reply \<Rightarrow> 16 word \<times> u32" where
  "reply_endpoint r = (ucast (rp_port r), rp_address r)"

text \<open>The formats of the protocol: port and address in network byte order.\<close>

definition socks4_request_format :: "byte \<Rightarrow> 16 word \<Rightarrow> u32 \<Rightarrow> bytes \<Rightarrow> bytes" where
  "socks4_request_format cmd port addr user =
     [4, cmd] @ rev (u16_rep port) @ rev (u32_rep addr) @ user @ [0]"

definition socks4_reply_format :: "byte \<Rightarrow> 16 word \<Rightarrow> u32 \<Rightarrow> bytes" where
  "socks4_reply_format status port addr = [0, status] @ rev (u16_rep port) @ rev (u32_rep addr)"

text \<open>A request has the format when port and address are given in network byte order; the client passes both in host order.\<close>

lemma request_format:
  "concat (request_buffers \<lparr>rq_command = cmd, rq_port = htons port, rq_address = htonl addr, rq_user_id = user\<rparr>) =
   socks4_request_format cmd port addr user"
proof -
  have "u16_rep (htons port) = rev (u16_rep port)"
    by (auto simp: u16_rep_def htons_def bit_eq_iff bit_simps)
  then show ?thesis by (simp add: request_buffers_def socks4_request_format_def socks4_version_def htonl_bytes)
qed

text \<open>
  A reply of the protocol is judged correctly, but with one byte for the port only: the endpoint is made of the wrong bytes and the last
  byte of the reply is left in the stream, in front of the data that follow.
\<close>

theorem socks4_reply_misread:
  "\<exists>r. read_reply (socks4_reply_format status port addr @ data) = Some (r, last (rev (u32_rep addr)) # data) \<and>
     (reply_success r \<longleftrightarrow> status = 0x5a) \<and> fst (reply_endpoint r) = drop_bit 8 port"
  by (auto simp: read_reply_def socks4_reply_format_def u16_rep_def u32_rep_def reply_success_def reply_endpoint_def
      bit_eq_iff bit_simps dest: bit_imp_le_length)

end
