(* ===== verification/File_Monitor.thy ===== *)
theory File_Monitor
  imports Net_Socket
begin

text \<open>
  Files: the directory monitor of \<open>include/async_io/file\<close> (\<open>file_monitor.*\<close>, \<open>file_change_callback.hpp\<close>,
  \<open>file_change_notify_hook.hpp\<close>), which walks the records the system leaves in a buffer, and the file handles of
  \<open>file.cpp\<close>, with the system calls as a parameter as for sockets. The buffer is a byte list; a read outside of it is \<open>Access_violation\<close>.
\<close>

section \<open>The walk over the records\<close>

text \<open>\<open>FILE_NOTIFY_INFORMATION\<close>: three 32-bit fields, \<open>NextEntryOffset\<close>, \<open>Action\<close> and \<open>FileNameLength\<close> in bytes,
  followed by the name in 16-bit characters. What the handler is called with: the error, the action, the name and its length in characters.\<close>

record notify_call =
  nc_error :: u32
  nc_action :: u32
  nc_name :: bytes
  nc_count :: nat

definition field :: "bytes \<Rightarrow> nat \<Rightarrow> u32" where
  "field buf pos = rep_u32 (get_block pos 4 buf)"

text \<open>One call of the handler; it reads the name, so the name must be inside the buffer.\<close>

definition notify_one :: "u32 \<Rightarrow> bytes \<Rightarrow> nat \<Rightarrow> notify_call result" where
  "notify_one error buf pos = (let len = unat (field buf (pos + 8)) in
     if length buf < pos + 12 + 2 * (len div 2) then Inl Access_violation
     else Inr \<lparr>nc_error = error, nc_action = field buf (pos + 4),
                nc_name = get_block (pos + 12) (2 * (len div 2)) buf, nc_count = len div 2\<rparr>)"

function notify_walk :: "u32 \<Rightarrow> bytes \<Rightarrow> nat \<Rightarrow> notify_call list result" where
  "notify_walk error buf pos = (if length buf < pos + 12 then Inl Access_violation
     else bindR (notify_one error buf pos) (\<lambda>c.
       if field buf pos = 0 then Inr [c]
       else bindR (notify_walk error buf (pos + unat (field buf pos))) (\<lambda>cs. Inr (c # cs))))"
  by pat_completeness auto
termination
proof (relation "measure (\<lambda>(error, buf, pos). length buf - pos)")
  fix error :: u32 and buf pos and c :: notify_call
  assume "\<not> length buf < pos + 12" "field buf pos \<noteq> 0"
  moreover from this have "0 < unat (field buf pos)" by (simp add: unat_gt_0)
  ultimately show "((error, buf, pos + unat (field buf pos)), (error, buf, pos)) \<in> measure (\<lambda>(error, buf, pos). length buf - pos)"
    by auto
qed simp

declare notify_walk.simps [simp del]

section \<open>The monitor\<close>

text \<open>A monitor has a directory handle or none; \<open>monitor\<close> starts one request, \<open>started\<close> says whether
  \<open>ReadDirectoryChangesW\<close> succeeds. Requests are recorded with their argument \<open>sub_dir\<close>.\<close>

record change_monitor =
  cm_file :: "nat option"
  cm_requests :: "bool list"

definition monitor_open :: "nat option \<Rightarrow> change_monitor \<Rightarrow> unit result \<times> change_monitor" where
  "monitor_open create_file m = (if cm_file m \<noteq> None then (Inr (), m) else
     (case create_file of None \<Rightarrow> (Inl Win32_exception, m) | Some h \<Rightarrow> (Inr (), m\<lparr>cm_file := Some h\<rparr>)))"

definition monitor_close :: "change_monitor \<Rightarrow> change_monitor" where
  "monitor_close m = m\<lparr>cm_file := None\<rparr>"

definition monitor :: "bool \<Rightarrow> bool \<Rightarrow> change_monitor \<Rightarrow> unit result \<times> change_monitor" where
  "monitor sub_dir started m = (if cm_file m = None \<or> \<not> started then (Inl Win32_exception, m)
     else (Inr (), m\<lparr>cm_requests := sub_dir # cm_requests m\<rparr>))"

text \<open>The hook on completion: it starts the next request first, with the default \<open>sub_dir = true\<close>, then walks.\<close>

definition change_hook :: "bool \<Rightarrow> u32 \<Rightarrow> u32 \<Rightarrow> bytes \<Rightarrow> change_monitor \<Rightarrow> notify_call list result \<times> change_monitor" where
  "change_hook started bytes error buf m = (if bytes = 0 then (Inr [], m) else
     (case monitor True started m of
        (Inl e, m) \<Rightarrow> (Inl e, m)
      | (Inr u, m) \<Rightarrow> (notify_walk error buf 0, m)))"

section \<open>File handles\<close>

text \<open>The system calls of \<open>file_handle\<close>. Positions are 64-bit.\<close>

record 'w file_api =
  CreateFile :: "u32 \<Rightarrow> 'w \<Rightarrow> nat option \<times> 'w"
  bind_port :: "nat \<Rightarrow> 'w \<Rightarrow> bool \<times> 'w"
  CloseHandle :: "nat \<Rightarrow> 'w \<Rightarrow> 'w"
  FlushFileBuffers :: "nat \<Rightarrow> 'w \<Rightarrow> bool \<times> 'w"
  CancelIo :: "nat \<Rightarrow> 'w \<Rightarrow> bool \<times> 'w"
  SetFilePointerEx :: "nat \<Rightarrow> 64 word \<Rightarrow> 'w \<Rightarrow> bool \<times> 'w"
  SetEndOfFile :: "nat \<Rightarrow> 'w \<Rightarrow> bool \<times> 'w"
  ReadFile :: "nat \<Rightarrow> nat \<Rightarrow> 'w \<Rightarrow> bytes option \<times> 'w"
  WriteFile :: "nat \<Rightarrow> bytes \<Rightarrow> 'w \<Rightarrow> nat option \<times> 'w"

definition FILE_FLAG_NO_BUFFERING :: u32 where "FILE_FLAG_NO_BUFFERING = 0x20000000"
definition FILE_FLAG_OVERLAPPED :: u32 where "FILE_FLAG_OVERLAPPED = 0x40000000"

text \<open>\<open>open\<close> does not look whether a file is open already.\<close>

definition file_open :: "'w file_api \<Rightarrow> u32 \<Rightarrow> ('w, unit) sock_op" where
  "file_open os flag hw = (case CreateFile os flag (snd hw) of
     (None, w) \<Rightarrow> (Inl Win32_exception, (None, w))
   | (Some h, w) \<Rightarrow> (if flag AND FILE_FLAG_NO_BUFFERING \<noteq> 0 \<or> flag AND FILE_FLAG_OVERLAPPED \<noteq> 0
       then or_throw (succeeded \<circ> bind_port os h) (Some h, w) else (Inr (), (Some h, w))))"

definition file_close :: "'w file_api \<Rightarrow> ('w, unit) sock_op" where
  "file_close os hw = (case fst hw of None \<Rightarrow> (Inr (), hw) | Some h \<Rightarrow> (Inr (), (None, CloseHandle os h (snd hw))))"

text \<open>\<open>flush\<close>, \<open>cancel\<close> and \<open>set_file_size\<close> rely on an assertion, or on the call to fail, when nothing is open.\<close>

definition file_query :: "(nat \<Rightarrow> 'w \<Rightarrow> bool \<times> 'w) \<Rightarrow> ('w, bool) sock_op" where
  "file_query f hw = (case fst hw of None \<Rightarrow> (Inr False, hw)
     | Some h \<Rightarrow> (let (ok, w) = f h (snd hw) in (Inr ok, (fst hw, w))))"

definition file_flush :: "'w file_api \<Rightarrow> ('w, bool) sock_op" where
  "file_flush os = file_query (FlushFileBuffers os)"

definition file_cancel :: "'w file_api \<Rightarrow> ('w, bool) sock_op" where
  "file_cancel os = file_query (CancelIo os)"

text \<open>Two calls in a row: the second is made when the first has not thrown.\<close>

definition then_op :: "('w, 'a) sock_op \<Rightarrow> ('w, 'b) sock_op \<Rightarrow> ('w, 'b) sock_op" where
  "then_op f g hw = (case f hw of (Inl e, hw) \<Rightarrow> (Inl e, hw) | (Inr x, hw) \<Rightarrow> g hw)"

definition set_file_size :: "'w file_api \<Rightarrow> 64 word \<Rightarrow> ('w, unit) sock_op" where
  "set_file_size os sz hw = (case fst hw of None \<Rightarrow> (Inl Win32_exception, hw)
     | Some h \<Rightarrow> then_op (or_throw (succeeded \<circ> SetFilePointerEx os h sz)) (or_throw (succeeded \<circ> SetEndOfFile os h)) hw)"

definition file_read :: "'w file_api \<Rightarrow> nat \<Rightarrow> 64 word \<Rightarrow> ('w, bytes) sock_op" where
  "file_read os len offset hw = (case fst hw of None \<Rightarrow> (Inl Runtime_error, hw)
     | Some h \<Rightarrow> then_op (or_throw (succeeded \<circ> SetFilePointerEx os h offset)) (or_throw (ReadFile os h len)) hw)"

definition file_write :: "'w file_api \<Rightarrow> bytes \<Rightarrow> 64 word \<Rightarrow> ('w, nat) sock_op" where
  "file_write os buf offset hw = (case fst hw of None \<Rightarrow> (Inl Runtime_error, hw)
     | Some h \<Rightarrow> then_op (or_throw (succeeded \<circ> SetFilePointerEx os h offset)) (or_throw (WriteFile os h buf)) hw)"

text \<open>The two halves of the offset that \<open>async_read\<close> and \<open>async_write\<close> put into the request.\<close>

definition offset_low :: "64 word \<Rightarrow> u32" where
  "offset_low offset = ucast (offset AND 0xFFFFFFFF)"

definition offset_high :: "64 word \<Rightarrow> u32" where
  "offset_high offset = ucast (drop_bit 32 offset AND 0xFFFFFFFF)"

lemma offset_halves:
  "push_bit 32 (ucast (offset_high offset)) OR ucast (offset_low offset) = (offset :: 64 word)"
proof -
  have "(0xFFFFFFFF :: 64 word) = mask 32" by (simp add: mask_eq_exp_minus_1)
  then show ?thesis by (auto simp: offset_low_def offset_high_def bit_eq_iff bit_simps)
qed

lemmas file_ops = file_open_def file_close_def file_query_def file_flush_def file_cancel_def then_op_def set_file_size_def
  file_read_def file_write_def or_throw_def succeeded_def

text \<open>
  What the calls promise when they succeed, for a system whose file has a \<open>content\<close> and a \<open>position\<close>: moving the position keeps the content, a
  write puts the bytes at the position, extending the file if need be, and a read returns the bytes there.
\<close>

definition file_law :: "'w file_api \<Rightarrow> ('w \<Rightarrow> bytes) \<Rightarrow> ('w \<Rightarrow> nat) \<Rightarrow> bool" where
  "file_law os content position \<longleftrightarrow>
     (\<forall>h off w w'. SetFilePointerEx os h off w = (True, w') \<longrightarrow> content w' = content w \<and> position w' = unat off) \<and>
     (\<forall>h bs n w w'. WriteFile os h bs w = (Some n, w') \<longrightarrow> n = length bs \<and>
        content w' = put_block (position w) bs (content w @ replicate (position w + length bs - length (content w)) 0)) \<and>
     (\<forall>h k bs w w'. ReadFile os h k w = (Some bs, w') \<longrightarrow> bs = get_block (position w) k (content w) \<and> content w' = content w)"

text \<open>Writing and reading back at an offset.\<close>

theorem file_write_read:
  assumes law: "file_law os content position"
    and written: "file_write os buf offset (Some h, w) = (Inr n, (Some h, w'))"
    and read_back: "file_read os (length buf) offset (Some h, w') = (Inr bs, hw)"
  shows "n = length buf \<and> bs = buf \<and> take (unat offset) (content w') =
      take (unat offset) (content w @ replicate (unat offset + length buf - length (content w)) 0) \<and>
    drop (unat offset + length buf) (content w') = drop (unat offset + length buf) (content w)"
proof -
  obtain w1 where "SetFilePointerEx os h offset w = (True, w1)" "WriteFile os h buf w1 = (Some n, w')"
    using written by (cases "SetFilePointerEx os h offset w") (auto simp: file_ops split: prod.splits if_splits option.splits)
  then have w': "n = length buf" "content w' = put_block (unat offset) buf
      (content w @ replicate (unat offset + length buf - length (content w)) 0)"
    using law unfolding file_law_def by metis+
  obtain w2 w3 where "SetFilePointerEx os h offset w' = (True, w2)" "ReadFile os h (length buf) w2 = (Some bs, w3)"
    using read_back by (cases "SetFilePointerEx os h offset w'") (auto simp: file_ops split: prod.splits if_splits option.splits)
  then have "bs = get_block (unat offset) (length buf) (content w')"
    using law unfolding file_law_def by metis
  then show ?thesis using w' by (auto simp: get_block_def put_block_def)
qed

text \<open>Opening a file while one is open forgets the first handle: it is never closed.\<close>

lemma file_reopen_leaks:
  assumes "CreateFile os flag w = (Some h', w')" "flag AND FILE_FLAG_NO_BUFFERING = 0" "flag AND FILE_FLAG_OVERLAPPED = 0"
  shows "snd (file_close os (snd (file_open os flag (Some h, w)))) = (None, CloseHandle os h' w')"
  using assms by (simp add: file_ops)

section \<open>Records as the system writes them\<close>

text \<open>
  The format of the system: records aligned to four bytes, each with the distance to the next, zero in the last.
\<close>

definition pad4 :: "nat \<Rightarrow> nat" where
  "pad4 n = (4 - n mod 4) mod 4"

definition record_bytes :: "u32 \<Rightarrow> u32 \<Rightarrow> bytes \<Rightarrow> bytes" where
  "record_bytes next_offset action name =
     u32_rep next_offset @ u32_rep action @ u32_rep (of_nat (length name)) @ name"

fun notify_format :: "(u32 \<times> bytes) list \<Rightarrow> bytes" where
  "notify_format [] = []"
| "notify_format [(action, name)] = record_bytes 0 action name"
| "notify_format ((action, name) # e # es) =
     record_bytes (of_nat (12 + length name + pad4 (length name))) action name @
     replicate (pad4 (length name)) 0 @ notify_format (e # es)"

definition notified :: "u32 \<Rightarrow> u32 \<times> bytes \<Rightarrow> notify_call" where
  "notified error e = \<lparr>nc_error = error, nc_action = fst e, nc_name = snd e, nc_count = length (snd e) div 2\<rparr>"

lemma get_block_append: "length pre = pos \<Longrightarrow> length mid = n \<Longrightarrow> get_block pos n (pre @ mid @ rest) = mid"
  by (simp add: get_block_def)

lemma record_fields:
  fixes pre rest name :: bytes and next_offset action :: u32
  assumes "length name < 2 ^ 31" "even (length name)"
  defines "buf \<equiv> pre @ record_bytes next_offset action name @ rest"
  shows "field buf (length pre) = next_offset" "notify_one error buf (length pre) = Inr (notified error (action, name))"
    "length pre + 12 \<le> length buf"
proof -
  have len: "unat (of_nat (length name) :: u32) = length name" using assms(1) by (simp add: unat_of_nat_u32)
  show "field buf (length pre) = next_offset" "length pre + 12 \<le> length buf"
    by (simp_all add: buf_def field_def record_bytes_def get_block_append)
  have "field buf (length pre + 4) = action"
    using get_block_append [of "pre @ u32_rep next_offset" "length pre + 4" "u32_rep action" 4]
    by (simp add: buf_def field_def record_bytes_def)
  moreover have "unat (field buf (length pre + 8)) = length name"
    using len get_block_append [of "pre @ u32_rep next_offset @ u32_rep action" "length pre + 8" "u32_rep (of_nat (length name))" 4]
    by (simp add: buf_def field_def record_bytes_def)
  moreover have "get_block (length pre + 12) (length name) buf = name"
    using get_block_append [of "pre @ u32_rep next_offset @ u32_rep action @ u32_rep (of_nat (length name))" "length pre + 12" name]
    by (simp add: buf_def record_bytes_def)
  ultimately show "notify_one error buf (length pre) = Inr (notified error (action, name))"
    using assms(2) by (simp add: notify_one_def notified_def Let_def) (simp add: buf_def record_bytes_def)
qed

lemma notify_walk_format:
  assumes "es \<noteq> []" "\<forall>(action, name) \<in> set es. even (length name) \<and> length name < 2 ^ 30"
  shows "notify_walk error (pre @ notify_format es @ rest) (length pre) = Inr (map (notified error) es)"
  using assms
proof (induction es arbitrary: pre rule: notify_format.induct)
  case (2 action name)
  then show ?case using record_fields [where name = name and pre = pre and next_offset = 0 and action = action and rest = rest]
    by (subst notify_walk.simps) (simp add: result_simps)
next
  case (3 action name e es)
  let ?d = "12 + length name + pad4 (length name)"
  let ?r = "record_bytes (of_nat ?d) action name" and ?p = "replicate (pad4 (length name)) (0 :: byte)"
  have "?d < 2 ^ 32" using 3(3) by (auto simp: pad4_def)
  then have d: "unat (of_nat ?d :: u32) = ?d" "?d \<noteq> 0" by (rule unat_of_nat_u32) simp
  then have next_offset: "(of_nat ?d :: u32) \<noteq> 0" by (metis unat_0)
  note fields = record_fields [where name = name and pre = pre and next_offset = "of_nat ?d" and action = action
      and rest = "?p @ notify_format (e # es) @ rest"]
  have "length (pre @ ?r @ ?p) = length pre + ?d" by (simp add: record_bytes_def)
  then have "notify_walk error (pre @ notify_format ((action, name) # e # es) @ rest) (length pre + ?d) =
      Inr (map (notified error) (e # es))"
    using 3(1) [of "pre @ ?r @ ?p"] 3(3) by (simp del: length_append)
  then show ?case using fields 3(3) d next_offset
    by (subst notify_walk.simps) (simp add: result_simps del: of_nat_add)
qed simp

text \<open>
  C27. The directory monitor reports every change. When a request completes with a buffer that holds any non-empty sequence of records
  in the system's format, the handler is called once for each record, in order, with its action and its whole name; nothing outside of the
  buffer is read; and the next request has been started before. That request covers subdirectories, whatever the first one did.
\<close>

theorem monitor_reports:
  assumes "cm_file m \<noteq> None" "bytes \<noteq> 0" "es \<noteq> []"
    and "\<forall>(action, name) \<in> set es. even (length name) \<and> length name < 2 ^ 30"
  shows "change_hook True bytes error (notify_format es @ rest) m =
    (Inr (map (notified error) es), m\<lparr>cm_requests := True # cm_requests m\<rparr>)"
  using assms notify_walk_format [OF assms(3,4), of error "[]" rest]
  by (simp add: change_hook_def monitor_def)

theorem monitor_reports_witness:
  "change_hook True 60 0 (notify_format [(1, [97, 0]), (2, [98, 0, 99, 0])] @ [0, 0])
     \<lparr>cm_file = Some 3, cm_requests = [False]\<rparr> =
   (Inr [\<lparr>nc_error = 0, nc_action = 1, nc_name = [97, 0], nc_count = 1\<rparr>,
         \<lparr>nc_error = 0, nc_action = 2, nc_name = [98, 0, 99, 0], nc_count = 2\<rparr>],
    \<lparr>cm_file = Some 3, cm_requests = [True, False]\<rparr>)"
  using monitor_reports [of "\<lparr>cm_file = Some 3, cm_requests = [False]\<rparr>" 60
      "[(1, [97, 0]), (2, [98, 0, 99, 0])]" 0 "[0, 0]"]
  by (simp add: notified_def)

end
