(* ===== verification/Std_Utility.thy ===== *)
theory Std_Utility
  imports Prelude
begin

text \<open>
  Small parts: \<open>stack_allocator_t\<close> and \<open>pool_allocator_t\<close> of \<open>include/extend_stl/allocator\<close>,
  \<open>cicular_buffer_t\<close> of \<open>include/utility\<close> and the map behind a lock, \<open>sync_assoc_container_t\<close>.
\<close>

section \<open>The stack allocator\<close>

text \<open>The storage is an array of bytes and the position of the first free one. \<open>allocate\<close> computes the end of the
  block in 32 bits; the result is the position of the block or a null pointer.\<close>

record stack_storage =
  ss_pos :: u32

definition new_storage :: stack_storage where
  "new_storage = \<lparr>ss_pos = 0\<rparr>"

definition stack_allocate :: "u32 \<Rightarrow> u32 \<Rightarrow> u32 \<Rightarrow> stack_storage \<Rightarrow> u32 option \<times> stack_storage" where
  "stack_allocate n_stack_elements elem_size n s =
     (if ss_pos s + n * elem_size > n_stack_elements then (None, s)
      else (Some (ss_pos s), s\<lparr>ss_pos := ss_pos s + n * elem_size\<rparr>))"

definition stack_deallocate :: "u32 \<Rightarrow> u32 \<Rightarrow> stack_storage \<Rightarrow> stack_storage" where
  "stack_deallocate p n s = s"

text \<open>A sequence of requests, each an element size and a number of elements, and the blocks handed out, as position and length.\<close>

fun stack_blocks :: "u32 \<Rightarrow> (u32 \<times> u32) list \<Rightarrow> stack_storage \<Rightarrow> (nat \<times> nat) list" where
  "stack_blocks N [] s = []"
| "stack_blocks N ((sz, n) # rs) s = (case stack_allocate N sz n s of
     (None, s) \<Rightarrow> stack_blocks N rs s
   | (Some p, s) \<Rightarrow> (unat p, unat sz * unat n) # stack_blocks N rs s)"

text \<open>Blocks that follow each other from a position on.\<close>

fun contiguous :: "nat \<Rightarrow> nat \<Rightarrow> (nat \<times> nat) list \<Rightarrow> bool" where
  "contiguous pos limit [] \<longleftrightarrow> pos \<le> limit"
| "contiguous pos limit ((p, len) # bs) \<longleftrightarrow> p = pos \<and> contiguous (pos + len) limit bs"

lemma contiguous_bounds: "contiguous pos limit bs \<Longrightarrow> (p, len) \<in> set bs \<Longrightarrow> pos \<le> p \<and> p + len \<le> limit"
proof (induction bs arbitrary: pos)
  case (Cons b bs)
  have "contiguous q limit cs \<Longrightarrow> q \<le> limit" for q cs by (induction cs arbitrary: q) (auto, fastforce)
  then show ?case using Cons by (cases b) fastforce
qed simp

lemma unat_mult_u32: "unat (a :: u32) * unat b < 2 ^ 32 \<Longrightarrow> unat (a * b) = unat a * unat b"
  using unat_mult_lem [of a b] by simp

lemma stack_allocate_exact:
  assumes "unat (ss_pos s) \<le> unat N" "unat N < 2 ^ 31" "unat n * unat sz < 2 ^ 31"
  shows "stack_allocate N sz n s = (if unat (ss_pos s) + unat n * unat sz \<le> unat N
     then (Some (ss_pos s), s\<lparr>ss_pos := ss_pos s + n * sz\<rparr>) else (None, s))"
    and "unat (ss_pos s + n * sz) = unat (ss_pos s) + unat n * unat sz"
proof -
  have "unat (n * sz) = unat n * unat sz" using assms(3) by (simp add: unat_mult_u32)
  then show eq: "unat (ss_pos s + n * sz) = unat (ss_pos s) + unat n * unat sz"
    using assms by (subst unat_add_u32) simp_all
  show "stack_allocate N sz n s = (if unat (ss_pos s) + unat n * unat sz \<le> unat N
     then (Some (ss_pos s), s\<lparr>ss_pos := ss_pos s + n * sz\<rparr>) else (None, s))"
    using eq by (simp add: stack_allocate_def word_less_nat_alt not_less)
qed

lemma stack_blocks_contiguous:
  assumes "\<forall>(sz, n) \<in> set rs. unat n * unat sz < 2 ^ 31" "unat (ss_pos s) \<le> unat N" "unat N < 2 ^ 31"
  shows "contiguous (unat (ss_pos s)) (unat N) (stack_blocks N rs s)"
  using assms
proof (induction N rs s rule: stack_blocks.induct)
  case (2 N sz n rs s)
  then have fits: "unat n * unat sz < 2 ^ 31" by simp
  note exact = stack_allocate_exact [OF 2(4,5) fits]
  show ?case using 2 exact by (auto simp: mult.commute split: if_splits)
qed simp

text \<open>
  The stack allocator hands out blocks one after the other inside its array, so they are disjoint, for requests below two gigabytes; a larger
  request can wrap, pass the check and give out more than the array has.
\<close>

theorem stack_allocator_blocks:
  assumes "\<forall>(sz, n) \<in> set rs. unat n * unat sz < 2 ^ 31" "unat N < 2 ^ 31"
  shows "contiguous 0 (unat N) (stack_blocks N rs new_storage)"
  using stack_blocks_contiguous [OF assms(1), of new_storage N] assms(2) by (simp add: new_storage_def)

lemma stack_allocate_wraps:
  "stack_allocate 1024 8 0x20000001 new_storage = (Some 0, \<lparr>ss_pos = 8\<rparr>) \<and> unat (8 :: u32) * unat (0x20000001 :: u32) > 1024"
  by (simp add: stack_allocate_def new_storage_def)

section \<open>The pool allocator\<close>

text \<open>\<open>allocate\<close> and \<open>deallocate\<close> of \<open>pool_allocator_t\<close> over a pool, with the size computed in 32 bits.\<close>

definition pool_alloc_allocate :: "(u32 \<Rightarrow> 'p \<Rightarrow> 'a \<times> 'p) \<Rightarrow> u32 \<Rightarrow> u32 \<Rightarrow> 'p \<Rightarrow> 'a \<times> 'p" where
  "pool_alloc_allocate allocate elem_size n p = allocate (n * elem_size) p"

definition pool_alloc_deallocate :: "(u32 \<Rightarrow> u32 \<Rightarrow> 'p \<Rightarrow> 'p) \<Rightarrow> u32 \<Rightarrow> u32 \<Rightarrow> u32 \<Rightarrow> 'p \<Rightarrow> 'p" where
  "pool_alloc_deallocate deallocate elem_size ptr n p =
     (if ptr = 0 \<or> n = 0 then p else deallocate ptr (n * elem_size) p)"

definition pool_alloc_max_size :: "u32 \<Rightarrow> u32" where
  "pool_alloc_max_size elem_size = 0xFFFFFFFF div elem_size"

text \<open>Up to \<open>max_size()\<close> elements the pool is asked for exactly the bytes of the elements.\<close>

lemma pool_alloc_size:
  assumes "n \<le> pool_alloc_max_size elem_size" "elem_size \<noteq> 0"
  shows "unat (n * elem_size) = unat n * unat elem_size"
proof (rule unat_mult_u32)
  have "unat n \<le> 0xFFFFFFFF div unat elem_size"
    using assms(1) by (simp add: pool_alloc_max_size_def word_le_nat_alt unat_div)
  then have "unat n * unat elem_size \<le> 0xFFFFFFFF div unat elem_size * unat elem_size" by simp
  also have "\<dots> \<le> 0xFFFFFFFF" by simp
  finally show "unat n * unat elem_size < 2 ^ 32" by simp
qed

section \<open>The circular buffer\<close>

record 'a cicular_buffer =
  cb_buffer :: "'a list"
  cb_index :: nat

definition new_cicular :: "nat \<Rightarrow> 'a \<Rightarrow> 'a cicular_buffer" where
  "new_cicular N x = \<lparr>cb_buffer = replicate N x, cb_index = 0\<rparr>"

definition cb_back :: "'a cicular_buffer \<Rightarrow> 'a" where
  "cb_back b = cb_buffer b ! (if cb_index b = 0 then length (cb_buffer b) - 1 else cb_index b - 1)"

definition cb_push_back :: "'a \<Rightarrow> 'a cicular_buffer \<Rightarrow> 'a cicular_buffer" where
  "cb_push_back val b = (let i = cb_index b + 1 in
     b\<lparr>cb_buffer := (cb_buffer b)[cb_index b := val],
       cb_index := (if i \<ge> length (cb_buffer b) then 0 else i)\<rparr>)"

text \<open>After any sequence of insertions the slot of the \<open>i\<close>-th one, counted from the start, holds the value of the last insertion that fell on it, so
  that the last \<open>N\<close> values are all there.\<close>

lemma cicular_contents:
  assumes "0 < N"
  shows "let b = fold cb_push_back xs (new_cicular N x) in
    length (cb_buffer b) = N \<and> cb_index b = length xs mod N \<and>
    (\<forall>i. i < length xs \<and> length xs \<le> i + N \<longrightarrow> cb_buffer b ! (i mod N) = xs ! i)"
proof (induction xs rule: rev_induct)
  case Nil
  then show ?case by (simp add: new_cicular_def)
next
  case (snoc y xs)
  let ?b = "fold cb_push_back xs (new_cicular N x)"
  have b: "length (cb_buffer ?b) = N" "cb_index ?b = length xs mod N"
    "\<And>i. i < length xs \<Longrightarrow> length xs \<le> i + N \<Longrightarrow> cb_buffer ?b ! (i mod N) = xs ! i"
    using snoc by (auto simp: Let_def)
  have slot: "i mod N \<noteq> length xs mod N" if "i < length xs" "length xs < i + N" for i
  proof
    assume "i mod N = length xs mod N"
    then have "N dvd length xs - i" using that mod_eq_dvd_iff_nat [of i "length xs" N] by simp
    then show False using that by (auto dest: dvd_imp_le)
  qed
  have "(cb_buffer ?b)[length xs mod N := y] ! (i mod N) = (xs @ [y]) ! i"
    if "i < Suc (length xs)" "Suc (length xs) \<le> i + N" for i
    using that b slot [of i] assms by (cases "i = length xs") (auto simp: nth_append nth_list_update)
  moreover have "(if N \<le> Suc (length xs mod N) then 0 else Suc (length xs mod N)) = Suc (length xs) mod N"
    using assms by (simp add: mod_Suc) (metis Suc_leI le_antisym mod_less_divisor)
  ultimately show ?case using b by (simp add: cb_push_back_def [of y ?b] Let_def)
qed

text \<open>
  The circular buffer keeps the last values: \<open>back()\<close> is the last value inserted and, counting backwards from it, the \<open>N\<close> slots hold the
  last \<open>N\<close> values in order.
\<close>

theorem cicular_keeps_last:
  assumes "0 < N" "xs \<noteq> []"
  shows "cb_back (fold cb_push_back xs (new_cicular N x)) = last xs \<and>
    (\<forall>k < min N (length xs). cb_buffer (fold cb_push_back xs (new_cicular N x)) ! ((length xs - 1 - k) mod N) =
       rev xs ! k)"
proof -
  let ?b = "fold cb_push_back xs (new_cicular N x)" and ?n = "length xs"
  have b: "length (cb_buffer ?b) = N" "cb_index ?b = ?n mod N"
    "\<And>i. i < ?n \<Longrightarrow> ?n \<le> i + N \<Longrightarrow> cb_buffer ?b ! (i mod N) = xs ! i"
    using cicular_contents [OF assms(1), of xs x] by (auto simp: Let_def)
  have "(if ?n mod N = 0 then N - 1 else ?n mod N - 1) = (?n - 1) mod N"
    using assms by (cases ?n) (auto simp: mod_Suc)
  then have "cb_back ?b = cb_buffer ?b ! ((?n - 1) mod N)" 
    unfolding cb_back_def b(1,2) by (simp only:)
  also have "\<dots> = xs ! (?n - 1)" using b(3) [of "?n - 1"] assms by simp
  finally have "cb_back ?b = xs ! (?n - 1)" .
  then show ?thesis using b(3) assms by (auto simp: last_conv_nth rev_nth)
qed

section \<open>The synchronised associative container\<close>

text \<open>
  \<open>sync_assoc_container_t\<close> over \<open>std::map\<close>: the elements in key order, each operation under the lock. \<open>operator[]\<close>
  of a constant container dereferences \<open>end()\<close> when the key is missing.
\<close>

type_synonym ('k, 'v) assoc = "('k \<times> 'v) list"

definition assoc_exsit :: "'k \<Rightarrow> ('k, 'v) assoc \<Rightarrow> bool" where
  "assoc_exsit key c \<longleftrightarrow> map_of c key \<noteq> None"

definition assoc_at_const :: "'k \<Rightarrow> ('k, 'v) assoc \<Rightarrow> 'v result" where
  "assoc_at_const key c = (case map_of c key of None \<Rightarrow> Inl Access_violation | Some v \<Rightarrow> Inr v)"

definition assoc_insert :: "'k::linorder \<Rightarrow> 'v \<Rightarrow> ('k, 'v) assoc \<Rightarrow> ('k, 'v) assoc \<times> bool" where
  "assoc_insert key val c = (if assoc_exsit key c then (c, False)
     else (takeWhile (\<lambda>e. fst e < key) c @ (key, val) # dropWhile (\<lambda>e. fst e < key) c, True))"

definition assoc_at :: "'v \<Rightarrow> 'k::linorder \<Rightarrow> ('k, 'v) assoc \<Rightarrow> 'v \<times> ('k, 'v) assoc" where
  "assoc_at dflt key c = (let c' = fst (assoc_insert key dflt c) in (the (map_of c' key), c'))"

definition assoc_op_if :: "'k \<Rightarrow> ('v \<Rightarrow> 'v) \<Rightarrow> ('k, 'v) assoc \<Rightarrow> ('k, 'v) assoc \<times> bool" where
  "assoc_op_if key op c = (if assoc_exsit key c
     then (map (\<lambda>(k, v). (k, if k = key then op v else v)) c, True) else (c, False))"

definition assoc_erase :: "'k \<Rightarrow> ('k, 'v) assoc \<Rightarrow> ('k, 'v) assoc \<times> bool" where
  "assoc_erase key c = (filter (\<lambda>e. fst e \<noteq> key) c, assoc_exsit key c)"

text \<open>\<open>erase\<close> of an iterator reports whether the iterator after the element is not \<open>cend()\<close>.\<close>

definition assoc_erase_at :: "nat \<Rightarrow> ('k, 'v) assoc \<Rightarrow> ('k, 'v) assoc \<times> bool" where
  "assoc_erase_at i c = (let c' = take i c @ drop (Suc i) c in (c', i \<noteq> length c'))"

text \<open>\<open>not_if_op\<close> looks the key up under the lock and runs the operation after unlocking: two steps, between which other threads may run.\<close>

definition not_if_look :: "'k \<Rightarrow> ('k, 'v) assoc \<Rightarrow> bool" where
  "not_if_look key c \<longleftrightarrow> \<not> assoc_exsit key c"

definition not_if_run :: "bool \<Rightarrow> ('s \<Rightarrow> 's) \<Rightarrow> 's \<Rightarrow> 's \<times> bool" where
  "not_if_run absent op s = (if absent then (op s, True) else (s, False))"

definition assoc_wf :: "('k::linorder, 'v) assoc \<Rightarrow> bool" where
  "assoc_wf c \<longleftrightarrow> sorted_wrt (<) (map fst c)"

lemma assoc_split:
  assumes "assoc_wf c" "\<not> assoc_exsit key c"
  shows "\<forall>e \<in> set (dropWhile (\<lambda>e. fst e < key) c). key < fst e"
  using assms
proof (induction c)
  case (Cons e c)
  obtain k v where e: "e = (k, v)" by (cases e)
  show ?case using Cons by (cases "k < key") (fastforce simp: e assoc_wf_def assoc_exsit_def split: if_splits)+
qed simp

text \<open>
  The container is a map under its lock: every operation keeps the keys in order and acts on the map it stands for as its name says.
\<close>

theorem sync_assoc_refines_map:
  assumes "assoc_wf c"
  shows "assoc_wf (fst (assoc_insert key val c)) \<and>
    map_of (fst (assoc_insert key val c)) = (if map_of c key = None then (map_of c)(key \<mapsto> val) else map_of c) \<and>
    assoc_wf (fst (assoc_erase key c)) \<and> map_of (fst (assoc_erase key c)) = (map_of c)(key := None) \<and>
    assoc_wf (fst (assoc_op_if key op c)) \<and>
    map_of (fst (assoc_op_if key op c)) = (map_of c)(key := map_option op (map_of c key)) \<and>
    assoc_wf (snd (assoc_at dflt key c)) \<and> fst (assoc_at dflt key c) = (case map_of c key of None \<Rightarrow> dflt | Some v \<Rightarrow> v)"
proof -
  let ?lo = "takeWhile (\<lambda>e. fst e < key) c" and ?hi = "dropWhile (\<lambda>e. fst e < key) c"
  have lo: "\<forall>e \<in> set ?lo. fst e < key" by (auto dest: set_takeWhileD)
  have "assoc_wf (?lo @ ?hi)" and map_of_c: "map_of c = map_of (?lo @ ?hi)" using assms by simp_all
  then have wf: "assoc_wf ?lo" "assoc_wf ?hi" "\<forall>a \<in> set ?lo. \<forall>b \<in> set ?hi. fst a < fst b"
    unfolding assoc_wf_def map_append sorted_wrt_append by auto
  have insert: "assoc_wf (?lo @ (key, w) # ?hi) \<and> map_of (?lo @ (key, w) # ?hi) = (map_of c)(key \<mapsto> w)"
    if "\<not> assoc_exsit key c" for w
  proof
    show "assoc_wf (?lo @ (key, w) # ?hi)"
      using wf lo assoc_split [OF assms that] by (auto simp: assoc_wf_def sorted_wrt_append)
    have "map_of ?lo key = None" using lo by (auto simp: map_of_eq_None_iff)
    then show "map_of (?lo @ (key, w) # ?hi) = (map_of c)(key \<mapsto> w)"
      unfolding map_of_c map_of_append by (auto simp: map_add_def fun_eq_iff split: option.splits)
  qed
  have "assoc_wf (fst (assoc_insert key w c)) \<and>
      map_of (fst (assoc_insert key w c)) = (if map_of c key = None then (map_of c)(key \<mapsto> w) else map_of c)" for w
    using insert assms by (simp add: assoc_insert_def assoc_exsit_def)
  moreover have "assoc_wf (filter (\<lambda>e. fst e \<noteq> key) c)" "map_of (filter (\<lambda>e. fst e \<noteq> key) c) = (map_of c)(key := None)"
    using assms by (auto simp: assoc_wf_def sorted_wrt_map sorted_wrt_filter) (induction c, auto)
  moreover have "map fst (map (\<lambda>(k, v). (k, if k = key then op v else v)) c) = map fst c" by (induction c) auto
  then have "assoc_wf (map (\<lambda>(k, v). (k, if k = key then op v else v)) c)" using assms unfolding assoc_wf_def by (simp only:)
  moreover have "map_of (map (\<lambda>(k, v). (k, if k = key then op v else v)) c) = (map_of c)(key := map_option op (map_of c key))"
    by (induction c) auto
  ultimately show ?thesis using assms
    by (auto simp: assoc_erase_def assoc_op_if_def assoc_at_def Let_def assoc_exsit_def split: option.splits)
qed

text \<open>Erasing the last element by its iterator reports that nothing was erased; and two threads that call \<open>not_if_op\<close> for the same missing key
  can both run their operation.\<close>

lemma assoc_erase_last: "c \<noteq> [] \<Longrightarrow> assoc_erase_at (length c - 1) c = (butlast c, False)"
  by (simp add: assoc_erase_at_def Let_def butlast_conv_take)

lemma not_if_op_twice:
  assumes "\<not> assoc_exsit key c"
  shows "(let look1 = not_if_look key c; look2 = not_if_look key c; (c1, r1) = not_if_run look1 (fst \<circ> assoc_insert key v) c;
              (c2, r2) = not_if_run look2 (fst \<circ> assoc_insert key v') c1 in (r1, r2)) = (True, True)"
  using assms by (simp add: not_if_look_def not_if_run_def)

end
