(* ===== verification/Net_Helper.thy ===== *)
theory Net_Helper
  imports Net_Socket
begin

text \<open>
  The helpers of \<open>include/win32/network/network_helper.hpp\<close>: the local addresses, the DNS servers, MAC addresses and the
  search for a used port. What the system reports (adapters, servers, the TCP table) is an argument.
\<close>

section \<open>Local addresses and DNS servers\<close>

text \<open>An adapter has a linked list of addresses; \<^term>\<open>None\<close> means that \<open>GetAdaptersInfo\<close> failed.\<close>

definition get_local_ips :: "string list list option \<Rightarrow> string list \<Rightarrow> bool \<times> string list" where
  "get_local_ips adapters ips = (case adapters of None \<Rightarrow> (False, ips)
     | Some as \<Rightarrow> (True, fold (\<lambda>addrs ips. fold (\<lambda>a ips. ips @ [a]) addrs ips) as ips))"

definition is_local_by_ip :: "string list list option \<Rightarrow> string \<Rightarrow> bool" where
  "is_local_by_ip adapters ip = (if ip = ''0.0.0.0'' then False else if ip = ''127.0.0.1'' then True
     else let (ok, ips) = get_local_ips adapters [] in ok \<and> ip \<in> set ips)"

text \<open>
  The loop over the servers after the first: \<open>p\<close> is the pointer, as the list of the nodes from there on, and \<open>next_list\<close> the
  list after the first server, to which every round goes back.
\<close>

partial_function (option) dns_loop :: "string list \<Rightarrow> string list \<Rightarrow> string list \<Rightarrow> string list option" where
  "dns_loop next_list p dns = (case p of [] \<Rightarrow> Some dns
     | q # qs \<Rightarrow> (case next_list of [] \<Rightarrow> None
         | server # rest \<Rightarrow> dns_loop next_list rest (dns @ [server])))"

definition get_local_dns :: "string \<Rightarrow> string list \<Rightarrow> string list \<Rightarrow> string list option" where
  "get_local_dns server next_list dns = dns_loop next_list next_list (dns @ [server])"

section \<open>MAC addresses\<close>

definition mac_digit :: "char \<Rightarrow> int" where
  "mac_digit c = int (of_char c) - (if (of_char c :: nat) \<ge> of_char (CHR ''A'') then int (of_char (CHR ''A'')) - 10
     else int (of_char (CHR ''0'')))"

definition to_char :: "int \<Rightarrow> char" where
  "to_char i = char_of (nat (i mod 256))"

definition mac_string_to_binary :: "string \<Rightarrow> string" where
  "mac_string_to_binary mac = (if length mac \<noteq> 17 then []
     else concat (map (\<lambda>i. [to_char (mac_digit (mac ! (i * 3)) * 16), to_char (mac_digit (mac ! (i * 3 + 1)))]) [0..<6]))"

text \<open>
  What \<open>GetAdaptersInfo\<close> tells of an adapter. \<open>get_mac_addr\<close> prints the address of the first Ethernet adapter (type 6) whose first IP address is the one asked for.
\<close>

record adapter =
  ad_type :: nat
  ad_address :: bytes
  ad_ips :: "string list"
  ad_gateways :: "string list"

definition upper_hex :: "nat \<Rightarrow> char" where
  "upper_hex d = char_of (if d < 10 then 48 + d else 55 + d)"

definition hex_byte :: "byte \<Rightarrow> string" where
  "hex_byte b = [upper_hex (unat b div 16), upper_hex (unat b mod 16)]"

definition format_mac :: "bytes \<Rightarrow> string" where
  "format_mac bs = hex_byte (hd bs) @ concat (map (\<lambda>b. CHR ''-'' # hex_byte b) (tl bs))"

definition get_mac_addr :: "adapter list option \<Rightarrow> string \<Rightarrow> string" where
  "get_mac_addr adapters ip = (case adapters of None \<Rightarrow> []
     | Some as \<Rightarrow> (case find (\<lambda>a. ad_type a = 6 \<and> length (ad_address a) = 6 \<and> ad_ips a \<noteq> [] \<and> hd (ad_ips a) = ip) as of
         None \<Rightarrow> [] | Some a \<Rightarrow> format_mac (ad_address a)))"

definition get_local_gate_ips :: "adapter list option \<Rightarrow> string list \<Rightarrow> bool \<times> string list" where
  "get_local_gate_ips adapters ips = (case adapters of None \<Rightarrow> (False, ips)
     | Some as \<Rightarrow> (True, fold (\<lambda>a ips. fold (\<lambda>g ips. ips @ [g]) (ad_gateways a) ips) as ips))"

text \<open>\<open>is_local_by_machine_name\<close>; \<open>gethostbyname\<close> gives the first address of a name, \<open>inet_ntoa\<close> prints it.\<close>

definition is_local_by_machine_name :: "(string \<Rightarrow> u32 option) \<Rightarrow> (u32 \<Rightarrow> string) \<Rightarrow> string list list option \<Rightarrow> string \<Rightarrow> bool" where
  "is_local_by_machine_name gethostbyname inet_ntoa adapters name = (case gethostbyname name of None \<Rightarrow> False
     | Some addr \<Rightarrow> is_local_by_ip adapters (inet_ntoa addr))"

text \<open>\<open>get_sck_ip\<close>: a failing \<open>getpeername\<close> leaves the zero the address was initialised with.\<close>

definition get_sck_ip :: "u32 option \<Rightarrow> u32" where
  "get_sck_ip peer = (case peer of None \<Rightarrow> 0 | Some addr \<Rightarrow> addr)"

section \<open>Used ports\<close>

text \<open>\<open>GetTcpTable\<close> for a buffer of some size: the error code and the local ports of the rows, in network order; \<open>ntohs\<close> is the same function as \<open>htons\<close>.\<close>

definition ERROR_INSUFFICIENT_BUFFER :: u32 where "ERROR_INSUFFICIENT_BUFFER = 122"
definition NO_ERROR :: u32 where "NO_ERROR = 0"

definition is_port_used :: "(nat \<Rightarrow> u32 \<times> 16 word list) \<Rightarrow> 16 word \<Rightarrow> bool" where
  "is_port_used get_tcp_table port = (let (ret, rows) = get_tcp_table (24 * 100) in
     if ret = ERROR_INSUFFICIENT_BUFFER then False
     else if ret = NO_ERROR then list_ex (\<lambda>row. htons row = port) rows else False)"

section \<open>Properties\<close>

lemma local_ips: "get_local_ips (Some adapters) ips = (True, ips @ concat adapters)"
proof -
  have "fold (\<lambda>a ips. ips @ [a]) addrs ips = ips @ addrs" for addrs ips :: "string list"
    by (induction addrs arbitrary: ips) auto
  then have "fold (\<lambda>addrs ips. fold (\<lambda>a ips. ips @ [a]) addrs ips) adapters ips = ips @ concat adapters"
    by (induction adapters arbitrary: ips) auto
  then show ?thesis by (simp add: get_local_ips_def)
qed

text \<open>While the node behind the first one exists, the loop never gets further, whatever it has collected.\<close>

lemma dns_loop_diverges:
  assumes "dns_loop next_list p dns = Some r"
  shows "2 \<le> length next_list \<longrightarrow> p = []"
proof (rule dns_loop.raw_induct [where P = "\<lambda>next_list p dns r. 2 \<le> length next_list \<longrightarrow> p = []", OF _ assms], intro impI)
  fix loop :: "string list \<Rightarrow> string list \<Rightarrow> string list \<Rightarrow> string list option" and next_list p dns r
  assume ih: "\<And>nl p dns r. loop nl p dns = Some r \<Longrightarrow> 2 \<le> length nl \<longrightarrow> p = []"
    and body: "(case p of [] \<Rightarrow> Some dns | q # qs \<Rightarrow> (case next_list of [] \<Rightarrow> None
       | server # rest \<Rightarrow> loop next_list rest (dns @ [server]))) = Some r"
    and len: "2 \<le> length next_list"
  then obtain server rest where nl: "next_list = server # rest" "rest \<noteq> []"
    by (cases next_list) (auto simp: Suc_le_eq)
  show "p = []"
  proof (rule ccontr)
    assume "p \<noteq> []"
    then have "loop next_list rest (dns @ [server]) = Some r" using body nl(1) by (cases p) simp_all
    from ih [OF this] len nl(2) show False by simp
  qed
qed

text \<open>
  Reading the DNS servers returns, with all servers, exactly when there are at most two; with three or more the loop goes back to the
  second one for ever.
\<close>

theorem get_local_dns_returns:
  "get_local_dns server next_list dns =
     (if length next_list \<le> 1 then Some (dns @ server # next_list) else None)"
proof (cases next_list)
  case Nil
  then show ?thesis by (simp add: get_local_dns_def dns_loop.simps)
next
  case (Cons a rest)
  show ?thesis
  proof (cases rest)
    case Nil
    then show ?thesis using Cons by (simp add: get_local_dns_def dns_loop.simps)
  next
    case (Cons b rest')
    then show ?thesis using \<open>next_list = a # rest\<close> dns_loop_diverges [of next_list "a # rest" "dns @ [server]"]
      by (cases "dns_loop next_list next_list (dns @ [server])") (auto simp: get_local_dns_def)
  qed
qed

text \<open>The conversion of a MAC address gives two characters for each byte, the high digit times sixteen and the low digit, where one is meant.\<close>

lemma mac_binary_length:
  "length (mac_string_to_binary mac) = (if length mac = 17 then 12 else 0)"
  by (simp add: mac_string_to_binary_def upt_conv_Cons)

lemma mac_binary_example:
  "mac_string_to_binary ''00-12-EF-AC-0A-78'' =
     map char_of [0, 0, 0x10, 2, 0xE0, 0xF, 0xA0, 0xC, 0, 0xA, 0x70, 8 :: nat]"
  by (simp add: mac_string_to_binary_def mac_digit_def to_char_def upt_conv_Cons)

text \<open>
  The search for a used port, for a system that fills the buffer when four bytes and twenty for every row fit into it: the answer is right for up to 119 rows, and
  with more rows it is always that the port is free.
\<close>

theorem is_port_used_answer:
  assumes "\<And>size. get_tcp_table size = (if 4 + 20 * length rows \<le> size then (NO_ERROR, rows) else (ERROR_INSUFFICIENT_BUFFER, []))"
  shows "is_port_used get_tcp_table port \<longleftrightarrow> port \<in> htons ` set rows \<and> length rows \<le> 119"
  using assms [of "24 * 100"]
  by (auto simp: is_port_used_def NO_ERROR_def ERROR_INSUFFICIENT_BUFFER_def list_ex_iff)

lemma local_gate_ips: "get_local_gate_ips (Some adapters) ips = (True, ips @ concat (map ad_gateways adapters))"
proof -
  have "fold (\<lambda>g ips. ips @ [g]) gs ips = ips @ gs" for gs ips :: "string list"
    by (induction gs arbitrary: ips) auto
  then have "fold (\<lambda>a ips. fold (\<lambda>g ips. ips @ [g]) (ad_gateways a) ips) adapters ips = ips @ concat (map ad_gateways adapters)"
    by (induction adapters arbitrary: ips) auto
  then show ?thesis by (simp add: get_local_gate_ips_def)
qed

text \<open>
  The two conversions of MAC addresses are not inverse: of the six bytes that \<open>get_mac_addr\<close> printed, \<open>mac_string_to_binary\<close> makes twelve characters, the high half and the
  low half of each byte one after the other.
\<close>

lemma mac_digit_upper: "d < 16 \<Longrightarrow> mac_digit (upper_hex d) = int d"
  by (auto simp: mac_digit_def upper_hex_def)

lemma byte_lt: "unat (b :: byte) < 256"
  using unsigned_less [of b] by simp

lemma to_char_int: "n < 256 \<Longrightarrow> to_char (int n) = char_of n"
  by (simp add: to_char_def nat_mod_distrib)

theorem mac_string_halves:
  assumes "length bs = 6"
  shows "mac_string_to_binary (format_mac bs) =
    concat (map (\<lambda>b. [char_of (unat b div 16 * 16), char_of (unat b mod 16)]) bs)"
proof -
  obtain b0 b1 b2 b3 b4 b5 where bs: "bs = [b0, b1, b2, b3, b4, b5]"
    using assms by (auto simp: numeral_eq_Suc length_Suc_conv)
  have half: "unat b div 16 < 16" "unat b mod 16 < 16" for b :: byte using byte_lt [of b] by (simp_all add: div_less_iff_less_mult)
  have hi: "to_char (mac_digit (upper_hex (unat b div 16)) * 16) = char_of (unat b div 16 * 16)" for b :: byte
    using to_char_int [of "unat b div 16 * 16"] half(1) [of b] by (simp add: mac_digit_upper)
  have lo: "to_char (mac_digit (upper_hex (unat b mod 16))) = char_of (unat b mod 16)" for b :: byte
    using to_char_int [of "unat b mod 16"] half(2) [of b] by (simp add: mac_digit_upper del: of_nat_mod)
  show ?thesis by (simp add: bs format_mac_def hex_byte_def mac_string_to_binary_def upt_conv_Cons hi lo)
qed

end
