(* ===== verification/Msg_Decoder.thy ===== *)
theory Msg_Decoder
  imports Prelude
begin

text \<open>
  The decoder of length-prefixed messages that the repository's read and write test puts on a session
  (\<open>multi_buffer_decode_t\<close> of \<open>test/read_write_test/read_write_test/multi_msg_decoder.hpp\<close>): a message is its length in four bytes followed by its
  bytes, and \<open>handle\<close> is called with the stream cut into pieces.
\<close>

section \<open>The decoder\<close>

text \<open>
  \<open>tmp_first\<close> is the length of the message being put together, zero for none, and \<open>tmp_data\<close> the part of its buffer that has been
  filled (its length is \<open>tmp_buffer_len_\<close>); \<open>header_data\<close> and \<open>header_len\<close> hold an incomplete length.
\<close>

record decoder =
  tmp_first :: u32
  tmp_data :: bytes
  header_data :: bytes
  header_len :: nat

definition new_decoder :: decoder where
  "new_decoder = \<lparr>tmp_first = 0, tmp_data = [], header_data = replicate 4 0, header_len = 0\<rparr>"

text \<open>The length of the next message and what follows it in the buffer.\<close>

definition read_header :: "decoder \<Rightarrow> bytes \<Rightarrow> u32 \<times> bytes \<times> decoder" where
  "read_header d buf = (if header_len d \<noteq> 0
     then let k = 4 - header_len d; h = put_block (header_len d) (take k buf) (header_data d) in
       (rep_u32 h, drop k buf, d\<lparr>header_data := h, header_len := 0\<rparr>)
     else (rep_u32 (take 4 buf), drop 4 buf, d))"

text \<open>\<open>handle\<close> returns the messages it has passed to the callback.\<close>

function handle :: "decoder \<Rightarrow> bytes \<Rightarrow> bytes list \<times> decoder" where
  "handle d buf = (if tmp_first d = 0
     then if length buf < 4
       then ([], d\<lparr>header_data := put_block 0 buf (header_data d), header_len := length buf\<rparr>)
       else let (data_len, rest, d') = read_header d buf; n = unat data_len in
         if n = length rest then ([rest], d')
         else if n > length rest then ([], d'\<lparr>tmp_first := data_len, tmp_data := rest\<rparr>)
         else let (ms, d'') = handle d' (drop n rest) in (take n rest # ms, d'')
     else let over = unat (tmp_first d - of_nat (length (tmp_data d))); copy = min (length buf) over;
              data = tmp_data d @ take copy buf;
              (ms, d') = (if of_nat (length data) = tmp_first d then ([data], d\<lparr>tmp_first := 0, tmp_data := []\<rparr>)
                          else ([], d\<lparr>tmp_data := data\<rparr>)) in
         if length buf - copy > 0 then let (ms', d'') = handle d' (drop over buf) in (ms @ ms', d'') else (ms, d'))"
  by pat_completeness auto
termination
proof (relation "measure (\<lambda>(d, buf). 3 * length buf + (if header_len d \<noteq> 0 then 1 else 0) + (if tmp_first d \<noteq> 0 then 1 else 0))")
qed (auto simp: read_header_def Let_def split: if_splits)

declare handle.simps [simp del]

text \<open>A sequence of pieces.\<close>

fun handle_all :: "decoder \<Rightarrow> bytes list \<Rightarrow> bytes list \<times> decoder" where
  "handle_all d [] = ([], d)"
| "handle_all d (b # bs) = (let (ms, d') = handle d b; (ms', d'') = handle_all d' bs in (ms @ ms', d''))"

section \<open>The stream a decoder has seen\<close>

definition frame :: "bytes \<Rightarrow> bytes" where
  "frame msg = u32_rep (of_nat (length msg)) @ msg"

text \<open>What a decoder holds back, as it was in the stream.\<close>

definition held :: "decoder \<Rightarrow> bytes" where
  "held d = (if tmp_first d = 0 then take (header_len d) (header_data d) else u32_rep (tmp_first d) @ tmp_data d)"

definition decoder_inv :: "decoder \<Rightarrow> bool" where
  "decoder_inv d \<longleftrightarrow> length (header_data d) = 4 \<and> header_len d < 4 \<and>
     (tmp_first d \<noteq> 0 \<longrightarrow> header_len d = 0 \<and> length (tmp_data d) < unat (tmp_first d))"

lemma u32_rep_of_4: "length bs = 4 \<Longrightarrow> u32_rep (rep_u32 bs) = bs"
  by (auto simp: numeral_eq_Suc length_Suc_conv)

lemma read_header_held:
  assumes "decoder_inv d" "tmp_first d = 0" "4 \<le> length buf" "read_header d buf = (data_len, rest, d')"
  shows "held d @ buf = u32_rep data_len @ rest" "decoder_inv d'" "header_len d' = 0" "tmp_first d' = 0" "held d' = []"
    "length rest < length buf"
proof -
  let ?h = "header_len d"
  have h: "?h < 4" "length (header_data d) = 4" using assms(1) by (auto simp: decoder_inv_def)
  then have block: "put_block ?h (take (4 - ?h) buf) (header_data d) = take ?h (header_data d) @ take (4 - ?h) buf"
    using assms(3) by (simp add: put_block_def min_def)
  then show "held d @ buf = u32_rep data_len @ rest"
    using assms(2-4) h by (auto simp: read_header_def held_def Let_def u32_rep_of_4 split: if_splits)
  show "decoder_inv d'" "header_len d' = 0" "tmp_first d' = 0" "held d' = []" "length rest < length buf"
    using assms h block by (auto simp: read_header_def decoder_inv_def held_def Let_def split: if_splits)
qed

lemma unat_minus_of_nat: "n \<le> unat (w :: u32) \<Longrightarrow> unat (w - of_nat n) = unat w - n"
  using unat_u32_lt [of w] by (simp add: unat_sub_if' unat_of_nat_u32)

lemma frame_take: "n = unat data_len \<Longrightarrow> length bs = n \<Longrightarrow> frame bs = u32_rep data_len @ bs"
  by (simp add: frame_def)

text \<open>A call of \<open>handle\<close> splits what is held and the new bytes into frames and what is held afterwards, if it does not meet an
  incomplete length with fewer than four bytes.\<close>

lemma handle_stream:
  assumes "decoder_inv d" "tmp_first d = 0 \<and> header_len d \<noteq> 0 \<longrightarrow> 4 \<le> length buf" "handle d buf = (ms, d')"
  shows "decoder_inv d' \<and> held d @ buf = concat (map frame ms) @ held d' \<and> (\<forall>m \<in> set ms. length m < 2 ^ 32)"
  using assms
proof (induction d buf arbitrary: ms d' rule: handle.induct)
  case (1 d buf)
  show ?case
  proof (cases "tmp_first d = 0")
    case True
    show ?thesis
    proof (cases "length buf < 4")
      case short: True
      have "(ms, d') = ([], d\<lparr>header_data := put_block 0 buf (header_data d), header_len := length buf\<rparr>)"
        using 1(5) True short by (simp add: handle.simps [of d buf])
      then show ?thesis using 1(3,4) True short by (auto simp: decoder_inv_def held_def put_block_def)
    next
      case long: False
      obtain data_len rest d1 where r: "read_header d buf = (data_len, rest, d1)" by (cases "read_header d buf") auto
      note h = read_header_held [OF 1(3) True _ r]
      let ?n = "unat data_len"
      consider "?n = length rest" | "?n > length rest" | "?n < length rest" by linarith
      then show ?thesis
      proof cases
        case 1
        then show ?thesis using "1.prems"(3) True long r h unat_u32_lt [of data_len] frame_take [OF refl, of rest data_len]
          by (auto simp: handle.simps [of d buf])
      next
        case 2
        then have "(ms, d') = ([], d1\<lparr>tmp_first := data_len, tmp_data := rest\<rparr>)"
          using "1.prems"(3) True long r by (simp add: handle.simps [of d buf])
        moreover have "data_len \<noteq> 0" using 2 by auto
        ultimately show ?thesis using h long 2 by (auto simp: decoder_inv_def held_def)
      next
        case 3
        obtain ms1 d2 where rec: "handle d1 (drop ?n rest) = (ms1, d2)" by (cases "handle d1 (drop ?n rest)")
        have eq: "ms = take ?n rest # ms1" "d' = d2"
          using "1.prems"(3) True long r 3 rec by (auto simp: handle.simps [of d buf])
        have "decoder_inv d2 \<and> held d1 @ drop ?n rest = concat (map frame ms1) @ held d2 \<and> (\<forall>m \<in> set ms1. length m < 2 ^ 32)"
          using "1.IH"(1) [OF True long r [symmetric] refl refl refl] 3 h long rec by (auto simp: not_less)
        then show ?thesis using h long 3 unat_u32_lt [of data_len] frame_take [OF refl, of "take ?n rest" data_len]
            append_take_drop_id [of ?n rest] by (auto simp: eq simp del: append_take_drop_id)
      qed
    qed
  next
    case False
    let ?over = "unat (tmp_first d) - length (tmp_data d)" and ?d1 = "d\<lparr>tmp_first := 0, tmp_data := []\<rparr>"
    let ?data = "tmp_data d @ take ?over buf"
    have inv: "length (tmp_data d) < unat (tmp_first d)" "header_len d = 0" "length (header_data d) = 4"
      using 1(3) False by (auto simp: decoder_inv_def)
    then have over: "unat (tmp_first d - of_nat (length (tmp_data d))) = ?over" by (simp add: unat_minus_of_nat)
    have d1: "decoder_inv ?d1" "held ?d1 = []" using inv by (simp_all add: decoder_inv_def held_def)
    have held: "held d = u32_rep (tmp_first d) @ tmp_data d" using False by (simp add: held_def)
    show ?thesis
    proof (cases "length buf < ?over")
      case True
      have "of_nat (length (tmp_data d @ buf)) \<noteq> tmp_first d"
        using True inv unat_u32_lt [of "tmp_first d"] unat_of_nat_u32 [of "length (tmp_data d @ buf)"] by force
      then have "(ms, d') = ([], d\<lparr>tmp_data := tmp_data d @ buf\<rparr>)"
        using 1(5) False True by (simp add: handle.simps [of d buf] over min_def)
      then show ?thesis using True inv False by (simp add: decoder_inv_def held_def)
    next
      case full: False
      have len: "length ?data = unat (tmp_first d)" "of_nat (length ?data) = tmp_first d"
        using full inv by (simp_all add: min_def)
      have f: "frame ?data = u32_rep (tmp_first d) @ ?data" "length ?data < 2 ^ 32"
        using frame_take [OF refl len(1)] unat_u32_lt [of "tmp_first d"] len(1) by simp_all
      obtain ms1 d2 where rec: "handle ?d1 (drop ?over buf) = (ms1, d2)" by (cases "handle ?d1 (drop ?over buf)")
      have copy: "min (length buf) ?over = ?over" using full by simp
      have eq: "(ms, d') = (if length buf - ?over > 0 then (?data # ms1, d2) else ([?data], ?d1))"
        unfolding 1(5) [symmetric] handle.simps [of d buf] Let_def over copy
        using False len(2) rec by (simp del: length_append of_nat_add)
      show ?thesis
      proof (cases "length buf - ?over > 0")
        case more: True
        have "decoder_inv d2 \<and> held ?d1 @ drop ?over buf = concat (map frame ms1) @ held d2 \<and> (\<forall>m \<in> set ms1. length m < 2 ^ 32)"
          by (rule "1.IH"(2)) (use False over full len more rec d1 inv in \<open>auto simp: min_def\<close>)
        then show ?thesis using eq more f held d1(2) append_take_drop_id [of ?over buf]
          by (auto simp del: append_take_drop_id)
      next
        case False
        then show ?thesis using eq full f held d1 by simp
      qed
    qed
  qed
qed

lemma handle_all_stream:
  assumes "decoder_inv d" "\<forall>b \<in> set bs. 4 \<le> length b" "handle_all d bs = (ms, d')"
  shows "decoder_inv d' \<and> held d @ concat bs = concat (map frame ms) @ held d' \<and> (\<forall>m \<in> set ms. length m < 2 ^ 32)"
  using assms
proof (induction bs arbitrary: d ms)
  case (Cons b bs)
  obtain ms1 d1 ms2 where h: "handle d b = (ms1, d1)" "handle_all d1 bs = (ms2, d')" "ms = ms1 @ ms2"
    using Cons(4) by (auto split: prod.splits)
  have "decoder_inv d1 \<and> held d @ b = concat (map frame ms1) @ held d1 \<and> (\<forall>m \<in> set ms1. length m < 2 ^ 32)"
    using handle_stream [OF Cons(2) _ h(1)] Cons(3) by simp
  moreover from this have "decoder_inv d' \<and> held d1 @ concat bs = concat (map frame ms2) @ held d' \<and>
      (\<forall>m \<in> set ms2. length m < 2 ^ 32)"
    using Cons(1) [OF _ _ h(2)] Cons(3) by simp
  ultimately have "decoder_inv d'" "(held d @ b) @ concat bs = concat (map frame ms1) @ concat (map frame ms2) @ held d'"
    "\<forall>m \<in> set ms. length m < 2 ^ 32" by (auto simp: h(3))
  then show ?case by (simp add: h(3))
qed (auto simp: held_def)

text \<open>Frames can be told apart, and what is held back is never a whole frame.\<close>

lemma length_frame: "length (frame m) = 4 + length m"
  by (simp add: frame_def)

lemma frame_unique:
  assumes "frame a @ x = frame b @ y" "length a < 2 ^ 32" "length b < 2 ^ 32"
  shows "a = b \<and> x = y"
proof -
  have "u32_rep (of_nat (length a)) = u32_rep (of_nat (length b))" and rest: "a @ x = b @ y"
    using assms(1) by (simp_all add: frame_def append_eq_append_conv)
  then have "(of_nat (length a) :: u32) = of_nat (length b)" by (metis rep_u32_rep)
  then have "length a = length b" using assms(2,3) by (metis unat_of_nat_u32)
  with rest show ?thesis by simp
qed

lemma held_no_frame:
  assumes "decoder_inv d" "held d = frame m @ x" "length m < 2 ^ 32"
  shows False
proof (cases "tmp_first d = 0")
  case True
  then have "length (held d) < 4" using assms(1) by (simp add: held_def decoder_inv_def)
  then show False using arg_cong [OF assms(2), of length] by (simp add: length_frame)
next
  case False
  then have "u32_rep (tmp_first d) = u32_rep (of_nat (length m))" and data: "tmp_data d = m @ x"
    using assms(2) by (simp_all add: held_def frame_def append_eq_append_conv)
  then have "unat (tmp_first d) = length m" using assms(3) by (metis rep_u32_rep unat_of_nat_u32)
  then show False using assms(1) False data by (auto simp: decoder_inv_def)
qed

lemma frames_unique:
  assumes "concat (map frame ms) @ held d = concat (map frame ms')" "decoder_inv d"
    "\<forall>m \<in> set ms. length m < 2 ^ 32" "\<forall>m \<in> set ms'. length m < 2 ^ 32"
  shows "ms = ms' \<and> held d = []"
  using assms
proof (induction ms arbitrary: ms')
  case Nil
  then show ?case using held_no_frame [OF assms(2)] by (cases ms') auto
next
  case (Cons m ms)
  have "ms' \<noteq> []" using arg_cong [OF Cons(2), of length] by (auto simp: length_frame)
  then obtain m' ms1 where ms': "ms' = m' # ms1" by (cases ms') auto
  have "m = m' \<and> concat (map frame ms) @ held d = concat (map frame ms1)"
    using Cons(2,4,5) by (intro frame_unique) (simp_all add: ms')
  then show ?case using Cons(1) [of ms1] Cons(3-5) ms' by auto
qed

lemma handle_all_frames:
  assumes "concat pieces = concat (map frame msgs)" "\<forall>b \<in> set pieces. 4 \<le> length b"
    and "\<forall>m \<in> set msgs. length m < 2 ^ 32"
  shows "fst (handle_all new_decoder pieces) = msgs \<and> held (snd (handle_all new_decoder pieces)) = []"
proof -
  obtain ms d where h: "handle_all new_decoder pieces = (ms, d)" by (cases "handle_all new_decoder pieces")
  have "decoder_inv new_decoder" "held new_decoder = []" by (simp_all add: new_decoder_def decoder_inv_def held_def)
  then have "decoder_inv d \<and> concat (map frame ms) @ held d = concat (map frame msgs) \<and> (\<forall>m \<in> set ms. length m < 2 ^ 32)"
    using handle_all_stream [OF _ assms(2) h] assms(1) by simp
  then show ?thesis using frames_unique assms(3) h by auto
qed

section \<open>Properties\<close>

text \<open>
  C4. The decoder of length-prefixed messages: for every sequence of messages, however their stream is cut into pieces of at least four bytes, the
  callback gets exactly the messages, in order and unchanged, and nothing is held back at the end.
\<close>

theorem decoder_delivers:
  assumes "concat pieces = concat (map frame msgs)" "\<forall>b \<in> set pieces. 4 \<le> length b"
    and "\<forall>m \<in> set msgs. length m < 2 ^ 32"
  shows "fst (handle_all new_decoder pieces) = msgs \<and> held (snd (handle_all new_decoder pieces)) = []"
  using assms by (rule handle_all_frames)

theorem decoder_delivers_witness:
  "fst (handle_all new_decoder [[2, 0, 0, 0, 7], [8, 0, 0, 0, 0, 1, 0], [0, 0, 9, 0, 0, 0, 0]]) = [[7, 8], [], [9], []]"
  using decoder_delivers [of "[[2, 0, 0, 0, 7], [8, 0, 0, 0, 0, 1, 0], [0, 0, 9, 0, 0, 0, 0]]" "[[7, 8], [], [9], []]"]
  by (simp add: frame_def u32_rep_def)

text \<open>Pieces of fewer than four bytes break it: a second incomplete piece of a length overwrites the first. The message of one byte arrives cut
  into single bytes and is lost.\<close>

lemma short_pieces_lose_messages:
  "concat [[1], [0], [0], [0], [9]] = frame [9] \<and>
   fst (handle_all new_decoder [[1], [0], [0], [0], [9]]) = [] \<and> held (snd (handle_all new_decoder [[1], [0], [0], [0], [9]])) = [9]"
  by (simp add: frame_def u32_rep_def new_decoder_def handle.simps put_block_def held_def numeral_eq_Suc)

end
