(* ===== verification/Win_Thread.thy ===== *)
theory Win_Thread
  imports Prelude
begin

text \<open>
  Threads (\<open>include/multi_thread/thread.hpp\<close>): the handle class \<open>thread_t\<close>, the stop policies, \<open>thread_implex_t\<close>, which runs a
  registered function, and the message threads. Win32 is a parameter: a record of functions on a state of any type. \<open>thread_impl_t\<close> differs from
  \<open>thread_implex_t\<close> in \<open>stop\<close> only; its thread function names a member that does not exist, so it is modelled up to that function.
\<close>

section \<open>Win32\<close>

text \<open>The functions the class calls on a thread. \<open>ResumeThread\<close> and \<open>SuspendThread\<close> return whether the call succeeded; \<open>beginthreadex\<close>
  creates a suspended thread and returns its handle and identifier.\<close>

type_synonym HANDLE = nat

datatype thread_wait = Wait_object_0 | Wait_timeout | Wait_failed

record 'w thread_api =
  beginthreadex :: "'w \<Rightarrow> (HANDLE \<times> u32) option \<times> 'w"
  SetThreadPriority :: "HANDLE \<Rightarrow> int \<Rightarrow> 'w \<Rightarrow> bool \<times> 'w"
  ResumeThread :: "HANDLE \<Rightarrow> 'w \<Rightarrow> bool \<times> 'w"
  SuspendThread :: "HANDLE \<Rightarrow> 'w \<Rightarrow> bool \<times> 'w"
  WaitForThread :: "HANDLE \<Rightarrow> u32 \<Rightarrow> 'w \<Rightarrow> thread_wait \<times> 'w"
  TerminateThread :: "HANDLE \<Rightarrow> u32 \<Rightarrow> 'w \<Rightarrow> bool \<times> 'w"
  GetExitCodeThread :: "HANDLE \<Rightarrow> 'w \<Rightarrow> u32 option"
  CloseThreadHandle :: "HANDLE \<Rightarrow> 'w \<Rightarrow> bool \<times> 'w"

abbreviation INFINITE :: u32 where
  "INFINITE \<equiv> - 1"

section \<open>The handle class\<close>

record thread_t =
  thread_handle :: "HANDLE option"
  thread_id :: u32
  suspended :: bool

definition thread_t_make :: "HANDLE option \<Rightarrow> thread_t" where
  "thread_t_make h = \<lparr>thread_handle = h, thread_id = 0, suspended = False\<rparr>"

definition thread_create :: "'w thread_api \<Rightarrow> int \<Rightarrow> 'a thread_t_scheme \<times> 'w \<Rightarrow> bool \<times> 'a thread_t_scheme \<times> 'w" where
  "thread_create os priority = (\<lambda>(t, w). case beginthreadex os w of
     (None, w1) \<Rightarrow> (False, t\<lparr>thread_handle := None\<rparr>, w1)
   | (Some (h, i), w1) \<Rightarrow>
       let w2 = (if priority \<noteq> 0 then snd (SetThreadPriority os h priority w1) else w1);
           (ok, w3) = ResumeThread os h w2 in
       (ok, t\<lparr>thread_handle := Some h, thread_id := i\<rparr>, w3))"

definition thread_release :: "'w thread_api \<Rightarrow> 'a thread_t_scheme \<times> 'w \<Rightarrow> bool \<times> 'a thread_t_scheme \<times> 'w" where
  "thread_release os = (\<lambda>(t, w). case thread_handle t of None \<Rightarrow> (True, t, w)
     | Some h \<Rightarrow> (case CloseThreadHandle os h w of (False, w1) \<Rightarrow> (False, t, w1)
         | (True, w1) \<Rightarrow> (True, t\<lparr>thread_handle := None, thread_id := 0\<rparr>, w1)))"

definition thread_attach :: "HANDLE \<Rightarrow> 'a thread_t_scheme \<Rightarrow> 'a thread_t_scheme" where
  "thread_attach h t = t\<lparr>thread_handle := Some h\<rparr>"

definition thread_detach :: "'a thread_t_scheme \<Rightarrow> HANDLE option \<times> 'a thread_t_scheme" where
  "thread_detach t = (thread_handle t, t\<lparr>thread_handle := None\<rparr>)"

text \<open>The operations below hand the handle to Win32. Without a handle (only an \<open>assert\<close> stands before) the call is made with
  \<open>NULL\<close> and fails.\<close>

definition thread_suspend :: "'w thread_api \<Rightarrow> 'a thread_t_scheme \<times> 'w \<Rightarrow> bool \<times> 'a thread_t_scheme \<times> 'w" where
  "thread_suspend os = (\<lambda>(t, w). if suspended t then (True, t, w) else case thread_handle t of None \<Rightarrow> (False, t, w)
     | Some h \<Rightarrow> (case SuspendThread os h w of (False, w1) \<Rightarrow> (False, t, w1) | (True, w1) \<Rightarrow> (True, t\<lparr>suspended := True\<rparr>, w1)))"

definition thread_resume :: "'w thread_api \<Rightarrow> 'a thread_t_scheme \<times> 'w \<Rightarrow> bool \<times> 'a thread_t_scheme \<times> 'w" where
  "thread_resume os = (\<lambda>(t, w). if \<not> suspended t then (True, t, w) else case thread_handle t of None \<Rightarrow> (False, t, w)
     | Some h \<Rightarrow> (case ResumeThread os h w of (False, w1) \<Rightarrow> (False, t, w1) | (True, w1) \<Rightarrow> (True, t\<lparr>suspended := False\<rparr>, w1)))"

definition set_priority :: "'w thread_api \<Rightarrow> int \<Rightarrow> 'a thread_t_scheme \<times> 'w \<Rightarrow> bool \<times> 'a thread_t_scheme \<times> 'w" where
  "set_priority os p = (\<lambda>(t, w). case thread_handle t of None \<Rightarrow> (False, t, w)
     | Some h \<Rightarrow> (let (ok, w1) = SetThreadPriority os h p w in (ok, t, w1)))"

text \<open>\<open>STILL_ACTIVE\<close> is 259; when the call fails, the code stays zero.\<close>

definition is_running :: "'w thread_api \<Rightarrow> 'a thread_t_scheme \<times> 'w \<Rightarrow> bool" where
  "is_running os = (\<lambda>(t, w). case thread_handle t of None \<Rightarrow> False
     | Some h \<Rightarrow> the_default 0 (GetExitCodeThread os h w) = 259)"

definition wait_for_thread :: "'w thread_api \<Rightarrow> u32 \<Rightarrow> 'a thread_t_scheme \<times> 'w \<Rightarrow> bool \<times> 'a thread_t_scheme \<times> 'w" where
  "wait_for_thread os timeout = (\<lambda>(t, w). case thread_handle t of None \<Rightarrow> (False, t, w)
     | Some h \<Rightarrow> (let (r, w1) = WaitForThread os h timeout w in (r = Wait_object_0, t, w1)))"

definition terminate_thread :: "'w thread_api \<Rightarrow> u32 \<Rightarrow> 'a thread_t_scheme \<times> 'w \<Rightarrow> bool \<times> 'a thread_t_scheme \<times> 'w" where
  "terminate_thread os code = (\<lambda>(t, w). case thread_handle t of None \<Rightarrow> (False, t, w)
     | Some h \<Rightarrow> (let (ok, w1) = TerminateThread os h code w in (ok, t, w1)))"

section \<open>The stop policies\<close>

text \<open>
  A policy is a flag the thread polls. \<open>stop_bool\<close> is a variable; \<open>stop_event\<close> an event of Win32, whose functions are parameters;
  \<open>stop_APC\<close> queues an empty procedure, and its flag is never set.
\<close>

locale stop_policy =
  fixes clear_abort :: "'s \<Rightarrow> bool \<times> 's"
    and set_abort :: "'s \<Rightarrow> bool \<times> 's"
    and aborted :: "'s \<Rightarrow> bool"
  assumes cleared: "clear_abort s = (True, s') \<Longrightarrow> \<not> aborted s'"
    and abort_set: "set_abort s = (True, s') \<Longrightarrow> aborted s'"
begin

text \<open>A policy tells whether its last successful operation was a request to stop.\<close>

lemma last_request:
  assumes "(if stop then set_abort s else clear_abort s) = (True, s')"
  shows "aborted s' = stop"
  using assms cleared abort_set by (auto split: if_splits)

end

record 's policy =
  p_clear :: "'s \<Rightarrow> bool \<times> 's"
  p_abort :: "'s \<Rightarrow> bool \<times> 's"
  p_aborted :: "'s \<Rightarrow> bool"

definition stop_bool :: "bool policy" where
  "stop_bool = \<lparr>p_clear = \<lambda>s. (True, False), p_abort = \<lambda>s. (True, True), p_aborted = (\<lambda>s. s)\<rparr>"

record 'e event_api =
  SetEvent :: "'e \<Rightarrow> bool \<times> 'e"
  ResetEvent :: "'e \<Rightarrow> bool \<times> 'e"
  WaitForEvent :: "'e \<Rightarrow> thread_wait"

definition stop_event :: "'e event_api \<Rightarrow> 'e policy" where
  "stop_event ev = \<lparr>p_clear = ResetEvent ev, p_abort = SetEvent ev, p_aborted = (\<lambda>e. WaitForEvent ev e \<noteq> Wait_timeout)\<rparr>"

definition stop_APC :: "('s \<Rightarrow> 's) \<Rightarrow> 's policy" where
  "stop_APC queue_apc = \<lparr>p_clear = \<lambda>s. (True, s), p_abort = \<lambda>s. (True, queue_apc s), p_aborted = (\<lambda>s. False)\<rparr>"

section \<open>thread\_implex\_t\<close>

record 's thread_implex = thread_t +
  stop_state :: 's
  auto_delete :: bool
  auto_cleanup :: bool
  handler_set :: bool

definition thread_implex_make :: "'s \<Rightarrow> bool \<Rightarrow> 's thread_implex" where
  "thread_implex_make s h = thread_t.extend (thread_t_make None)
     \<lparr>stop_state = s, auto_delete = False, auto_cleanup = True, handler_set = h\<rparr>"

definition register_callback :: "'s thread_implex \<Rightarrow> 's thread_implex" where
  "register_callback t = t\<lparr>handler_set := True\<rparr>"

definition thread_start :: "'w thread_api \<Rightarrow> 's policy \<Rightarrow> 's thread_implex \<times> 'w \<Rightarrow> bool \<times> 's thread_implex \<times> 'w" where
  "thread_start os pol = (\<lambda>(t, w). let (ok, s) = p_clear pol (stop_state t); t1 = t\<lparr>stop_state := s\<rparr> in
     if ok then thread_create os 0 (t1, w) else (False, t1, w))"

definition thread_abort :: "'w thread_api \<Rightarrow> 's policy \<Rightarrow> 's thread_implex \<times> 'w \<Rightarrow> bool \<times> 's thread_implex \<times> 'w" where
  "thread_abort os pol = (\<lambda>(t, w). case thread_handle t of None \<Rightarrow> (False, t, w)
     | Some h \<Rightarrow> (let (ok, s) = p_abort pol (stop_state t); t1 = t\<lparr>stop_state := s\<rparr> in
         if \<not> ok then (False, t1, w)
         else if suspended t1 then (True, snd (thread_resume os (t1, w))) else (True, t1, w)))"

definition thread_stop :: "'w thread_api \<Rightarrow> 's policy \<Rightarrow> u32 \<Rightarrow> 's thread_implex \<times> 'w \<Rightarrow> 's thread_implex \<times> 'w" where
  "thread_stop os pol timeout tw = (case thread_abort os pol tw of (False, tw1) \<Rightarrow> tw1
     | (True, tw1) \<Rightarrow> (let (ended, tw2) = wait_for_thread os timeout tw1;
         tw3 = (if ended then snd (terminate_thread os (- 1) tw2) else tw2) in
         snd (thread_release os tw3)))"

text \<open>\<open>thread_impl_t::stop\<close> waits without a limit and does not terminate.\<close>

definition thread_impl_stop :: "'w thread_api \<Rightarrow> 's policy \<Rightarrow> 's thread_implex \<times> 'w \<Rightarrow> 's thread_implex \<times> 'w" where
  "thread_impl_stop os pol tw = (case thread_abort os pol tw of (False, tw1) \<Rightarrow> tw1
     | (True, tw1) \<Rightarrow> snd (thread_release os (snd (wait_for_thread os INFINITE tw1))))"

definition thread_join :: "'w thread_api \<Rightarrow> 's policy \<Rightarrow> 's thread_implex \<times> 'w \<Rightarrow> 's thread_implex \<times> 'w" where
  "thread_join os pol tw = thread_stop os pol INFINITE (snd (thread_start os pol tw))"

definition set_auto_clean :: "bool \<Rightarrow> 's thread_implex \<Rightarrow> 's thread_implex" where
  "set_auto_clean b t = t\<lparr>auto_cleanup := b\<rparr>"

definition set_delete_on_exit :: "bool \<Rightarrow> 's thread_implex \<Rightarrow> 's thread_implex" where
  "set_delete_on_exit b t = t\<lparr>auto_delete := b, auto_cleanup := \<not> b\<rparr>"

text \<open>The destructor, and after it the one of the base class, which is managed.\<close>

definition thread_destroy :: "'w thread_api \<Rightarrow> 's policy \<Rightarrow> 's thread_implex \<times> 'w \<Rightarrow> 's thread_implex \<times> 'w" where
  "thread_destroy os pol tw = snd (thread_release os (if auto_cleanup (fst tw) then thread_stop os pol INFINITE tw else tw))"

text \<open>
  The thread's function. A statement of it is run in turn; \<open>_endthreadex\<close> ends the thread, so that what follows it is not reached. The result is
  the exit code and whether the object was deleted.
\<close>

datatype proc_step = Return u32 | Endthreadex u32 | Delete_this

fun run_proc :: "proc_step list \<Rightarrow> bool \<Rightarrow> u32 \<times> bool" where
  "run_proc [] deleted = (0, deleted)"
| "run_proc (Return c # ps) deleted = (c, deleted)"
| "run_proc (Endthreadex c # ps) deleted = (c, deleted)"
| "run_proc (Delete_this # ps) deleted = run_proc ps True"

definition thread_impl :: "'s thread_implex \<Rightarrow> u32 \<Rightarrow> u32 \<times> bool" where
  "thread_impl t result = (if \<not> handler_set t then run_proc [Return (- 1)] False
     else run_proc ([Endthreadex result] @ (if auto_delete t then [Delete_this] else []) @ [Return 0]) False)"

section \<open>The message loop\<close>

text \<open>
  \<open>run\<close> of \<open>msg_implex_t\<close>. In its \<open>k\<close>-th round the flag is \<open>aborted k\<close> and the handler, if it is called, returns \<open>result k\<close> (zero is
  \<open>S_OK\<close>). The result is the exit code and the number of calls; \<^term>\<open>None\<close> means that the loop does not end.
\<close>

partial_function (option) message_loop :: "(nat \<Rightarrow> bool) \<Rightarrow> (nat \<Rightarrow> int) \<Rightarrow> nat \<Rightarrow> nat option" where
  "message_loop aborted result k =
     (if aborted k then Some k else if result k \<noteq> 0 then Some (Suc k) else message_loop aborted result (Suc k))"

definition msg_run :: "bool \<Rightarrow> (nat \<Rightarrow> bool) \<Rightarrow> (nat \<Rightarrow> int) \<Rightarrow> (int \<times> nat) option" where
  "msg_run registered aborted result = (if \<not> registered then Some (- 1, 0)
     else map_option (\<lambda>n. (0, n)) (message_loop aborted result 0))"

text \<open>\<open>run\<close> of \<open>msg_impl_t\<close>: the round is left, too, when \<open>GetMessage\<close> returns \<open>got k\<close> that is not positive (\<open>WM_QUIT\<close> or an error),
  and the procedure that handles a message has no result. The result is the number of messages handled.\<close>

definition msg_impl_run :: "(nat \<Rightarrow> bool) \<Rightarrow> (nat \<Rightarrow> int) \<Rightarrow> nat option" where
  "msg_impl_run aborted got = message_loop (\<lambda>k. aborted k \<or> got k \<le> 0) (\<lambda>k. 0) 0"

section \<open>What a program does with a thread\<close>

datatype thread_cmd = T_start | T_stop u32 | T_abort | T_join | T_suspend | T_resume | T_priority int | T_wait u32 | T_terminate u32
  | T_release | T_auto_clean bool | T_delete_on_exit bool | T_register

fun thread_exec :: "'w thread_api \<Rightarrow> 's policy \<Rightarrow> thread_cmd \<Rightarrow> 's thread_implex \<times> 'w \<Rightarrow> 's thread_implex \<times> 'w" where
  "thread_exec os pol T_start tw = snd (thread_start os pol tw)"
| "thread_exec os pol (T_stop timeout) tw = thread_stop os pol timeout tw"
| "thread_exec os pol T_abort tw = snd (thread_abort os pol tw)"
| "thread_exec os pol T_join tw = thread_join os pol tw"
| "thread_exec os pol T_suspend tw = snd (thread_suspend os tw)"
| "thread_exec os pol T_resume tw = snd (thread_resume os tw)"
| "thread_exec os pol (T_priority p) tw = snd (set_priority os p tw)"
| "thread_exec os pol (T_wait timeout) tw = snd (wait_for_thread os timeout tw)"
| "thread_exec os pol (T_terminate code) tw = snd (terminate_thread os code tw)"
| "thread_exec os pol T_release tw = snd (thread_release os tw)"
| "thread_exec os pol (T_auto_clean b) tw = (set_auto_clean b (fst tw), snd tw)"
| "thread_exec os pol (T_delete_on_exit b) tw = (set_delete_on_exit b (fst tw), snd tw)"
| "thread_exec os pol T_register tw = (register_callback (fst tw), snd tw)"

text \<open>The assertion of \<open>create\<close>: a thread is started only when the object has none.\<close>

fun starts_free :: "'w thread_api \<Rightarrow> 's policy \<Rightarrow> thread_cmd list \<Rightarrow> 's thread_implex \<times> 'w \<Rightarrow> bool" where
  "starts_free os pol [] tw = True"
| "starts_free os pol (c # cs) tw =
     ((c = T_start \<or> c = T_join \<longrightarrow> thread_handle (fst tw) = None) \<and> starts_free os pol cs (thread_exec os pol c tw))"

definition thread_life :: "'w thread_api \<Rightarrow> 's policy \<Rightarrow> thread_cmd list \<Rightarrow> 's thread_implex \<times> 'w \<Rightarrow> 's thread_implex \<times> 'w" where
  "thread_life os pol cmds tw = thread_destroy os pol (fold (thread_exec os pol) cmds tw)"

text \<open>Win32 with a record of the calls made to it, and the protocol of a handle. A failed \<open>CloseHandle\<close> is a use.\<close>

datatype thread_call = Begun HANDLE | Operated HANDLE | Waited HANDLE thread_wait | Terminated HANDLE | Released HANDLE

definition logged :: "('r \<Rightarrow> thread_call list) \<Rightarrow> 'r \<times> 'w \<Rightarrow> thread_call list \<Rightarrow> 'r \<times> 'w \<times> thread_call list" where
  "logged f r tr = (fst r, snd r, tr @ f (fst r))"

definition thread_recorded :: "'w thread_api \<Rightarrow> ('w \<times> thread_call list) thread_api" where
  "thread_recorded os = \<lparr>
     beginthreadex = \<lambda>(w, tr). logged (\<lambda>r. case r of None \<Rightarrow> [] | Some hi \<Rightarrow> [Begun (fst hi)]) (beginthreadex os w) tr,
     SetThreadPriority = \<lambda>h p (w, tr). logged (\<lambda>r. [Operated h]) (SetThreadPriority os h p w) tr,
     ResumeThread = \<lambda>h (w, tr). logged (\<lambda>r. [Operated h]) (ResumeThread os h w) tr,
     SuspendThread = \<lambda>h (w, tr). logged (\<lambda>r. [Operated h]) (SuspendThread os h w) tr,
     WaitForThread = \<lambda>h timeout (w, tr). logged (\<lambda>r. [Waited h r]) (WaitForThread os h timeout w) tr,
     TerminateThread = \<lambda>h code (w, tr). logged (\<lambda>r. [Terminated h]) (TerminateThread os h code w) tr,
     GetExitCodeThread = \<lambda>h (w, tr). GetExitCodeThread os h w,
     CloseThreadHandle = \<lambda>h (w, tr). logged (\<lambda>ok. [if ok then Released h else Operated h]) (CloseThreadHandle os h w) tr\<rparr>"

fun thread_protocol :: "HANDLE option \<Rightarrow> thread_call list \<Rightarrow> HANDLE option option" where
  "thread_protocol h [] = Some h"
| "thread_protocol None (Begun h # cs) = thread_protocol (Some h) cs"
| "thread_protocol (Some h) (Operated h' # cs) = (if h = h' then thread_protocol (Some h) cs else None)"
| "thread_protocol (Some h) (Waited h' r # cs) = (if h = h' then thread_protocol (Some h) cs else None)"
| "thread_protocol (Some h) (Terminated h' # cs) = (if h = h' then thread_protocol (Some h) cs else None)"
| "thread_protocol (Some h) (Released h' # cs) = (if h = h' then thread_protocol None cs else None)"
| "thread_protocol _ _ = None"

lemma thread_protocol_append:
  "thread_protocol h (cs @ cs') = Option.bind (thread_protocol h cs) (\<lambda>h. thread_protocol h cs')"
  by (induction h cs rule: thread_protocol.induct) auto

definition in_protocol :: "'a thread_t_scheme \<times> 'w \<times> thread_call list \<Rightarrow> bool" where
  "in_protocol tw \<longleftrightarrow> thread_protocol None (snd (snd tw)) = Some (thread_handle (fst tw))"

named_theorems thread_ops \<open>the definitions of the thread's operations\<close>

lemmas [thread_ops] = thread_create_def thread_release_def thread_suspend_def thread_resume_def set_priority_def wait_for_thread_def
  terminate_thread_def thread_recorded_def logged_def Let_def

lemma base_in_protocol:
  assumes "in_protocol tw"
  shows "thread_handle (fst tw) = None \<Longrightarrow> in_protocol (snd (thread_create (thread_recorded os) p tw))"
    and "in_protocol (snd (thread_release (thread_recorded os) tw))"
    and "in_protocol (snd (thread_suspend (thread_recorded os) tw))"
    and "in_protocol (snd (thread_resume (thread_recorded os) tw))"
    and "in_protocol (snd (set_priority (thread_recorded os) p tw))"
    and "in_protocol (snd (wait_for_thread (thread_recorded os) timeout tw))"
    and "in_protocol (snd (terminate_thread (thread_recorded os) code tw))"
  using assms
  by (cases tw; auto simp: thread_ops in_protocol_def thread_protocol_append split: prod.splits option.splits bool.splits if_splits)+

lemma in_protocol_stop_state: "in_protocol (t\<lparr>stop_state := s\<rparr>, w) = in_protocol (t, w)"
  by (simp add: in_protocol_def)

lemma abort_in_protocol: "in_protocol tw \<Longrightarrow> in_protocol (snd (thread_abort (thread_recorded os) pol tw))"
  by (cases tw) (auto simp: thread_abort_def Let_def in_protocol_stop_state intro!: base_in_protocol(4) split: option.splits prod.splits)

lemma stop_in_protocol: "in_protocol tw \<Longrightarrow> in_protocol (thread_stop (thread_recorded os) pol timeout tw)"
  using abort_in_protocol [of tw os pol]
  by (auto simp: thread_stop_def Let_def split: prod.splits bool.splits
      intro!: base_in_protocol(2) base_in_protocol(7) dest: base_in_protocol(6) [where timeout = timeout and os = os])

lemma start_in_protocol:
  "in_protocol tw \<Longrightarrow> thread_handle (fst tw) = None \<Longrightarrow> in_protocol (snd (thread_start (thread_recorded os) pol tw))"
  by (cases tw) (auto simp: thread_start_def Let_def in_protocol_stop_state intro!: base_in_protocol(1) split: prod.splits)

lemma exec_in_protocol:
  assumes "in_protocol tw" "c = T_start \<or> c = T_join \<longrightarrow> thread_handle (fst tw) = None"
  shows "in_protocol (thread_exec (thread_recorded os) pol c tw)"
  using assms start_in_protocol [of tw os pol]
  by (cases c) (auto simp: thread_join_def base_in_protocol abort_in_protocol stop_in_protocol,
      auto simp: in_protocol_def set_auto_clean_def set_delete_on_exit_def register_callback_def)

lemma fold_in_protocol:
  "in_protocol tw \<Longrightarrow> starts_free (thread_recorded os) pol cs tw \<Longrightarrow> in_protocol (fold (thread_exec (thread_recorded os) pol) cs tw)"
  by (induction cs arbitrary: tw) (auto simp: exec_in_protocol)

lemma destroy_in_protocol: "in_protocol tw \<Longrightarrow> in_protocol (thread_destroy (thread_recorded os) pol tw)"
  by (simp add: thread_destroy_def base_in_protocol stop_in_protocol)

lemma release_closes:
  "\<forall>h w. fst (CloseThreadHandle os h w) \<Longrightarrow> thread_handle (fst (snd (thread_release (thread_recorded os) tw))) = None"
  by (cases tw) (auto simp: thread_ops split: option.splits prod.splits bool.splits)

text \<open>
  The life of a thread's handle: whatever operations a program calls on a thread object, in whatever order, with any stop policy
  and any behaviour of Win32 in which \<open>CloseHandle\<close> does not fail, provided that it starts a thread only when the object has none, every handle is used
  only while it is open and closed exactly once, by the destructor at the latest.
\<close>

theorem thread_handles_closed:
  assumes "starts_free (thread_recorded os) pol cmds (thread_implex_make s h, w, [])" "\<forall>h w. fst (CloseThreadHandle os h w)"
  shows "thread_protocol None (snd (snd (thread_life (thread_recorded os) pol cmds (thread_implex_make s h, w, [])))) = Some None"
proof -
  let ?tw = "thread_life (thread_recorded os) pol cmds (thread_implex_make s h, w, [])"
  have "in_protocol (thread_implex_make s h, w, [])"
    by (simp add: in_protocol_def thread_implex_make_def thread_t_make_def thread_t.extend_def)
  then have "in_protocol ?tw" using assms(1) by (simp add: thread_life_def destroy_in_protocol fold_in_protocol)
  moreover have "thread_handle (fst ?tw) = None" using assms(2) by (simp add: thread_life_def thread_destroy_def release_closes)
  ultimately show ?thesis by (simp add: in_protocol_def)
qed

text \<open>A Win32 in which nothing fails and a wait times out: the handles are numbered.\<close>

definition demo_api :: "nat thread_api" where
  "demo_api = \<lparr>beginthreadex = \<lambda>w. (Some (w, 0), Suc w), SetThreadPriority = \<lambda>h p w. (True, w), ResumeThread = \<lambda>h w. (True, w),
     SuspendThread = \<lambda>h w. (True, w), WaitForThread = \<lambda>h t w. (Wait_timeout, w), TerminateThread = \<lambda>h c w. (True, w),
     GetExitCodeThread = \<lambda>h w. Some 259, CloseThreadHandle = \<lambda>h w. (True, w)\<rparr>"

lemmas thread_eval = thread_life_def thread_destroy_def thread_stop_def thread_join_def thread_abort_def thread_start_def demo_api_def stop_bool_def
  thread_implex_make_def thread_t_make_def thread_t.extend_def

theorem thread_handles_closed_witness:
  "snd (snd (thread_life (thread_recorded demo_api) stop_bool [T_start, T_suspend, T_stop 0, T_start] (thread_implex_make False True, 1, []))) =
     [Begun 1, Operated 1, Operated 1, Operated 1, Waited 1 Wait_timeout, Released 1,
      Begun 2, Operated 2, Waited 2 Wait_timeout, Released 2] \<and>
   thread_protocol None (snd (snd (thread_life (thread_recorded demo_api) stop_bool [T_start, T_suspend, T_stop 0, T_start]
     (thread_implex_make False True, 1, [])))) = Some None"
proof
  show "thread_protocol None (snd (snd (thread_life (thread_recorded demo_api) stop_bool [T_start, T_suspend, T_stop 0, T_start]
     (thread_implex_make False True, 1, [])))) = Some None"
    by (rule thread_handles_closed) (simp_all add: thread_eval thread_ops)
qed (simp add: thread_eval thread_ops)

text \<open>Without the proviso a handle is lost: \<open>start\<close> on a running object overwrites it.\<close>

lemma second_start_leaks:
  "snd (snd (thread_life (thread_recorded demo_api) stop_bool [T_start, T_start] (thread_implex_make False True, 1, []))) =
     [Begun 1, Operated 1, Begun 2, Operated 2, Waited 2 Wait_timeout, Released 2]"
  by (simp add: thread_eval thread_ops)

section \<open>Stopping\<close>

lemma call_recorded:
  assumes "thread_handle t = Some h"
  shows "\<exists>r w'. wait_for_thread (thread_recorded os) timeout (t, w, tr) = (r = Wait_object_0, t, w', tr @ [Waited h r])"
    and "\<exists>ok w'. terminate_thread (thread_recorded os) code (t, w, tr) = (ok, t, w', tr @ [Terminated h])"
    and "\<exists>ok t' w'. thread_release (thread_recorded os) (t, w, tr) = (ok, t', w', tr @ [if ok then Released h else Operated h])"
    and "suspended t \<Longrightarrow> \<exists>ok t' w'. thread_resume (thread_recorded os) (t, w, tr) = (ok, t', w', tr @ [Operated h]) \<and>
      thread_handle t' = Some h"
  using assms by (auto simp: thread_ops split: prod.splits bool.splits)

lemma abort_recorded:
  assumes "thread_handle t = Some h" "p_abort pol (stop_state t) = (True, s)"
  shows "\<exists>t' w'. thread_abort (thread_recorded os) pol (t, w, tr) = (True, t', w', tr @ (if suspended t then [Operated h] else [])) \<and>
    thread_handle t' = Some h"
  using assms call_recorded(4) [of "t\<lparr>stop_state := s\<rparr>" h os w tr] by (cases "suspended t") (auto simp: thread_abort_def)

text \<open>
  What \<open>stop\<close> asks of Win32, in order, on an object with a thread: it resumes a suspended thread, waits, and calls \<open>TerminateThread\<close> exactly
  when the wait found the thread ended; a thread that has not ended in time goes on running, and its handle is closed all the same. The condition is
  the reverse of what a time limit is for.
\<close>

theorem stop_terminates_ended_only:
  assumes "thread_handle t = Some h" "p_abort pol (stop_state t) = (True, s)"
  shows "\<exists>r ok. snd (snd (thread_stop (thread_recorded os) pol timeout (t, w, tr))) =
    tr @ (if suspended t then [Operated h] else []) @ [Waited h r] @ (if r = Wait_object_0 then [Terminated h] else []) @
      [if ok then Released h else Operated h]"
proof -
  let ?os = "thread_recorded os"
  define tr1 where "tr1 = tr @ (if suspended t then [Operated h] else [])"
  obtain t1 w1 where a: "thread_abort ?os pol (t, w, tr) = (True, t1, w1, tr1)" "thread_handle t1 = Some h"
    using abort_recorded [OF assms, of os w tr, folded tr1_def] by blast
  obtain r w2 where r: "wait_for_thread ?os timeout (t1, w1, tr1) = (r = Wait_object_0, t1, w2, tr1 @ [Waited h r])"
    using call_recorded(1) [OF a(2), where os = os and timeout = timeout and w = w1 and tr = tr1] by blast
  let ?tr = "tr1 @ [Waited h r]"
  obtain w3 where w3: "(if r = Wait_object_0 then snd (terminate_thread ?os (- 1) (t1, w2, ?tr)) else (t1, w2, ?tr)) =
      (t1, w3, ?tr @ (if r = Wait_object_0 then [Terminated h] else []))"
    using call_recorded(2) [OF a(2), of os "- 1" w2 ?tr] by (cases "r = Wait_object_0") auto
  let ?tr' = "?tr @ (if r = Wait_object_0 then [Terminated h] else [])"
  obtain ok t4 w4 where "thread_release ?os (t1, w3, ?tr') = (ok, t4, w4, ?tr' @ [if ok then Released h else Operated h])"
    using call_recorded(3) [OF a(2), where os = os and w = w3 and tr = ?tr'] by blast
  then have "thread_stop ?os pol timeout (t, w, tr) = (t4, w4, ?tr' @ [if ok then Released h else Operated h])"
    by (simp only: thread_stop_def a(1) r w3 Let_def prod.case bool.case snd_conv)
  then show ?thesis by (auto simp: tr1_def)
qed

lemma keeps_stop_state:
  "stop_state (fst (snd (thread_release os tw))) = stop_state (fst tw)"
  "stop_state (fst (snd (thread_resume os tw))) = stop_state (fst tw)"
  "stop_state (fst (snd (wait_for_thread os timeout tw))) = stop_state (fst tw)"
  "stop_state (fst (snd (terminate_thread os code tw))) = stop_state (fst tw)"
  by (cases tw; auto simp: thread_ops split: option.splits prod.splits bool.splits)+

lemma stop_sets_abort:
  assumes "thread_handle (fst tw) \<noteq> None" "p_abort pol (stop_state (fst tw)) = (True, s)"
  shows "stop_state (fst (thread_stop os pol timeout tw)) = s"
proof -
  have "fst (thread_abort os pol tw)" "stop_state (fst (snd (thread_abort os pol tw))) = s"
    using assms keeps_stop_state(2) [of os "((fst tw)\<lparr>stop_state := s\<rparr>, snd tw)"]
    by (cases tw; cases "suspended (fst tw)"; auto simp: thread_abort_def)+
  then show ?thesis by (cases "thread_abort os pol tw") (simp add: thread_stop_def Let_def split_beta keeps_stop_state)
qed

text \<open>\<open>join\<close> sets the flag as soon as the thread is created: a function that polls it may not do any work.\<close>

lemma join_aborts:
  assumes "stop_policy (p_clear pol) (p_abort pol) (p_aborted pol)" "fst (p_abort pol (stop_state (fst (snd (thread_start os pol tw)))))"
    and "thread_handle (fst (snd (thread_start os pol tw))) \<noteq> None"
  shows "p_aborted pol (stop_state (fst (thread_join os pol tw)))"
proof -
  let ?tw = "snd (thread_start os pol tw)"
  have "p_abort pol (stop_state (fst ?tw)) = (True, snd (p_abort pol (stop_state (fst ?tw))))"
    using assms(2) by (simp add: prod_eq_iff)
  from stop_policy.abort_set [OF assms(1) this] stop_sets_abort [OF assms(3) this] show ?thesis
    by (simp add: thread_join_def)
qed

text \<open>The flag that remembers a suspension outlives the thread. After \<open>suspend\<close>, \<open>release\<close> and \<open>start\<close> the new thread runs and the object takes
  it for suspended: \<open>suspend\<close> does nothing and reports success.\<close>

lemma stale_suspension:
  "let tw = fold (thread_exec (thread_recorded demo_api) stop_bool) [T_start, T_suspend, T_release, T_start] (thread_implex_make False True, 1, []) in
     snd (snd tw) = [Begun 1, Operated 1, Operated 1, Released 1, Begun 2, Operated 2] \<and>
     thread_suspend (thread_recorded demo_api) tw = (True, tw)"
  by (simp add: thread_eval thread_ops)

text \<open>The object is never deleted by its thread: \<open>_endthreadex\<close> does not return.\<close>

lemma never_deleted: "thread_impl t result = (if handler_set t then result else - 1, False)"
  by (simp add: thread_impl_def)

section \<open>Policies\<close>

interpretation stop_bool: stop_policy "p_clear stop_bool" "p_abort stop_bool" "p_aborted stop_bool"
  by unfold_locales (auto simp: stop_bool_def)

text \<open>The event: what Win32 documents of a manual-reset event makes it a policy.\<close>

definition event_law :: "'e event_api \<Rightarrow> bool" where
  "event_law ev \<longleftrightarrow> (\<forall>e e'. SetEvent ev e = (True, e') \<longrightarrow> WaitForEvent ev e' = Wait_object_0) \<and>
     (\<forall>e e'. ResetEvent ev e = (True, e') \<longrightarrow> WaitForEvent ev e' = Wait_timeout)"

lemma stop_event_policy:
  "event_law ev \<Longrightarrow> stop_policy (p_clear (stop_event ev)) (p_abort (stop_event ev)) (p_aborted (stop_event ev))"
  by unfold_locales (auto simp: event_law_def stop_event_def)

lemma event_law_satisfied:
  "event_law \<lparr>SetEvent = \<lambda>e. (True, True), ResetEvent = \<lambda>e. (True, False), WaitForEvent = \<lambda>e. if e then Wait_object_0 else Wait_timeout\<rparr>"
  by (simp add: event_law_def)

text \<open>The asynchronous procedure call is not one: after \<open>_abort\<close> has succeeded the flag is not set.\<close>

lemma stop_APC_no_policy: "\<not> stop_policy (p_clear (stop_APC q)) (p_abort (stop_APC q)) (p_aborted (stop_APC q))"
  by (simp add: stop_policy_def stop_APC_def)

section \<open>The message loops\<close>

lemma message_loop_least:
  assumes "aborted n \<or> result n \<noteq> 0" "\<forall>i. k \<le> i \<and> i < n \<longrightarrow> \<not> aborted i \<and> result i = 0" "k \<le> n"
  shows "message_loop aborted result k = Some (if aborted n then n else Suc n)"
  using assms
proof (induction "n - k" arbitrary: k)
  case 0
  then show ?case by (subst message_loop.simps) auto
next
  case (Suc d)
  then have "\<not> aborted k \<and> result k = 0" "message_loop aborted result (Suc k) = Some (if aborted n then n else Suc n)" by auto
  then show ?case by (subst message_loop.simps) simp
qed

lemma message_loop_ends:
  assumes "message_loop aborted result k = Some m"
  shows "\<exists>n. aborted n \<or> result n \<noteq> 0"
proof (rule message_loop.raw_induct [where P = "\<lambda>aborted result k m. \<exists>n. aborted n \<or> result n \<noteq> 0", OF _ assms])
  fix loop aborted result k m
  assume ih: "\<And>aborted result k m. loop aborted result k = Some m \<Longrightarrow> \<exists>n. aborted n \<or> result n \<noteq> (0 :: int)"
    and body: "(if aborted k then Some k else if result k \<noteq> 0 then Some (Suc k) else loop aborted result (Suc k)) = Some m"
  show "\<exists>n. aborted n \<or> result n \<noteq> 0"
  proof (cases "aborted k \<or> result k \<noteq> 0")
    case False
    then show ?thesis using ih [of aborted result "Suc k" m] body by simp
  qed blast
qed

text \<open>
  The loop of a message thread ends if and only if in some round the flag is set or the handler reports other than \<open>S_OK\<close>. It then ends in the first
  such round, and the handler has been called once per round before, and in this one unless the flag stopped it.
\<close>

theorem msg_run_ends:
  "msg_run True aborted result = (if \<exists>n. aborted n \<or> result n \<noteq> 0
     then let n = (LEAST n. aborted n \<or> result n \<noteq> 0) in Some (0, if aborted n then n else Suc n) else None)"
proof (cases "\<exists>n. aborted n \<or> result n \<noteq> 0")
  case True
  let ?n = "LEAST n. aborted n \<or> result n \<noteq> 0"
  have stop: "aborted ?n \<or> result ?n \<noteq> 0" using True by (rule LeastI_ex)
  have "\<forall>i. 0 \<le> i \<and> i < ?n \<longrightarrow> \<not> aborted i \<and> result i = 0" using not_less_Least by blast
  from message_loop_least [OF stop this le0]
  have "message_loop aborted result 0 = Some (if aborted ?n then ?n else Suc ?n)" .
  then show ?thesis by (simp only: msg_run_def Let_def True if_True not_True_eq_False if_False option.map)
next
  case False
  then have "message_loop aborted result 0 = None" using message_loop_ends [of aborted result 0] by (cases "message_loop aborted result 0") auto
  then show ?thesis using False by (simp add: msg_run_def)
qed

end
