(* ===== verification/Sys_Pool.thy ===== *)
theory Sys_Pool
  imports Prelude
begin

text \<open>
  The wrappers of the system's thread pool (\<open>include/multi_thread/system_thread_pool.hpp\<close>): work items, timers and registered waits. An object
  owns the callback it has allocated and gives the system a plain pointer to it; the theory is about the life of that callback, while it waits in the system and
  while a thread of the pool runs it. The system's part is in the events: the addresses of \<open>operator new\<close>, which are used again after a free, whether a call
  succeeds, which handle it returns, and when a thread begins and ends what is queued. \<open>io_completion_pool\<close>, whose callback is empty, is left out.
\<close>

section \<open>Objects and callbacks\<close>

text \<open>
  \<open>callbacks\<close> is the heap of callback objects, each with its handler. The system holds pointers: queued work with the flag it will be called with,
  timers and waits by handle with whether they fire once only, and the callbacks that are being run. A pointer may be null. The second component of a
  \<open>sys_ref\<close> is auxiliary: the handler that was behind the pointer when it was given to the system.
\<close>

datatype pool_kind = Work_item | Queue_timer | Wait_object

record pool_object =
  kind :: pool_kind
  callback :: "nat option"
  os_object :: "nat option"

type_synonym sys_ref = "nat option \<times> nat option"

record sys_pool =
  callbacks :: "nat \<Rightarrow> nat option"
  objects :: "nat \<Rightarrow> pool_object option"
  queued :: "(sys_ref \<times> bool) list"
  timers :: "(nat \<times> sys_ref \<times> bool) list"
  waits :: "(nat \<times> sys_ref \<times> bool) list"
  running :: "sys_ref list"
  invoked :: "(nat option \<times> nat \<times> bool) list"

definition new_pool :: sys_pool where
  "new_pool = \<lparr>callbacks = (\<lambda>p. None), objects = (\<lambda>k. None), queued = [], timers = [], waits = [], running = [], invoked = []\<rparr>"

section \<open>Operations\<close>

text \<open>\<open>p\<close> is the address that \<open>operator new\<close> returns.\<close>

definition HandlerAllocate :: "nat \<Rightarrow> nat \<Rightarrow> sys_pool \<Rightarrow> sys_pool" where
  "HandlerAllocate p handler s = s\<lparr>callbacks := (callbacks s)(p \<mapsto> handler)\<rparr>"

definition HandlerDeallocate :: "nat option \<Rightarrow> sys_pool \<Rightarrow> sys_pool" where
  "HandlerDeallocate p s = (case p of None \<Rightarrow> s | Some q \<Rightarrow> s\<lparr>callbacks := (callbacks s)(q := None)\<rparr>)"

definition put_object :: "nat \<Rightarrow> pool_object \<Rightarrow> sys_pool \<Rightarrow> sys_pool" where
  "put_object k ob s = s\<lparr>objects := (objects s)(k \<mapsto> ob)\<rparr>"

text \<open>The constructors, without and with a handler.\<close>

definition pool_new :: "nat \<Rightarrow> pool_kind \<Rightarrow> nat option \<Rightarrow> nat \<Rightarrow> sys_pool \<Rightarrow> sys_pool" where
  "pool_new k kd handler p s = (case handler of None \<Rightarrow> put_object k \<lparr>kind = kd, callback = None, os_object = None\<rparr> s
     | Some h \<Rightarrow> put_object k \<lparr>kind = kd, callback = Some p, os_object = None\<rparr> (HandlerAllocate p h s))"

text \<open>
  \<open>call\<close> without a handler: \<open>QueueUserWorkItem\<close>, \<open>CreateTimerQueueTimer\<close> or \<open>RegisterWaitForSingleObject\<close>. The last two store
  the new handle in the object, over the one that was there. \<open>once\<close> is a period of 0 or the flag \<open>WT_EXECUTEONLYONCE\<close>.
\<close>

definition ref_of :: "pool_object \<Rightarrow> sys_pool \<Rightarrow> sys_ref" where
  "ref_of ob s = (callback ob, Option.bind (callback ob) (callbacks s))"

definition work_call :: "bool \<Rightarrow> pool_object \<Rightarrow> sys_pool \<Rightarrow> bool \<times> sys_pool" where
  "work_call ok ob s = (if ok then (True, s\<lparr>queued := queued s @ [(ref_of ob s, False)]\<rparr>) else (False, s))"

definition timer_call :: "bool \<Rightarrow> nat \<Rightarrow> bool \<Rightarrow> nat \<Rightarrow> pool_object \<Rightarrow> sys_pool \<Rightarrow> bool \<times> sys_pool" where
  "timer_call ok handle once k ob s = (if ok
     then (True, (put_object k (ob\<lparr>os_object := Some handle\<rparr>) s)\<lparr>timers := (handle, ref_of ob s, once) # timers s\<rparr>) else (False, s))"

definition wait_call :: "bool \<Rightarrow> nat \<Rightarrow> bool \<Rightarrow> nat \<Rightarrow> pool_object \<Rightarrow> sys_pool \<Rightarrow> bool \<times> sys_pool" where
  "wait_call ok handle once k ob s = (if ok
     then (True, (put_object k (ob\<lparr>os_object := Some handle\<rparr>) s)\<lparr>waits := (handle, ref_of ob s, once) # waits s\<rparr>) else (False, s))"

definition pool_call :: "bool \<Rightarrow> nat \<Rightarrow> bool \<Rightarrow> nat \<Rightarrow> pool_object \<Rightarrow> sys_pool \<Rightarrow> bool \<times> sys_pool" where
  "pool_call ok handle once k ob s = (case kind ob of Work_item \<Rightarrow> work_call ok ob s
     | Queue_timer \<Rightarrow> timer_call ok handle once k ob s | Wait_object \<Rightarrow> wait_call ok handle once k ob s)"

text \<open>\<open>call\<close> with a handler, of work items (in the other two classes it does not compile): the handler is taken only if the object has none.\<close>

definition work_call_handler :: "nat \<Rightarrow> nat \<Rightarrow> bool \<Rightarrow> nat \<Rightarrow> pool_object \<Rightarrow> sys_pool \<Rightarrow> bool \<times> sys_pool" where
  "work_call_handler handler p ok k ob s = (case callback ob of
     None \<Rightarrow> (let ob1 = ob\<lparr>callback := Some p\<rparr> in work_call ok ob1 (put_object k ob1 (HandlerAllocate p handler s)))
   | Some q \<Rightarrow> work_call ok ob s)"

text \<open>
  \<open>cancel\<close>, with \<open>NULL\<close> for the completion event. \<open>DeleteTimerQueueTimer\<close> and \<open>UnregisterWaitEx\<close> do not wait: while a callback is queued or
  runs they end the timer or the wait and report a failure (\<open>ERROR_IO_PENDING\<close>). \<open>cancel\<close> of a timer forgets the handle on success, that of a wait does not.
\<close>

datatype cancel_answer = Cancelled | Cancel_pending | Cancel_failed

definition timer_cancel :: "cancel_answer \<Rightarrow> nat \<Rightarrow> pool_object \<Rightarrow> sys_pool \<Rightarrow> bool \<times> sys_pool" where
  "timer_cancel ans k ob s = (case os_object ob of None \<Rightarrow> (False, s)
     | Some h \<Rightarrow> (let s1 = s\<lparr>timers := filter (\<lambda>t. fst t \<noteq> h) (timers s)\<rparr> in
         case ans of Cancelled \<Rightarrow> (True, put_object k (ob\<lparr>os_object := None\<rparr>) s1) | Cancel_pending \<Rightarrow> (False, s1) | Cancel_failed \<Rightarrow> (False, s)))"

definition wait_cancel :: "cancel_answer \<Rightarrow> pool_object \<Rightarrow> sys_pool \<Rightarrow> bool \<times> sys_pool" where
  "wait_cancel ans ob s = (case os_object ob of None \<Rightarrow> (False, s)
     | Some h \<Rightarrow> (let s1 = s\<lparr>waits := filter (\<lambda>t. fst t \<noteq> h) (waits s)\<rparr> in
         case ans of Cancelled \<Rightarrow> (True, s1) | Cancel_pending \<Rightarrow> (False, s1) | Cancel_failed \<Rightarrow> (False, s)))"

definition pool_cancel :: "cancel_answer \<Rightarrow> nat \<Rightarrow> pool_object \<Rightarrow> sys_pool \<Rightarrow> bool \<times> sys_pool" where
  "pool_cancel ans k ob s = (case kind ob of Work_item \<Rightarrow> (False, s)
     | Queue_timer \<Rightarrow> timer_cancel ans k ob s | Wait_object \<Rightarrow> wait_cancel ans ob s)"

text \<open>\<open>change\<close> of a timer: \<open>ChangeTimerQueueTimer\<close> with a new period.\<close>

definition timer_change :: "bool \<Rightarrow> bool \<Rightarrow> pool_object \<Rightarrow> sys_pool \<Rightarrow> bool \<times> sys_pool" where
  "timer_change ok once ob s = (if ok
     then (True, s\<lparr>timers := map (\<lambda>(h, r, o1). (h, r, if os_object ob = Some h then once else o1)) (timers s)\<rparr>) else (False, s))"

text \<open>The destructors: a timer is cancelled, a wait is not; then the callback is freed.\<close>

definition before_free :: "cancel_answer \<Rightarrow> nat \<Rightarrow> pool_object \<Rightarrow> sys_pool \<Rightarrow> sys_pool" where
  "before_free ans k ob s = (if kind ob = Queue_timer \<and> os_object ob \<noteq> None then snd (timer_cancel ans k ob s) else s)"

definition pool_destroy :: "cancel_answer \<Rightarrow> nat \<Rightarrow> pool_object \<Rightarrow> sys_pool \<Rightarrow> sys_pool" where
  "pool_destroy ans k ob s = (let s2 = HandlerDeallocate (callback ob) (before_free ans k ob s) in s2\<lparr>objects := (objects s2)(k := None)\<rparr>)"

text \<open>
  \<open>proc_impl\<close> in two steps: the handler found through the pointer begins to run, and it ends. It is a member of the callback object, which has to be there all
  the time. Whatever the handler throws is caught.
\<close>

definition proc_begin :: "sys_ref \<Rightarrow> bool \<Rightarrow> sys_pool \<Rightarrow> sys_pool result" where
  "proc_begin r flag s = (case Option.bind (fst r) (callbacks s) of None \<Rightarrow> Inl Access_violation
     | Some h \<Rightarrow> Inr (s\<lparr>running := running s @ [(fst r, Some h)], invoked := invoked s @ [(snd r, h, flag)]\<rparr>))"

definition proc_end :: "sys_ref \<Rightarrow> sys_pool \<Rightarrow> sys_pool result" where
  "proc_end r s = (if Option.bind (fst r) (callbacks s) = snd r then Inr s else Inl Access_violation)"

section \<open>Runs\<close>

datatype pool_event =
    New nat pool_kind "nat option" nat
  | Call nat bool nat bool
  | Call_handler nat nat nat bool
  | Cancel nat cancel_answer
  | Change nat bool bool
  | Destroy nat cancel_answer
  | Timer_fires nat
  | Wait_fires nat bool
  | Thread_begins nat
  | Thread_ends nat

text \<open>
  An event on an object that does not exist does nothing; nor does one in which \<open>operator new\<close> would return an address in use, or the system a handle in use.
  A timer or wait that fires queues its callback; a thread takes any of the queued.
\<close>

definition with_object :: "nat \<Rightarrow> (pool_object \<Rightarrow> sys_pool \<Rightarrow> sys_pool) \<Rightarrow> sys_pool \<Rightarrow> sys_pool result" where
  "with_object k f s = Inr (case objects s k of None \<Rightarrow> s | Some ob \<Rightarrow> f ob s)"

definition handle_used :: "pool_object \<Rightarrow> nat \<Rightarrow> sys_pool \<Rightarrow> bool" where
  "handle_used ob handle s \<longleftrightarrow> kind ob \<noteq> Work_item \<and> handle \<in> fst ` (set (timers s) \<union> set (waits s))"

definition remove_nth :: "nat \<Rightarrow> 'a list \<Rightarrow> 'a list" where
  "remove_nth i xs = take i xs @ drop (Suc i) xs"

definition after_fire :: "nat \<Rightarrow> bool \<Rightarrow> (nat \<times> sys_ref \<times> bool) list \<Rightarrow> (nat \<times> sys_ref \<times> bool) list" where
  "after_fire h once regs = (if once then filter (\<lambda>t. fst t \<noteq> h) regs else regs)"

definition timer_fires :: "nat \<Rightarrow> sys_pool \<Rightarrow> sys_pool" where
  "timer_fires h s = (case map_of (timers s) h of None \<Rightarrow> s
     | Some (r, once) \<Rightarrow> s\<lparr>queued := queued s @ [(r, True)], timers := after_fire h once (timers s)\<rparr>)"

definition wait_fires :: "nat \<Rightarrow> bool \<Rightarrow> sys_pool \<Rightarrow> sys_pool" where
  "wait_fires h flag s = (case map_of (waits s) h of None \<Rightarrow> s
     | Some (r, once) \<Rightarrow> s\<lparr>queued := queued s @ [(r, flag)], waits := after_fire h once (waits s)\<rparr>)"

fun pool_step :: "pool_event \<Rightarrow> sys_pool \<Rightarrow> sys_pool result" where
  "pool_step (New k kd h p) s = Inr (if objects s k = None \<and> callbacks s p = None then pool_new k kd h p s else s)"
| "pool_step (Call k ok handle once) s = with_object k (\<lambda>ob s. if handle_used ob handle s then s else snd (pool_call ok handle once k ob s)) s"
| "pool_step (Call_handler k h p ok) s = with_object k (\<lambda>ob s. if kind ob = Work_item \<and> callbacks s p = None then snd (work_call_handler h p ok k ob s) else s) s"
| "pool_step (Cancel k ans) s = with_object k (\<lambda>ob s. snd (pool_cancel ans k ob s)) s"
| "pool_step (Change k ok once) s = with_object k (\<lambda>ob s. if kind ob = Queue_timer then snd (timer_change ok once ob s) else s) s"
| "pool_step (Destroy k ans) s = with_object k (pool_destroy ans k) s"
| "pool_step (Timer_fires h) s = Inr (timer_fires h s)"
| "pool_step (Wait_fires h flag) s = Inr (wait_fires h flag s)"
| "pool_step (Thread_begins i) s = (if i < length (queued s)
     then proc_begin (fst (queued s ! i)) (snd (queued s ! i)) (s\<lparr>queued := remove_nth i (queued s)\<rparr>) else Inr s)"
| "pool_step (Thread_ends i) s = (if i < length (running s)
     then proc_end (running s ! i) (s\<lparr>running := remove_nth i (running s)\<rparr>) else Inr s)"

definition pool_run :: "pool_event list \<Rightarrow> sys_pool result" where
  "pool_run evs = foldR pool_step evs new_pool"

fun by_system :: "pool_event \<Rightarrow> bool" where
  "by_system (Timer_fires h) = True"
| "by_system (Wait_fires h flag) = True"
| "by_system (Thread_begins i) = True"
| "by_system (Thread_ends i) = True"
| "by_system e = False"

section \<open>The discipline\<close>

text \<open>What the system holds and may still use.\<close>

definition refs :: "sys_pool \<Rightarrow> sys_ref set" where
  "refs s = fst ` set (queued s) \<union> set (running s) \<union> (fst \<circ> snd) ` set (timers s) \<union> (fst \<circ> snd) ` set (waits s)"

text \<open>
  What a client has to see to: it calls only objects that have a callback, and destroys one only when all that its calls have started is over, apart from the
  timer that the destructor itself cancels.
\<close>

fun careful :: "pool_event \<Rightarrow> sys_pool \<Rightarrow> bool" where
  "careful (Call k ok handle once) s = (case objects s k of None \<Rightarrow> True | Some ob \<Rightarrow> ok \<longrightarrow> \<not> handle_used ob handle s \<longrightarrow> callback ob \<noteq> None)"
| "careful (Destroy k ans) s = (case objects s k of None \<Rightarrow> True
     | Some ob \<Rightarrow> callback ob = None \<or> callback ob \<notin> fst ` refs (before_free ans k ob s))"
| "careful _ s = True"

fun careful_run :: "pool_event list \<Rightarrow> sys_pool \<Rightarrow> bool" where
  "careful_run [] s = True"
| "careful_run (e # es) s = (careful e s \<and> (case pool_step e s of Inl _ \<Rightarrow> True | Inr s' \<Rightarrow> careful_run es s'))"

section \<open>Ownership\<close>

text \<open>The callback an object owns; a pointer behind which there is still what was meant.\<close>

definition owned :: "sys_pool \<Rightarrow> nat \<Rightarrow> nat option" where
  "owned s = (\<lambda>k. Option.bind (objects s k) callback)"

definition live :: "(nat \<Rightarrow> nat option) \<Rightarrow> sys_ref \<Rightarrow> bool" where
  "live heap r \<longleftrightarrow> (\<exists>q h. r = (Some q, Some h) \<and> heap q = Some h)"

text \<open>Every object owns its callback alone, and every pointer the system holds is live.\<close>

definition owner_inv :: "(nat \<Rightarrow> nat option) \<Rightarrow> (nat \<Rightarrow> nat option) \<Rightarrow> sys_ref set \<Rightarrow> bool" where
  "owner_inv own heap rs \<longleftrightarrow> ran own \<subseteq> dom heap \<and> (\<forall>k k' p. own k = Some p \<longrightarrow> own k' = Some p \<longrightarrow> k = k') \<and> (\<forall>r \<in> rs. live heap r)"

definition pool_inv :: "sys_pool \<Rightarrow> bool" where
  "pool_inv s \<longleftrightarrow> owner_inv (owned s) (callbacks s) (refs s) \<and> distinct (map fst (timers s)) \<and> distinct (map fst (waits s)) \<and>
     (\<forall>(m, h, flag) \<in> set (invoked s). m = Some h)"

lemma owner_inv_subset: "owner_inv own heap rs \<Longrightarrow> rs' \<subseteq> rs \<Longrightarrow> owner_inv own heap rs'"
  by (auto simp: owner_inv_def)

lemma owner_inv_insert:
  assumes "owner_inv own heap rs" "own k = Some p"
  shows "owner_inv own heap (insert (Some p, heap p) rs)"
proof -
  have "p \<in> dom heap" using assms by (auto simp: owner_inv_def intro: ranI)
  then have "live heap (Some p, heap p)" by (auto simp: live_def)
  then show ?thesis using assms(1) by (simp add: owner_inv_def)
qed

lemma live_allocate: "live heap r \<Longrightarrow> heap p = None \<Longrightarrow> live (heap(p \<mapsto> h)) r"
  by (auto simp: live_def)

lemma owner_inv_allocate:
  assumes "owner_inv own heap rs" "heap p = None"
  shows "owner_inv (own(k \<mapsto> p)) (heap(p \<mapsto> h)) rs"
proof -
  have "own j \<noteq> Some p" for j using assms unfolding owner_inv_def by (metis domIff ranI subset_iff)
  then have "\<forall>i j q. (own(k \<mapsto> p)) i = Some q \<longrightarrow> (own(k \<mapsto> p)) j = Some q \<longrightarrow> i = j"
    using assms(1) unfolding owner_inv_def by auto
  moreover have "ran (own(k \<mapsto> p)) \<subseteq> dom (heap(p \<mapsto> h))" using assms(1) unfolding owner_inv_def ran_def by auto
  moreover have "\<forall>r \<in> rs. live (heap(p \<mapsto> h)) r" using assms live_allocate unfolding owner_inv_def by blast
  ultimately show ?thesis unfolding owner_inv_def by blast
qed

lemma owner_inv_free:
  assumes "owner_inv own heap rs" "own k = Some p" "Some p \<notin> fst ` rs"
  shows "owner_inv (own(k := None)) (heap(p := None)) rs"
proof -
  have "ran (own(k := None)) \<subseteq> dom (heap(p := None))" using assms(1,2) unfolding owner_inv_def ran_def by (auto split: if_splits)
  moreover have "live (heap(p := None)) r" if "r \<in> rs" for r
  proof -
    have "live heap r" using that assms(1) unfolding owner_inv_def by blast
    moreover have "fst r \<noteq> Some p" using that assms(3) by (metis imageI)
    ultimately show ?thesis by (auto simp: live_def)
  qed
  ultimately show ?thesis using assms(1) unfolding owner_inv_def by (auto split: if_splits)
qed

lemma owned_put_object [simp]: "owned (put_object k ob s) = (owned s)(k := callback ob)"
  by (auto simp: owned_def put_object_def)

lemma put_object_simps [simp]:
  "refs (put_object k ob s) = refs s" "callbacks (put_object k ob s) = callbacks s" "timers (put_object k ob s) = timers s"
  "waits (put_object k ob s) = waits s" "invoked (put_object k ob s) = invoked s" "queued (put_object k ob s) = queued s"
  by (simp_all add: refs_def put_object_def)

lemma pool_inv_put_object: "pool_inv s \<Longrightarrow> owned s k = callback ob \<Longrightarrow> pool_inv (put_object k ob s)"
  by (simp add: pool_inv_def) (metis fun_upd_triv)

lemma pool_inv_allocate:
  assumes "pool_inv s" "callbacks s p = None" "callback ob = Some p"
  shows "pool_inv (put_object k ob (HandlerAllocate p h s))"
proof -
  have "owned (HandlerAllocate p h s) = owned s" "refs (HandlerAllocate p h s) = refs s"
    by (simp_all add: HandlerAllocate_def owned_def refs_def)
  then show ?thesis using assms owner_inv_allocate [of "owned s" "callbacks s" "refs s" p k h]
    by (simp add: pool_inv_def) (simp add: HandlerAllocate_def)
qed

text \<open>A change of what the system holds.\<close>

lemma pool_inv_refs:
  assumes "pool_inv s" "callbacks s' = callbacks s" "objects s' = objects s" "invoked s' = invoked s"
    and "distinct (map fst (timers s'))" "distinct (map fst (waits s'))"
    and "refs s' \<subseteq> insert r (refs s)" "r \<in> refs s \<or> (\<exists>k p. owned s k = Some p \<and> r = (Some p, callbacks s p))"
  shows "pool_inv s'"
proof -
  have "owned s' = owned s" using assms(3) by (simp add: owned_def)
  moreover have "owner_inv (owned s) (callbacks s) (insert r (refs s))"
    using assms(1,8) owner_inv_insert by (auto simp: pool_inv_def insert_absorb)
  ultimately show ?thesis using assms owner_inv_subset by (simp add: pool_inv_def)
qed

lemma pool_inv_fewer_refs:
  assumes "pool_inv s" "callbacks s' = callbacks s" "objects s' = objects s" "invoked s' = invoked s"
    and "distinct (map fst (timers s'))" "distinct (map fst (waits s'))" "refs s' \<subseteq> refs s"
  shows "pool_inv s'"
proof -
  have "owned s' = owned s" using assms(3) by (simp add: owned_def)
  then show ?thesis using assms owner_inv_subset [OF _ assms(7)] by (simp add: pool_inv_def)
qed

lemma distinct_fst_filter: "distinct (map fst xs) \<Longrightarrow> distinct (map fst (filter P xs))"
  by (induction xs) auto

lemma refs_cancelled: "refs (s\<lparr>timers := filter P (timers s)\<rparr>) \<subseteq> refs s" "refs (s\<lparr>waits := filter P (waits s)\<rparr>) \<subseteq> refs s"
  by (auto simp: refs_def)

lemma pool_inv_cancelled: "pool_inv s \<Longrightarrow> pool_inv (s\<lparr>timers := filter P (timers s)\<rparr>)" "pool_inv s \<Longrightarrow> pool_inv (s\<lparr>waits := filter P (waits s)\<rparr>)"
  by (rule pool_inv_fewer_refs [where s = s]; simp add: refs_cancelled pool_inv_def distinct_fst_filter)+

section \<open>Every operation keeps the invariant\<close>

lemma pool_inv_new: "pool_inv s \<Longrightarrow> objects s k = None \<Longrightarrow> callbacks s p = None \<Longrightarrow> pool_inv (pool_new k kd h p s)"
  by (cases h) (simp_all add: pool_new_def pool_inv_allocate pool_inv_put_object owned_def)

lemma pool_inv_work_call:
  assumes "pool_inv s" "objects s k = Some ob" "callback ob = Some p"
  shows "pool_inv (snd (work_call ok ob s))"
proof (cases ok)
  case True
  have "owned s k = Some p" using assms(2,3) by (simp add: owned_def)
  moreover have "refs (s\<lparr>queued := queued s @ [((Some p, callbacks s p), False)]\<rparr>) \<subseteq> insert (Some p, callbacks s p) (refs s)"
    by (auto simp: refs_def)
  ultimately have "pool_inv (s\<lparr>queued := queued s @ [((Some p, callbacks s p), False)]\<rparr>)"
    using assms(1) by (intro pool_inv_refs [OF assms(1), where r = "(Some p, callbacks s p)"]) (auto simp: pool_inv_def)
  then show ?thesis using True assms(3) by (simp add: work_call_def ref_of_def)
qed (simp add: work_call_def assms(1))

lemma pool_inv_register:
  assumes "pool_inv s" "objects s k = Some ob" "callback ob = Some p" "handle \<notin> fst ` (set (timers s) \<union> set (waits s))"
  shows "pool_inv (snd (timer_call ok handle once k ob s))" "pool_inv (snd (wait_call ok handle once k ob s))"
proof -
  let ?s = "put_object k (ob\<lparr>os_object := Some handle\<rparr>) s" and ?r = "(Some p, callbacks s p)"
  have own: "owned s k = Some p" "owned ?s k = Some p" using assms(2,3) by (simp_all add: owned_def put_object_def)
  then have inv: "pool_inv ?s" using assms(1,3) by (intro pool_inv_put_object) simp_all
  have "refs (?s\<lparr>timers := (handle, ?r, once) # timers s\<rparr>) \<subseteq> insert ?r (refs ?s)" "refs (?s\<lparr>waits := (handle, ?r, once) # waits s\<rparr>) \<subseteq> insert ?r (refs ?s)"
    by (auto simp: refs_def put_object_def)
  then have "pool_inv (?s\<lparr>timers := (handle, ?r, once) # timers s\<rparr>)" "pool_inv (?s\<lparr>waits := (handle, ?r, once) # waits s\<rparr>)"
    using inv own(2) assms(4) by (intro pool_inv_refs [OF inv, where r = ?r]; auto simp: pool_inv_def)+
  then show "pool_inv (snd (timer_call ok handle once k ob s))" "pool_inv (snd (wait_call ok handle once k ob s))"
    using assms(1,3) by (simp_all add: timer_call_def wait_call_def ref_of_def)
qed

lemma pool_inv_call:
  assumes "pool_inv s" "objects s k = Some ob" "callback ob = Some p" "\<not> handle_used ob handle s"
  shows "pool_inv (snd (pool_call ok handle once k ob s))"
proof (cases "kind ob")
  case Work_item
  then show ?thesis using pool_inv_work_call [OF assms(1-3)] by (simp add: pool_call_def)
next
  case Queue_timer
  then show ?thesis using pool_inv_register(1) [OF assms(1-3)] assms(4) by (simp add: pool_call_def handle_used_def)
next
  case Wait_object
  then show ?thesis using pool_inv_register(2) [OF assms(1-3)] assms(4) by (simp add: pool_call_def handle_used_def)
qed

lemma pool_inv_call_handler:
  assumes "pool_inv s" "objects s k = Some ob" "callbacks s p = None"
  shows "pool_inv (snd (work_call_handler h p ok k ob s))"
proof (cases "callback ob")
  case None
  let ?ob = "ob\<lparr>callback := Some p\<rparr>"
  let ?s = "put_object k ?ob (HandlerAllocate p h s)"
  have "pool_inv ?s" using pool_inv_allocate [OF assms(1,3)] by simp
  moreover have "objects ?s k = Some ?ob" by (simp add: put_object_def)
  ultimately show ?thesis using None pool_inv_work_call [of ?s k ?ob p] by (simp add: work_call_handler_def Let_def)
next
  case (Some q)
  then show ?thesis using pool_inv_work_call [OF assms(1,2)] by (simp add: work_call_handler_def)
qed

lemma pool_inv_timer_cancel:
  assumes "pool_inv s" "objects s k = Some ob"
  shows "pool_inv (snd (timer_cancel ans k ob s))"
    and "\<exists>ob'. objects (snd (timer_cancel ans k ob s)) k = Some ob' \<and> callback ob' = callback ob"
proof -
  have inv: "pool_inv (s\<lparr>timers := filter P (timers s)\<rparr>)" for P by (rule pool_inv_cancelled(1) [OF assms(1)])
  have own: "owned (s\<lparr>timers := ts\<rparr>) k = callback ob" for ts using assms(2) by (simp add: owned_def)
  have put: "pool_inv (put_object k (ob\<lparr>os_object := None\<rparr>) (s\<lparr>timers := filter P (timers s)\<rparr>))" for P
    by (rule pool_inv_put_object [OF inv]) (simp add: own)
  show "pool_inv (snd (timer_cancel ans k ob s))" using inv put assms(1)
    by (simp add: timer_cancel_def Let_def split: option.split cancel_answer.split)
  show "\<exists>ob'. objects (snd (timer_cancel ans k ob s)) k = Some ob' \<and> callback ob' = callback ob"
    using assms(2) by (simp add: timer_cancel_def Let_def put_object_def split: option.split cancel_answer.split)
qed

lemma pool_inv_cancel:
  assumes "pool_inv s" "objects s k = Some ob"
  shows "pool_inv (snd (pool_cancel ans k ob s))"
  using pool_inv_timer_cancel(1) [OF assms] pool_inv_cancelled(2) [OF assms(1)] assms(1)
  by (simp add: pool_cancel_def wait_cancel_def Let_def split: pool_kind.split option.split cancel_answer.split)

lemma pool_inv_change:
  assumes "pool_inv s"
  shows "pool_inv (snd (timer_change ok once ob s))"
proof -
  let ?f = "\<lambda>(h, r :: sys_ref, o1). (h, r, if os_object ob = Some h then once else o1)"
  have "fst \<circ> ?f = fst" "(fst \<circ> snd) \<circ> ?f = fst \<circ> snd" by auto
  then have m: "map fst (map ?f (timers s)) = map fst (timers s)" and "(fst \<circ> snd) ` set (map ?f (timers s)) = (fst \<circ> snd) ` set (timers s)"
    by (simp_all only: map_map set_map image_comp)
  then have r: "refs (s\<lparr>timers := map ?f (timers s)\<rparr>) = refs s" by (simp add: refs_def del: set_map)
  have "pool_inv (s\<lparr>timers := map ?f (timers s)\<rparr>)" using assms
    by (intro pool_inv_fewer_refs [OF assms]) (simp_all add: pool_inv_def m r del: map_map)
  then show ?thesis using assms by (simp add: timer_change_def)
qed

lemma pool_inv_free:
  assumes "pool_inv s" "objects s k = Some ob" "callback ob = None \<or> callback ob \<notin> fst ` refs s"
  shows "pool_inv ((HandlerDeallocate (callback ob) s)\<lparr>objects := (objects (HandlerDeallocate (callback ob) s))(k := None)\<rparr>)"
proof (cases "callback ob")
  case None
  then have "(owned s)(k := None) = owned s" using assms(2) by (auto simp: owned_def)
  moreover have "owned (s\<lparr>objects := (objects s)(k := None)\<rparr>) = (owned s)(k := None)" by (auto simp: owned_def)
  ultimately show ?thesis using None assms(1) by (simp add: HandlerDeallocate_def pool_inv_def refs_def)
next
  case (Some p)
  have "owned (s\<lparr>callbacks := cs, objects := (objects s)(k := None)\<rparr>) = (owned s)(k := None)" for cs by (auto simp: owned_def)
  moreover have "owned s k = Some p" using assms(2) Some by (simp add: owned_def)
  ultimately show ?thesis using owner_inv_free [of "owned s" "callbacks s" "refs s" k p] assms(1,3) Some
    by (simp add: HandlerDeallocate_def pool_inv_def refs_def)
qed

lemma before_free:
  assumes "pool_inv s" "objects s k = Some ob"
  shows "pool_inv (before_free ans k ob s)" "\<exists>ob'. objects (before_free ans k ob s) k = Some ob' \<and> callback ob' = callback ob"
  using pool_inv_timer_cancel [OF assms, of ans] assms by (simp_all add: before_free_def)

lemma pool_inv_destroy:
  assumes "pool_inv s" "objects s k = Some ob" "careful (Destroy k ans) s"
  shows "pool_inv (pool_destroy ans k ob s)"
proof -
  obtain ob' where ob': "objects (before_free ans k ob s) k = Some ob'" "callback ob' = callback ob" using before_free(2) [OF assms(1,2)] by blast
  then show ?thesis using pool_inv_free [OF before_free(1) [OF assms(1,2)] ob'(1)] assms(2,3) by (simp add: pool_destroy_def Let_def)
qed

lemma fired_ref: "map_of regs h = Some (r, once) \<Longrightarrow> r \<in> (fst \<circ> snd) ` set regs"
  by (auto dest!: map_of_SomeD intro: rev_image_eqI)

lemma after_fire_simps: "distinct (map fst regs) \<Longrightarrow> distinct (map fst (after_fire h once regs))" "set (after_fire h once regs) \<subseteq> set regs"
  by (auto simp: after_fire_def distinct_fst_filter)

lemma pool_inv_fires:
  assumes "pool_inv s"
  shows "pool_inv (timer_fires h s)" "pool_inv (wait_fires h flag s)"
proof -
  have t: "refs (s\<lparr>queued := queued s @ [(r, f)], timers := after_fire h once (timers s)\<rparr>) \<subseteq> insert r (refs s)" for r f once
    using after_fire_simps(2) [of h once "timers s"] by (auto simp: refs_def)
  have w: "refs (s\<lparr>queued := queued s @ [(r, f)], waits := after_fire h once (waits s)\<rparr>) \<subseteq> insert r (refs s)" for r f once
    using after_fire_simps(2) [of h once "waits s"] by (auto simp: refs_def)
  have "pool_inv (s\<lparr>queued := queued s @ [(r, True)], timers := after_fire h once (timers s)\<rparr>)" if "map_of (timers s) h = Some (r, once)" for r once
    using assms fired_ref [OF that] by (intro pool_inv_refs [OF assms _ _ _ _ _ t]) (simp_all add: pool_inv_def after_fire_simps refs_def)
  then show "pool_inv (timer_fires h s)" using assms by (auto simp: timer_fires_def split: option.split)
  have "pool_inv (s\<lparr>queued := queued s @ [(r, flag)], waits := after_fire h once (waits s)\<rparr>)" if "map_of (waits s) h = Some (r, once)" for r once
    using assms fired_ref [OF that] by (intro pool_inv_refs [OF assms _ _ _ _ _ w]) (simp_all add: pool_inv_def after_fire_simps refs_def)
  then show "pool_inv (wait_fires h flag s)" using assms by (auto simp: wait_fires_def split: option.split)
qed

lemma set_remove_nth: "set (remove_nth i xs) \<subseteq> set xs"
  by (auto simp: remove_nth_def dest: in_set_takeD in_set_dropD)

text \<open>A thread finds the callback of whatever it takes from the queue, and the callback is still there when the handler ends.\<close>

lemma pool_inv_begins:
  assumes "pool_inv s"
  shows "\<exists>s'. pool_step (Thread_begins i) s = Inr s' \<and> pool_inv s'"
proof (cases "i < length (queued s)")
  case True
  obtain r flag where q: "queued s ! i = (r, flag)" by (cases "queued s ! i")
  then have r: "r \<in> refs s" using nth_mem [OF True] by (auto simp: refs_def intro: rev_image_eqI)
  then have "live (callbacks s) r" using assms by (simp add: pool_inv_def owner_inv_def)
  then obtain p h where p: "r = (Some p, Some h)" "callbacks s p = Some h" by (auto simp: live_def)
  let ?s = "s\<lparr>queued := remove_nth i (queued s), running := running s @ [r]\<rparr>"
  have "refs ?s \<subseteq> refs s" using r set_remove_nth [of i "queued s"] by (auto simp: refs_def)
  then have "pool_inv ?s" using assms by (intro pool_inv_fewer_refs [OF assms]) (simp_all add: pool_inv_def)
  then have "pool_inv (?s\<lparr>invoked := invoked s @ [(Some h, h, flag)]\<rparr>)" by (auto simp: pool_inv_def refs_def owned_def)
  then show ?thesis using True q p by (simp add: proc_begin_def)
qed (simp add: assms)

lemma pool_inv_ends:
  assumes "pool_inv s"
  shows "\<exists>s'. pool_step (Thread_ends i) s = Inr s' \<and> pool_inv s'"
proof (cases "i < length (running s)")
  case True
  then have "live (callbacks s) (running s ! i)" using assms by (simp add: pool_inv_def owner_inv_def refs_def)
  moreover have "refs (s\<lparr>running := remove_nth i (running s)\<rparr>) \<subseteq> refs s" using set_remove_nth [of i "running s"] by (auto simp: refs_def)
  then have "pool_inv (s\<lparr>running := remove_nth i (running s)\<rparr>)" using assms by (intro pool_inv_fewer_refs [OF assms]) (simp_all add: pool_inv_def)
  ultimately show ?thesis using True by (auto simp: proc_end_def live_def)
qed (simp add: assms)

lemma pool_inv_step:
  assumes "pool_inv s" "careful e s"
  shows "\<exists>s'. pool_step e s = Inr s' \<and> pool_inv s'"
proof (cases e)
  case (Call k ok handle once)
  then show ?thesis
  proof (cases "objects s k")
    case (Some ob)
    have "pool_inv (snd (pool_call ok handle once k ob s))" if unused: "\<not> handle_used ob handle s"
    proof (cases ok)
      case True
      then obtain p where "callback ob = Some p" using assms(2) Call Some unused by auto
      then show ?thesis by (rule pool_inv_call [OF assms(1) Some _ unused])
    next
      case False
      then show ?thesis using assms(1) by (simp add: pool_call_def work_call_def timer_call_def wait_call_def split: pool_kind.split)
    qed
    then show ?thesis using Call Some assms(1) by (simp add: with_object_def)
  qed (simp add: with_object_def assms(1))
next
  case (Destroy k ans)
  then show ?thesis using assms pool_inv_destroy [OF assms(1)] by (auto simp: with_object_def simp del: careful.simps split: option.splits)
next
  case (Thread_begins i)
  then show ?thesis using pool_inv_begins [OF assms(1)] by blast
next
  case (Thread_ends i)
  then show ?thesis using pool_inv_ends [OF assms(1)] by blast
qed (use assms(1) in \<open>simp_all add: with_object_def pool_inv_new pool_inv_call_handler pool_inv_cancel pool_inv_change pool_inv_fires split: option.split\<close>)

lemma careful_run_safe:
  "pool_inv s \<Longrightarrow> careful_run es s \<Longrightarrow> \<exists>s'. foldR pool_step es s = Inr s' \<and> pool_inv s'"
proof (induction es arbitrary: s)
  case (Cons e es)
  obtain s1 where "pool_step e s = Inr s1" "pool_inv s1" using pool_inv_step Cons(2,3) by fastforce
  then show ?case using Cons by simp
qed simp

section \<open>The discipline is needed\<close>

text \<open>A pointer the system holds behind which there is nothing any more: the system alone, without another call of the program, comes to use it.\<close>

lemma dangling_faults:
  assumes "r \<in> refs s" "Option.bind (fst r) (callbacks s) = None" "r \<in> set (running s) \<Longrightarrow> snd r \<noteq> None"
    and "distinct (map fst (timers s))" "distinct (map fst (waits s))"
  shows "\<exists>es. list_all by_system es \<and> foldR pool_step es s = Inl Access_violation"
proof -
  consider (queue) f where "(r, f) \<in> set (queued s)" | (running) "r \<in> set (running s)"
    | (timer) h once where "(h, r, once) \<in> set (timers s)" | (wait) h once where "(h, r, once) \<in> set (waits s)"
    using assms(1) unfolding refs_def by auto
  then show ?thesis
  proof cases
    case queue
    then obtain i where "i < length (queued s)" "queued s ! i = (r, f)" by (auto simp: in_set_conv_nth)
    then show ?thesis using assms(2) by (intro exI [of _ "[Thread_begins i]"]) (simp add: proc_begin_def)
  next
    case running
    then obtain i where "i < length (running s)" "running s ! i = r" by (auto simp: in_set_conv_nth)
    then show ?thesis using assms(2,3) running by (intro exI [of _ "[Thread_ends i]"]) (auto simp: proc_end_def)
  next
    case timer
    then have "map_of (timers s) h = Some (r, once)" using assms(4) by simp
    then show ?thesis using assms(2)
      by (intro exI [of _ "[Timer_fires h, Thread_begins (length (queued s))]"]) (simp add: timer_fires_def proc_begin_def nth_append)
  next
    case wait
    then have "map_of (waits s) h = Some (r, once)" using assms(5) by simp
    then show ?thesis using assms(2)
      by (intro exI [of _ "[Wait_fires h False, Thread_begins (length (queued s))]"]) (simp add: wait_fires_def proc_begin_def nth_append)
  qed
qed

lemma careless_call:
  assumes "pool_inv s" "callback ob = None" "\<not> handle_used ob handle s"
  shows "\<exists>es. list_all by_system es \<and> foldR pool_step es (snd (pool_call True handle once k ob s)) = Inl Access_violation"
proof -
  let ?s = "snd (pool_call True handle once k ob s)"
  have "(None, None) \<in> refs ?s" "running ?s = running s"
    using assms(2) by (cases "kind ob"; simp add: pool_call_def work_call_def timer_call_def wait_call_def ref_of_def refs_def put_object_def)+
  moreover have "distinct (map fst (timers ?s))" "distinct (map fst (waits ?s))" using assms(1,3)
    by (cases "kind ob"; auto simp: pool_call_def work_call_def timer_call_def wait_call_def handle_used_def pool_inv_def)+
  moreover have "(None, None) \<notin> set (running s)" using assms(1) by (auto simp: pool_inv_def owner_inv_def live_def refs_def)
  ultimately show ?thesis using dangling_faults [of "(None, None)" ?s] by auto
qed

lemma careless_destruction:
  assumes "pool_inv s" "objects s k = Some ob" "callback ob = Some p" "Some p \<in> fst ` refs (before_free ans k ob s)"
  shows "\<exists>es. list_all by_system es \<and> foldR pool_step es (pool_destroy ans k ob s) = Inl Access_violation"
proof -
  let ?b = "before_free ans k ob s" and ?s = "pool_destroy ans k ob s"
  have s: "refs ?s = refs ?b" "callbacks ?s p = None" "timers ?s = timers ?b" "waits ?s = waits ?b" "running ?s = running ?b"
    using assms(3) by (simp_all add: pool_destroy_def HandlerDeallocate_def refs_def Let_def)
  obtain r where r: "r \<in> refs ?b" "fst r = Some p" using assms(4) by auto
  have "pool_inv ?b" by (rule before_free(1) [OF assms(1,2)])
  then have "live (callbacks ?b) r" "distinct (map fst (timers ?b))" "distinct (map fst (waits ?b))" using r(1) by (simp_all add: pool_inv_def owner_inv_def)
  then show ?thesis using dangling_faults [of r ?s] r s by (auto simp: live_def)
qed

lemma careless_faults:
  assumes "pool_inv s" "\<not> careful e s"
  shows "\<exists>es. list_all by_system es \<and> foldR pool_step (e # es) s = Inl Access_violation"
proof (cases e)
  case (Call k ok handle once)
  then obtain ob where "objects s k = Some ob" "ok" "\<not> handle_used ob handle s" "callback ob = None"
    using assms(2) by (auto split: option.splits)
  then show ?thesis using Call careless_call [OF assms(1), of ob handle once k] by (simp add: with_object_def)
next
  case (Destroy k ans)
  then obtain ob p where "objects s k = Some ob" "callback ob = Some p" "Some p \<in> fst ` refs (before_free ans k ob s)"
    using assms(2) by (cases "objects s k"; cases "callback (the (objects s k))"; simp)
  then show ?thesis using Destroy careless_destruction [OF assms(1), of k ob p ans] by (simp add: with_object_def)
qed (use assms(2) in simp_all)

text \<open>
  C26. The system's thread pool: any number of work items, timers and waits, any order of the program's calls and of the system's, callbacks that begin and end as
  separate steps on any number of threads, addresses used again after a free. A client that calls only objects with a handler, and destroys an object only when
  everything its calls have started is over, never makes a thread run or go on running a callback that has been freed, and every thread runs the handler that was
  meant, not one that has come to the same address. And the discipline is the weakest one: after the first call or destruction that breaks it, the system alone can come
  to use a callback that is not there.
\<close>

theorem careful_pool_safe:
  assumes "careful_run evs new_pool"
  shows "\<exists>s. pool_run evs = Inr s \<and> (\<forall>(m, h, flag) \<in> set (invoked s). m = Some h) \<and>
    (\<forall>e. \<not> careful e s \<longrightarrow> (\<exists>es. list_all by_system es \<and> pool_run (evs @ e # es) = Inl Access_violation))"
proof -
  have "pool_inv new_pool" by (simp add: pool_inv_def owner_inv_def new_pool_def owned_def refs_def)
  then obtain s where s: "foldR pool_step evs new_pool = Inr s" "pool_inv s" using careful_run_safe assms by blast
  have "\<exists>es. list_all by_system es \<and> pool_run (evs @ e # es) = Inl Access_violation" if "\<not> careful e s" for e
    using careless_faults [OF s(2) that] by (simp add: pool_run_def foldR_append s(1))
  moreover have "\<forall>(m, h, flag) \<in> set (invoked s). m = Some h" using s(2) by (simp add: pool_inv_def)
  ultimately show ?thesis unfolding pool_run_def using s(1) by blast
qed

lemmas pool_eval = pool_run_def new_pool_def with_object_def pool_new_def pool_call_def work_call_def timer_call_def wait_call_def work_call_handler_def
  pool_cancel_def timer_cancel_def wait_cancel_def timer_change_def before_free_def pool_destroy_def proc_begin_def proc_end_def timer_fires_def wait_fires_def
  after_fire_def remove_nth_def handle_used_def ref_of_def HandlerAllocate_def HandlerDeallocate_def put_object_def refs_def Let_def

text \<open>
  A work item and a timer run their callbacks at the same time and are destroyed; a third object takes over an address. Destroyed while its callback runs, it is
  careless, and a fault follows.
\<close>

definition demo_events :: "pool_event list" where
  "demo_events = [New 0 Work_item None 0, Call_handler 0 7 100 True, New 1 Queue_timer (Some 8) 200, Call 1 True 5 False, Timer_fires 5, Thread_begins 1,
     Thread_begins 0, Thread_ends 0, Destroy 1 Cancelled, Thread_ends 0, Destroy 0 Cancelled, New 2 Wait_object (Some 9) 100, Call 2 True 6 True, Wait_fires 6 False,
     Thread_begins 0]"

theorem careful_pool_safe_witness:
  "(\<exists>s. pool_run demo_events = Inr s \<and> (\<forall>(m, h, flag) \<in> set (invoked s). m = Some h) \<and> length (invoked s) = 3) \<and>
   (\<exists>es. list_all by_system es \<and> pool_run (demo_events @ Destroy 2 Cancelled # es) = Inl Access_violation)"
proof -
  have "careful_run demo_events new_pool" by (simp add: demo_events_def pool_eval)
  then obtain s where s: "pool_run demo_events = Inr s" "\<forall>(m, h, flag) \<in> set (invoked s). m = Some h"
      "\<And>e. \<not> careful e s \<Longrightarrow> \<exists>es. list_all by_system es \<and> pool_run (demo_events @ e # es) = Inl Access_violation"
    using careful_pool_safe [of demo_events] by blast
  have "pool_run demo_events = Inr s' \<Longrightarrow> length (invoked s') = 3 \<and> \<not> careful (Destroy 2 Cancelled) s'" for s'
    by (auto simp: demo_events_def pool_eval)
  then show ?thesis using s by blast
qed

text \<open>What the classes do not see to themselves. A work item that is destroyed before it has run leaves a freed callback in the queue, and destroyed while it runs
  one on the stack of a thread; so does a timer, whose destructor cancels without waiting; and a wait stays registered. When the address has been taken again, a thread
  runs the wrong handler.\<close>

lemma early_destruction_faults:
  "pool_run [New 0 Work_item (Some 7) 100, Call 0 True 0 True, Destroy 0 Cancelled, Thread_begins 0] = Inl Access_violation"
  "pool_run [New 0 Work_item (Some 7) 100, Call 0 True 0 True, Thread_begins 0, Destroy 0 Cancelled, Thread_ends 0] = Inl Access_violation"
  "pool_run [New 0 Queue_timer (Some 7) 100, Call 0 True 5 True, Timer_fires 5, Destroy 0 Cancel_pending, Thread_begins 0] = Inl Access_violation"
  "pool_run [New 0 Wait_object (Some 7) 100, Call 0 True 5 True, Destroy 0 Cancelled, Wait_fires 5 False, Thread_begins 0] = Inl Access_violation"
  by (simp_all add: pool_eval)

lemma wrong_handler_runs:
  "\<exists>s. pool_run [New 0 Work_item (Some 7) 100, Call 0 True 0 True, Destroy 0 Cancelled, New 1 Work_item (Some 8) 100, Thread_begins 0] = Inr s \<and>
     invoked s = [(Some 7, 8, False)]"
  by (simp add: pool_eval)

text \<open>A timer called twice keeps the last handle only, and its destructor leaves the first timer running on a freed callback.\<close>

lemma second_timer_lost:
  "pool_run [New 0 Queue_timer (Some 7) 100, Call 0 True 5 False, Call 0 True 6 False, Destroy 0 Cancelled, Timer_fires 5, Thread_begins 0] = Inl Access_violation"
  by (simp add: pool_eval)

text \<open>Of several handlers passed to \<open>call\<close> of one work item only the first is ever run.\<close>

lemma first_handler_only:
  assumes "objects s k = Some ob" "kind ob = Work_item" "callback ob = Some p" "callbacks s p = Some h" "callbacks s q = None"
  shows "foldR pool_step [Call_handler k h' q True, Thread_begins (length (queued s))] s =
    Inr (s\<lparr>running := running s @ [(Some p, Some h)], invoked := invoked s @ [(Some h, h, False)]\<rparr>)"
  using assms by (simp add: pool_eval nth_append)

end
