(* ===== verification/Ser_Safety.thy ===== *)
theory Ser_Safety
  imports Ser_Roundtrip Assoc_Vector
begin

text \<open>
  Deserialisation of bytes nobody vouches for. Whatever the buffer holds, reading a value of a type ends in one of three exceptions or yields a value of
  that type: strings and vectors of whole elements, maps and sets sorted and without duplicates. The order of a container's
  keys is any strict weak order, the contract of \<open>Assoc_Vector\<close>.
\<close>

section \<open>Types that can be read safely\<close>

text \<open>A value of the type takes at least one byte in the buffer. Only \<open>tuple<>\<close>, arrays of length zero and what is built from them alone take none.\<close>

fun occupies :: "ty \<Rightarrow> bool" where
  "occupies (Pod n) = (0 < n)"
| "occupies (Pod_array n N) = (0 < n * N)"
| "occupies (Array t N) = (0 < N \<and> occupies t)"
| "occupies (Pair a b) = (occupies a \<or> occupies b)"
| "occupies (Tuple ts) = list_ex occupies ts"
| "occupies (Shared_ptr t) = occupies t"
| "occupies _ = True"

text \<open>The sizes are those of objects of the target, there is no \<open>char[N]\<close> in it, and the elements of containers take room.\<close>

fun readable :: "ty \<Rightarrow> bool" where
  "readable (Pod n) = (n < 2 ^ 31)"
| "readable (Basic_string w) = (0 < w \<and> w < 2 ^ 31)"
| "readable (Char_array w N) = False"
| "readable (Pod_array n N) = (n * N < 2 ^ 31)"
| "readable (Array t N) = readable t"
| "readable (Pair a b) = (readable a \<and> readable b)"
| "readable (Tuple ts) = list_all readable ts"
| "readable (Vector t) = (readable t \<and> occupies t)"
| "readable (List t) = (readable t \<and> occupies t)"
| "readable (Deque t) = (readable t \<and> occupies t)"
| "readable (Map k d) = (readable k \<and> readable d \<and> (occupies k \<or> occupies d))"
| "readable (Multimap k d) = (readable k \<and> readable d \<and> (occupies k \<or> occupies d))"
| "readable (Set t) = (readable t \<and> occupies t)"
| "readable (Multiset t) = (readable t \<and> occupies t)"
| "readable (Shared_ptr t) = readable t"

section \<open>Safe readers\<close>

text \<open>\<open>outcome_ok k P s r\<close>: reading from \<open>s\<close> has thrown one of the three exceptions, or it has consumed at least \<open>k\<close> bytes and left the stream well-formed and the
  buffer as it was, and its result has the property \<open>P\<close>. A reader is safe if this holds on every well-formed stream.\<close>

definition outcome_ok :: "nat \<Rightarrow> ('v \<Rightarrow> bool) \<Rightarrow> serialize_t \<Rightarrow> ('v \<times> serialize_t) result \<Rightarrow> bool" where
  "outcome_ok k P s r \<longleftrightarrow> (case r of Inl e \<Rightarrow> e \<in> {Out_of_range, Length_error, Bad_alloc}
     | Inr (v, s') \<Rightarrow> P v \<and> wf_stream s' \<and> buffer s' = buffer s \<and> in_pos s' = in_pos s \<and> unat (out_pos s) + k \<le> unat (out_pos s'))"

definition safe :: "nat \<Rightarrow> (serialize_t \<Rightarrow> ('v \<times> serialize_t) result) \<Rightarrow> ('v \<Rightarrow> bool) \<Rightarrow> bool" where
  "safe k f P \<longleftrightarrow> (\<forall>s. wf_stream s \<longrightarrow> outcome_ok k P s (f s))"

lemma outcome_ok_Inl [simp]: "outcome_ok k P s (Inl e) \<longleftrightarrow> e \<in> {Out_of_range, Length_error, Bad_alloc}"
  by (simp add: outcome_ok_def)

lemma outcome_ok_Inr [simp]: "outcome_ok k P s (Inr (v, s')) \<longleftrightarrow>
    P v \<and> wf_stream s' \<and> buffer s' = buffer s \<and> in_pos s' = in_pos s \<and> unat (out_pos s) + k \<le> unat (out_pos s')"
  by (simp add: outcome_ok_def)

lemma safeI: "(\<And>s. wf_stream s \<Longrightarrow> outcome_ok k P s (f s)) \<Longrightarrow> safe k f P"
  by (simp add: safe_def)

lemma safe_cases:
  assumes "safe k f P" "wf_stream s"
  obtains e where "f s = Inl e" "e \<in> {Out_of_range, Length_error, Bad_alloc}"
  | v s' where "f s = Inr (v, s')" "P v" "wf_stream s'" "buffer s' = buffer s" "in_pos s' = in_pos s" "unat (out_pos s) + k \<le> unat (out_pos s')"
proof (cases "f s")
  case (Inl e)
  then show ?thesis using assms that(1) unfolding safe_def by (metis outcome_ok_Inl)
next
  case (Inr p)
  then show ?thesis using assms that(2) unfolding safe_def by (metis outcome_ok_Inr surj_pair)
qed

lemma safe_weaken:
  assumes "safe k f P" "l \<le> k" "\<And>v. P v \<Longrightarrow> Q v"
  shows "safe l f Q"
proof (rule safeI)
  fix s assume "wf_stream s"
  with assms(1) show "outcome_ok l Q s (f s)" by (cases rule: safe_cases) (use assms(2,3) in auto)
qed

text \<open>What has been consumed was in the buffer.\<close>

lemma safe_bound:
  assumes "safe k f P"
  shows "safe k f (\<lambda>v. P v \<and> k < 2 ^ 31)"
proof (rule safeI)
  fix s assume "wf_stream s"
  with assms show "outcome_ok k (\<lambda>v. P v \<and> k < 2 ^ 31) s (f s)"
    by (cases rule: safe_cases) (auto simp: wf_stream_def)
qed

lemma safe_return: "P v \<Longrightarrow> safe 0 (\<lambda>s. Inr (v, s)) P"
  by (simp add: safe_def)

lemma safe_bind:
  assumes f: "safe k f P" and g: "\<And>v. P v \<Longrightarrow> safe l (g v) Q"
  shows "safe (k + l) (\<lambda>s. bindR (f s) (\<lambda>(v, s1). g v s1)) Q"
proof (rule safeI)
  fix s assume "wf_stream s"
  with f show "outcome_ok (k + l) Q s (bindR (f s) (\<lambda>(v, s1). g v s1))"
  proof (cases rule: safe_cases)
    case (2 v s1)
    from g [OF 2(2)] 2(3) show ?thesis by (cases rule: safe_cases) (use 2 in auto)
  qed auto
qed

lemma safe_map:
  assumes "safe k f P" "\<And>v. P v \<Longrightarrow> Q (h v)"
  shows "safe k (\<lambda>s. bindR (f s) (\<lambda>(v, s1). Inr (h v, s1))) Q"
  using safe_bind [OF assms(1), where l = 0 and g = "\<lambda>v s. Inr (h v, s)" and Q = Q] assms(2) by (simp add: safe_return)

section \<open>The primitive readers\<close>

lemma safe_fetch: "safe n (fetch n) (\<lambda>bs. length bs = n)"
proof (rule safeI)
  fix s assume wf: "wf_stream s"
  show "outcome_ok n (\<lambda>bs. length bs = n) s (fetch n s)"
  proof (cases "unat (out_pos s) + n \<le> unat (buf_len (buffer s))")
    case True
    then obtain bs where "fetch n s = Inr (bs, s\<lparr>out_pos := out_pos s + of_nat n\<rparr>)" by (simp add: fetch_def)
    with wf_stream_fetch [OF wf this] show ?thesis by simp
  qed (simp add: fetch_refuses)
qed

lemma safe_pop: "n < 2 ^ 31 \<Longrightarrow> safe n (binary_out_pop (of_nat n)) (\<lambda>bs. length bs = n)"
  using safe_fetch [of n] binary_out_pop_fetch [of _ "of_nat n"] by (simp add: safe_def unat_of_nat_u32)

lemma safe_pop_length: "safe 4 pop_length (\<lambda>n. True)"
  using safe_map [OF safe_pop [of 4], of "\<lambda>n. True" rep_u32] by (simp add: pop_length_def [abs_def])

lemma safe_pop_pointer:
  assumes "length dst = unat (w * n)" "length dst < 2 ^ 31"
  shows "safe (length dst) (binary_out_pop_pointer w dst n) (\<lambda>bs. length bs = length dst)"
proof (rule safeI)
  fix s assume wf: "wf_stream s"
  have "binary_out_pop_pointer w dst n s = fetch (length dst) s"
    using binary_out_pop_pointer_fetch [OF wf, of w n dst] fetch_overwrite [OF wf, of dst] assms by simp
  then show "outcome_ok (length dst) (\<lambda>bs. length bs = length dst) s (binary_out_pop_pointer w dst n s)"
    using safe_fetch wf by (auto simp: safe_def)
qed

lemma safe_pop_counted:
  assumes "0 < w" "w < 2 ^ 31" "spare \<le> 1"
  shows "safe 4 (pop_counted spare w old) (\<lambda>v. v = VRaw (raw_of v) \<and> w dvd length (raw_of v) \<and> length (raw_of v) < 2 ^ 31)"
proof -
  let ?P = "\<lambda>v. v = VRaw (raw_of v) \<and> w dvd length (raw_of v) \<and> length (raw_of v) < 2 ^ 31"
  let ?read = "\<lambda>n s1. bindR (resize spare w (unat n) old) (\<lambda>dst.
    bindR (binary_out_pop_pointer (of_nat w) dst n s1) (\<lambda>(bs, s2). Inr (VRaw bs, s2)))"
  have "safe 0 (?read n) ?P" for n
  proof (cases "w * unat n < 2 ^ 31")
    case True
    then obtain dst where dst: "resize spare w (unat n) old = Inr dst" "length dst = w * unat n" using resize_fits assms(2,3) by blast
    have "unat (of_nat w * n) = w * unat n" using True assms(2)
      by (simp add: unat_mult_lem [THEN iffD1] unat_of_nat_u32 unat_word_ariths)
    then have "safe (length dst) (binary_out_pop_pointer (of_nat w) dst n) (\<lambda>bs. length bs = length dst)"
      using dst(2) True by (intro safe_pop_pointer) simp_all
    then have "safe (length dst) (\<lambda>s1. bindR (binary_out_pop_pointer (of_nat w) dst n s1) (\<lambda>(bs, s2). Inr (VRaw bs, s2))) ?P"
      using dst(2) True by (intro safe_map [where P = "\<lambda>bs. length bs = length dst"]) auto
    then show ?thesis using dst(1) by (auto elim: safe_weaken)
  next
    case False
    then show ?thesis by (simp add: resize_def grow_def safe_def)
  qed
  then show ?thesis using safe_bind [OF safe_pop_length, of 0 ?read ?P] by (simp add: pop_counted_def [abs_def])
qed

section \<open>Loops and containers\<close>

text \<open>An invariant indexed by the number of elements read carries through the loop.\<close>

lemma safe_pop_loop:
  assumes "safe 1 pe P" "\<And>m e c. P e \<Longrightarrow> I m c \<Longrightarrow> I (Suc m) (add e c)" "I m c"
  shows "safe n (pop_loop pe add n c) (I (m + n))"
  using assms(3)
proof (induction n arbitrary: m c)
  case 0
  have "pop_loop pe add 0 c = (\<lambda>s. Inr (c, s))" by (rule ext) simp
  then show ?case using 0 by (simp add: safe_return)
next
  case (Suc n)
  have "pop_loop pe add (Suc n) c = (\<lambda>s. bindR (pe s) (\<lambda>(e, s1). pop_loop pe add n (add e c) s1))" by (rule ext) simp
  moreover have "safe n (pop_loop pe add n (add e c)) (I (m + Suc n))" if "P e" for e
    using Suc.IH [of "Suc m" "add e c"] assms(2) [OF that Suc.prems] by simp
  ultimately show ?case using safe_bind [OF assms(1), of n "\<lambda>e. pop_loop pe add n (add e c)"] by simp
qed

text \<open>Reserving throws, or the number of elements has the property \<open>B\<close>.\<close>

definition reserves :: "(nat \<Rightarrow> unit result) \<Rightarrow> (nat \<Rightarrow> bool) \<Rightarrow> bool" where
  "reserves res B \<longleftrightarrow> (\<forall>n. case res n of Inl e \<Rightarrow> e \<in> {Out_of_range, Length_error, Bad_alloc} | Inr _ \<Rightarrow> B n)"

lemma reserves_none: "reserves reserve_none (\<lambda>n. True)"
  by (simp add: reserves_def reserve_none_def)

lemma reserves_vector: "reserves (reserve_vector w) (\<lambda>n. w * n < 2 ^ 31)"
  by (simp add: reserves_def reserve_vector_def grow_def)

lemma safe_reserve:
  assumes "reserves res B" "B n \<Longrightarrow> safe k f P"
  shows "safe k (\<lambda>s. bindR (res n) (\<lambda>_. f s)) P"
  using assms by (cases "res n") (auto simp: reserves_def safe_def split: sum.splits)

lemma safe_counted_loop:
  assumes "safe 1 pe P" "\<And>m e c. P e \<Longrightarrow> I m c \<Longrightarrow> I (Suc m) (add e c)" "I 0 c"
    and "\<And>n c. n < 2 ^ 31 \<Longrightarrow> B n \<Longrightarrow> I n c \<Longrightarrow> Q (h c)" "reserves res B"
  shows "safe 4 (\<lambda>s. bindR (pop_length s) (\<lambda>(n, s1). bindR (res (unat n)) (\<lambda>_. bindR (pop_loop pe add (unat n) c s1) (\<lambda>(c, s2). Inr (h c, s2))))) Q"
proof -
  have "safe (unat n) (pop_loop pe add (unat n) c) (\<lambda>c. I (unat n) c \<and> unat n < 2 ^ 31)" for n :: u32
    using safe_bound [OF safe_pop_loop [where I = I and m = 0 and n = "unat n" and add = add, OF assms(1-3)]] by simp
  then have "safe (unat n) (\<lambda>s1. bindR (pop_loop pe add (unat n) c s1) (\<lambda>(c, s2). Inr (h c, s2))) Q" if "B (unat n)" for n :: u32
    by (rule safe_map) (use that assms(4) in blast)
  then have "safe 0 (\<lambda>s1. bindR (pop_loop pe add (unat n) c s1) (\<lambda>(c, s2). Inr (h c, s2))) Q" if "B (unat n)" for n :: u32
    by (rule safe_weaken) (use that in simp_all)
  with assms(5) have "safe 0 (\<lambda>s1. bindR (res (unat n)) (\<lambda>_. bindR (pop_loop pe add (unat n) c s1) (\<lambda>(c, s2). Inr (h c, s2)))) Q" for n :: u32
    by (rule safe_reserve)
  with safe_bind [OF safe_pop_length, of 0 "\<lambda>n s1. bindR (res (unat n)) (\<lambda>_. bindR (pop_loop pe add (unat n) c s1) (\<lambda>(c, s2). Inr (h c, s2)))" Q]
  show ?thesis by simp
qed

lemma safe_pop_each:
  assumes "safe k (pe d) P"
  shows "safe (N * k) (pop_each pe (replicate N d)) (\<lambda>vs. length vs = N \<and> (\<forall>x \<in> set vs. P x))"
proof (induction N)
  case 0
  have "pop_each pe (replicate 0 d) = (\<lambda>s. Inr ([], s))" by (rule ext) simp
  then show ?case by (simp add: safe_return)
next
  case (Suc N)
  have "pop_each pe (replicate (Suc N) d) =
      (\<lambda>s. bindR (pe d s) (\<lambda>(y, s1). bindR (pop_each pe (replicate N d) s1) (\<lambda>(ys, s2). Inr (y # ys, s2))))"
    by (rule ext) simp
  moreover have "safe (N * k) (\<lambda>s1. bindR (pop_each pe (replicate N d) s1) (\<lambda>(ys, s2). Inr (y # ys, s2)))
      (\<lambda>vs. length vs = Suc N \<and> (\<forall>x \<in> set vs. P x))" if "P y" for y
    by (rule safe_map [OF Suc.IH]) (use that in auto)
  ultimately show ?case
    using safe_bind [OF assms, where l = "N * k" and g = "\<lambda>y s1. bindR (pop_each pe (replicate N d) s1) (\<lambda>(ys, s2). Inr (y # ys, s2))"]
    by simp
qed

text \<open>Insertion into a sorted sequence, for a strict weak order on the keys.\<close>

lemma set_insert_unique: "set (insert_unique lt key x xs) \<subseteq> insert x (set xs)"
  by (induction xs) auto

lemma set_insert_equal: "set (insert_equal lt key x xs) = insert x (set xs)"
  by (induction xs) auto

lemma length_insert_unique: "length (insert_unique lt key x xs) \<le> Suc (length xs)"
  by (induction xs) auto

lemma length_insert_equal: "length (insert_equal lt key x xs) = Suc (length xs)"
  by (induction xs) auto

context strict_weak_order
begin

lemma sorted_insert_unique:
  assumes "sorted_wrt (\<lambda>p q. lt (key p) (key q) \<and> \<not> lt (key q) (key p)) xs"
  shows "sorted_wrt (\<lambda>p q. lt (key p) (key q) \<and> \<not> lt (key q) (key p)) (insert_unique lt key x xs)"
  using assms
proof (induction xs)
  case (Cons y ys)
  then have y: "\<forall>z \<in> set ys. lt (key y) (key z) \<and> \<not> lt (key z) (key y)" by simp
  consider "lt (key x) (key y)" | "\<not> lt (key x) (key y)" "lt (key y) (key x)" | "\<not> lt (key x) (key y)" "\<not> lt (key y) (key x)" by blast
  then show ?case
  proof cases
    case 1
    have "lt (key x) (key z)" if "z \<in> set ys" for z using that 1 y less_trans by blast
    then show ?thesis using 1 Cons.prems asym by simp
  next
    case 2
    have "lt (key y) (key z)" if "z \<in> set (insert_unique lt key x ys)" for z
      using that 2(2) y set_insert_unique [of lt key x ys] by blast
    then show ?thesis using 2 Cons asym by simp
  next
    case 3
    then show ?thesis using Cons.prems by simp
  qed
qed simp

lemma sorted_insert_equal:
  assumes "sorted_wrt (\<lambda>p q. \<not> lt (key q) (key p)) xs"
  shows "sorted_wrt (\<lambda>p q. \<not> lt (key q) (key p)) (insert_equal lt key x xs)"
  using assms
proof (induction xs)
  case (Cons y ys)
  then have y: "\<forall>z \<in> set ys. \<not> lt (key z) (key y)" by simp
  then have "\<forall>z \<in> insert y (set ys). \<not> lt (key z) (key x)" if "lt (key x) (key y)"
    using that asym less_trans by blast
  then show ?case using Cons y by (simp add: set_insert_equal)
qed simp

end

section \<open>Every readable type\<close>

abbreviation room :: "ty \<Rightarrow> nat" where
  "room t \<equiv> if occupies t then 1 else 0"

lemma safe_pop_tuple:
  assumes "\<forall>t \<in> set ts. safe (room t) (pop sz lt t (default_val t)) (has_ty sz lt t)"
  shows "safe (sum_list (map room ts)) (pop_tuple sz lt ts (map default_val ts)) (has_ty_tuple sz lt ts)"
  using assms
proof (induction ts)
  case Nil
  have "pop_tuple sz lt [] [] = (\<lambda>s. Inr ([], s))" by (rule ext) simp
  then show ?case by (simp add: safe_return)
next
  case (Cons t ts)
  let ?rest = "\<lambda>y s1. bindR (pop_tuple sz lt ts (map default_val ts) s1) (\<lambda>(ys, s2). Inr (y # ys, s2))"
  have "pop_tuple sz lt (t # ts) (map default_val (t # ts)) = (\<lambda>s. bindR (pop sz lt t (default_val t) s) (\<lambda>(y, s1). ?rest y s1))"
    by (rule ext) simp
  moreover have "safe (sum_list (map room ts)) (?rest y) (has_ty_tuple sz lt (t # ts))" if "has_ty sz lt t y" for y
    by (rule safe_map [where P = "has_ty_tuple sz lt ts"]) (use Cons that in auto)
  moreover have "safe (room t) (pop sz lt t (default_val t)) (has_ty sz lt t)" using Cons.prems by simp
  ultimately have "safe (room t + sum_list (map room ts)) (pop_tuple sz lt (t # ts) (map default_val (t # ts))) (has_ty_tuple sz lt (t # ts))"
    by (simp only: safe_bind)
  then show ?case by (simp only: list.map sum_list.Cons)
qed

lemma room_tuple: "room (Tuple ts) \<le> sum_list (map room ts)"
  by (induction ts) auto

text \<open>Sequences and associative containers, by the function that adds an element.\<close>

lemma safe_pop_seq:
  assumes "safe 1 pe (has_ty sz lt t)" "\<And>x xs. R xs \<Longrightarrow> R (add x xs)" "R []"
    and "\<And>x xs. set (add x xs) \<subseteq> insert x (set xs)" "\<And>x xs. length (add x xs) \<le> Suc (length xs)" "reserves res (\<lambda>n. b * n < 2 ^ 31)"
  shows "safe 4 (pop_seq res pe add []) (\<lambda>v. v = VSeq (elems_of v) \<and> length (elems_of v) < 2 ^ 31 \<and> b * length (elems_of v) < 2 ^ 31 \<and>
    (\<forall>x \<in> set (elems_of v). has_ty sz lt t x) \<and> R (elems_of v))"
  unfolding pop_seq_def [abs_def]
proof (rule safe_counted_loop [where I = "\<lambda>n xs. length xs \<le> n \<and> (\<forall>x \<in> set xs. has_ty sz lt t x) \<and> R xs" and B = "\<lambda>n. b * n < 2 ^ 31", OF assms(1)])
  fix n c assume n: "n < 2 ^ 31" "b * n < 2 ^ 31" and I: "length c \<le> n \<and> (\<forall>x \<in> set c. has_ty sz lt t x) \<and> R c"
  then have "b * length c \<le> b * n" by simp
  then have "b * length c < 2 ^ 31" using n(2) by (rule le_less_trans)
  then show "VSeq c = VSeq (elems_of (VSeq c)) \<and> length (elems_of (VSeq c)) < 2 ^ 31 \<and> b * length (elems_of (VSeq c)) < 2 ^ 31 \<and>
      (\<forall>x \<in> set (elems_of (VSeq c)). has_ty sz lt t x) \<and> R (elems_of (VSeq c))" using n(1) I by simp
next
  fix m e xs assume "has_ty sz lt t e" "length xs \<le> m \<and> (\<forall>x \<in> set xs. has_ty sz lt t x) \<and> R xs"
  then show "length (add e xs) \<le> Suc m \<and> (\<forall>x \<in> set (add e xs). has_ty sz lt t x) \<and> R (add e xs)"
    using assms(2) assms(4,5) [of e xs] by auto
qed (use assms(3,6) in auto)

lemma pop_entries_reserve:
  "pop_entries pk pd add old = (\<lambda>s. bindR (pop_length s) (\<lambda>(n, s1). bindR (reserve_none (unat n)) (\<lambda>_.
    bindR (pop_loop (\<lambda>s2. bindR (pk s2) (\<lambda>(k, s3). bindR (pd s3) (\<lambda>(d, s4). Inr ((k, d), s4)))) add (unat n) old s1) (\<lambda>(ps, s2). Inr (VAssoc ps, s2)))))"
  by (rule ext) (simp add: pop_entries_def reserve_none_def)

lemma safe_pop_entries:
  assumes "safe (room k) pk (has_ty sz lt k)" "safe (room d) pd (has_ty sz lt d)" "occupies k \<or> occupies d"
    and "\<And>x xs. R xs \<Longrightarrow> R (add x xs)" "R []" "\<And>x xs. set (add x xs) \<subseteq> insert x (set xs)" "\<And>x xs. length (add x xs) \<le> Suc (length xs)"
  shows "safe 4 (pop_entries pk pd add []) (\<lambda>v. v = VAssoc (entries_of v) \<and> length (entries_of v) < 2 ^ 31 \<and>
    (\<forall>p \<in> set (entries_of v). has_ty sz lt k (fst p) \<and> has_ty sz lt d (snd p)) \<and> R (entries_of v))"
  unfolding pop_entries_reserve
proof (rule safe_counted_loop [where res = reserve_none and B = "\<lambda>n. True" and P = "\<lambda>p. has_ty sz lt k (fst p) \<and> has_ty sz lt d (snd p)" and
      I = "\<lambda>n xs. length xs \<le> n \<and> (\<forall>p \<in> set xs. has_ty sz lt k (fst p) \<and> has_ty sz lt d (snd p)) \<and> R xs"])
  let ?P = "\<lambda>p. has_ty sz lt k (fst p) \<and> has_ty sz lt d (snd p)"
  have "safe (room d) (\<lambda>s3. bindR (pd s3) (\<lambda>(y, s4). Inr ((x, y), s4))) ?P" if "has_ty sz lt k x" for x
    by (rule safe_map [OF assms(2)]) (use that in simp)
  then have "safe (room k + room d) (\<lambda>s2. bindR (pk s2) (\<lambda>(x, s3). bindR (pd s3) (\<lambda>(y, s4). Inr ((x, y), s4)))) ?P"
    using safe_bind [OF assms(1), where g = "\<lambda>x s3. bindR (pd s3) (\<lambda>(y, s4). Inr ((x, y), s4))"] by simp
  then show "safe 1 (\<lambda>s2. bindR (pk s2) (\<lambda>(x, s3). bindR (pd s3) (\<lambda>(y, s4). Inr ((x, y), s4)))) ?P"
    by (rule safe_weaken) (use assms(3) in auto)
next
  fix m e xs assume "has_ty sz lt k (fst e) \<and> has_ty sz lt d (snd e)" "length xs \<le> m \<and> (\<forall>p \<in> set xs. has_ty sz lt k (fst p) \<and> has_ty sz lt d (snd p)) \<and> R xs"
  then show "length (add e xs) \<le> Suc m \<and> (\<forall>p \<in> set (add e xs). has_ty sz lt k (fst p) \<and> has_ty sz lt d (snd p)) \<and> R (add e xs)"
    using assms(4) assms(6,7) [of e xs] by auto
qed (use assms(5) in \<open>auto simp: reserves_none\<close>)

lemma safe_list_pop:
  assumes "safe (room t) pe (has_ty sz lt t)" "occupies t" "reserves res (\<lambda>n. b * n < 2 ^ 31)"
  shows "safe 4 (pop_seq res pe (\<lambda>x xs. xs @ [x]) []) (\<lambda>v. v = VSeq (elems_of v) \<and> length (elems_of v) < 2 ^ 31 \<and> b * length (elems_of v) < 2 ^ 31 \<and>
    (\<forall>x \<in> set (elems_of v). has_ty sz lt t x))"
  by (rule safe_weaken [OF safe_pop_seq [where R = "\<lambda>xs. True" and sz = sz and lt = lt and t = t and b = b]]) (use assms in auto)

text \<open>The contract of one type, and that each constructor keeps it.\<close>

definition pops :: "(ty \<Rightarrow> nat) \<Rightarrow> (ty \<Rightarrow> val \<Rightarrow> val \<Rightarrow> bool) \<Rightarrow> ty \<Rightarrow> bool" where
  "pops sz lt t \<longleftrightarrow> safe (room t) (pop sz lt t (default_val t)) (has_ty sz lt t)"

lemma popsI: "safe k (pop sz lt t (default_val t)) (has_ty sz lt t) \<Longrightarrow> room t \<le> k \<Longrightarrow> pops sz lt t"
  unfolding pops_def by (rule safe_weaken)

lemmas popped = pop.simps [abs_def] has_ty.simps [abs_def]

lemma pops_Pod: "n < 2 ^ 31 \<Longrightarrow> pops sz lt (Pod n)"
  using safe_map [OF safe_pop [of n], of "has_ty sz lt (Pod n)" VRaw]
  by (intro popsI [of n]) (simp_all add: pop.simps [abs_def])

lemma pops_counted:
  assumes "0 < w" "w < 2 ^ 31"
  shows "pops sz lt (Basic_string w)" "pops sz lt (Vector (Pod w))"
  using safe_pop_counted [OF assms, of 1 "[]"] safe_pop_counted [OF assms, of 0 "[]"] assms
  by (simp_all add: popsI [of 4] popped)

lemma pops_Pod_array:
  assumes "n * N < 2 ^ 31"
  shows "pops sz lt (Pod_array n N)"
proof -
  have len: "unat (of_nat n * of_nat N :: u32) = n * N" using assms by (simp flip: of_nat_mult add: unat_of_nat_u32)
  have "safe (n * N) (binary_out_pop_array (of_nat n) (of_nat N) (replicate (n * N) 0)) (\<lambda>bs. length bs = n * N)"
    using safe_pop_pointer [of "replicate (n * N) 0" "of_nat n" "of_nat N"] len assms by (simp add: binary_out_pop_array_pointer [abs_def])
  then have "safe (n * N) (\<lambda>s. bindR (binary_out_pop_array (of_nat n) (of_nat N) (replicate (n * N) 0) s) (\<lambda>(bs, s1). Inr (VRaw bs, s1)))
      (has_ty sz lt (Pod_array n N))" by (rule safe_map) (use assms in simp)
  then show ?thesis by (intro popsI [of "n * N"]) (auto simp: pop.simps [abs_def] Suc_le_eq)
qed

lemma pops_Array:
  assumes "pops sz lt t"
  shows "pops sz lt (Array t N)"
proof -
  have "safe (N * room t) (pop_each (pop sz lt t) (replicate N (default_val t))) (\<lambda>vs. length vs = N \<and> (\<forall>x \<in> set vs. has_ty sz lt t x))"
    using assms unfolding pops_def by (rule safe_pop_each)
  then have "safe (N * room t) (\<lambda>s. bindR (pop_each (pop sz lt t) (replicate N (default_val t)) s) (\<lambda>(vs, s1). Inr (VSeq vs, s1)))
      (has_ty sz lt (Array t N))" by (rule safe_map) simp
  then show ?thesis by (intro popsI [of "N * room t"]) (auto simp: pop.simps [abs_def])
qed

lemma pops_Pair:
  assumes "pops sz lt a" "pops sz lt b"
  shows "pops sz lt (Pair a b)"
proof -
  let ?rest = "\<lambda>x s1. bindR (pop sz lt b (default_val b) s1) (\<lambda>(y, s2). Inr (VPair x y, s2))"
  have "safe (room b) (?rest x) (has_ty sz lt (Pair a b))" if "has_ty sz lt a x" for x
    using assms(2) unfolding pops_def by (rule safe_map) (use that in simp)
  with assms(1) have "safe (room a + room b) (\<lambda>s. bindR (pop sz lt a (default_val a) s) (\<lambda>(x, s1). ?rest x s1)) (has_ty sz lt (Pair a b))"
    unfolding pops_def by (rule safe_bind)
  then show ?thesis by (intro popsI [of "room a + room b"]) (simp_all add: pop.simps [abs_def])
qed

lemma pops_Tuple:
  assumes "\<forall>t \<in> set ts. pops sz lt t"
  shows "pops sz lt (Tuple ts)"
proof -
  have "safe (sum_list (map room ts)) (pop_tuple sz lt ts (map default_val ts)) (has_ty_tuple sz lt ts)"
    using assms unfolding pops_def by (rule safe_pop_tuple)
  then have "safe (sum_list (map room ts)) (\<lambda>s. bindR (pop_tuple sz lt ts (map default_val ts) s) (\<lambda>(vs, s1). Inr (VTuple vs, s1)))
      (has_ty sz lt (Tuple ts))" by (rule safe_map) simp
  then show ?thesis using room_tuple [of ts] by (intro popsI [of "sum_list (map room ts)"]) (simp_all add: pop.simps [abs_def])
qed

lemma pops_Shared_ptr:
  assumes "pops sz lt t"
  shows "pops sz lt (Shared_ptr t)"
proof -
  have "safe (room t) (\<lambda>s. bindR (pop sz lt t (default_val t) s) (\<lambda>(x, s1). Inr (VShared (Some x), s1))) (has_ty sz lt (Shared_ptr t))"
    using assms unfolding pops_def by (rule safe_map) simp
  then show ?thesis by (simp add: pops_def pop.simps [abs_def])
qed

lemma pops_sequence:
  assumes "pops sz lt t" "occupies t"
  shows "pops sz lt (List t)" "pops sz lt (Deque t)" "\<not> is_pod t \<Longrightarrow> pops sz lt (Vector t)"
  using safe_list_pop [of t "pop sz lt t (default_val t)" sz lt reserve_none 0] safe_list_pop [of t "pop sz lt t (default_val t)" sz lt "reserve_vector (sz t)" "sz t"]
    assms reserves_none reserves_vector
  by (simp_all add: popsI [of 4] popped pops_def [of sz lt t])

lemma pops_Vector: "pops sz lt t \<Longrightarrow> occupies t \<Longrightarrow> readable t \<Longrightarrow> pops sz lt (Vector t)"
  by (cases "is_pod t"; cases t) (auto simp: pops_sequence(3) intro: pops_counted(2))

lemma pops_sorted:
  assumes "strict_weak_order (lt t)" "pops sz lt t" "occupies t"
  shows "pops sz lt (Set t)" "pops sz lt (Multiset t)"
proof -
  note pop_t = assms(2) [unfolded pops_def, simplified assms(3) if_True]
  show "pops sz lt (Set t)"
    using safe_pop_seq [OF pop_t, of "sorted_wrt (\<lambda>x y. lt t x y \<and> \<not> lt t y x)" "insert_unique (lt t) id" reserve_none 0]
      strict_weak_order.sorted_insert_unique [OF assms(1), of id]
    by (intro popsI [of 4]) (simp_all add: popped set_insert_unique length_insert_unique reserves_none)
  show "pops sz lt (Multiset t)"
    using safe_pop_seq [OF pop_t, of "sorted_wrt (\<lambda>x y. \<not> lt t y x)" "insert_equal (lt t) id" reserve_none 0]
      strict_weak_order.sorted_insert_equal [OF assms(1), of id]
    by (intro popsI [of 4]) (simp_all add: popped set_insert_equal length_insert_equal reserves_none)
qed

lemma pops_assoc:
  assumes "strict_weak_order (lt k)" "pops sz lt k" "pops sz lt d" "occupies k \<or> occupies d"
  shows "pops sz lt (Map k d)" "pops sz lt (Multimap k d)"
proof -
  note entries = safe_pop_entries [OF assms(2,3) [unfolded pops_def] assms(4)]
  show "pops sz lt (Map k d)"
    using entries [where R = "sorted_wrt (\<lambda>p q. lt k (fst p) (fst q) \<and> \<not> lt k (fst q) (fst p))" and add = "insert_unique (lt k) fst",
        OF strict_weak_order.sorted_insert_unique [OF assms(1), where key = fst]]
    by (intro popsI [of 4]) (simp_all add: popped set_insert_unique length_insert_unique)
  show "pops sz lt (Multimap k d)"
    using entries [where R = "sorted_wrt (\<lambda>p q. \<not> lt k (fst q) (fst p))" and add = "insert_equal (lt k) fst",
        OF strict_weak_order.sorted_insert_equal [OF assms(1), where key = fst]]
    by (intro popsI [of 4]) (simp_all add: popped set_insert_equal length_insert_equal)
qed

lemma readable_pops:
  assumes "\<And>t. strict_weak_order (lt t)"
  shows "readable t \<Longrightarrow> pops sz lt t"
  by (induction t rule: readable.induct)
    (simp_all add: pops_Pod pops_counted(1) pops_Pod_array pops_Array pops_Pair pops_Tuple pops_Vector pops_sequence pops_assoc pops_sorted
      pops_Shared_ptr assms list_all_iff)

section \<open>Properties\<close>


text \<open>
  A count that nobody could have written: for a vector of strings \<open>reserve\<close> throws before any element is read, while a list is read until the buffer ends.
\<close>

lemma hostile_count:
  assumes "pop_length s = Inr (0xFFFFFFFF, s1)"
  shows "pop demo_sz lt (Vector (Basic_string 1)) old s = Inl Length_error"
  using assms by (simp add: pop_seq_def reserve_vector_def grow_def demo_sz_def)

text \<open>An order that compares the first bytes; a buffer that holds a map with its entries out of order and one of them twice.\<close>

definition first_byte_less :: "ty \<Rightarrow> val \<Rightarrow> val \<Rightarrow> bool" where
  "first_byte_less t x y \<longleftrightarrow> unat (hd (raw_of x @ [0])) < unat (hd (raw_of y @ [0]))"

lemma first_byte_order: "strict_weak_order (first_byte_less t)"
  by unfold_locales (auto simp: first_byte_less_def)

definition hostile_stream :: serialize_t where
  "hostile_stream = serialize_make [3, 0, 0, 0, 5, 1, 2, 9, 5, 7, 0, 0] 12"


end
