(* ===== verification/Str_Number.thy ===== *)
theory Str_Number
  imports Str_Algorithm Assoc_Vector
begin

text \<open>
  The rest of \<open>include/extend_stl/string/algorithm.hpp\<close>: changes of case, numbers to strings and back, and comparisons that ignore case; and on them
  \<open>is_valid_ip\<close> of \<open>include/win32/network/network_helper.hpp\<close>. The stream extraction of a number is that of the standard: white space, a sign, digits; a value out
  of range gives the nearest one, no digit gives zero.
\<close>

section \<open>Case\<close>

definition ascii_toupper :: "char \<Rightarrow> char" where
  "ascii_toupper c =
     (if 97 \<le> (of_char c :: nat) \<and> (of_char c :: nat) \<le> 122 then char_of ((of_char c :: nat) - 32) else c)"

text \<open>
  \<open>to_upper\<close> and \<open>to_lower\<close> return a helper that refers to the string; the characters change when the helper is converted. What the caller does with
  the helper decides: drop it, convert it to a string, or to a size.
\<close>

datatype helper_use = Dropped | As_string | As_size

fun ret_helper :: "(char \<Rightarrow> char) \<Rightarrow> helper_use \<Rightarrow> string \<Rightarrow> string" where
  "ret_helper func Dropped str = str"
| "ret_helper func As_string str = map func str"
| "ret_helper func As_size str = map func str"

definition to_upper :: "helper_use \<Rightarrow> string \<Rightarrow> string" where
  "to_upper = ret_helper ascii_toupper"

definition to_lower :: "helper_use \<Rightarrow> string \<Rightarrow> string" where
  "to_lower = ret_helper ascii_tolower"

definition to_upper_array :: "string \<Rightarrow> string" where
  "to_upper_array str = map ascii_toupper str"

definition to_lower_array :: "string \<Rightarrow> string" where
  "to_lower_array str = map ascii_tolower str"

section \<open>Numbers\<close>

definition is_digit :: "char \<Rightarrow> bool" where
  "is_digit c \<longleftrightarrow> 48 \<le> (of_char c :: nat) \<and> (of_char c :: nat) \<le> 57"

definition signed_digits :: "string \<Rightarrow> bool \<times> string" where
  "signed_digits s = (case s of [] \<Rightarrow> (False, [])
     | c # cs \<Rightarrow> if c = CHR ''-'' then (True, takeWhile is_digit cs)
                 else if c = CHR ''+'' then (False, takeWhile is_digit cs) else (False, takeWhile is_digit (c # cs)))"

text \<open>\<open>to_number\<close> to a signed type with the given least and greatest value.\<close>

definition to_number :: "int \<Rightarrow> int \<Rightarrow> string \<Rightarrow> int" where
  "to_number lo hi str = (let (neg, ds) = signed_digits (dropWhile is_space str);
     v = (if neg then - int (dec_value ds) else int (dec_value ds)) in
     if ds = [] then 0 else if v < lo then lo else if v > hi then hi else v)"

abbreviation to_int :: "string \<Rightarrow> int" where
  "to_int \<equiv> to_number (- (2 ^ 31)) (2 ^ 31 - 1)"

definition to_number_bool :: "string \<Rightarrow> bool" where
  "to_number_bool str = prefix ''true'' (dropWhile is_space str)"

definition to_string :: "int \<Rightarrow> string" where
  "to_string val = string_of_int val"

definition to_string_bool :: "bool \<Rightarrow> string" where
  "to_string_bool val = (if val then ''true'' else ''false'')"

section \<open>Comparison\<close>

text \<open>\<open>_stricmp\<close> on the characters up to the terminating null.\<close>

definition c_string :: "string \<Rightarrow> string" where
  "c_string s = takeWhile (\<lambda>c. (of_char c :: nat) \<noteq> 0) s"

fun stricmp :: "string \<Rightarrow> string \<Rightarrow> int" where
  "stricmp [] [] = 0"
| "stricmp [] (y # ys) = - int (of_char (ascii_tolower y))"
| "stricmp (x # xs) [] = int (of_char (ascii_tolower x))"
| "stricmp (x # xs) (y # ys) = (let d = int (of_char (ascii_tolower x)) - int (of_char (ascii_tolower y)) in
     if d \<noteq> 0 then d else stricmp xs ys)"

definition compare_no_case :: "string \<Rightarrow> string \<Rightarrow> int" where
  "compare_no_case lhs rhs = stricmp (c_string lhs) (c_string rhs)"

text \<open>\<open>compare_phonetic\<close>, for the result of \<open>CompareString\<close>.\<close>

definition compare_phonetic :: "(string \<Rightarrow> string \<Rightarrow> int) \<Rightarrow> string \<Rightarrow> string \<Rightarrow> int" where
  "compare_phonetic CompareString lhs rhs = (let ret = CompareString lhs rhs in
     if ret = 1 then - 1 else if ret = 2 then 0 else if ret = 3 then 1 else - 2)"

section \<open>Addresses\<close>

text \<open>\<open>is_valid_ip\<close>; \<open>inet_addr\<close> of Winsock is a parameter, with \<open>INADDR_NONE\<close> for a string that is no address.\<close>

definition INADDR_NONE :: u32 where
  "INADDR_NONE = - 1"

definition is_valid_ip :: "(string \<Rightarrow> u32) \<Rightarrow> string \<Rightarrow> bool" where
  "is_valid_ip inet_addr ip = (let vecIP = split [] ip CHR ''.'' in
     if length vecIP \<noteq> 4 then False
     else if hd vecIP = ''0'' \<or> last vecIP = ''0'' then False
     else if list_ex (\<lambda>s. to_int s < 0 \<or> to_int s > 255) vecIP then False
     else if length (filter (\<lambda>s. s = ''255'') vecIP) = 4 then False
     else inet_addr ip \<noteq> INADDR_NONE)"

section \<open>Facts about digits\<close>

lemma is_digit_digit_char: "d < 10 \<Longrightarrow> is_digit (digit_char d)"
  by (simp add: is_digit_def digit_char_def)

lemma digits_string_of_nat: "list_all is_digit (string_of_nat n)"
proof (induction n rule: string_of_nat.induct)
  case (1 n)
  then show ?case by (subst string_of_nat.simps) (simp add: is_digit_digit_char)
qed

lemma digit_no_space: "is_digit c \<Longrightarrow> \<not> is_space c \<and> c \<noteq> CHR ''-'' \<and> c \<noteq> CHR ''+'' \<and> c \<noteq> CHR ''.''"
  by (auto simp: is_digit_def is_space_def)

lemma signed_digits_of_int: "signed_digits (dropWhile is_space (string_of_int i)) = (i < 0, string_of_nat (nat \<bar>i\<bar>))"
proof -
  have ds: "takeWhile is_digit (string_of_nat n) = string_of_nat n" for n
    using digits_string_of_nat [of n] by (simp add: list_all_iff takeWhile_eq_all_conv)
  show ?thesis
  proof (cases "i < 0")
    case True
    then show ?thesis using ds [of "nat (- i)"] by (simp add: string_of_int_def signed_digits_def is_space_def)
  next
    case False
    obtain c cs where s: "string_of_nat (nat i) = c # cs" by (cases "string_of_nat (nat i)") auto
    then have "is_digit c" using digits_string_of_nat [of "nat i"] by simp
    then show ?thesis using False ds [of "nat i"] s digit_no_space [of c] by (simp add: string_of_int_def signed_digits_def)
  qed
qed

text \<open>
  Numbers survive the way through a string: what \<open>to_string\<close> writes, \<open>to_number\<close> reads back, for every value of the type; and a value too large or too small for the type is
  read as the nearest one.
\<close>

theorem to_number_to_string:
  assumes "lo \<le> hi"
  shows "to_number lo hi (to_string i) = max lo (min hi i)"
proof -
  have "(if i < 0 then - int (nat \<bar>i\<bar>) else int (nat \<bar>i\<bar>)) = i" by simp
  then show ?thesis using assms
    by (auto simp: to_number_def to_string_def signed_digits_of_int Let_def max_def min_def)
qed

lemma to_number_bool_to_string: "to_number_bool (to_string_bool b) = b"
  by (cases b) (simp_all add: to_number_bool_def to_string_bool_def is_space_def)

section \<open>Properties of the conversions and comparisons\<close>

text \<open>Dropping the helper leaves the string alone: \<open>to_upper(str);\<close> as a statement does nothing. Converted, it is idempotent, and ignores the case it came from.\<close>

lemma lower_upper: "ascii_tolower (ascii_toupper c) = ascii_tolower c" "ascii_toupper (ascii_tolower c) = ascii_toupper c"
  by (auto simp: ascii_toupper_def ascii_tolower_def)

theorem case_conversions:
  "to_upper Dropped s = s \<and> to_upper As_size s = to_upper As_string s \<and>
   to_lower As_string (to_upper u s) = to_lower As_string s \<and> to_upper As_string (to_lower u s) = to_upper As_string s"
  by (cases u) (simp_all add: to_upper_def to_lower_def lower_upper)

lemma stricmp_minus: "stricmp ys xs = - stricmp xs ys"
  by (induction xs ys rule: stricmp.induct) (auto simp: Let_def)

definition no_null :: "string \<Rightarrow> bool" where
  "no_null s \<longleftrightarrow> (\<forall>c \<in> set s. 0 < (of_char c :: nat))"

lemma no_null_c_string: "no_null (c_string s)"
  by (auto simp: no_null_def c_string_def dest: set_takeWhileD)

lemma tolower_pos: "0 < (of_char c :: nat) \<Longrightarrow> 0 < (of_char (ascii_tolower c) :: nat)"
  by (auto simp: ascii_tolower_def)

lemma stricmp_zero: "no_null xs \<Longrightarrow> no_null ys \<Longrightarrow> stricmp xs ys = 0 \<longleftrightarrow> map ascii_tolower xs = map ascii_tolower ys"
  by (induction xs ys rule: stricmp.induct) (auto simp: no_null_def Let_def tolower_pos)

lemma stricmp_trans:
  "no_null xs \<Longrightarrow> no_null ys \<Longrightarrow> no_null zs \<Longrightarrow> 0 \<le> stricmp xs ys \<Longrightarrow> 0 \<le> stricmp ys zs \<Longrightarrow> 0 \<le> stricmp xs zs"
proof (induction xs ys arbitrary: zs rule: stricmp.induct)
  case (2 y ys)
  then show ?case using tolower_pos [of y] by (simp add: no_null_def)
next
  case (4 x xs y ys)
  show ?case
  proof (cases zs)
    case (Cons z zs')
    then show ?thesis using 4 by (auto simp: no_null_def Let_def split: if_splits)
  qed simp
next
  case (3 x xs)
  then show ?case using tolower_pos [of "hd zs"] by (cases zs) (auto simp: no_null_def)
qed simp

text \<open>
  Comparison without case is zero exactly for strings that agree up to case as far as the first null character, and it is a strict weak order, so a container may be ordered by it.
\<close>

lemma compare_no_case_zero:
  "compare_no_case lhs rhs = 0 \<longleftrightarrow> map ascii_tolower (c_string lhs) = map ascii_tolower (c_string rhs)"
  by (simp add: compare_no_case_def stricmp_zero no_null_c_string)

interpretation nocase: strict_weak_order "\<lambda>lhs rhs. compare_no_case lhs rhs < 0"
proof
  fix x y z :: string
  show "compare_no_case x y < 0 \<Longrightarrow> \<not> compare_no_case y x < 0"
    by (simp add: compare_no_case_def stricmp_minus [of "c_string y" "c_string x"])
  show "compare_no_case x z < 0 \<Longrightarrow> compare_no_case x y < 0 \<or> compare_no_case y z < 0"
    using stricmp_trans [of "c_string x" "c_string y" "c_string z"] by (auto simp: compare_no_case_def no_null_c_string not_le [symmetric])
qed

section \<open>Valid addresses\<close>

definition dotted :: "nat \<Rightarrow> nat \<Rightarrow> nat \<Rightarrow> nat \<Rightarrow> string" where
  "dotted a b c d = join CHR ''.'' (map string_of_nat [a, b, c, d])"

text \<open>What is documented of \<open>inet_addr\<close>: it accepts four numbers up to 255; the address of four times 255 cannot be told from the error.\<close>

definition inet_law :: "(string \<Rightarrow> u32) \<Rightarrow> bool" where
  "inet_law inet_addr \<longleftrightarrow> (\<forall>a b c d. a \<le> 255 \<longrightarrow> b \<le> 255 \<longrightarrow> c \<le> 255 \<longrightarrow> d \<le> 255 \<longrightarrow>
     (inet_addr (dotted a b c d) = INADDR_NONE \<longleftrightarrow> a = 255 \<and> b = 255 \<and> c = 255 \<and> d = 255))"

lemma plain_number: "plain_word CHR ''.'' (string_of_nat n)"
  using digits_string_of_nat [of n] digit_no_space by (auto simp: plain_word_def list_all_iff)

lemma split_dotted: "split [] (dotted a b c d) CHR ''.'' = map string_of_nat [a, b, c, d]"
proof -
  let ?ws = "map string_of_nat [a, b, c, d]"
  have plain: "list_all (plain_word CHR ''.'') ?ws" by (simp add: plain_number)
  then have "map read_word ?ws = ?ws" using read_word_plain [OF plain_number] by simp
  then show ?thesis using getlines_join [OF plain] join_eq_Nil [OF plain] by (simp add: split_def dotted_def)
qed

lemma string_of_nat_eq: "string_of_nat m = string_of_nat n \<longleftrightarrow> m = n"
  by (metis dec_value_string_of_nat)

lemma to_int_number: "to_int (string_of_nat n) = min (2 ^ 31 - 1) (int n)"
  using to_number_to_string [of "- (2 ^ 31)" "2 ^ 31 - 1" "int n"] by (simp add: to_string_def string_of_int_def)

lemma numbers: "''0'' = string_of_nat 0" "''255'' = string_of_nat 255"
  by code_simp+

lemma out_of_octet: "to_int (string_of_nat n) < 0 \<or> 255 < to_int (string_of_nat n) \<longleftrightarrow> 255 < n"
  unfolding to_int_number by auto

lemma four_times: "length (filter P [a, b, c, d]) = 4 \<longleftrightarrow> P a \<and> P b \<and> P c \<and> P d"
  by simp

lemma is_valid_ip_fields:
  "is_valid_ip inet_addr (dotted a b c d) \<longleftrightarrow> a \<noteq> 0 \<and> d \<noteq> 0 \<and> \<not> (255 < a \<or> 255 < b \<or> 255 < c \<or> 255 < d) \<and>
     \<not> (a = 255 \<and> b = 255 \<and> c = 255 \<and> d = 255) \<and> inet_addr (dotted a b c d) \<noteq> INADDR_NONE"
  unfolding is_valid_ip_def Let_def split_dotted list.map four_times numbers string_of_nat_eq list_ex_Cons_iff list_ex_Nil_iff out_of_octet
  by (simp add: string_of_nat_eq)

text \<open>
  Validity of an address: for every Winsock whose \<open>inet_addr\<close> reads dotted addresses, \<open>is_valid_ip\<close> accepts the dotted notation of four numbers exactly when all are at most 255, the
  first and the last are not zero, and not all are 255.
\<close>

theorem is_valid_ip_dotted:
  assumes "inet_law inet_addr"
  shows "is_valid_ip inet_addr (dotted a b c d) \<longleftrightarrow>
    a \<le> 255 \<and> b \<le> 255 \<and> c \<le> 255 \<and> d \<le> 255 \<and> a \<noteq> 0 \<and> d \<noteq> 0 \<and> \<not> (a = 255 \<and> b = 255 \<and> c = 255 \<and> d = 255)"
proof (cases "a \<le> 255 \<and> b \<le> 255 \<and> c \<le> 255 \<and> d \<le> 255")
  case True
  then have "inet_addr (dotted a b c d) = INADDR_NONE \<longleftrightarrow> a = 255 \<and> b = 255 \<and> c = 255 \<and> d = 255"
    using assms by (simp add: inet_law_def)
  then show ?thesis using True by (simp add: is_valid_ip_fields not_less)
next
  case False
  then show ?thesis by (auto simp: is_valid_ip_fields)
qed

text \<open>An \<open>inet_addr\<close> that satisfies the law, and an address.\<close>

definition demo_inet_addr :: "string \<Rightarrow> u32" where
  "demo_inet_addr s = (if s = dotted 255 255 255 255 then INADDR_NONE else 0)"

lemma dotted_inj: "dotted a b c d = dotted a' b' c' d' \<longleftrightarrow> a = a' \<and> b = b' \<and> c = c' \<and> d = d'"
proof
  assume "dotted a b c d = dotted a' b' c' d'"
  then have "split [] (dotted a b c d) CHR ''.'' = split [] (dotted a' b' c' d') CHR ''.''" by simp
  then show "a = a' \<and> b = b' \<and> c = c' \<and> d = d'" by (simp add: split_dotted string_of_nat_eq)
qed simp

theorem is_valid_ip_dotted_witness:
  "is_valid_ip demo_inet_addr ''192.168.0.1'' \<and> \<not> is_valid_ip demo_inet_addr ''10.0.0.0''"
proof -
  have "inet_law demo_inet_addr" by (simp add: inet_law_def demo_inet_addr_def dotted_inj INADDR_NONE_def)
  note valid = is_valid_ip_dotted [OF this]
  have "''192.168.0.1'' = dotted 192 168 0 1" "''10.0.0.0'' = dotted 10 0 0 0" by code_simp+
  then show ?thesis by (simp add: valid)
qed

end
