(* ===== verification/Sync_Lock.thy ===== *)
theory Sync_Lock
  imports Prelude
begin

text \<open>
  The locks of \<open>include/multi_thread/lock.hpp\<close> and what they are for: code under an \<open>auto_lock_t\<close> runs as if no other thread were there. The functions of Windows
  on critical sections, mutexes and slim locks are parameters; \<open>std::recursive_mutex\<close>, with which the synchronised containers lock, belongs to the language.
  A thread that must wait is \<^term>\<open>None\<close>.
\<close>

section \<open>Locks\<close>

subsection \<open>Critical sections and spin locks\<close>

record 'c cs_api =
  InitializeCriticalSection :: 'c
  InitializeCriticalSectionAndSpinCount :: "u32 \<Rightarrow> 'c"
  EnterCriticalSection :: "nat \<Rightarrow> 'c \<Rightarrow> 'c option"
  LeaveCriticalSection :: "nat \<Rightarrow> 'c \<Rightarrow> 'c result"

definition critical_section_make :: "'c cs_api \<Rightarrow> 'c" where
  "critical_section_make os = InitializeCriticalSection os"

definition critical_section_lock :: "'c cs_api \<Rightarrow> nat \<Rightarrow> 'c \<Rightarrow> 'c option" where
  "critical_section_lock os t c = EnterCriticalSection os t c"

definition critical_section_unlock :: "'c cs_api \<Rightarrow> nat \<Rightarrow> 'c \<Rightarrow> 'c result" where
  "critical_section_unlock os t c = LeaveCriticalSection os t c"

definition spin_lock_make :: "'c cs_api \<Rightarrow> u32 option \<Rightarrow> 'c" where
  "spin_lock_make os dwCount = InitializeCriticalSectionAndSpinCount os (case dwCount of None \<Rightarrow> 4000 | Some n \<Rightarrow> n)"

definition spin_lock_lock :: "'c cs_api \<Rightarrow> nat \<Rightarrow> 'c \<Rightarrow> 'c option" where
  "spin_lock_lock os t c = EnterCriticalSection os t c"

definition spin_lock_unlock :: "'c cs_api \<Rightarrow> nat \<Rightarrow> 'c \<Rightarrow> 'c result" where
  "spin_lock_unlock os t c = LeaveCriticalSection os t c"

subsection \<open>The lock that does nothing\<close>

definition lock_null_lock :: "nat \<Rightarrow> unit \<Rightarrow> unit option" where
  "lock_null_lock t l = Some l"

definition lock_null_unlock :: "nat \<Rightarrow> unit \<Rightarrow> unit result" where
  "lock_null_unlock t l = Inr l"

subsection \<open>Mutexes\<close>

text \<open>
  The class holds a handle; \<open>CreateMutex\<close> may fail, and then the handle is null. Waiting for and releasing a null handle fail at once, and nobody looks at the
  result.
\<close>

record 'w mutex_api =
  CreateMutex :: "'w \<Rightarrow> nat option \<times> 'w"
  WaitForMutex :: "nat \<Rightarrow> nat \<Rightarrow> 'w \<Rightarrow> 'w option"
  ReleaseMutex :: "nat \<Rightarrow> nat \<Rightarrow> 'w \<Rightarrow> 'w"
  CloseMutex :: "nat \<Rightarrow> 'w \<Rightarrow> 'w"

definition mutex_make :: "'w mutex_api \<Rightarrow> 'w \<Rightarrow> nat option \<times> 'w" where
  "mutex_make os w = CreateMutex os w"

definition mutex_lock :: "'w mutex_api \<Rightarrow> nat \<Rightarrow> nat option \<times> 'w \<Rightarrow> (nat option \<times> 'w) option" where
  "mutex_lock os t = (\<lambda>(h, w). case h of None \<Rightarrow> Some (h, w) | Some i \<Rightarrow> map_option (\<lambda>w. (h, w)) (WaitForMutex os i t w))"

definition mutex_unlock :: "'w mutex_api \<Rightarrow> nat \<Rightarrow> nat option \<times> 'w \<Rightarrow> (nat option \<times> 'w) result" where
  "mutex_unlock os t = (\<lambda>(h, w). case h of None \<Rightarrow> Inr (h, w) | Some i \<Rightarrow> Inr (h, ReleaseMutex os i t w))"

definition mutex_destroy :: "'w mutex_api \<Rightarrow> nat option \<times> 'w \<Rightarrow> 'w" where
  "mutex_destroy os = (\<lambda>(h, w). case h of None \<Rightarrow> w | Some i \<Rightarrow> CloseMutex os i w)"

subsection \<open>Recursive mutexes of the standard library\<close>

text \<open>The owner and how often it has acquired the mutex beyond the first time; a thread that does not own the mutex must not unlock it.\<close>

type_synonym recursive_mutex = "(nat \<times> nat) option"

definition recursive_mutex_lock :: "nat \<Rightarrow> recursive_mutex \<Rightarrow> recursive_mutex option" where
  "recursive_mutex_lock t m = (case m of None \<Rightarrow> Some (Some (t, 0)) | Some (u, n) \<Rightarrow> if u = t then Some (Some (t, n + 1)) else None)"

definition recursive_mutex_unlock :: "nat \<Rightarrow> recursive_mutex \<Rightarrow> recursive_mutex result" where
  "recursive_mutex_unlock t m = (case m of None \<Rightarrow> Inl Access_violation
     | Some (u, n) \<Rightarrow> if u \<noteq> t then Inl Access_violation else if n = 0 then Inr None else Inr (Some (t, n - 1)))"

subsection \<open>Slim reader and writer locks\<close>

text \<open>The functions of Windows that \<open>rd_lock_t\<close> calls on its \<open>SRWLOCK\<close>; \<open>lock\<close> and \<open>unlock\<close> choose by the template argument.\<close>

datatype srw_call = AcquireShared | AcquireExclusive | ReleaseShared | ReleaseExclusive

definition r_lock :: "srw_call list" where "r_lock = [AcquireShared]"
definition w_lock :: "srw_call list" where "w_lock = [AcquireExclusive]"
definition r_unlock :: "srw_call list" where "r_unlock = [ReleaseShared]"
definition w_unlock :: "srw_call list" where "w_unlock = [ReleaseShared]"

definition rd_lock_lock :: "bool \<Rightarrow> srw_call list" where
  "rd_lock_lock IsShared = (if IsShared then r_lock else w_lock)"

definition rd_lock_unlock :: "bool \<Rightarrow> srw_call list" where
  "rd_lock_unlock IsShared = (if IsShared then r_unlock else w_unlock)"

section \<open>Code under locks\<close>

text \<open>
  An \<open>auto_lock_t\<close> (or \<open>auto_lock_ptr_t\<close>) lives as long as its block: \<open>Locked cs\<close> is a block that starts with one, and blocks nest. What a thread does is then a
  list of primitive steps, between which other threads may run.
\<close>

datatype 's code = Act "'s \<Rightarrow> 's" | Locked "'s code list"

datatype 's prim = P_lock | P_unlock | P_do "'s \<Rightarrow> 's"

definition auto_lock_ctor :: "'s prim list" where "auto_lock_ctor = [P_lock]"
definition auto_lock_dtor :: "'s prim list" where "auto_lock_dtor = [P_unlock]"

fun compile :: "'s code \<Rightarrow> 's prim list" where
  "compile (Act f) = [P_do f]"
| "compile (Locked cs) = auto_lock_ctor @ concat (map compile cs) @ auto_lock_dtor"

definition program :: "'s code list list \<Rightarrow> 's prim list" where
  "program blocks = concat (map (\<lambda>cs. compile (Locked cs)) blocks)"

text \<open>
  The threads share a lock and an object. Thread \<open>t\<close> executes its next step when it is scheduled; when it must wait nothing happens. \<open>m_depth\<close> counts the blocks a thread
  is in. \<open>m_log\<close> records, when a thread enters an outermost block, the actions of that block.
\<close>

record ('l, 's) machine =
  m_lock :: 'l
  m_data :: 's
  m_prog :: "nat \<Rightarrow> 's prim list"
  m_depth :: "nat \<Rightarrow> nat"
  m_log :: "(nat \<times> ('s \<Rightarrow> 's) list) list"

fun section_ops :: "nat \<Rightarrow> 's prim list \<Rightarrow> ('s \<Rightarrow> 's) list" where
  "section_ops 0 p = []"
| "section_ops (Suc d) [] = []"
| "section_ops (Suc d) (P_lock # p) = section_ops (Suc (Suc d)) p"
| "section_ops (Suc d) (P_unlock # p) = section_ops d p"
| "section_ops (Suc d) (P_do f # p) = f # section_ops (Suc d) p"

definition entered :: "nat \<Rightarrow> 'l \<Rightarrow> 's prim list \<Rightarrow> ('l, 's) machine \<Rightarrow> ('l, 's) machine" where
  "entered t l p m = m\<lparr>m_lock := l, m_prog := (m_prog m)(t := p), m_depth := (m_depth m)(t := Suc (m_depth m t)),
     m_log := (if m_depth m t = 0 then m_log m @ [(t, section_ops 1 p)] else m_log m)\<rparr>"

definition left :: "nat \<Rightarrow> 'l \<Rightarrow> 's prim list \<Rightarrow> ('l, 's) machine \<Rightarrow> ('l, 's) machine" where
  "left t l p m = m\<lparr>m_lock := l, m_prog := (m_prog m)(t := p), m_depth := (m_depth m)(t := m_depth m t - 1)\<rparr>"

definition acted :: "nat \<Rightarrow> ('s \<Rightarrow> 's) \<Rightarrow> 's prim list \<Rightarrow> ('l, 's) machine \<Rightarrow> ('l, 's) machine" where
  "acted t f p m = m\<lparr>m_data := f (m_data m), m_prog := (m_prog m)(t := p)\<rparr>"

definition sched :: "(nat \<Rightarrow> 'l \<Rightarrow> 'l option) \<Rightarrow> (nat \<Rightarrow> 'l \<Rightarrow> 'l result) \<Rightarrow> nat \<Rightarrow> ('l, 's) machine \<Rightarrow> ('l, 's) machine result" where
  "sched lock unlock t m = (case m_prog m t of [] \<Rightarrow> Inr m
     | P_lock # p \<Rightarrow> (case lock t (m_lock m) of None \<Rightarrow> Inr m | Some l \<Rightarrow> Inr (entered t l p m))
     | P_unlock # p \<Rightarrow> bindR (unlock t (m_lock m)) (\<lambda>l. Inr (left t l p m))
     | P_do f # p \<Rightarrow> Inr (acted t f p m))"

definition start :: "'l \<Rightarrow> 's \<Rightarrow> (nat \<Rightarrow> 's prim list) \<Rightarrow> ('l, 's) machine" where
  "start l x progs = \<lparr>m_lock = l, m_data = x, m_prog = progs, m_depth = (\<lambda>t. 0), m_log = []\<rparr>"

definition run_threads :: "(nat \<Rightarrow> 'l \<Rightarrow> 'l option) \<Rightarrow> (nat \<Rightarrow> 'l \<Rightarrow> 'l result) \<Rightarrow> nat list \<Rightarrow> ('l, 's) machine \<Rightarrow> ('l, 's) machine result" where
  "run_threads lock unlock ts m = foldR (sched lock unlock) ts m"

section \<open>Serial execution\<close>

definition run_ops :: "('s \<Rightarrow> 's) list \<Rightarrow> 's \<Rightarrow> 's" where
  "run_ops fs x = fold (\<lambda>f. f) fs x"

definition serial :: "(nat \<times> ('s \<Rightarrow> 's) list) list \<Rightarrow> 's \<Rightarrow> 's" where
  "serial log x = run_ops (concat (map snd log)) x"

definition log_of :: "nat \<Rightarrow> (nat \<times> 'a) list \<Rightarrow> 'a list" where
  "log_of t log = map snd (filter (\<lambda>e. fst e = t) log)"

text \<open>The actions of a block, in order.\<close>

fun actions :: "'s code \<Rightarrow> ('s \<Rightarrow> 's) list" where
  "actions (Act f) = [f]"
| "actions (Locked cs) = concat (map actions cs)"

text \<open>The outermost blocks a program at depth \<open>d\<close> still has to enter.\<close>

fun sections :: "nat \<Rightarrow> 's prim list \<Rightarrow> ('s \<Rightarrow> 's) list list" where
  "sections d [] = []"
| "sections d (P_lock # p) = (if d = 0 then [section_ops 1 p] else []) @ sections (Suc d) p"
| "sections d (P_unlock # p) = sections (d - 1) p"
| "sections d (P_do f # p) = sections d p"

text \<open>Locking and unlocking match and every action is inside a block.\<close>

fun guarded :: "nat \<Rightarrow> 's prim list \<Rightarrow> bool" where
  "guarded d [] \<longleftrightarrow> d = 0"
| "guarded d (P_lock # p) \<longleftrightarrow> guarded (Suc d) p"
| "guarded d (P_unlock # p) \<longleftrightarrow> d > 0 \<and> guarded (d - 1) p"
| "guarded d (P_do f # p) \<longleftrightarrow> d > 0 \<and> guarded d p"

lemmas auto_lock_defs = auto_lock_ctor_def auto_lock_dtor_def

lemma compile_inside:
  "guarded (Suc d) (compile c @ p) = guarded (Suc d) p \<and>
   section_ops (Suc d) (compile c @ p) = actions c @ section_ops (Suc d) p \<and> sections (Suc d) (compile c @ p) = sections (Suc d) p"
proof (induction c arbitrary: d p)
  case (Locked cs)
  have inner: "guarded (Suc d) (concat (map compile cs) @ q) = guarded (Suc d) q \<and>
      section_ops (Suc d) (concat (map compile cs) @ q) = concat (map actions cs) @ section_ops (Suc d) q \<and>
      sections (Suc d) (concat (map compile cs) @ q) = sections (Suc d) q" for d q
    using Locked.IH
  proof (induction cs)
    case (Cons c cs)
    show ?case using Cons.prems [of c d "concat (map compile cs) @ q"] Cons.IH [OF Cons.prems] by simp
  qed simp
  show ?case using inner [of "Suc d" "P_unlock # p"] by (simp add: auto_lock_defs)
qed simp

lemma compile_block:
  "guarded 0 (compile (Locked cs) @ p) = guarded 0 p \<and> sections 0 (compile (Locked cs) @ p) = actions (Locked cs) # sections 0 p"
proof -
  have "guarded 1 (concat (map compile cs) @ q) = guarded 1 q \<and> section_ops 1 (concat (map compile cs) @ q) = concat (map actions cs) @ section_ops 1 q \<and>
      sections 1 (concat (map compile cs) @ q) = sections 1 q" for q :: "'a prim list"
    by (induction cs arbitrary: q) (use compile_inside [of 0] in auto)
  from this [of "P_unlock # p"] show ?thesis by (simp add: auto_lock_defs)
qed

lemma program_blocks: "guarded 0 (program blocks) \<and> sections 0 (program blocks) = map (\<lambda>cs. actions (Locked cs)) blocks"
  by (induction blocks) (use compile_block in \<open>auto simp: program_def simp del: compile.simps actions.simps\<close>)

section \<open>What a lock promises\<close>

text \<open>
  The invariant of threads that run guarded programs: locks are held as the blocks nest, by one thread at a time; the blocks entered so far and those to come are
  those of the program; and what the object will be when the thread inside has left is what the entered blocks make of it, one after the other.
\<close>

definition lock_inv :: "('l \<Rightarrow> nat \<Rightarrow> nat) \<Rightarrow> (nat \<Rightarrow> 's prim list) \<Rightarrow> 's \<Rightarrow> ('l, 's) machine \<Rightarrow> bool" where
  "lock_inv holds progs x0 m \<longleftrightarrow> m_depth m = holds (m_lock m) \<and> (\<forall>t. guarded (m_depth m t) (m_prog m t)) \<and>
     (\<forall>t u. 0 < m_depth m t \<and> 0 < m_depth m u \<longrightarrow> t = u) \<and>
     (\<forall>t. log_of t (m_log m) @ sections (m_depth m t) (m_prog m t) = sections 0 (progs t)) \<and>
     (\<forall>t. 0 < m_depth m t \<longrightarrow> run_ops (section_ops (m_depth m t) (m_prog m t)) (m_data m) = serial (m_log m) x0) \<and>
     ((\<forall>t. m_depth m t = 0) \<longrightarrow> m_data m = serial (m_log m) x0)"

lemma lock_invD:
  assumes "lock_inv holds progs x0 m"
  shows "holds (m_lock m) t = m_depth m t" "guarded (m_depth m t) (m_prog m t)" "0 < m_depth m t \<Longrightarrow> 0 < m_depth m u \<Longrightarrow> t = u"
    "log_of t (m_log m) @ sections (m_depth m t) (m_prog m t) = sections 0 (progs t)"
    "0 < m_depth m t \<Longrightarrow> run_ops (section_ops (m_depth m t) (m_prog m t)) (m_data m) = serial (m_log m) x0"
    "(\<And>t. m_depth m t = 0) \<Longrightarrow> m_data m = serial (m_log m) x0"
  using assms unfolding lock_inv_def by (metis, blast, blast, blast, blast, blast)

text \<open>A step of thread \<open>t\<close>, which is the only one inside before and after.\<close>

lemma lock_inv_step:
  assumes inv: "lock_inv holds progs x0 m" and others: "\<And>u. u \<noteq> t \<Longrightarrow> m_depth m u = 0"
    and same: "\<And>u. u \<noteq> t \<Longrightarrow> m_depth m' u = 0 \<and> m_prog m' u = m_prog m u \<and> log_of u (m_log m') = log_of u (m_log m)"
    and depth: "m_depth m' = holds (m_lock m')" and guard: "guarded (m_depth m' t) (m_prog m' t)"
    and log: "log_of t (m_log m') @ sections (m_depth m' t) (m_prog m' t) = log_of t (m_log m) @ sections (m_depth m t) (m_prog m t)"
    and data: "run_ops (section_ops (m_depth m' t) (m_prog m' t)) (m_data m') = serial (m_log m') x0"
  shows "lock_inv holds progs x0 m'"
proof -
  have inside: "u = t" if "0 < m_depth m' u" for u using that same [of u] by (cases "u = t") auto
  have "guarded (m_depth m' u) (m_prog m' u) \<and> log_of u (m_log m') @ sections (m_depth m' u) (m_prog m' u) = sections 0 (progs u)" for u
    using guard log lock_invD(2,4) [OF inv, of u] same [of u] others [of u] by (cases "u = t") auto
  moreover have "m_data m' = serial (m_log m') x0" if "\<forall>t. m_depth m' t = 0"
    using data that by (simp add: run_ops_def)
  ultimately show ?thesis unfolding lock_inv_def using depth inside data by metis
qed

text \<open>
  \<open>holds l t\<close> is how often thread \<open>t\<close> holds the lock. A thread gets the lock when no other thread holds it, and only then; a holder may unlock.
\<close>

locale exclusive_lock =
  fixes lock :: "nat \<Rightarrow> 'l \<Rightarrow> 'l option" and unlock :: "nat \<Rightarrow> 'l \<Rightarrow> 'l result" and holds :: "'l \<Rightarrow> nat \<Rightarrow> nat" and l0 :: 'l
  assumes new_lock: "holds l0 t = 0"
    and lock_grants: "(\<And>u. u \<noteq> t \<Longrightarrow> holds l u = 0) \<Longrightarrow> \<exists>l'. lock t l = Some l'"
    and lock_excludes: "lock t l = Some l' \<Longrightarrow> u \<noteq> t \<Longrightarrow> holds l u = 0"
    and lock_holds: "lock t l = Some l' \<Longrightarrow> holds l' = (holds l)(t := Suc (holds l t))"
    and unlock_holds: "0 < holds l t \<Longrightarrow> \<exists>l'. unlock t l = Inr l' \<and> holds l' = (holds l)(t := holds l t - 1)"
begin

lemma start_inv:
  assumes "\<And>t. guarded 0 (progs t)"
  shows "lock_inv holds progs x (start l0 x progs)"
  using assms new_lock by (auto simp: lock_inv_def start_def serial_def run_ops_def log_of_def)

lemma enter_inv:
  assumes inv: "lock_inv holds progs x0 m" and prog: "m_prog m t = P_lock # p" and l: "lock t (m_lock m) = Some l"
  shows "lock_inv holds progs x0 (entered t l p m)"
proof -
  have others: "m_depth m u = 0" if "u \<noteq> t" for u using lock_excludes [OF l that] lock_invD(1) [OF inv] by simp
  have "holds (m_lock m) = m_depth m" using lock_invD(1) [OF inv] by blast
  then have depth: "m_depth (entered t l p m) = holds (m_lock (entered t l p m))" using lock_holds [OF l] by (simp add: entered_def)
  have data: "run_ops (section_ops (m_depth (entered t l p m) t) (m_prog (entered t l p m) t)) (m_data (entered t l p m)) = serial (m_log (entered t l p m)) x0"
  proof (cases "m_depth m t")
    case 0
    then have "m_data m = serial (m_log m) x0" using lock_invD(6) [OF inv] others by metis
    then show ?thesis using 0 by (simp add: entered_def serial_def run_ops_def)
  next
    case (Suc d)
    then show ?thesis using lock_invD(5) [OF inv, of t] prog by (simp add: entered_def)
  qed
  show ?thesis
    by (rule lock_inv_step [OF inv others _ depth _ _ data])
      (use prog others lock_invD(2) [OF inv, of t] in \<open>simp_all add: entered_def log_of_def\<close>)
qed

lemma inside_alone: "lock_inv holds progs x0 m \<Longrightarrow> 0 < m_depth m t \<Longrightarrow> u \<noteq> t \<Longrightarrow> m_depth m u = 0"
  using lock_invD(3) by fastforce

lemma leave_inv:
  assumes inv: "lock_inv holds progs x0 m" and prog: "m_prog m t = P_unlock # p"
  shows "\<exists>l. unlock t (m_lock m) = Inr l \<and> lock_inv holds progs x0 (left t l p m)"
proof -
  have pos: "0 < m_depth m t" and guard: "guarded (m_depth m t - 1) p" using lock_invD(2) [OF inv, of t] prog by simp_all
  have "holds (m_lock m) = m_depth m" using lock_invD(1) [OF inv] by blast
  then obtain l where l: "unlock t (m_lock m) = Inr l" "holds l = (m_depth m)(t := m_depth m t - 1)" using unlock_holds [of "m_lock m" t] pos by auto
  have data: "run_ops (section_ops (m_depth (left t l p m) t) (m_prog (left t l p m) t)) (m_data (left t l p m)) = serial (m_log (left t l p m)) x0"
    using lock_invD(5) [OF inv pos] prog pos by (cases "m_depth m t") (simp_all add: left_def)
  have depth: "m_depth (left t l p m) = holds (m_lock (left t l p m))" using l(2) by (simp add: left_def)
  have "lock_inv holds progs x0 (left t l p m)"
    by (rule lock_inv_step [OF inv inside_alone [OF inv pos] _ depth _ _ data])
      (use prog guard inside_alone [OF inv pos] in \<open>simp_all add: left_def\<close>)
  then show ?thesis using l(1) by blast
qed

lemma act_inv:
  assumes inv: "lock_inv holds progs x0 m" and prog: "m_prog m t = P_do f # p"
  shows "lock_inv holds progs x0 (acted t f p m)"
proof -
  have pos: "0 < m_depth m t" and guard: "guarded (m_depth m t) p" using lock_invD(2) [OF inv, of t] prog by simp_all
  have depth: "m_depth (acted t f p m) = holds (m_lock (acted t f p m))" using lock_invD(1) [OF inv] by (auto simp: acted_def)
  have data: "run_ops (section_ops (m_depth (acted t f p m) t) (m_prog (acted t f p m) t)) (m_data (acted t f p m)) = serial (m_log (acted t f p m)) x0"
    using lock_invD(5) [OF inv pos] prog pos by (cases "m_depth m t") (simp_all add: acted_def run_ops_def)
  show ?thesis
    by (rule lock_inv_step [OF inv inside_alone [OF inv pos] _ depth _ _ data])
      (use prog guard inside_alone [OF inv pos] in \<open>simp_all add: acted_def\<close>)
qed

lemma sched_inv:
  assumes "lock_inv holds progs x0 m"
  shows "\<exists>m'. sched lock unlock t m = Inr m' \<and> lock_inv holds progs x0 m'"
proof (cases "m_prog m t")
  case (Cons a p)
  then show ?thesis using assms enter_inv [OF assms, of t p] leave_inv [OF assms, of t p] act_inv [OF assms, of t _ p]
    by (cases a) (auto simp: sched_def split: option.splits)
qed (use assms in \<open>simp add: sched_def\<close>)

lemma run_inv: "lock_inv holds progs x0 m \<Longrightarrow> \<exists>m'. run_threads lock unlock ts m = Inr m' \<and> lock_inv holds progs x0 m'"
proof (induction ts arbitrary: m)
  case (Cons t ts)
  then show ?case using sched_inv [OF Cons.prems, of t] by (auto simp: run_threads_def)
qed (simp add: run_threads_def)

text \<open>Some thread that is not done can take a step: a thread inside a block if there is one, else any.\<close>

lemma progress:
  assumes inv: "lock_inv holds progs x0 m" and todo: "m_prog m s \<noteq> []"
  shows "\<exists>t m'. sched lock unlock t m = Inr m' \<and> m_prog m t \<noteq> [] \<and> m_prog m' t = tl (m_prog m t)"
proof -
  have go: "\<exists>m'. sched lock unlock t m = Inr m' \<and> m_prog m' t = tl (m_prog m t)"
    if more: "m_prog m t \<noteq> []" and alone: "\<And>u. u \<noteq> t \<Longrightarrow> m_depth m u = 0" for t
  proof -
    obtain a p where p: "m_prog m t = a # p" using more by (cases "m_prog m t") auto
    obtain l where "lock t (m_lock m) = Some l" using lock_grants [of t "m_lock m"] lock_invD(1) [OF inv] alone by auto
    then show ?thesis using p leave_inv [OF inv, of t p] by (cases a) (auto simp: sched_def entered_def left_def acted_def)
  qed
  show ?thesis
  proof (cases "\<exists>t. 0 < m_depth m t")
    case True
    then obtain t where t: "0 < m_depth m t" by blast
    then have "m_prog m t \<noteq> []" using lock_invD(2) [OF inv, of t] by (cases "m_prog m t") auto
    then show ?thesis using go [OF _ inside_alone [OF inv t]] by blast
  qed (use go [OF todo] todo in auto)
qed

lemma serializes:
  fixes x0 :: 's
  assumes "\<And>t. progs t = program (blocks t)"
  shows "\<exists>m. run_threads lock unlock ts (start l0 x0 progs) = Inr m \<and>
    (\<forall>t u. 0 < m_depth m t \<and> 0 < m_depth m u \<longrightarrow> t = u) \<and>
    ((\<forall>t. m_depth m t = 0) \<longrightarrow> m_data m = serial (m_log m) x0) \<and>
    (\<forall>t. \<exists>todo. map (\<lambda>cs. actions (Locked cs)) (blocks t) = log_of t (m_log m) @ todo \<and> (m_prog m t = [] \<longrightarrow> todo = [] \<and> m_depth m t = 0)) \<and>
    ((\<exists>t. m_prog m t \<noteq> []) \<longrightarrow> (\<exists>t m'. sched lock unlock t m = Inr m' \<and> m_prog m t \<noteq> [] \<and> m_prog m' t = tl (m_prog m t)))"
proof -
  have start: "lock_inv holds progs x0 (start l0 x0 progs)" by (rule start_inv) (simp add: assms program_blocks)
  obtain m where run: "run_threads lock unlock ts (start l0 x0 progs) = Inr m" and inv: "lock_inv holds progs x0 m"
    using run_inv [OF start] by blast
  have "map (\<lambda>cs. actions (Locked cs)) (blocks t) = log_of t (m_log m) @ sections (m_depth m t) (m_prog m t)" for t
    using lock_invD(4) [OF inv, of t] program_blocks [of "blocks t"] assms by simp
  then have "\<exists>todo. map (\<lambda>cs. actions (Locked cs)) (blocks t) = log_of t (m_log m) @ todo \<and> (m_prog m t = [] \<longrightarrow> todo = [] \<and> m_depth m t = 0)" for t
    using lock_invD(2) [OF inv, of t] by (intro exI [of _ "sections (m_depth m t) (m_prog m t)"]) auto
  moreover have "\<forall>t u. 0 < m_depth m t \<and> 0 < m_depth m u \<longrightarrow> t = u" "(\<forall>t. m_depth m t = 0) \<longrightarrow> m_data m = serial (m_log m) x0"
    using lock_invD(3,6) [OF inv] by blast+
  ultimately show ?thesis using run progress [OF inv] by (intro exI [of _ m] conjI impI allI) (blast, blast, blast, blast, metis)
qed

end

section \<open>The locks of the library keep the promise\<close>

definition recursive_mutex_holds :: "recursive_mutex \<Rightarrow> nat \<Rightarrow> nat" where
  "recursive_mutex_holds m t = (case m of None \<Rightarrow> 0 | Some (u, n) \<Rightarrow> if u = t then Suc n else 0)"

interpretation rm: exclusive_lock recursive_mutex_lock recursive_mutex_unlock recursive_mutex_holds None
proof unfold_locales
  fix t l
  assume alone: "\<And>u. u \<noteq> t \<Longrightarrow> recursive_mutex_holds l u = 0"
  then have "\<forall>u. u \<noteq> t \<longrightarrow> recursive_mutex_holds l u = 0" by blast
  then show "\<exists>l'. recursive_mutex_lock t l = Some l'"
    by (cases l) (auto simp: recursive_mutex_lock_def recursive_mutex_holds_def split: if_splits)
qed (auto simp: recursive_mutex_lock_def recursive_mutex_unlock_def recursive_mutex_holds_def fun_eq_iff split: option.splits if_splits)

text \<open>
  What Windows documents of critical sections: a thread may enter one it owns; a thread waits while another thread owns it; the owner leaves it as often as it has
  entered.
\<close>

definition cs_law :: "'c cs_api \<Rightarrow> ('c \<Rightarrow> nat \<Rightarrow> nat) \<Rightarrow> bool" where
  "cs_law os holds \<longleftrightarrow> (\<forall>t. holds (InitializeCriticalSection os) t = 0) \<and> (\<forall>n t. holds (InitializeCriticalSectionAndSpinCount os n) t = 0) \<and>
     (\<forall>t c. (\<exists>c'. EnterCriticalSection os t c = Some c') \<longleftrightarrow> (\<forall>u. u \<noteq> t \<longrightarrow> holds c u = 0)) \<and>
     (\<forall>t c c'. EnterCriticalSection os t c = Some c' \<longrightarrow> holds c' = (holds c)(t := Suc (holds c t))) \<and>
     (\<forall>t c. 0 < holds c t \<longrightarrow> (\<exists>c'. LeaveCriticalSection os t c = Inr c' \<and> holds c' = (holds c)(t := holds c t - 1)))"

lemma critical_section_exclusive:
  "cs_law os holds \<Longrightarrow> exclusive_lock (critical_section_lock os) (critical_section_unlock os) holds (critical_section_make os)"
  unfolding cs_law_def critical_section_lock_def critical_section_unlock_def critical_section_make_def by unfold_locales (blast | metis)+

lemma spin_lock_exclusive:
  "cs_law os holds \<Longrightarrow> exclusive_lock (spin_lock_lock os) (spin_lock_unlock os) holds (spin_lock_make os count)"
  unfolding cs_law_def spin_lock_lock_def spin_lock_unlock_def spin_lock_make_def by unfold_locales (blast | metis)+

text \<open>Mutexes likewise; a thread that does not own a mutex cannot release it.\<close>

definition mutex_law :: "'w mutex_api \<Rightarrow> ('w \<Rightarrow> nat \<Rightarrow> nat \<Rightarrow> nat) \<Rightarrow> bool" where
  "mutex_law os holds \<longleftrightarrow> (\<forall>w w' h t. CreateMutex os w = (Some h, w') \<longrightarrow> holds w' h t = 0) \<and>
     (\<forall>t h w. (\<exists>w'. WaitForMutex os h t w = Some w') \<longleftrightarrow> (\<forall>u. u \<noteq> t \<longrightarrow> holds w h u = 0)) \<and>
     (\<forall>t h w w'. WaitForMutex os h t w = Some w' \<longrightarrow> holds w' h = (holds w h)(t := Suc (holds w h t))) \<and>
     (\<forall>t h w. holds (ReleaseMutex os h t w) h = (holds w h)(t := holds w h t - 1))"

lemma mutex_exclusive:
  assumes "mutex_law os holds" "mutex_make os w = (Some h, w0)"
  shows "exclusive_lock (\<lambda>t w. map_option snd (mutex_lock os t (Some h, w))) (\<lambda>t w. bindR (mutex_unlock os t (Some h, w)) (\<lambda>m. Inr (snd m))) (\<lambda>w. holds w h) w0"
  using assms unfolding mutex_law_def mutex_make_def mutex_lock_def mutex_unlock_def
  by unfold_locales (auto simp: option.map_comp comp_def option.map_ident, (metis | blast)+)

text \<open>Mutexes as a table of recursive mutexes satisfy the law.\<close>

lemma mutex_law_satisfied:
  "mutex_law \<lparr>CreateMutex = \<lambda>w. (Some 0, w(0 := None)), WaitForMutex = \<lambda>h t w. map_option (\<lambda>m. w(h := m)) (recursive_mutex_lock t (w h)),
     ReleaseMutex = \<lambda>h t w. (case recursive_mutex_unlock t (w h) of Inl e \<Rightarrow> w | Inr m \<Rightarrow> w(h := m)), CloseMutex = \<lambda>h w. w\<rparr>
     (\<lambda>w h. recursive_mutex_holds (w h))"
proof -
  have grant: "(\<exists>m'. recursive_mutex_lock t m = Some m') \<longleftrightarrow> (\<forall>u. u \<noteq> t \<longrightarrow> recursive_mutex_holds m u = 0)" for t m
    using rm.lock_grants [of t m] rm.lock_excludes [of t m] by blast
  have "recursive_mutex_holds (case recursive_mutex_unlock t m of Inl e \<Rightarrow> m | Inr m' \<Rightarrow> m') =
      (recursive_mutex_holds m)(t := recursive_mutex_holds m t - 1)" for t m
    by (auto simp: recursive_mutex_unlock_def recursive_mutex_holds_def fun_eq_iff split: option.splits)
  then have release: "recursive_mutex_holds ((case recursive_mutex_unlock t (w h) of Inl e \<Rightarrow> w | Inr m \<Rightarrow> w(h := m)) h) =
      (recursive_mutex_holds (w h))(t := recursive_mutex_holds (w h) t - 1)" for t h w
    by (metis (no_types, lifting) fun_upd_same old.sum.exhaust old.sum.simps(5,6))
  show ?thesis unfolding mutex_law_def using grant release rm.lock_holds by (auto simp: rm.new_lock)
qed

section \<open>Properties\<close>

text \<open>
  C6. Code under \<open>auto_lock_t\<close> on a critical section: threads run blocks, nested to any depth, on a shared object. However their steps are interleaved, nothing goes wrong,
  one thread at most is inside a block, and when none is the object is what the blocks entered so far make of it when each runs alone, one after the other;
  these are the first blocks of every thread in the order of its program, and all of them when it is done. As long as some thread is not done, one can go on.
\<close>

theorem auto_lock_serializes:
  assumes "cs_law os holds"
  shows "\<exists>m. run_threads (critical_section_lock os) (critical_section_unlock os) ts (start (critical_section_make os) x0 (\<lambda>t. program (blocks t))) = Inr m \<and>
    (\<forall>t u. 0 < m_depth m t \<and> 0 < m_depth m u \<longrightarrow> t = u) \<and>
    ((\<forall>t. m_depth m t = 0) \<longrightarrow> m_data m = serial (m_log m) x0) \<and>
    (\<forall>t. \<exists>todo. map (\<lambda>cs. actions (Locked cs)) (blocks t) = log_of t (m_log m) @ todo \<and> (m_prog m t = [] \<longrightarrow> todo = [] \<and> m_depth m t = 0)) \<and>
    ((\<exists>t. m_prog m t \<noteq> []) \<longrightarrow>
      (\<exists>t m'. sched (critical_section_lock os) (critical_section_unlock os) t m = Inr m' \<and> m_prog m t \<noteq> [] \<and> m_prog m' t = tl (m_prog m t)))"
  by (rule exclusive_lock.serializes [OF critical_section_exclusive [OF assms] refl])

text \<open>Critical sections as recursive mutexes, and two threads that each add to a number.\<close>

definition demo_cs :: "recursive_mutex cs_api" where
  "demo_cs = \<lparr>InitializeCriticalSection = None, InitializeCriticalSectionAndSpinCount = (\<lambda>n. None),
     EnterCriticalSection = recursive_mutex_lock, LeaveCriticalSection = recursive_mutex_unlock\<rparr>"

lemma demo_cs_law: "cs_law demo_cs recursive_mutex_holds"
  unfolding cs_law_def demo_cs_def
  using rm.new_lock rm.lock_grants rm.lock_excludes rm.lock_holds rm.unlock_holds by simp blast

definition demo_blocks :: "nat \<Rightarrow> (nat \<times> nat) code list list" where
  "demo_blocks t = (if t < 2 then [[Act (\<lambda>(x, tmp). (x, x)), Locked [Act (\<lambda>(x, tmp). (tmp + t + 1, tmp))]]] else [])"

theorem auto_lock_serializes_witness:
  "\<exists>m. run_threads (critical_section_lock demo_cs) (critical_section_unlock demo_cs) [0, 1, 0, 1, 0, 0, 0, 0, 1, 1, 1, 1, 1, 1]
      (start (critical_section_make demo_cs) (5, 0) (\<lambda>t. program (demo_blocks t))) = Inr m \<and> m_data m = serial (m_log m) (5, 0) \<and> fst (m_data m) = 8"
proof -
  let ?run = "run_threads (critical_section_lock demo_cs) (critical_section_unlock demo_cs) [0, 1, 0, 1, 0, 0, 0, 0, 1, 1, 1, 1, 1, 1]
      (start (critical_section_make demo_cs) (5, 0) (\<lambda>t. program (demo_blocks t)))"
  obtain m where m: "?run = Inr m" "(\<forall>t. m_depth m t = 0) \<longrightarrow> m_data m = serial (m_log m) (5, 0)"
    using auto_lock_serializes [OF demo_cs_law, of "[0, 1, 0, 1, 0, 0, 0, 0, 1, 1, 1, 1, 1, 1]" "(5, 0)" demo_blocks] by blast
  have "\<exists>m. ?run = Inr m \<and> (\<forall>t. m_depth m t = 0) \<and> fst (m_data m) = 8"
    by (simp add: run_threads_def sched_def start_def program_def demo_blocks_def auto_lock_defs demo_cs_def critical_section_lock_def critical_section_unlock_def
        critical_section_make_def recursive_mutex_lock_def recursive_mutex_unlock_def entered_def left_def acted_def eval_nat_numeral result_simps)
  then show ?thesis using m by auto
qed

text \<open>Without a lock, or with a mutex that could not be created, an update is lost: both threads read before either stores.\<close>

lemma lock_null_loses_update:
  "\<exists>m. run_threads lock_null_lock lock_null_unlock [0, 0, 1, 1, 0, 0, 1, 1, 0, 0, 1, 1]
     (start () (5, \<lambda>t. 0) (\<lambda>t. program (if t < 2 then [[Act (\<lambda>(x, tmp). (x, tmp(t := x))), Act (\<lambda>(x, tmp). (tmp t + 1, tmp))]] else []))) = Inr m \<and>
     (\<forall>t. m_prog m t = []) \<and> fst (m_data m) = (6 :: nat)"
  by (simp add: run_threads_def sched_def start_def program_def auto_lock_defs lock_null_lock_def lock_null_unlock_def
      entered_def left_def acted_def eval_nat_numeral result_simps)

lemma mutex_null_is_lock_null: "mutex_lock os t (None, w) = Some (None, w) \<and> mutex_unlock os t (None, w) = Inr (None, w)"
  by (simp add: mutex_lock_def mutex_unlock_def)

subsection \<open>Slim locks\<close>

text \<open>
  A slim lock must be released in the mode in which the thread has acquired it. The calls of one thread are checked against this: \<open>held\<close> is the mode in which it
  holds the lock.
\<close>

fun srw_protocol :: "srw_call option \<Rightarrow> srw_call list \<Rightarrow> bool" where
  "srw_protocol held [] \<longleftrightarrow> True"
| "srw_protocol held (AcquireShared # cs) \<longleftrightarrow> held = None \<and> srw_protocol (Some AcquireShared) cs"
| "srw_protocol held (AcquireExclusive # cs) \<longleftrightarrow> held = None \<and> srw_protocol (Some AcquireExclusive) cs"
| "srw_protocol held (ReleaseShared # cs) \<longleftrightarrow> held = Some AcquireShared \<and> srw_protocol None cs"
| "srw_protocol held (ReleaseExclusive # cs) \<longleftrightarrow> held = Some AcquireExclusive \<and> srw_protocol None cs"

text \<open>Shared locks are used as they must be, as often as one likes; an exclusive lock never is, because \<open>w_unlock\<close> releases it in shared mode.\<close>

theorem rd_lock_protocol:
  "srw_protocol None (concat (replicate n (rd_lock_lock True @ rd_lock_unlock True))) \<and> \<not> srw_protocol None (rd_lock_lock False @ rd_lock_unlock False @ cs)"
  by (induction n) (simp_all add: rd_lock_lock_def rd_lock_unlock_def r_lock_def r_unlock_def w_lock_def w_unlock_def)

end
