(* ===== verification/Sync_Container.thy ===== *)
theory Sync_Container
  imports Net_Server Std_Utility Sync_Lock
begin

text \<open>
  The synchronised containers of \<open>include/extend_stl/container/sync_container.hpp\<close> with several threads: every operation is a block under a \<open>std::lock_guard\<close> of the
  container's recursive mutex. The operations on the elements are those of \<open>Net_Server\<close> and \<open>Std_Utility\<close>; here are the remaining ones, and the sequence of
  calls that any interleaving amounts to.
\<close>

section \<open>Remaining operations\<close>

text \<open>\<open>for_each\<close> passes the elements to the operation one by one; it may change them and what it refers to.\<close>

fun seq_for_each :: "('a \<Rightarrow> 'e \<Rightarrow> 'a \<times> 'e) \<Rightarrow> 'a list \<Rightarrow> 'e \<Rightarrow> 'a list \<times> 'e" where
  "seq_for_each op [] e = ([], e)"
| "seq_for_each op (x # q) e = (let (x', e') = op x e; (q', e'') = seq_for_each op q e' in (x' # q', e''))"

definition seq_sort :: "'a::linorder list \<Rightarrow> 'a list" where
  "seq_sort q = sort q"

definition assoc_size :: "('k, 'v) assoc \<Rightarrow> nat" where
  "assoc_size c = length c"

definition assoc_empty :: "('k, 'v) assoc \<Rightarrow> bool" where
  "assoc_empty c \<longleftrightarrow> c = []"

definition assoc_clear :: "('k, 'v) assoc \<Rightarrow> ('k, 'v) assoc" where
  "assoc_clear c = []"

fun assoc_for_each :: "('k \<Rightarrow> 'v \<Rightarrow> 'e \<Rightarrow> 'v \<times> 'e) \<Rightarrow> ('k, 'v) assoc \<Rightarrow> 'e \<Rightarrow> ('k, 'v) assoc \<times> 'e" where
  "assoc_for_each op [] e = ([], e)"
| "assoc_for_each op ((k, v) # c) e = (let (v', e') = op k v e; (c', e'') = assoc_for_each op c e' in ((k, v') # c', e''))"

text \<open>\<open>for_each\<close> keeps the keys and the number of elements, so the container stays in order.\<close>

lemma assoc_for_each_keys: "map fst (fst (assoc_for_each op c e)) = map fst c"
  by (induction op c e rule: assoc_for_each.induct) (auto simp: Let_def split: prod.splits)

lemma seq_for_each_length: "length (fst (seq_for_each op q e)) = length q"
  by (induction op q e rule: seq_for_each.induct) (auto simp: Let_def split: prod.splits)

lemma seq_for_each_pure: "seq_for_each (\<lambda>x e. (f x, e @ [x])) q e = (map f q, e @ q)"
  by (induction q arbitrary: e) simp_all

section \<open>Calls\<close>

text \<open>
  The container of a \<open>std::deque\<close>, for which every operation can be used: its elements with the addresses of their cells, and an address not in use. Adding an element at either end
  leaves the other cells where they are; sorting moves the values between the cells. \<open>operator[]\<close> and \<open>top\<close> return a reference, the address of a cell: what is read through it is
  not part of the call, which has given up the lock.
\<close>

type_synonym 'a cells = "(nat \<times> 'a) list \<times> nat"

datatype 'a seq_op = Op_size | Op_empty | Op_clear | Op_at nat | Op_top | Op_pop_top | Op_push_front 'a | Op_push_back 'a | Op_for_each "'a \<Rightarrow> 'a" | Op_sort

datatype seq_ret = R_void | R_size nat | R_bool bool | R_ref nat

fun seq_apply :: "'a::linorder seq_op \<Rightarrow> 'a cells \<Rightarrow> seq_ret result \<times> 'a cells" where
  "seq_apply Op_size (q, n) = (Inr (R_size (seq_size q)), (q, n))"
| "seq_apply Op_empty (q, n) = (Inr (R_bool (seq_empty q)), (q, n))"
| "seq_apply Op_clear (q, n) = (Inr R_void, (seq_clear q, n))"
| "seq_apply (Op_at pos) (q, n) = (bindR (seq_at q pos) (\<lambda>c. Inr (R_ref (fst c))), (q, n))"
| "seq_apply Op_top (q, n) = (bindR (seq_top q) (\<lambda>c. Inr (R_ref (fst c))), (q, n))"
| "seq_apply Op_pop_top (q, n) = (case seq_pop_top q of Inl e \<Rightarrow> (Inl e, (q, n)) | Inr q' \<Rightarrow> (Inr R_void, (q', n)))"
| "seq_apply (Op_push_front x) (q, n) = (Inr R_void, (seq_push_front (n, x) q, Suc n))"
| "seq_apply (Op_push_back x) (q, n) = (Inr R_void, (seq_push_back (n, x) q, Suc n))"
| "seq_apply (Op_for_each f) (q, n) = (Inr R_void, (fst (seq_for_each (\<lambda>c e. ((fst c, f (snd c)), e)) q ()), n))"
| "seq_apply Op_sort (q, n) = (Inr R_void, (zip (map fst q) (seq_sort (map snd q)), n))"

text \<open>Reading through a reference: undefined when its cell is gone.\<close>

definition read_ref :: "nat \<Rightarrow> 'a cells \<Rightarrow> 'a result" where
  "read_ref a c = (case map_of (fst c) a of None \<Rightarrow> Inl Access_violation | Some x \<Rightarrow> Inr x)"

text \<open>The shared state: the elements, and what the calls of each thread have returned.\<close>

type_synonym 'a seq_shared = "'a cells \<times> (nat \<Rightarrow> seq_ret result list)"

definition seq_call :: "nat \<Rightarrow> 'a::linorder seq_op \<Rightarrow> 'a seq_shared \<Rightarrow> 'a seq_shared" where
  "seq_call t op = (\<lambda>(q, res). let (r, q') = seq_apply op q in (q', res(t := res t @ [r])))"

text \<open>Each call is a block under the lock.\<close>

definition seq_blocks :: "nat \<Rightarrow> 'a::linorder seq_op list \<Rightarrow> 'a seq_shared code list list" where
  "seq_blocks t ops = map (\<lambda>op. [Act (seq_call t op)]) ops"

definition run_calls :: "(nat \<times> 'a::linorder seq_op) list \<Rightarrow> 'a seq_shared \<Rightarrow> 'a seq_shared" where
  "run_calls order x = fold (\<lambda>(t, op). seq_call t op) order x"

text \<open>A log of blocks that are the threads' calls is a sequence of calls.\<close>

lemma log_of_calls: "log_of t (map (\<lambda>(t, op). (t, [f t op])) order) = map (\<lambda>op. [f t op]) (log_of t order)"
  by (induction order) (auto simp: log_of_def)

lemma order_of_log:
  assumes "\<And>t. \<exists>todo. map (\<lambda>op. [f t op]) (calls t) = log_of t log @ todo"
  shows "\<exists>order. log = map (\<lambda>(t, op). (t, [f t op])) order \<and> (\<forall>t. \<exists>rest. calls t = log_of t order @ rest)"
  using assms
proof (induction log rule: rev_induct)
  case (snoc e log)
  obtain t fs where e: "e = (t, fs)" by (cases e)
  have prefix: "\<exists>todo. map (\<lambda>op. [f u op]) (calls u) = log_of u log @ todo" for u
    using snoc.prems [of u] by (auto simp: log_of_def)
  obtain order where order: "log = map (\<lambda>(t, op). (t, [f t op])) order" "\<And>u. \<exists>rest. calls u = log_of u order @ rest"
    using snoc.IH [OF prefix] by blast
  have log_t: "log_of t log = map (\<lambda>op. [f t op]) (log_of t order)" unfolding order(1) by (rule log_of_calls)
  obtain todo where "map (\<lambda>op. [f t op]) (calls t) = log_of t log @ fs # todo" using snoc.prems [of t] by (auto simp: log_of_def e)
  moreover obtain rest where rest: "calls t = log_of t order @ rest" using order(2) by blast
  ultimately have "map (\<lambda>op. [f t op]) rest = fs # todo" using log_t by simp
  then obtain op rest' where "rest = op # rest'" "fs = [f t op]" by (cases rest) auto
  then have "\<exists>rest. calls u = log_of u (order @ [(t, op)]) @ rest" for u using rest order(2) [of u] by (auto simp: log_of_def)
  moreover have "log @ [e] = map (\<lambda>(t, op). (t, [f t op])) (order @ [(t, op)])" using order(1) e \<open>fs = [f t op]\<close> by simp
  ultimately show ?case by blast
qed (auto simp: log_of_def)

lemma serial_calls: "serial (map (\<lambda>(t, op). (t, [seq_call t op])) order) x = run_calls order x"
  by (induction order arbitrary: x) (auto simp: serial_def run_ops_def run_calls_def)


definition demo_calls :: "nat \<Rightarrow> nat seq_op list" where
  "demo_calls t = (if t = 0 then [Op_push_back 3, Op_top] else if t = 1 then [Op_push_back 1, Op_sort] else [])"


section \<open>References\<close>

text \<open>
  A reference is to the element it was given for: read at once, before any other call, it gives the element at the position.
\<close>

lemma reference_read_at_once:
  assumes "distinct (map fst q)" "seq_apply (Op_at pos) (q, n) = (Inr (R_ref a), c)"
  shows "pos < length q \<and> read_ref a c = Inr (snd (q ! pos))"
proof -
  have pos: "pos < length q" "a = fst (q ! pos)" "c = (q, n)" using assms(2) by (auto simp: seq_at_def split: if_splits)
  then have "map_of q a = Some (snd (q ! pos))" using assms(1) by (simp add: map_of_eq_Some_iff)
  then show ?thesis using pos by (simp add: read_ref_def)
qed

text \<open>But the lock is no longer held then: another thread's call in between changes what is read, or takes the cell away.\<close>

lemma reference_read_later:
  defines "c \<equiv> ([(0, 3), (1, 1)], 2) :: nat cells"
  shows "seq_apply Op_top c = (Inr (R_ref 0), c)" "read_ref 0 c = Inr 3"
    "read_ref 0 (snd (seq_apply Op_sort c)) = Inr 1" "read_ref 0 (snd (seq_apply Op_pop_top c)) = Inl Access_violation"
  by (simp_all add: c_def seq_top_def seq_pop_top_def seq_sort_def read_ref_def)

end
