(* ===== verification/Win_Event.thy ===== *)
theory Win_Event
  imports Prelude
begin

text \<open>
  Events and thread-local storage: \<open>event_t\<close> of \<open>include/multi_thread/lock.hpp\<close> and \<open>include/multi_thread/tls.hpp\<close> with its call stack. The functions of
  Windows are parameters on a state of any type.
\<close>

section \<open>Events\<close>

record 'w event_os =
  os_create :: "string \<Rightarrow> bool \<Rightarrow> bool \<Rightarrow> 'w \<Rightarrow> nat option \<times> 'w"  \<comment> \<open>name, manual reset, initial state\<close>
  os_open :: "string \<Rightarrow> 'w \<Rightarrow> nat option \<times> 'w"
  os_close :: "nat \<Rightarrow> 'w \<Rightarrow> 'w"
  os_reset :: "nat \<Rightarrow> 'w \<Rightarrow> bool \<times> 'w"
  os_set :: "nat \<Rightarrow> 'w \<Rightarrow> bool \<times> 'w"
  os_pulse :: "nat \<Rightarrow> 'w \<Rightarrow> bool \<times> 'w"
  os_wait :: "nat \<Rightarrow> u32 \<Rightarrow> 'w \<Rightarrow> bool \<times> 'w"  \<comment> \<open>whether it returned \<open>WAIT_OBJECT_0\<close>\<close>

type_synonym 'w event_t = "nat option \<times> 'w"

definition event_make :: "nat option \<Rightarrow> 'w \<Rightarrow> 'w event_t" where
  "event_make hEvent w = (hEvent, w)"

definition event_create :: "'w event_os \<Rightarrow> string \<Rightarrow> bool \<Rightarrow> bool \<Rightarrow> 'w event_t \<Rightarrow> bool \<times> 'w event_t" where
  "event_create os name manual initial = (\<lambda>(h, w). let (h', w') = os_create os name manual initial w in (h' \<noteq> None, (h', w')))"

definition event_open :: "'w event_os \<Rightarrow> string \<Rightarrow> 'w event_t \<Rightarrow> bool \<times> 'w event_t" where
  "event_open os name = (\<lambda>(h, w). let (h', w') = os_open os name w in (h' \<noteq> None, (h', w')))"

definition event_is_open :: "'w event_t \<Rightarrow> bool" where
  "event_is_open = (\<lambda>(h, w). h \<noteq> None)"

definition event_close :: "'w event_os \<Rightarrow> 'w event_t \<Rightarrow> 'w event_t" where
  "event_close os = (\<lambda>(h, w). case h of None \<Rightarrow> (h, w) | Some i \<Rightarrow> (None, os_close os i w))"

definition event_attach :: "nat option \<Rightarrow> 'w event_t \<Rightarrow> 'w event_t" where
  "event_attach hEvent = (\<lambda>(h, w). (hEvent, w))"

definition event_detach :: "'w event_t \<Rightarrow> nat option \<times> 'w event_t" where
  "event_detach = (\<lambda>(h, w). (h, (None, w)))"

text \<open>Without a handle the call is made with a null handle and fails.\<close>

definition on_handle :: "(nat \<Rightarrow> 'w \<Rightarrow> bool \<times> 'w) \<Rightarrow> 'w event_t \<Rightarrow> bool \<times> 'w event_t" where
  "on_handle f = (\<lambda>(h, w). case h of None \<Rightarrow> (False, (h, w)) | Some i \<Rightarrow> let (ok, w') = f i w in (ok, (h, w')))"

definition reset_event :: "'w event_os \<Rightarrow> 'w event_t \<Rightarrow> bool \<times> 'w event_t" where
  "reset_event os = on_handle (os_reset os)"

definition set_event :: "'w event_os \<Rightarrow> 'w event_t \<Rightarrow> bool \<times> 'w event_t" where
  "set_event os = on_handle (os_set os)"

definition pulse_event :: "'w event_os \<Rightarrow> 'w event_t \<Rightarrow> bool \<times> 'w event_t" where
  "pulse_event os = on_handle (os_pulse os)"

definition is_signalled :: "'w event_os \<Rightarrow> 'w event_t \<Rightarrow> bool \<times> 'w event_t" where
  "is_signalled os = on_handle (\<lambda>i. os_wait os i 0)"

definition wait_for_event :: "'w event_os \<Rightarrow> u32 \<Rightarrow> 'w event_t \<Rightarrow> bool \<times> 'w event_t" where
  "wait_for_event os dwTimeout = on_handle (\<lambda>i. os_wait os i dwTimeout)"

text \<open>
  What Windows documents of events: \<open>signalled w i\<close> is the state, \<open>manual w i\<close> the kind. A wait on a signalled event returns at once and resets one that is not manual; with
  no time to wait it returns at once.
\<close>

definition event_os_law :: "'w event_os \<Rightarrow> ('w \<Rightarrow> nat \<Rightarrow> bool) \<Rightarrow> ('w \<Rightarrow> nat \<Rightarrow> bool) \<Rightarrow> bool" where
  "event_os_law os signalled manual \<longleftrightarrow>
     (\<forall>i w. fst (os_set os i w) \<and> signalled (snd (os_set os i w)) i \<and> manual (snd (os_set os i w)) i = manual w i) \<and>
     (\<forall>i w. fst (os_reset os i w) \<and> \<not> signalled (snd (os_reset os i w)) i \<and> manual (snd (os_reset os i w)) i = manual w i) \<and>
     (\<forall>i n w. signalled w i \<longrightarrow> fst (os_wait os i n w) \<and> signalled (snd (os_wait os i n w)) i = manual w i \<and> manual (snd (os_wait os i n w)) i = manual w i) \<and>
     (\<forall>i w. \<not> signalled w i \<longrightarrow> \<not> fst (os_wait os i 0 w)) \<and>
     (\<forall>name m s w i. fst (os_create os name m s w) = Some i \<longrightarrow>
       signalled (snd (os_create os name m s w)) i = s \<and> manual (snd (os_create os name m s w)) i = m)"

lemma event_os_lawD:
  assumes "event_os_law os signalled manual"
  shows "fst (os_set os i w) \<and> signalled (snd (os_set os i w)) i \<and> manual (snd (os_set os i w)) i = manual w i"
    "signalled w i \<Longrightarrow> fst (os_wait os i n w) \<and> signalled (snd (os_wait os i n w)) i = manual w i \<and> manual (snd (os_wait os i n w)) i = manual w i"
    "\<not> signalled w i \<Longrightarrow> \<not> fst (os_wait os i 0 w)"
    "fst (os_create os name m s w) = Some i \<Longrightarrow> manual (snd (os_create os name m s w)) i = m"
  using assms unfolding event_os_law_def by blast+

text \<open>
  An event that is set is seen by every \<open>is_signalled\<close> until it is reset when it is a manual one; of the other kind, the default of \<open>create\<close>, only the first call sees it,
  because the call itself resets the event.
\<close>

theorem is_signalled_once:
  assumes law: "event_os_law os signalled manual" and "event_create os name m initial e = (True, e1)" "set_event os e1 = (ok2, e2)"
    "is_signalled os e2 = (seen, e3)" "is_signalled os e3 = (again, e4)"
  shows "ok2 \<and> seen \<and> (again \<longleftrightarrow> m)"
proof -
  let ?w1 = "snd (os_create os name m initial (snd e))"
  obtain i where i: "fst (os_create os name m initial (snd e)) = Some i" and e1: "e1 = (Some i, ?w1)"
    using assms(2) by (cases e) (auto simp: event_create_def split: prod.splits)
  let ?w2 = "snd (os_set os i ?w1)" let ?w3 = "snd (os_wait os i 0 ?w2)"
  have e2: "(ok2, e2) = (fst (os_set os i ?w1), (Some i, ?w2))" using assms(3) e1 by (simp add: set_event_def on_handle_def split: prod.splits)
  have e3: "(seen, e3) = (fst (os_wait os i 0 ?w2), (Some i, ?w3))" using assms(4) e2 by (simp add: is_signalled_def on_handle_def split: prod.splits)
  have again: "again = fst (os_wait os i 0 ?w3)" using assms(5) e3 by (simp add: is_signalled_def on_handle_def split: prod.splits)
  have s2: "signalled ?w2 i" "manual ?w2 i = m" using event_os_lawD(1) [OF law, of i ?w1] event_os_lawD(4) [OF law i] by simp_all
  have s3: "signalled ?w3 i = m" "manual ?w3 i = m" using event_os_lawD(2) [OF law s2(1)] s2(2) by simp_all
  have "again = m" using event_os_lawD(2,3) [OF law, of ?w3 i] s3 again by blast
  then show ?thesis using e2 e3 event_os_lawD(1) [OF law, of i ?w1] event_os_lawD(2) [OF law s2(1)] by simp
qed

text \<open>Events as a table of kinds and states satisfy what is asked of them.\<close>

lemma event_os_law_satisfied:
  "event_os_law \<lparr>os_create = \<lambda>name m s w. (Some 0, w(0 := (m, s))), os_open = \<lambda>name w. (None, w), os_close = \<lambda>i w. w,
     os_reset = \<lambda>i w. (True, w(i := (fst (w i), False))), os_set = \<lambda>i w. (True, w(i := (fst (w i), True))), os_pulse = \<lambda>i w. (True, w(i := (fst (w i), False))),
     os_wait = \<lambda>i n w. (snd (w i), w(i := (fst (w i), fst (w i) \<and> snd (w i))))\<rparr> (\<lambda>w i. snd (w i)) (\<lambda>w i. fst (w i))"
  by (auto simp: event_os_law_def)

section \<open>Thread-local pointers\<close>

record ('w, 'a) tls_os =
  TlsAlloc :: "'w \<Rightarrow> u32 option \<times> 'w"
  TlsGetValue :: "nat \<Rightarrow> u32 \<Rightarrow> 'w \<Rightarrow> 'a option"
  TlsSetValue :: "nat \<Rightarrow> u32 \<Rightarrow> 'a option \<Rightarrow> 'w \<Rightarrow> 'w"

definition tls_ptr_make :: "('w, 'a) tls_os \<Rightarrow> 'w \<Rightarrow> u32 result \<times> 'w" where
  "tls_ptr_make os w = (case TlsAlloc os w of (None, w') \<Rightarrow> (Inl Runtime_error, w') | (Some key, w') \<Rightarrow> (Inr key, w'))"

definition tls_ptr_get :: "('w, 'a) tls_os \<Rightarrow> u32 \<Rightarrow> nat \<Rightarrow> 'w \<Rightarrow> 'a option" where
  "tls_ptr_get os key t w = TlsGetValue os t key w"

definition tls_ptr_assign :: "('w, 'a) tls_os \<Rightarrow> u32 \<Rightarrow> nat \<Rightarrow> 'a option \<Rightarrow> 'w \<Rightarrow> 'w" where
  "tls_ptr_assign os key t val w = TlsSetValue os t key val w"

definition tls_law :: "('w, 'a) tls_os \<Rightarrow> u32 \<Rightarrow> bool" where
  "tls_law os key \<longleftrightarrow> (\<forall>t u v w. TlsGetValue os u key (TlsSetValue os t key v w) = (if u = t then v else TlsGetValue os u key w))"

section \<open>Call stacks\<close>

text \<open>
  A context is an object at some address with its owner and the address of the next one; the slot of the thread points to the topmost. \<open>contains\<close> follows the
  pointers of the calling thread; it may not end on a cycle.
\<close>

record 'o call_context =
  owner :: 'o
  nxt :: "nat option"

type_synonym ('o, 'w) contexts = "(nat \<rightharpoonup> 'o call_context) \<times> 'w"

definition context_make :: "('w, nat) tls_os \<Rightarrow> u32 \<Rightarrow> nat \<Rightarrow> nat \<Rightarrow> 'o \<Rightarrow> ('o, 'w) contexts \<Rightarrow> ('o, 'w) contexts" where
  "context_make os key t this own = (\<lambda>(mem, w). (mem(this \<mapsto> \<lparr>owner = own, nxt = tls_ptr_get os key t w\<rparr>), tls_ptr_assign os key t (Some this) w))"

definition context_destroy :: "('w, nat) tls_os \<Rightarrow> u32 \<Rightarrow> nat \<Rightarrow> nat \<Rightarrow> ('o, 'w) contexts \<Rightarrow> ('o, 'w) contexts result" where
  "context_destroy os key t this = (\<lambda>(mem, w). case mem this of None \<Rightarrow> Inl Access_violation
     | Some c \<Rightarrow> Inr (mem(this := None), tls_ptr_assign os key t (nxt c) w))"

partial_function (option) contains_from :: "(nat \<rightharpoonup> 'o call_context) \<Rightarrow> nat option \<Rightarrow> 'o \<Rightarrow> bool result option" where
  "contains_from mem val own = (case val of None \<Rightarrow> Some (Inr False)
     | Some a \<Rightarrow> (case mem a of None \<Rightarrow> Some (Inl Access_violation)
         | Some c \<Rightarrow> if owner c = own then Some (Inr True) else contains_from mem (nxt c) own))"

definition contains :: "('w, nat) tls_os \<Rightarrow> u32 \<Rightarrow> nat \<Rightarrow> 'o \<Rightarrow> ('o, 'w) contexts \<Rightarrow> bool result option" where
  "contains os key t own = (\<lambda>(mem, w). contains_from mem (tls_ptr_get os key t w) own)"

text \<open>The contexts of a thread: the addresses and owners of those that are alive, topmost first, stand in the memory as a linked list.\<close>

fun stack_at :: "(nat \<rightharpoonup> 'o call_context) \<Rightarrow> nat option \<Rightarrow> (nat \<times> 'o) list \<Rightarrow> bool" where
  "stack_at mem val [] \<longleftrightarrow> val = None"
| "stack_at mem val ((a, own) # st) \<longleftrightarrow> val = Some a \<and> (\<exists>n. mem a = Some \<lparr>owner = own, nxt = n\<rparr> \<and> stack_at mem n st)"

lemma stack_at_fresh: "stack_at mem val st \<Longrightarrow> a \<notin> fst ` set st \<Longrightarrow> stack_at (mem(a := x)) val st"
  by (induction mem val st rule: stack_at.induct) auto

lemma contains_stack: "stack_at mem val st \<Longrightarrow> contains_from mem val own = Some (Inr (own \<in> snd ` set st))"
proof (induction mem val st rule: stack_at.induct)
  case (1 mem val)
  then show ?case by (simp add: contains_from.simps)
next
  case (2 mem val a own' st)
  then obtain n where "val = Some a" "mem a = Some \<lparr>owner = own', nxt = n\<rparr>" "stack_at mem n st" by auto
  then show ?case using "2.IH" by (subst contains_from.simps) auto
qed

text \<open>
  Blocks of threads come and go: \<open>Enter t a own\<close> puts a context on the stack of a thread, \<open>Leave t\<close> destroys the topmost one. \<open>stacks\<close> is what should be alive.
\<close>

datatype 'o ctx_event = Enter nat nat 'o | Leave nat

fun ctx_step :: "('w, nat) tls_os \<Rightarrow> u32 \<Rightarrow> 'o ctx_event \<Rightarrow> (nat \<Rightarrow> (nat \<times> 'o) list) \<times> ('o, 'w) contexts \<Rightarrow>
    ((nat \<Rightarrow> (nat \<times> 'o) list) \<times> ('o, 'w) contexts) result" where
  "ctx_step os key (Enter t a own) (stacks, c) = Inr (stacks(t := (a, own) # stacks t), context_make os key t a own c)"
| "ctx_step os key (Leave t) (stacks, c) = (case stacks t of [] \<Rightarrow> Inr (stacks, c)
     | e # st \<Rightarrow> bindR (context_destroy os key t (fst e) c) (\<lambda>c. Inr (stacks(t := st), c)))"

text \<open>A new object is at an address where none is alive.\<close>

fun fresh_run :: "'o ctx_event list \<Rightarrow> (nat \<Rightarrow> (nat \<times> 'o) list) \<Rightarrow> bool" where
  "fresh_run [] stacks \<longleftrightarrow> True"
| "fresh_run (Enter t a own # es) stacks \<longleftrightarrow> (\<forall>u. a \<notin> fst ` set (stacks u)) \<and> fresh_run es (stacks(t := (a, own) # stacks t))"
| "fresh_run (Leave t # es) stacks \<longleftrightarrow> fresh_run es (stacks(t := tl (stacks t)))"

definition ctx_inv :: "('w, nat) tls_os \<Rightarrow> u32 \<Rightarrow> (nat \<Rightarrow> (nat \<times> 'o) list) \<times> ('o, 'w) contexts \<Rightarrow> bool" where
  "ctx_inv os key = (\<lambda>(stacks, mem, w). (\<forall>t. stack_at mem (tls_ptr_get os key t w) (stacks t) \<and> distinct (map fst (stacks t))) \<and>
     (\<forall>t u. t \<noteq> u \<longrightarrow> fst ` set (stacks t) \<inter> fst ` set (stacks u) = {}))"

lemma enter_ctx:
  assumes law: "tls_law os key" and inv: "ctx_inv os key (stacks, c)" and fresh: "\<And>u. a \<notin> fst ` set (stacks u)"
  shows "ctx_inv os key (stacks(t := (a, own) # stacks t), context_make os key t a own c)"
proof -
  obtain mem w where c: "c = (mem, w)" by (cases c)
  have get: "tls_ptr_get os key u (tls_ptr_assign os key t v w) = (if u = t then v else tls_ptr_get os key u w)" for u v
    using law by (simp add: tls_law_def tls_ptr_get_def tls_ptr_assign_def)
  have "stack_at (mem(a \<mapsto> x)) (tls_ptr_get os key u w) (stacks u)" for u x
    using stack_at_fresh [OF _ fresh] inv by (simp add: ctx_inv_def c)
  then show ?thesis using inv fresh by (auto simp: ctx_inv_def c context_make_def get)
qed

lemma leave_ctx:
  assumes law: "tls_law os key" and inv: "ctx_inv os key (stacks, c)" and st: "stacks t = e # st"
  shows "\<exists>c'. context_destroy os key t (fst e) c = Inr c' \<and> ctx_inv os key (stacks(t := st), c')"
proof -
  obtain mem w where c: "c = (mem, w)" by (cases c)
  have get: "tls_ptr_get os key u (tls_ptr_assign os key t v w) = (if u = t then v else tls_ptr_get os key u w)" for u v
    using law by (simp add: tls_law_def tls_ptr_get_def tls_ptr_assign_def)
  have all: "stack_at mem (tls_ptr_get os key u w) (stacks u)" "distinct (map fst (stacks u))" for u using inv by (simp_all add: ctx_inv_def c)
  have disj: "fst ` set (stacks u) \<inter> fst ` set (stacks v) = {}" if "u \<noteq> v" for u v using inv that by (simp add: ctx_inv_def c)
  obtain n where n: "mem (fst e) = Some \<lparr>owner = snd e, nxt = n\<rparr>" "stack_at mem n st" using all(1) [of t] st by (cases e) auto
  have "stack_at (mem(fst e := None)) n st" using stack_at_fresh [OF n(2)] all(2) [of t] st by simp
  moreover have "stack_at (mem(fst e := None)) (tls_ptr_get os key u w) (stacks u)" if "u \<noteq> t" for u
    using stack_at_fresh [OF all(1)] disj [OF that] st by force
  moreover have "fst ` set st \<inter> fst ` set (stacks u) = {}" if "u \<noteq> t" for u using disj [OF that] st by auto
  ultimately have "ctx_inv os key (stacks(t := st), (mem(fst e := None), tls_ptr_assign os key t n w))"
    using all(2) disj st by (auto simp: ctx_inv_def get) (metis distinct.simps(2) list.simps(9))
  then show ?thesis using n(1) by (simp add: context_destroy_def c)
qed

lemma ctx_run:
  assumes "tls_law os key"
  shows "ctx_inv os key (stacks, c) \<Longrightarrow> fresh_run es stacks \<Longrightarrow> \<exists>s. foldR (ctx_step os key) es (stacks, c) = Inr s \<and> ctx_inv os key s"
proof (induction es stacks arbitrary: c rule: fresh_run.induct)
  case (2 t a own es stacks)
  have "ctx_inv os key (stacks(t := (a, own) # stacks t), context_make os key t a own c)" using enter_ctx [OF assms "2.prems"(1)] "2.prems"(2) by simp
  moreover have "fresh_run es (stacks(t := (a, own) # stacks t))" using "2.prems"(2) by simp
  ultimately show ?case using "2.IH" [of "context_make os key t a own c"] by (simp only: foldR.simps ctx_step.simps bindR.simps)
next
  case (3 t es stacks)
  show ?case
  proof (cases "stacks t")
    case (Cons e st)
    then obtain c' where "context_destroy os key t (fst e) c = Inr c'" "ctx_inv os key (stacks(t := st), c')" using leave_ctx [OF assms "3.prems"(1)] by blast
    moreover have "fresh_run es (stacks(t := st))" using "3.prems"(2) Cons by simp
    ultimately show ?thesis using "3.IH" [of c'] Cons by (simp del: fun_upd_apply)
  qed (use 3 in \<open>simp add: fun_upd_idem\<close>)
qed simp

text \<open>
  The call stack: whatever contexts the threads enter and leave, as blocks do, no pointer to a dead context is ever followed, the search ends, and \<open>contains\<close> is true in a thread exactly
  for the owners of the contexts that thread is in.
\<close>

theorem call_stack_contains:
  assumes "tls_law os key" "\<And>t. tls_ptr_get os key t w = None" "fresh_run es (\<lambda>t. [])"
  shows "\<exists>stacks c. foldR (ctx_step os key) es ((\<lambda>t. []), (Map.empty, w)) = Inr (stacks, c) \<and>
    (\<forall>t own. contains os key t own c = Some (Inr (own \<in> snd ` set (stacks t))))"
proof -
  have "ctx_inv os key ((\<lambda>t. []), (Map.empty, w))" using assms(2) by (simp add: ctx_inv_def)
  then obtain stacks c where run: "foldR (ctx_step os key) es ((\<lambda>t. []), (Map.empty, w)) = Inr (stacks, c)" and inv: "ctx_inv os key (stacks, c)"
    using ctx_run [OF assms(1) _ assms(3), of "(Map.empty, w)"] by (metis prod.exhaust)
  have "contains os key t own c = Some (Inr (own \<in> snd ` set (stacks t)))" for t own
    using contains_stack [of "fst c" "tls_ptr_get os key t (snd c)" "stacks t" own] inv by (cases c) (simp add: contains_def ctx_inv_def)
  then show ?thesis using run by blast
qed

definition demo_tls :: "(nat \<Rightarrow> nat option, nat) tls_os" where
  "demo_tls = \<lparr>TlsAlloc = (\<lambda>w. (Some 0, w)), TlsGetValue = (\<lambda>t key w. w t), TlsSetValue = (\<lambda>t key v w. w(t := v))\<rparr>"

theorem call_stack_contains_witness:
  "\<exists>stacks c. foldR (ctx_step demo_tls 0) [Enter 0 8 ''a'', Enter 1 16 ''b'', Enter 0 24 ''c'', Leave 1, Leave 0] ((\<lambda>t. []), (Map.empty, \<lambda>t. None)) = Inr (stacks, c) \<and>
     contains demo_tls 0 0 ''a'' c = Some (Inr True) \<and> contains demo_tls 0 0 ''c'' c = Some (Inr False) \<and> contains demo_tls 0 1 ''a'' c = Some (Inr False)"
proof -
  let ?es = "[Enter 0 8 ''a'', Enter 1 16 ''b'', Enter 0 24 ''c'', Leave 1, Leave 0]"
  have law: "tls_law demo_tls 0" by (simp add: tls_law_def demo_tls_def)
  have slots: "tls_ptr_get demo_tls 0 t (\<lambda>t. None) = None" for t by (simp add: tls_ptr_get_def demo_tls_def)
  have fresh: "fresh_run ?es (\<lambda>t. [])" by auto
  obtain stacks c where run: "foldR (ctx_step demo_tls 0) ?es ((\<lambda>t. []), (Map.empty, \<lambda>t. None)) = Inr (stacks, c)"
    and contains: "\<forall>t own. contains demo_tls 0 t own c = Some (Inr (own \<in> snd ` set (stacks t)))"
    using call_stack_contains [OF law slots fresh] by blast
  have stacks: "stacks 0 = [(8, ''a'')]" "stacks 1 = []"
    using run by (auto simp: context_make_def context_destroy_def tls_ptr_get_def tls_ptr_assign_def demo_tls_def result_simps)
  then show ?thesis using run contains by (intro exI [of _ stacks] exI [of _ c]) simp
qed

end
