(* ===== verification/Test_Mock.thy ===== *)
theory Test_Mock
  imports Ser_Roundtrip Msg_Decoder
begin

text \<open>
  The read test of \<open>test/read_write_test/read_write_test/read_write_test.cpp\<close>: a socket whose reads are answered by one of five functions, which
  write frames into the caller's buffer with the serialiser and cut them at different places, and a loop that hands what was read to the decoder.
\<close>

section \<open>The mock socket\<close>

record mock_socket =
  mock_buf :: bytes
  cur_pos :: u32

definition mock_socket_make :: mock_socket where
  "mock_socket_make = \<lparr>mock_buf = map (\<lambda>i. of_nat (65 + i)) [0..<32], cur_pos = 0\<rparr>"

text \<open>\<open>in.push_pointer(buf_.data() + pos, len)\<close>, \<open>in << value\<close> for an integer of four and of two bytes.\<close>

definition put_data :: "mock_socket \<Rightarrow> nat \<Rightarrow> u32 \<Rightarrow> serialize_t \<Rightarrow> serialize_t result" where
  "put_data m pos len = binary_in_push_pointer 1 (drop pos (mock_buf m)) len"

definition put_int :: "u32 \<Rightarrow> serialize_t \<Rightarrow> serialize_t result" where
  "put_int n = push (Pod 4) (VRaw (u32_rep n))"

definition put_short :: "byte \<Rightarrow> serialize_t \<Rightarrow> serialize_t result" where
  "put_short n = push (Pod 2) (VRaw [n, 0])"

text \<open>The handler gets the number of bytes written; with it, the bytes themselves. The functions take the buffer as it is before.\<close>

definition answer :: "(serialize_t \<Rightarrow> serialize_t result) \<Rightarrow> bytes \<Rightarrow> mock_socket \<Rightarrow> (bytes \<times> mock_socket) result" where
  "answer f block m = bindR (f (serialize_make block (of_nat (length block))))
     (\<lambda>s. Inr (take (unat (in_length s)) (buf (Ser_Stream.buffer s)), m))"

definition wrap_pos :: "mock_socket \<Rightarrow> mock_socket" where
  "wrap_pos m = (if unat (cur_pos m) = length (mock_buf m) then m\<lparr>cur_pos := 0\<rparr> else m)"

definition handle_read_1 :: "bytes \<Rightarrow> mock_socket \<Rightarrow> (bytes \<times> mock_socket) result" where
  "handle_read_1 block m = answer (push (Vector (Pod 1)) (VRaw (mock_buf m))) (drop (unat (cur_pos m)) block) m"

definition handle_read_2 :: "bytes \<Rightarrow> mock_socket \<Rightarrow> (bytes \<times> mock_socket) result" where
  "handle_read_2 block m = (let min_len = min (of_nat (length (mock_buf m)) - cur_pos m) 10 in
     answer (\<lambda>s. bindR (if cur_pos m = 0 then put_int (of_nat (length (mock_buf m))) s else Inr s)
         (put_data m (unat (cur_pos m)) min_len))
       block (wrap_pos (m\<lparr>cur_pos := cur_pos m + min_len\<rparr>)))"

definition handle_read_3 :: "bytes \<Rightarrow> mock_socket \<Rightarrow> (bytes \<times> mock_socket) result" where
  "handle_read_3 block m = (if cur_pos m = 0
     then answer (\<lambda>s. bindR (put_int 15 s) (\<lambda>s. bindR (put_data m 0 15 s) (\<lambda>s. bindR (put_int 15 s) (put_data m 0 12))))
       block (wrap_pos (m\<lparr>cur_pos := 35\<rparr>))
     else answer (put_data m 12 3) block (m\<lparr>cur_pos := 0\<rparr>))"

definition handle_read_4 :: "bytes \<Rightarrow> mock_socket \<Rightarrow> (bytes \<times> mock_socket) result" where
  "handle_read_4 block m = (if cur_pos m = 0 then answer (put_short 32) block (wrap_pos (m\<lparr>cur_pos := 2\<rparr>))
     else answer (\<lambda>s. bindR (put_short 0 s) (put_data m 0 32)) block (m\<lparr>cur_pos := 0\<rparr>))"

definition handle_read_5 :: "bytes \<Rightarrow> mock_socket \<Rightarrow> (bytes \<times> mock_socket) result" where
  "handle_read_5 block m =
    (if cur_pos m = 0 then answer (put_short 32) block (wrap_pos (m\<lparr>cur_pos := 2\<rparr>))
     else if cur_pos m = 2 then answer (\<lambda>s. bindR (put_short 0 s) (put_data m 0 16)) block (wrap_pos (m\<lparr>cur_pos := 16\<rparr>))
     else if cur_pos m = 16 then answer (put_data m 16 15) block (wrap_pos (m\<lparr>cur_pos := 15\<rparr>))
     else if cur_pos m = 15 then answer (\<lambda>s. bindR (put_data m 15 1 s) (\<lambda>s. bindR (put_short 32 s) (\<lambda>s. bindR (put_short 0 s)
         (\<lambda>s. bindR (put_data m 0 32 s) (\<lambda>s. bindR (put_int 32 s) (put_data m 0 18))))))
       block (wrap_pos (m\<lparr>cur_pos := 22\<rparr>))
     else if cur_pos m = 22 then answer (put_data m 0 14) block (wrap_pos (m\<lparr>cur_pos := 0\<rparr>))
     else answer Inr block (wrap_pos m))"

text \<open>\<open>read\<close>: each round reads into the same buffer, whose earlier contents are whatever an earlier round has left there, and decodes. The result is the messages
  the decoder has passed on; \<open>buffers k\<close> are the contents of the buffer before round \<open>k\<close>.\<close>

fun read_test :: "(bytes \<Rightarrow> mock_socket \<Rightarrow> (bytes \<times> mock_socket) result) \<Rightarrow> (nat \<Rightarrow> bytes) \<Rightarrow> nat \<Rightarrow> mock_socket \<Rightarrow> decoder \<Rightarrow>
    (bytes list \<times> mock_socket \<times> decoder) result" where
  "read_test sock buffers 0 m d = Inr ([], m, d)"
| "read_test sock buffers (Suc k) m d = bindR (sock (buffers k) m) (\<lambda>(piece, m1).
     let (ms, d1) = handle d piece in
     bindR (read_test sock buffers k m1 d1) (\<lambda>(ms', m2, d2). Inr (ms @ ms', m2, d2)))"

section \<open>What an answer holds\<close>

lemma appends_put_data:
  "pos + unat len \<le> length (mock_buf m) \<Longrightarrow> length (mock_buf m) < 2 ^ 31 \<Longrightarrow> appends (put_data m pos len) (take (unat len) (drop pos (mock_buf m)))"
proof -
  assume a: "pos + unat len \<le> length (mock_buf m)" "length (mock_buf m) < 2 ^ 31"
  let ?bs = "take (unat len) (drop pos (mock_buf m))"
  have len: "length ?bs = unat len" "unat len \<le> length (mock_buf m) - pos" using a by simp_all
  have "binary_in_push_pointer 1 (drop pos (mock_buf m)) len s = binary_in_push_pointer 1 ?bs len s" for s
    using a len by (simp add: binary_in_push_pointer_def write_at_in_def memory_write_def)
  moreover have "binary_in_push_pointer 1 ?bs len s = emit ?bs s" if "wf_stream s" for s
    using binary_in_push_pointer_emit [OF that, of 1 len ?bs] len a by simp
  ultimately show ?thesis by (simp add: appends_def put_data_def)
qed

lemma appends_put_int: "appends (put_int n) (u32_rep n)"
  by (simp add: appends_def put_int_def binary_in_push_emit)

lemma appends_put_short: "appends (put_short n) [n, 0]"
  by (simp add: appends_def put_short_def binary_in_push_emit)

lemma answer_bytes:
  assumes "appends f bs" "length block < 2 ^ 31" "length bs \<le> length block"
  shows "answer f block m = Inr (bs, m)"
proof -
  let ?s = "serialize_make block (of_nat (length block))"
  have wf: "wf_stream ?s" using assms(2) by (simp add: serialize_make_def memory_t_make_def wf_stream_def unat_of_nat_u32)
  have start: "unat (in_pos ?s) = 0" by (simp add: serialize_make_def)
  obtain s' where s': "emit bs ?s = Inr s'" using assms(2,3) start
    by (auto simp: emit_def serialize_make_def memory_t_make_def unat_of_nat_u32)
  then have "get_block 0 (length bs) (buf (Ser_Stream.buffer s')) = bs" "unat (in_length s') = length bs"
    using emit_written [OF wf s'] emit_in_pos [OF wf s'] start by (simp_all add: in_length_def)
  then show ?thesis using s' appendsD [OF assms(1) wf] by (simp add: answer_def get_block_def)
qed

section \<open>The test\<close>

abbreviation at_pos :: "u32 \<Rightarrow> mock_socket" where
  "at_pos p \<equiv> mock_socket_make\<lparr>cur_pos := p\<rparr>"

abbreviation letters :: "nat \<Rightarrow> nat \<Rightarrow> bytes" where
  "letters pos n \<equiv> take n (drop pos (mock_buf mock_socket_make))"

lemma mock_buf_length [simp]: "length (mock_buf mock_socket_make) = 32"
  by (simp add: mock_socket_make_def)

lemma wrap_at_pos: "unat p \<noteq> 32 \<Longrightarrow> wrap_pos (at_pos p) = at_pos p"
  by (simp add: wrap_pos_def)

lemma appends_letters: "pos + unat len \<le> 32 \<Longrightarrow> appends (put_data (at_pos p) pos len) (letters pos (unat len))"
  using appends_put_data [of pos len "at_pos p"] by simp

text \<open>The five answers of \<open>handle_read_5\<close>.\<close>

lemma handle_read_5_pieces:
  assumes "length block = 4096"
  shows "handle_read_5 block (at_pos 0) = Inr ([32, 0], at_pos 2)"
    and "handle_read_5 block (at_pos 2) = Inr ([0, 0] @ letters 0 16, at_pos 16)"
    and "handle_read_5 block (at_pos 16) = Inr (letters 16 15, at_pos 15)"
    and "handle_read_5 block (at_pos 15) =
      Inr (letters 15 1 @ [32, 0] @ [0, 0] @ letters 0 32 @ u32_rep 32 @ letters 0 18, at_pos 22)"
    and "handle_read_5 block (at_pos 22) = Inr (letters 0 14, at_pos 0)"
proof -
  have data: "appends (put_data (at_pos p) pos len) (letters pos (unat len))" if "pos + unat len \<le> 32" for p pos len
    using that by (rule appends_letters)
  show "handle_read_5 block (at_pos 0) = Inr ([32, 0], at_pos 2)"
    using answer_bytes [OF appends_put_short, of block] assms by (simp add: handle_read_5_def wrap_at_pos)
  show "handle_read_5 block (at_pos 2) = Inr ([0, 0] @ letters 0 16, at_pos 16)"
    using answer_bytes [OF appends_bind [OF appends_put_short data [of 0 16 2]], of block] assms
    by (simp add: handle_read_5_def wrap_at_pos)
  show "handle_read_5 block (at_pos 16) = Inr (letters 16 15, at_pos 15)"
    using answer_bytes [OF data [of 16 15 16], of block] assms by (simp add: handle_read_5_def wrap_at_pos)
  have "appends (\<lambda>s. bindR (put_data (at_pos 15) 15 1 s) (\<lambda>s. bindR (put_short 32 s) (\<lambda>s. bindR (put_short 0 s)
         (\<lambda>s. bindR (put_data (at_pos 15) 0 32 s) (\<lambda>s. bindR (put_int 32 s) (put_data (at_pos 15) 0 18))))))
      (letters 15 1 @ [32, 0] @ [0, 0] @ letters 0 32 @ u32_rep 32 @ letters 0 18)"
    using data [of 15 1 15] data [of 0 32 15] data [of 0 18 15] by (intro appends_bind appends_put_int appends_put_short) simp_all
  from answer_bytes [OF this, of block] show "handle_read_5 block (at_pos 15) =
      Inr (letters 15 1 @ [32, 0] @ [0, 0] @ letters 0 32 @ u32_rep 32 @ letters 0 18, at_pos 22)"
    using assms by (simp add: handle_read_5_def wrap_at_pos)
  show "handle_read_5 block (at_pos 22) = Inr (letters 0 14, at_pos 0)"
    using answer_bytes [OF data [of 0 14 22], of block] assms by (simp add: handle_read_5_def wrap_at_pos)
qed

text \<open>The other answers frame the same data: \<open>handle_read_1\<close> at once, \<open>handle_read_4\<close> with the length cut in two.\<close>

lemma other_pieces:
  assumes "length block = 4096"
  shows "handle_read_1 block (at_pos 0) = Inr (frame (letters 0 32), at_pos 0)"
    and "handle_read_4 block (at_pos 0) = Inr ([32, 0], at_pos 2)"
    and "handle_read_4 block (at_pos 2) = Inr ([0, 0] @ letters 0 32, at_pos 0)"
    and "handle_read_3 block (at_pos 0) = Inr (frame (letters 0 15) @ u32_rep 15 @ letters 0 12, at_pos 35)"
    and "handle_read_3 block (at_pos 35) = Inr (letters 12 3, at_pos 0)"
proof -
  have data: "appends (put_data (at_pos p) pos len) (letters pos (unat len))" if "pos + unat len \<le> 32" for p pos len
    using that by (rule appends_letters)
  have "appends (push (Vector (Pod 1)) (VRaw (letters 0 32))) (frame (letters 0 32))"
    using appends_push_counted [of 1 "letters 0 32"] by (simp add: push.simps [abs_def] encode_counted_def frame_def)
  from answer_bytes [OF this, of block] show "handle_read_1 block (at_pos 0) = Inr (frame (letters 0 32), at_pos 0)"
    using assms by (simp add: handle_read_1_def length_frame)
  show "handle_read_4 block (at_pos 0) = Inr ([32, 0], at_pos 2)"
    using answer_bytes [OF appends_put_short, of block] assms by (simp add: handle_read_4_def wrap_at_pos)
  show "handle_read_4 block (at_pos 2) = Inr ([0, 0] @ letters 0 32, at_pos 0)"
    using answer_bytes [OF appends_bind [OF appends_put_short data [of 0 32 2]], of block] assms by (simp add: handle_read_4_def)
  have "appends (\<lambda>s. bindR (put_int 15 s) (\<lambda>s. bindR (put_data (at_pos 0) 0 15 s) (\<lambda>s. bindR (put_int 15 s) (put_data (at_pos 0) 0 12))))
      (u32_rep 15 @ letters 0 15 @ u32_rep 15 @ letters 0 12)"
    using data [of 0 15 0] data [of 0 12 0] by (intro appends_bind appends_put_int) simp_all
  from answer_bytes [OF this, of block] show "handle_read_3 block (at_pos 0) = Inr (frame (letters 0 15) @ u32_rep 15 @ letters 0 12, at_pos 35)"
    using assms by (simp add: handle_read_3_def wrap_at_pos frame_def)
  show "handle_read_3 block (at_pos 35) = Inr (letters 12 3, at_pos 0)"
    using answer_bytes [OF data [of 12 3 35], of block] assms by (simp add: handle_read_3_def)
qed

text \<open>A decoder between messages, with what the last length has left in it.\<close>

definition resting :: "bytes \<Rightarrow> decoder" where
  "resting h = \<lparr>tmp_first = 0, tmp_data = [], header_data = h, header_len = 0\<rparr>"

text \<open>The frames of one cycle. The last byte of the first one is the sixteenth letter: its answer takes the data at the position 15, which counts the bytes of the answer
  before it and not the letters sent.\<close>

definition cycle_messages :: "bytes list" where
  "cycle_messages = [letters 0 31 @ letters 15 1, letters 0 32, letters 0 18 @ letters 0 14]"

lemma decoder_cycle:
  assumes "h = [0, 0, 0, 0] \<or> h = [32, 0, 0, 0]"
  shows "handle_all (resting h) [[32, 0], [0, 0] @ letters 0 16, letters 16 15,
      letters 15 1 @ [32, 0] @ [0, 0] @ letters 0 32 @ u32_rep 32 @ letters 0 18, letters 0 14] = (cycle_messages, resting [32, 0, 0, 0])"
proof -
  have "handle_all (resting [0, 0, 0, 0]) [[32, 0], [0, 0] @ letters 0 16, letters 16 15,
      letters 15 1 @ [32, 0] @ [0, 0] @ letters 0 32 @ u32_rep 32 @ letters 0 18, letters 0 14] = (cycle_messages, resting [32, 0, 0, 0])"
    by code_simp
  moreover have "handle_all (resting [32, 0, 0, 0]) [[32, 0], [0, 0] @ letters 0 16, letters 16 15,
      letters 15 1 @ [32, 0] @ [0, 0] @ letters 0 32 @ u32_rep 32 @ letters 0 18, letters 0 14] = (cycle_messages, resting [32, 0, 0, 0])"
    by code_simp
  ultimately show ?thesis using assms by blast
qed

lemma read_test_cycle:
  assumes "\<forall>k. length (blocks k) = 4096" "h = [0, 0, 0, 0] \<or> h = [32, 0, 0, 0]"
  shows "read_test handle_read_5 blocks (k + 5) (at_pos 0) (resting h) =
    bindR (read_test handle_read_5 blocks k (at_pos 0) (resting [32, 0, 0, 0])) (\<lambda>(ms, m, d). Inr (cycle_messages @ ms, m, d))"
proof -
  have len: "length (blocks i) = 4096" for i using assms(1) by simp
  obtain d1 d2 d3 d4 d5 and m1 m2 m3 m4 m5 where h:
    "handle (resting h) [32, 0] = (m1, d1)" "handle d1 ([0, 0] @ letters 0 16) = (m2, d2)" "handle d2 (letters 16 15) = (m3, d3)"
    "handle d3 (letters 15 1 @ [32, 0] @ [0, 0] @ letters 0 32 @ u32_rep 32 @ letters 0 18) = (m4, d4)" "handle d4 (letters 0 14) = (m5, d5)"
    by (metis surj_pair)
  have "m1 @ m2 @ m3 @ m4 @ m5 = cycle_messages" "d5 = resting [32, 0, 0, 0]"
    using decoder_cycle [OF assms(2)] h by simp_all
  moreover have "k + 5 = Suc (Suc (Suc (Suc (Suc k))))" by simp
  ultimately show ?thesis
    by (simp only: read_test.simps handle_read_5_pieces [OF len] bindR.simps prod.case h Let_def)
      (cases "read_test handle_read_5 blocks k (at_pos 0) d5", auto simp flip: append_assoc)
qed

lemma read_test_cycles:
  assumes "\<forall>k. length (blocks k) = 4096" "h = [0, 0, 0, 0] \<or> h = [32, 0, 0, 0]"
  shows "\<exists>h'. read_test handle_read_5 blocks (5 * n) (at_pos 0) (resting h) = Inr (concat (replicate n cycle_messages), at_pos 0, resting h')"
  using assms(2)
proof (induction n arbitrary: h)
  case (Suc n)
  obtain h' where "read_test handle_read_5 blocks (5 * n) (at_pos 0) (resting [32, 0, 0, 0]) =
      Inr (concat (replicate n cycle_messages), at_pos 0, resting h')" using Suc.IH by blast
  then show ?case using read_test_cycle [OF assms(1) Suc.prems, of "5 * n"] by (auto simp: add.commute)
qed auto

text \<open>
  The read test of the repository passes: with the answers of \<open>handle_read_5\<close>, which cut the frames inside the length, inside the data and across messages, whatever
  an earlier round has left in the buffer, the serialiser never throws and after every \<open>5 n\<close> rounds the decoder has passed on exactly the \<open>3 n\<close> messages that
  were framed, in order.
\<close>

theorem read_test_delivers:
  assumes "\<forall>k. length (blocks k) = 4096"
  shows "\<exists>d. read_test handle_read_5 blocks (5 * n) mock_socket_make new_decoder = Inr (concat (replicate n cycle_messages), mock_socket_make, d)"
proof -
  have "new_decoder = resting [0, 0, 0, 0]" "mock_socket_make = at_pos 0"
    by (simp_all add: new_decoder_def resting_def mock_socket_make_def numeral_eq_Suc)
  then show ?thesis using read_test_cycles [OF assms, of "[0, 0, 0, 0]" n] by auto
qed

theorem read_test_delivers_witness:
  "\<exists>d. read_test handle_read_5 (\<lambda>k. replicate 4096 0) 5 mock_socket_make new_decoder =
     Inr ([letters 0 31 @ letters 15 1, letters 0 32, letters 0 18 @ letters 0 14], mock_socket_make, d)"
  using read_test_delivers [of "\<lambda>k. replicate 4096 0" 1] by (simp add: cycle_messages_def)

end
