(* ===== verification/Test_Vdisk.thy ===== *)
theory Test_Vdisk
  imports Prelude
begin

text \<open>
  The virtual disk server \<open>test/vdisk_svr/vdisk_svr/vdisk_svr.cpp\<close>: it reads requests of fixed size from a session and answers each with a header and, for some commands, data. The structs
  are laid out as the compiler does for 32 bits: a request has 48 bytes, the parameters of a read start at 16, its number of sectors at 24.
\<close>

section \<open>Requests and replies\<close>

definition REQUEST_SIZE :: nat where "REQUEST_SIZE = 48"
definition ACK_SIZE :: nat where "ACK_SIZE = 16"
definition FRAME_CMD_QUERY :: u32 where "FRAME_CMD_QUERY = 1"
definition FRAME_CMD_READ :: u32 where "FRAME_CMD_READ = 2"
definition FRAME_CMD_INFO :: u32 where "FRAME_CMD_INFO = 4"

definition vd_field :: "nat \<Rightarrow> bytes \<Rightarrow> u32" where
  "vd_field pos req = rep_u32 (get_block pos 4 req)"

record vdisk_ack =
  ack_flag :: u32
  ack_length :: u32
  ack_command :: u32
  ack_status :: u32

definition ack_bytes :: "vdisk_ack \<Rightarrow> bytes" where
  "ack_bytes a = u32_rep (ack_flag a) @ u32_rep (ack_length a) @ u32_rep (ack_command a) @ u32_rep (ack_status a)"

definition u64_rep :: "64 word \<Rightarrow> bytes" where
  "u64_rep w = u32_rep (ucast w) @ u32_rep (ucast (drop_bit 32 w))"

text \<open>
  \<open>msg_complete\<close>: the bytes it sends, \<^term>\<open>None\<close> when the command is unknown. The static vector that a read sends holds ones only, whatever size it had before; its size is computed with 32
  bits.
\<close>

definition msg_complete :: "bytes \<Rightarrow> bytes option" where
  "msg_complete req = (let ack = \<lparr>ack_flag = vd_field 0 req, ack_length = 0, ack_command = vd_field 8 req, ack_status = 0\<rparr> in
     if vd_field 8 req = FRAME_CMD_QUERY then
       Some (ack_bytes (ack\<lparr>ack_length := of_nat (ACK_SIZE + 8)\<rparr>) @ u64_rep ((100 * 1024 * 1024 * 1024) div 512))
     else if vd_field 8 req = FRAME_CMD_READ then
       (let number = vd_field 24 req; data = replicate (unat (number * 512)) (1 :: byte) in
        Some (ack_bytes (ack\<lparr>ack_length := of_nat ACK_SIZE + of_nat (length data)\<rparr>) @ data))
     else if vd_field 8 req = FRAME_CMD_INFO then Some (ack_bytes (ack\<lparr>ack_length := of_nat ACK_SIZE\<rparr>))
     else None)"

section \<open>The read loop\<close>

text \<open>
  \<open>read\<close> makes the buffer at least as large as a request and fills all of it. The handler enlarges the buffer to the length the request names; the condition
  \<open>msg_size = len\<close> assigns, so with any byte read the message counts as complete and the second read, for the body, is never started.
\<close>

definition read_size :: "bytes \<Rightarrow> nat" where
  "read_size buf = max (length buf) REQUEST_SIZE"

definition vd_grow :: "nat \<Rightarrow> bytes \<Rightarrow> bytes" where
  "vd_grow n buf = (if length buf < n then buf @ replicate (n - length buf) 0 else buf)"

definition vd_read_handler :: "nat \<Rightarrow> bytes \<Rightarrow> bytes option \<times> bytes" where
  "vd_read_handler len buf = (let msg_size = unat (vd_field 4 buf); buf = vd_grow msg_size buf; msg_size = len in
     if msg_size \<noteq> 0 then (msg_complete buf, buf) else (None, buf))"

lemma read_size_pos: "48 \<le> read_size buf"
  by (simp add: read_size_def REQUEST_SIZE_def)

text \<open>A session on a stream of bytes: the replies, and the bytes that are left when they are too few for the next read.\<close>

function vdisk_session :: "bytes \<Rightarrow> bytes \<Rightarrow> bytes option list \<times> bytes \<times> bytes" where
  "vdisk_session buf stream = (if length stream < read_size buf then ([], stream, buf)
     else let n = read_size buf; (reply, buf') = vd_read_handler n (take n stream); (replies, rest) = vdisk_session buf' (drop n stream) in (reply # replies, rest))"
  by pat_completeness auto

termination
proof (relation "measure (\<lambda>(buf, stream). length stream)")
  fix buf stream :: bytes and n reply buf' p
  assume "\<not> length stream < read_size buf" "n = read_size buf"
  then show "((buf', drop n stream), (buf, stream)) \<in> measure (\<lambda>(buf, stream). length stream)" using read_size_pos [of buf] by simp
qed simp

declare vdisk_session.simps [simp del]

section \<open>Properties\<close>

text \<open>A reply states its own length, as long as it fits 32 bits.\<close>

definition states_length :: "bytes \<Rightarrow> bool" where
  "states_length reply \<longleftrightarrow> ACK_SIZE \<le> length reply \<and> unat (vd_field 4 reply) = length reply"

lemma ack_bytes_length [simp]: "length (ack_bytes a) = 16"
  by (simp add: ack_bytes_def)

lemma field_ack: "vd_field 4 (ack_bytes a @ data) = ack_length a"
  by (simp add: vd_field_def ack_bytes_def get_block_def)

lemma u64_rep_length: "length (u64_rep w) = 8"
  by (simp add: u64_rep_def)

lemma msg_complete_shape:
  assumes "msg_complete req = Some reply"
  shows "\<exists>data. reply = ack_bytes \<lparr>ack_flag = vd_field 0 req, ack_length = of_nat (16 + length data), ack_command = vd_field 8 req, ack_status = 0\<rparr> @ data"
proof -
  let ?ack = "\<lambda>n. ack_bytes \<lparr>ack_flag = vd_field 0 req, ack_length = n, ack_command = vd_field 8 req, ack_status = 0\<rparr>"
  have "reply = ?ack (of_nat (16 + length (u64_rep 209715200))) @ u64_rep 209715200 \<or>
      (\<exists>n. reply = ?ack (of_nat (16 + length (replicate n (1 :: byte)))) @ replicate n 1) \<or> reply = ?ack (of_nat (16 + length ([] :: bytes))) @ []"
    using assms by (auto simp: msg_complete_def Let_def ACK_SIZE_def u64_rep_length split: if_splits)
  then show ?thesis by blast
qed

theorem reply_states_length:
  assumes "msg_complete req = Some reply" "length reply < 2 ^ 32"
  shows "states_length reply \<and> vd_field 0 reply = vd_field 0 req \<and> vd_field 8 reply = vd_field 8 req"
proof -
  obtain n data where reply: "reply = ack_bytes \<lparr>ack_flag = vd_field 0 req, ack_length = n, ack_command = vd_field 8 req, ack_status = 0\<rparr> @ data"
    and n: "n = of_nat (16 + length data)"
    using msg_complete_shape [OF assms(1)] by blast
  have "unat n = 16 + length data" unfolding n by (rule unat_of_nat_u32) (use assms(2) in \<open>simp add: reply\<close>)
  then have "states_length reply" by (simp add: states_length_def reply field_ack ACK_SIZE_def)
  then show ?thesis by (simp add: reply vd_field_def ack_bytes_def get_block_def)
qed

text \<open>
  Requests of exactly the fixed size, whose length field does not say later, are answered one by one, in order, and the session is ready for the next.
\<close>

definition plain_request :: "bytes \<Rightarrow> bool" where
  "plain_request req \<longleftrightarrow> length req = REQUEST_SIZE \<and> unat (vd_field 4 req) \<le> REQUEST_SIZE"

theorem vdisk_answers:
  assumes "list_all plain_request reqs" "length buf \<le> REQUEST_SIZE"
  shows "fst (vdisk_session buf (concat reqs)) = map msg_complete reqs \<and> fst (snd (vdisk_session buf (concat reqs))) = []"
  using assms
proof (induction reqs arbitrary: buf)
  case Nil
  have "vdisk_session buf [] = ([], [], buf)" using read_size_pos [of buf] by (subst vdisk_session.simps) auto
  then show ?case by simp
next
  case (Cons req reqs)
  have size: "read_size buf = 48" using Cons.prems(2) by (simp add: read_size_def REQUEST_SIZE_def)
  have req: "length req = 48" "unat (vd_field 4 req) \<le> 48" using Cons.prems(1) by (simp_all add: plain_request_def REQUEST_SIZE_def)
  have handler: "vd_read_handler 48 req = (msg_complete req, req)" using req by (simp add: vd_read_handler_def Let_def vd_grow_def)
  have "fst (vdisk_session req (concat reqs)) = map msg_complete reqs \<and> fst (snd (vdisk_session req (concat reqs))) = []"
    using Cons.IH [of req] Cons.prems req by (simp add: REQUEST_SIZE_def)
  then show ?case using size req handler by (subst vdisk_session.simps, subst (2) vdisk_session.simps) (auto simp: Let_def split: prod.splits)
qed

text \<open>
  A request with a body is not: it is answered before its body has come, and the next read takes as many bytes as the whole message had, beginning with the body.
\<close>

lemma body_taken_for_request:
  assumes "length req = 48" "unat (vd_field 4 req) = n" "48 < n" "n \<le> length later"
  shows "\<exists>buf'. length buf' = n \<and> vdisk_session [] (req @ later) = (let (replies, rest) = vdisk_session buf' later in (msg_complete (vd_grow n req) # replies, rest)) \<and>
     fst (vdisk_session buf' later) \<noteq> []"
proof -
  have handler: "vd_read_handler 48 req = (msg_complete (vd_grow n req), vd_grow n req)" using assms by (simp add: vd_read_handler_def Let_def)
  have len: "length (vd_grow n req) = n" using assms by (simp add: vd_grow_def)
  then have "fst (vdisk_session (vd_grow n req) later) \<noteq> []" using assms
    by (subst vdisk_session.simps) (simp add: read_size_def REQUEST_SIZE_def Let_def split: prod.splits)
  moreover have "vdisk_session [] (req @ later) = (let (replies, rest) = vdisk_session (vd_grow n req) later in (msg_complete (vd_grow n req) # replies, rest))"
    using assms handler by (subst vdisk_session.simps) (simp add: read_size_def REQUEST_SIZE_def Let_def)
  ultimately show ?thesis using len by blast
qed

end
