(* ===== verification/Ex_Echo.thy ===== *)
theory Ex_Echo
  imports Prelude "HOL-Library.Sublist"
begin

text \<open>
  Two echo servers among the examples: \<open>Example/Network/Tcp/NetworkSvr/Impl/ServerImpl.h\<close>, which reads and writes whole buffers of 1024 bytes, and
  \<open>Example/Network/Netty/Discard/Discard/Discard.cpp\<close>, which writes back what a read has brought. A session is kept alive by callbacks that it stores in itself, so it
  is destroyed only after \<open>Stop\<close> has cleared them. Starting an operation may throw; that is an argument of the handlers, as are the bytes an operation has moved. A composed read that breaks off
  reports no bytes, whatever it has put into the buffer (\<open>Async_Transfer\<close>); the bytes counted as received are those the completions report.
\<close>

section \<open>Sessions\<close>

datatype echo_op = E_read | E_write bytes | E_disconnect

text \<open>
  \<open>e_callbacks\<close>: the stored callbacks are set. \<open>e_pending\<close> is the operation under way. \<open>e_received\<close> and \<open>e_sent\<close> record what went over the connection. \<open>e_counted\<close> is
  what the session has added to the 64 bit counters \<open>recevied_\<close> and \<open>transffered_\<close> of \<open>Discard.cpp\<close>.
\<close>

record echo_session =
  e_open :: bool
  e_callbacks :: bool
  e_pending :: "echo_op option"
  e_buf :: bytes
  e_received :: bytes
  e_sent :: bytes
  e_counted :: "64 word"

definition new_session :: "nat \<Rightarrow> echo_session" where
  "new_session n = \<lparr>e_open = True, e_callbacks = False, e_pending = None, e_buf = replicate n 0, e_received = [], e_sent = [], e_counted = 0\<rparr>"

definition session_stop :: "echo_session \<Rightarrow> echo_session" where
  "session_stop s = s\<lparr>e_open := False, e_callbacks := False\<rparr>"

text \<open>Only a session whose callbacks are set, or that an operation under way refers to, still exists.\<close>

definition session_exists :: "echo_session \<Rightarrow> bool" where
  "session_exists s \<longleftrightarrow> e_callbacks s \<or> e_pending s \<noteq> None"

subsection \<open>ServerImpl.h\<close>

definition svr_start_op :: "bool \<Rightarrow> echo_op \<Rightarrow> echo_session \<Rightarrow> echo_session" where
  "svr_start_op throws a s = (if throws then session_stop s else s\<lparr>e_pending := Some a\<rparr>)"

definition svr_session_start :: "bool \<Rightarrow> echo_session \<Rightarrow> echo_session" where
  "svr_session_start throws s = svr_start_op throws E_read (s\<lparr>e_callbacks := True\<rparr>)"

definition svr_HandleRead :: "nat \<Rightarrow> bool \<Rightarrow> echo_session \<Rightarrow> echo_session" where
  "svr_HandleRead bytes throws s = (if bytes = 0 then session_stop s else svr_start_op throws (E_write (e_buf s)) s)"

definition svr_HandleWrite :: "bool \<Rightarrow> echo_session \<Rightarrow> echo_session" where
  "svr_HandleWrite throws s = svr_start_op throws E_read s"

subsection \<open>Discard.cpp\<close>

definition dis_start_op :: "bool \<Rightarrow> echo_op \<Rightarrow> echo_session \<Rightarrow> echo_session" where
  "dis_start_op throws a s = (if throws then s else s\<lparr>e_pending := Some a\<rparr>)"

definition dis_session_start :: "bool \<Rightarrow> echo_session \<Rightarrow> echo_session" where
  "dis_session_start throws s = dis_start_op throws E_read (s\<lparr>e_callbacks := True\<rparr>)"

definition dis_HandleRead :: "nat \<Rightarrow> bool \<Rightarrow> echo_session \<Rightarrow> echo_session" where
  "dis_HandleRead bytes throws s = (if bytes = 0 then dis_start_op throws E_disconnect s
     else dis_start_op throws (E_write (take bytes (e_buf s))) (s\<lparr>e_counted := e_counted s + of_nat bytes\<rparr>))"

definition dis_HandleWrite :: "bool \<Rightarrow> echo_session \<Rightarrow> echo_session" where
  "dis_HandleWrite throws s = dis_start_op throws E_read s"

definition dis_DisConnect :: "echo_session \<Rightarrow> echo_session" where
  "dis_DisConnect s = session_stop s"

section \<open>Servers\<close>

text \<open>
  The acceptor of a server and the sessions it has created. \<open>acc_wait\<close>: an accept is under way. An accept completes with an error code; creating the session, its first read
  and the next accept may throw.
\<close>

record echo_acceptor =
  acc_wait :: bool
  acc_sessions :: "echo_session list"

record accept_event =
  acc_error :: nat
  create_throws :: bool
  read_throws :: bool
  accept_throws :: bool

definition svr_StartAccept :: "bool \<Rightarrow> echo_acceptor \<Rightarrow> echo_acceptor" where
  "svr_StartAccept throws a = (if throws then a else a\<lparr>acc_wait := True\<rparr>)"

definition svr_OnAccept :: "accept_event \<Rightarrow> echo_acceptor \<Rightarrow> echo_acceptor" where
  "svr_OnAccept e a = (if acc_error e \<noteq> 0 then a else if create_throws e then a
     else svr_StartAccept (accept_throws e) (a\<lparr>acc_sessions := acc_sessions a @ [svr_session_start (read_throws e) (new_session 1024)]\<rparr>))"

text \<open>In \<open>Discard.cpp\<close> an exception of \<open>_StartAccept\<close> reaches the handler of its caller, which prints it.\<close>

definition dis_StartAccept :: "bool \<Rightarrow> echo_acceptor \<Rightarrow> echo_acceptor option" where
  "dis_StartAccept throws a = (if throws then None else Some (a\<lparr>acc_wait := True\<rparr>))"

definition dis_OnAccept :: "nat \<Rightarrow> accept_event \<Rightarrow> echo_acceptor \<Rightarrow> echo_acceptor" where
  "dis_OnAccept bufLen e a = (if acc_error e \<noteq> 0 then a else if create_throws e then a
     else let a = a\<lparr>acc_sessions := acc_sessions a @ [dis_session_start (read_throws e) (new_session bufLen)]\<rparr> in
       (case dis_StartAccept (accept_throws e) a of None \<Rightarrow> a | Some a \<Rightarrow> a))"

text \<open>An accept that is under way completes.\<close>

definition accepted :: "(accept_event \<Rightarrow> echo_acceptor \<Rightarrow> echo_acceptor) \<Rightarrow> accept_event \<Rightarrow> echo_acceptor \<Rightarrow> echo_acceptor" where
  "accepted on_accept e a = (if acc_wait a then on_accept e (a\<lparr>acc_wait := False\<rparr>) else a)"

text \<open>The counters of \<open>Discard.cpp\<close>, and \<open>_OnTimer\<close>, which prints the bytes and messages since the last report.\<close>

record dis_counters =
  transffered :: "64 word"
  recevied :: "64 word"
  oldCounter :: "64 word"

definition dis_count :: "64 word \<Rightarrow> dis_counters \<Rightarrow> dis_counters" where
  "dis_count bytes c = c\<lparr>recevied := recevied c + bytes, transffered := transffered c + bytes\<rparr>"

definition dis_OnTimer :: "dis_counters \<Rightarrow> (64 word \<times> 64 word) \<times> dis_counters" where
  "dis_OnTimer c = (let bytes = transffered c - oldCounter c; msgs = recevied c in
     ((bytes, msgs), c\<lparr>recevied := 0, oldCounter := transffered c\<rparr>))"

section \<open>Runs\<close>

text \<open>
  The operation under way completes: a read has put \<open>data\<close> at the front of the buffer, a write has sent the first \<open>k\<close> of its bytes, which the handlers do not look at. Both servers are instances: \<open>on_read\<close>, \<open>on_write\<close> and
  \<open>on_disconnect\<close> are the handlers.
\<close>

fun echo_complete :: "(nat \<Rightarrow> bool \<Rightarrow> echo_session \<Rightarrow> echo_session) \<Rightarrow> (bool \<Rightarrow> echo_session \<Rightarrow> echo_session) \<Rightarrow> (echo_session \<Rightarrow> echo_session) \<Rightarrow>
    bytes \<times> nat \<times> bool \<Rightarrow> echo_session \<Rightarrow> echo_session" where
  "echo_complete on_read on_write on_disconnect (data, k, throws) s = (case e_pending s of None \<Rightarrow> s
     | Some E_read \<Rightarrow> on_read (length data) throws
         (s\<lparr>e_pending := None, e_buf := put_block 0 data (e_buf s), e_received := e_received s @ data\<rparr>)
     | Some (E_write bs) \<Rightarrow> on_write throws (s\<lparr>e_pending := None, e_sent := e_sent s @ take k bs\<rparr>)
     | Some E_disconnect \<Rightarrow> on_disconnect (s\<lparr>e_pending := None\<rparr>))"

definition svr_complete :: "bytes \<times> nat \<times> bool \<Rightarrow> echo_session \<Rightarrow> echo_session" where
  "svr_complete = echo_complete svr_HandleRead svr_HandleWrite session_stop"

definition dis_complete :: "bytes \<times> nat \<times> bool \<Rightarrow> echo_session \<Rightarrow> echo_session" where
  "dis_complete = echo_complete dis_HandleRead dis_HandleWrite dis_DisConnect"

text \<open>The bytes a session still owes.\<close>

definition owed :: "echo_session \<Rightarrow> bytes" where
  "owed s = (case e_pending s of Some (E_write bs) \<Rightarrow> bs | _ \<Rightarrow> [])"

text \<open>
  What a completion of the composed read may bring: all of the buffer or nothing (\<open>transfer_all\<close>), up to the buffer (\<open>transfer_at_least(1)\<close>). The
  writes, which have at most \<open>n\<close> bytes, are complete.
\<close>

definition whole_reads :: "nat \<Rightarrow> (bytes \<times> nat \<times> bool) list \<Rightarrow> bool" where
  "whole_reads n cs \<longleftrightarrow> (\<forall>c \<in> set cs. (fst c = [] \<or> length (fst c) = n) \<and> n \<le> fst (snd c))"

definition fitting_reads :: "nat \<Rightarrow> (bytes \<times> nat \<times> bool) list \<Rightarrow> bool" where
  "fitting_reads n cs \<longleftrightarrow> (\<forall>c \<in> set cs. length (fst c) \<le> n \<and> n \<le> fst (snd c))"

text \<open>A session with an operation under way has received what it has sent and owes; any session has sent a prefix of what it received.\<close>

definition echo_inv :: "nat \<Rightarrow> echo_session \<Rightarrow> bool" where
  "echo_inv n s \<longleftrightarrow> length (e_buf s) = n \<and> length (owed s) \<le> n \<and>
     (e_pending s \<noteq> None \<longrightarrow> e_received s = e_sent s @ owed s) \<and> prefix (e_sent s) (e_received s)"

definition same_traffic :: "echo_session \<Rightarrow> echo_session \<Rightarrow> bool" where
  "same_traffic s s' \<longleftrightarrow> e_buf s' = e_buf s \<and> e_received s' = e_received s \<and> e_sent s' = e_sent s"

text \<open>
  What makes an echo server of three handlers, for reads whose lengths are \<open>allowed\<close>: after a read it writes what was read, after a write it reads, and
  otherwise it stops or disconnects.
\<close>

locale echo_server =
  fixes n :: nat and allowed :: "nat \<Rightarrow> bool"
    and on_read :: "nat \<Rightarrow> bool \<Rightarrow> echo_session \<Rightarrow> echo_session" and on_write :: "bool \<Rightarrow> echo_session \<Rightarrow> echo_session"
    and on_disconnect :: "echo_session \<Rightarrow> echo_session"
  assumes allowed_fits: "allowed k \<Longrightarrow> k \<le> n"
    and read_traffic: "same_traffic s (on_read k t s)"
    and write_traffic: "same_traffic s (on_write t s)"
    and disconnect_traffic: "same_traffic s (on_disconnect s)"
    and after_read: "e_pending s = None \<Longrightarrow> length (e_buf s) = n \<Longrightarrow> allowed k \<Longrightarrow>
      e_pending (on_read k t s) \<in> {None} \<union> (if k = 0 then {Some E_disconnect} else {Some (E_write (take k (e_buf s)))})"
    and after_write: "e_pending s = None \<Longrightarrow> e_pending (on_write t s) \<in> {None, Some E_read}"
    and after_disconnect: "e_pending s = None \<Longrightarrow> e_pending (on_disconnect s) = None"
begin

lemma complete_inv:
  assumes "echo_inv n s" "allowed (length data)" "n \<le> k"
  shows "echo_inv n (echo_complete on_read on_write on_disconnect (data, k, t) s)"
proof (cases "e_pending s")
  case (Some a)
  have rec: "e_received s = e_sent s @ owed s" and len: "length (e_buf s) = n" using assms(1) Some by (simp_all add: echo_inv_def)
  show ?thesis
  proof (cases a)
    case E_read
    let ?s = "s\<lparr>e_pending := None, e_buf := put_block 0 data (e_buf s), e_received := e_received s @ data\<rparr>"
    have fits: "length data \<le> n" using allowed_fits [OF assms(2)] .
    then have buf: "length (e_buf ?s) = n" "take (length data) (e_buf ?s) = data" using len by (simp_all add: put_block_def)
    have "e_pending (on_read (length data) t ?s) \<in> {None} \<union> (if length data = 0 then {Some E_disconnect} else {Some (E_write data)})"
      using after_read [of ?s "length data" t] buf(1) assms(2) unfolding buf(2) by simp
    then show ?thesis using read_traffic [of ?s "length data" t] rec buf fits Some E_read
      by (auto simp: echo_inv_def same_traffic_def owed_def split: if_splits)
  next
    case (E_write bs)
    let ?s = "s\<lparr>e_pending := None, e_sent := e_sent s @ bs\<rparr>"
    have "take k bs = bs" using assms(1,3) Some E_write by (simp add: echo_inv_def owed_def)
    moreover have "e_pending (on_write t ?s) \<in> {None, Some E_read}" using after_write [of ?s t] by simp
    ultimately show ?thesis using write_traffic [of ?s t] rec len Some E_write by (auto simp: echo_inv_def same_traffic_def owed_def)
  next
    case E_disconnect
    let ?s = "s\<lparr>e_pending := None\<rparr>"
    have "e_pending (on_disconnect ?s) = None" using after_disconnect [of ?s] by simp
    then show ?thesis using disconnect_traffic [of ?s] rec len Some E_disconnect by (auto simp: echo_inv_def same_traffic_def owed_def)
  qed
qed (use assms in simp)

lemma run_inv:
  "echo_inv n s \<Longrightarrow> \<forall>c \<in> set cs. allowed (length (fst c)) \<and> n \<le> fst (snd c) \<Longrightarrow> echo_inv n (fold (echo_complete on_read on_write on_disconnect) cs s)"
proof (induction cs arbitrary: s)
  case (Cons c cs)
  then show ?case using complete_inv [of s "fst c" "fst (snd c)" "snd (snd c)"] by simp
qed simp

end

lemmas echo_handlers = svr_HandleRead_def svr_HandleWrite_def svr_start_op_def dis_HandleRead_def dis_HandleWrite_def dis_start_op_def dis_DisConnect_def
  session_stop_def same_traffic_def

interpretation svr: echo_server 1024 "\<lambda>k. k = 0 \<or> k = 1024" svr_HandleRead svr_HandleWrite session_stop
  by unfold_locales (auto simp: echo_handlers)

interpretation dis: echo_server n "\<lambda>k. k \<le> n" dis_HandleRead dis_HandleWrite dis_DisConnect for n
  by unfold_locales (auto simp: echo_handlers)

text \<open>The sessions of \<open>ServerImpl.h\<close> in addition do not leak: callbacks are stored exactly while an operation is under way.\<close>

definition svr_alive :: "echo_session \<Rightarrow> bool" where
  "svr_alive s \<longleftrightarrow> (e_callbacks s \<longleftrightarrow> e_pending s \<noteq> None) \<and> (e_open s \<longleftrightarrow> e_pending s \<noteq> None)"

lemma svr_complete_alive: "svr_alive s \<Longrightarrow> svr_alive (svr_complete c s)"
  by (cases c) (auto simp: svr_alive_def svr_complete_def echo_handlers split: option.splits echo_op.splits)

lemma svr_run_alive: "svr_alive s \<Longrightarrow> svr_alive (fold svr_complete cs s)"
  by (induction cs arbitrary: s) (simp_all add: svr_complete_alive)

section \<open>Properties\<close>

text \<open>
  The echo server of \<open>ServerImpl.h\<close>: whatever its reads bring and whichever operations throw, as long as its writes are complete, a session sends back exactly what it has received, in order: what it has
  sent is a prefix of it, and while an operation is under way only the bytes being written are missing. It exists, with its socket open, exactly while an
  operation is under way, so no session is leaked and no socket stays open.
\<close>

theorem svr_echoes:
  assumes "whole_reads 1024 cs" "s = fold svr_complete cs (svr_session_start throws (new_session 1024))"
  shows "prefix (e_sent s) (e_received s) \<and> (e_pending s \<noteq> None \<longrightarrow> e_received s = e_sent s @ owed s) \<and>
    (session_exists s \<longleftrightarrow> e_pending s \<noteq> None) \<and> (e_open s \<longleftrightarrow> e_pending s \<noteq> None)"
proof -
  let ?s = "svr_session_start throws (new_session 1024)"
  have "echo_inv 1024 ?s" "svr_alive ?s"
    by (auto simp: svr_session_start_def svr_start_op_def new_session_def session_stop_def echo_inv_def owed_def svr_alive_def)
  moreover have "\<forall>c \<in> set cs. (length (fst c) = 0 \<or> length (fst c) = 1024) \<and> 1024 \<le> fst (snd c)" using assms(1) by (auto simp: whole_reads_def)
  ultimately have "echo_inv 1024 s" "svr_alive s"
    using svr.run_inv [of ?s cs] svr_run_alive [of ?s cs] assms(2) by (simp_all add: svr_complete_def)
  then show ?thesis by (auto simp: echo_inv_def svr_alive_def session_exists_def)
qed

theorem svr_echoes_witness:
  "\<exists>s. s = fold svr_complete [(replicate 1024 7, 1024, False), ([], 1024, False), (replicate 1024 8, 1024, False)] (svr_session_start False (new_session 1024)) \<and>
     e_received s = e_sent s @ replicate 1024 8 \<and> session_exists s"
proof -
  let ?cs = "[(replicate 1024 7, 1024, False), ([], 1024, False), (replicate 1024 8, 1024, False)] :: (bytes \<times> nat \<times> bool) list"
  define s where "s = fold svr_complete ?cs (svr_session_start False (new_session 1024))"
  have pending: "e_pending s = Some (E_write (replicate 1024 8))"
    by (simp add: s_def svr_complete_def echo_handlers svr_session_start_def new_session_def put_block_def del: replicate_Suc)
  have "prefix (e_sent s) (e_received s) \<and> (e_pending s \<noteq> None \<longrightarrow> e_received s = e_sent s @ owed s) \<and>
    (session_exists s \<longleftrightarrow> e_pending s \<noteq> None) \<and> (e_open s \<longleftrightarrow> e_pending s \<noteq> None)"
    by (rule svr_echoes [OF _ s_def]) (simp add: whole_reads_def)
  then show ?thesis using pending s_def by (auto simp: owed_def)
qed

text \<open>The sessions of \<open>Discard.cpp\<close> echo likewise, for reads of any length.\<close>

theorem dis_echoes:
  assumes "fitting_reads n cs" "s = fold dis_complete cs (dis_session_start throws (new_session n))"
  shows "prefix (e_sent s) (e_received s) \<and> (e_pending s \<noteq> None \<longrightarrow> e_received s = e_sent s @ owed s)"
proof -
  let ?s = "dis_session_start throws (new_session n)"
  have "echo_inv n ?s" by (auto simp: dis_session_start_def dis_start_op_def new_session_def echo_inv_def owed_def)
  then have "echo_inv n s" using dis.run_inv [of n ?s cs] assms by (simp add: dis_complete_def fitting_reads_def)
  then show ?thesis by (simp add: echo_inv_def)
qed

text \<open>But when starting an operation throws, the exception is printed and nothing else is done: the session stays, with its socket open and nothing under way.\<close>

lemma dis_session_leaks:
  "let s = dis_complete (data, k, True) (dis_session_start False (new_session n)) in
     session_exists s \<and> e_open s \<and> e_pending s = None \<and> dis_complete c s = s"
  by (cases c) (simp add: dis_complete_def echo_handlers dis_session_start_def new_session_def session_exists_def Let_def)

text \<open>What a session adds to the counters is the number of bytes it has received.\<close>

lemma dis_complete_counts: "e_counted s = of_nat (length (e_received s)) \<Longrightarrow> e_counted (dis_complete c s) = of_nat (length (e_received (dis_complete c s)))"
  by (cases c) (auto simp: dis_complete_def echo_handlers split: option.splits echo_op.splits)

lemma dis_run_counts:
  "e_counted (fold dis_complete cs (dis_session_start throws (new_session n))) = of_nat (length (e_received (fold dis_complete cs (dis_session_start throws (new_session n)))))"
proof -
  have "e_counted s = of_nat (length (e_received s)) \<Longrightarrow> e_counted (fold dis_complete cs s) = of_nat (length (e_received (fold dis_complete cs s)))" for s
    by (induction cs arbitrary: s) (simp_all add: dis_complete_counts)
  then show ?thesis by (simp add: dis_session_start_def dis_start_op_def new_session_def)
qed

text \<open>
  Every report of \<open>_OnTimer\<close> gives as many messages as bytes, because \<open>recevied_\<close> counts bytes too; the bytes reported so far and those since are all the bytes.
\<close>

fun dis_reports :: "64 word list list \<Rightarrow> dis_counters \<Rightarrow> (64 word \<times> 64 word) list" where
  "dis_reports [] c = []"
| "dis_reports (bs # bss) c = (let (report, c') = dis_OnTimer (fold dis_count bs c) in report # dis_reports bss c')"

lemma fold_dis_count: "fold dis_count bs c = c\<lparr>recevied := recevied c + sum_list bs, transffered := transffered c + sum_list bs\<rparr>"
  by (induction bs arbitrary: c) (simp_all add: dis_count_def algebra_simps)

theorem dis_reports_bytes:
  assumes "recevied c = transffered c - oldCounter c"
  shows "dis_reports bss c =
    (case bss of [] \<Rightarrow> [] | bs # bss' \<Rightarrow> (recevied c + sum_list bs, recevied c + sum_list bs) # map (\<lambda>bs. (sum_list bs, sum_list bs)) bss')"
  using assms
proof (induction bss arbitrary: c)
  case (Cons bs bss)
  let ?c = "snd (dis_OnTimer (fold dis_count bs c))"
  have "recevied ?c = transffered ?c - oldCounter ?c" "recevied ?c = 0" by (simp_all add: dis_OnTimer_def)
  then have "dis_reports bss ?c = map (\<lambda>bs. (sum_list bs, sum_list bs)) bss" using Cons.IH [of ?c] by (simp split: list.splits)
  then show ?case using Cons.prems by (simp add: dis_OnTimer_def fold_dis_count Let_def algebra_simps)
qed simp

text \<open>
  Both servers accept until the first accept that fails: an error, or an exception from creating the session or from the next accept, leaves no accept under way, and
  the server takes no further connection. An exception from the first read of a session does not stop it.
\<close>

definition accept_goes_on :: "accept_event \<Rightarrow> bool" where
  "accept_goes_on e \<longleftrightarrow> acc_error e = 0 \<and> \<not> create_throws e \<and> \<not> accept_throws e"

lemma accepted_stays: "\<not> acc_wait a \<Longrightarrow> fold (accepted f) es a = a"
  by (induction es) (simp_all add: accepted_def)

theorem servers_accept_until_failure:
  assumes "acc_wait a"
  shows "(acc_wait (fold (accepted svr_OnAccept) es a) \<longleftrightarrow> list_all accept_goes_on es) \<and>
    (acc_wait (fold (accepted (dis_OnAccept n)) es a) \<longleftrightarrow> list_all accept_goes_on es) \<and>
    (list_all accept_goes_on es \<longrightarrow>
      length (acc_sessions (fold (accepted svr_OnAccept) es a)) = length (acc_sessions a) + length es \<and>
      length (acc_sessions (fold (accepted (dis_OnAccept n)) es a)) = length (acc_sessions a) + length es)"
proof -
  have steps: "acc_wait (accepted svr_OnAccept e a) \<longleftrightarrow> accept_goes_on e" "acc_wait (accepted (dis_OnAccept n) e a) \<longleftrightarrow> accept_goes_on e"
    "accept_goes_on e \<Longrightarrow> length (acc_sessions (accepted svr_OnAccept e a)) = Suc (length (acc_sessions a))"
    "accept_goes_on e \<Longrightarrow> length (acc_sessions (accepted (dis_OnAccept n) e a)) = Suc (length (acc_sessions a))" if "acc_wait a" for e a
    using that by (auto simp: accepted_def svr_OnAccept_def svr_StartAccept_def dis_OnAccept_def dis_StartAccept_def accept_goes_on_def Let_def)
  have run: "(acc_wait (fold (accepted f) es a) \<longleftrightarrow> list_all accept_goes_on es) \<and>
      (list_all accept_goes_on es \<longrightarrow> length (acc_sessions (fold (accepted f) es a)) = length (acc_sessions a) + length es)"
    if "acc_wait a" and f: "\<And>e a. acc_wait a \<Longrightarrow> acc_wait (accepted f e a) \<longleftrightarrow> accept_goes_on e"
      "\<And>e a. acc_wait a \<Longrightarrow> accept_goes_on e \<Longrightarrow> length (acc_sessions (accepted f e a)) = Suc (length (acc_sessions a))" for f a
    using that(1)
  proof (induction es arbitrary: a)
    case (Cons e es)
    then show ?case using f [of a e] accepted_stays [of "accepted f e a" f es] by (cases "accept_goes_on e") simp_all
  qed simp
  show ?thesis using run [of a svr_OnAccept] run [of a "dis_OnAccept n"] steps assms by blast
qed

end
