(* ===== verification/Perf_Pingpong.thy ===== *)
theory Perf_Pingpong
  imports Prelude "HOL-Library.Sublist"
begin

text \<open>
  The sessions of the ping-pong programs. \<open>performance/pingpong/asio_pingpong/server.hpp\<close> and \<open>client.hpp\<close> keep a read and a write under way at the same time, on two buffers
  that change roles; \<open>performance/pingpong/pingpong/pingping_cli.cpp\<close> does so without counting. The strand of asio runs one handler at a time. Operations refer to
  buffers by their address: a read fills its buffer and a write sends what its buffer holds, when they complete.
\<close>

section \<open>Sessions on two buffers\<close>

text \<open>
  \<open>pp_rd\<close> tells which of the two buffers \<open>read_data_\<close> points to; \<open>write_data_\<close> points to the other. \<open>pp_reading\<close> and \<open>pp_writing\<close> are the operations under way, with buffer and,
  for a write, length. \<open>pp_unsent\<close> is \<open>unsent_count_\<close> or \<open>unwritten_count_\<close>, \<open>pp_ops\<close> is \<open>op_count_\<close>, \<open>pp_destroy\<close> counts the calls of \<open>destroy\<close> that were posted. \<open>pp_in\<close> and
  \<open>pp_out\<close> record the bytes received and sent.
\<close>

record pp_session =
  pp_bufs :: "bool \<Rightarrow> bytes"
  pp_rd :: bool
  pp_len :: nat
  pp_unsent :: int
  pp_ops :: int
  pp_reading :: "bool option"
  pp_writing :: "(bool \<times> nat) option"
  pp_destroy :: nat
  pp_in :: bytes
  pp_out :: bytes

definition pp_new :: "nat \<Rightarrow> (bool \<Rightarrow> bytes) \<Rightarrow> pp_session" where
  "pp_new block_size bufs = \<lparr>pp_bufs = (\<lambda>b. take block_size (bufs b @ replicate block_size 0)), pp_rd = False, pp_len = 0, pp_unsent = 0, pp_ops = 0,
     pp_reading = None, pp_writing = None, pp_destroy = 0, pp_in = [], pp_out = []\<rparr>"

text \<open>The part the handlers share: swap the buffers, write what was read, read on.\<close>

definition pp_swap_start :: "pp_session \<Rightarrow> pp_session" where
  "pp_swap_start s = s\<lparr>pp_rd := \<not> pp_rd s, pp_writing := Some (pp_rd s, pp_len s), pp_reading := Some (\<not> pp_rd s)\<rparr>"

subsection \<open>The server's session\<close>

definition pp_finish :: "pp_session \<Rightarrow> pp_session" where
  "pp_finish s = (if pp_ops s = 0 then s\<lparr>pp_destroy := Suc (pp_destroy s)\<rparr> else s)"

definition pp_svr_start :: "bool \<Rightarrow> pp_session \<Rightarrow> pp_session" where
  "pp_svr_start set_option_err s = (if \<not> set_option_err then s\<lparr>pp_ops := pp_ops s + 1, pp_reading := Some (pp_rd s)\<rparr>
     else s\<lparr>pp_destroy := Suc (pp_destroy s)\<rparr>)"

definition pp_svr_handle_read :: "bool \<Rightarrow> nat \<Rightarrow> pp_session \<Rightarrow> pp_session" where
  "pp_svr_handle_read err len s = (let s = s\<lparr>pp_ops := pp_ops s - 1\<rparr> in
     pp_finish (if \<not> err then
       (let s = s\<lparr>pp_len := len, pp_unsent := pp_unsent s + 1\<rparr> in
        if pp_unsent s = 1 then pp_swap_start (s\<lparr>pp_ops := pp_ops s + 2\<rparr>) else s) else s))"

definition pp_svr_handle_write :: "bool \<Rightarrow> pp_session \<Rightarrow> pp_session" where
  "pp_svr_handle_write err s = (let s = s\<lparr>pp_ops := pp_ops s - 1\<rparr> in
     pp_finish (if \<not> err then
       (let s = s\<lparr>pp_unsent := pp_unsent s - 1\<rparr> in
        if pp_unsent s = 1 then pp_swap_start (s\<lparr>pp_ops := pp_ops s + 2\<rparr>) else s) else s))"

subsection \<open>The client's session\<close>

text \<open>\<open>read_msgs_cnt_\<close>, \<open>bytes_read_\<close> and \<open>bytes_written_\<close>.\<close>

record pp_client = pp_session +
  pp_msgs :: u32
  pp_bytes_read :: u32
  pp_bytes_written :: u32

definition pp_cli_new :: "nat \<Rightarrow> pp_client" where
  "pp_cli_new block_size = pp_session.extend (pp_new block_size (\<lambda>b. if b then map (\<lambda>i. of_nat (i mod 128)) [0..<block_size] else []))
     \<lparr>pp_msgs = 0, pp_bytes_read = 0, pp_bytes_written = 0\<rparr>"

text \<open>\<open>handle_connect\<close> after a connection has been made; an error tries the next endpoint, if there is one.\<close>

definition pp_cli_connected :: "bool \<Rightarrow> nat \<Rightarrow> pp_client \<Rightarrow> pp_client" where
  "pp_cli_connected set_option_err block_size s = (if \<not> set_option_err
     then s\<lparr>pp_unsent := pp_unsent s + 1, pp_writing := Some (\<not> pp_rd s, block_size), pp_reading := Some (pp_rd s)\<rparr> else s)"

definition pp_cli_handle_connect :: "bool \<Rightarrow> 'e list \<Rightarrow> ('e \<times> 'e list) option" where
  "pp_cli_handle_connect err endpoints = (if \<not> err then None else case endpoints of [] \<Rightarrow> None | e # es \<Rightarrow> Some (e, es))"

definition pp_swap_client :: "pp_client \<Rightarrow> pp_client" where
  "pp_swap_client s = s\<lparr>pp_rd := \<not> pp_rd s, pp_writing := Some (pp_rd s, pp_len s), pp_reading := Some (\<not> pp_rd s)\<rparr>"

definition pp_cli_handle_read :: "bool \<Rightarrow> nat \<Rightarrow> pp_client \<Rightarrow> pp_client" where
  "pp_cli_handle_read err len s = (if \<not> err then
     (let s = s\<lparr>pp_msgs := pp_msgs s + 1, pp_bytes_read := pp_bytes_read s + of_nat len, pp_len := len, pp_unsent := pp_unsent s + 1\<rparr> in
      if pp_unsent s = 1 then pp_swap_client s else s) else s)"

definition pp_cli_handle_write :: "bool \<Rightarrow> nat \<Rightarrow> pp_client \<Rightarrow> pp_client" where
  "pp_cli_handle_write err len s = (if \<not> err \<and> len > 0 then
     (let s = s\<lparr>pp_bytes_written := pp_bytes_written s + of_nat len, pp_unsent := pp_unsent s - 1\<rparr> in
      if pp_unsent s = 1 then pp_swap_client s else s) else s)"

section \<open>Completions\<close>

text \<open>
  A read brings data or fails, a write is complete or fails; a completion of an operation that is not under way cannot come.
\<close>

datatype pp_event = Read_data bytes | Read_error | Write_done | Write_error

definition read_done :: "bool \<Rightarrow> bytes \<Rightarrow> 'a pp_session_scheme \<Rightarrow> 'a pp_session_scheme" where
  "read_done b data s = s\<lparr>pp_reading := None, pp_bufs := (pp_bufs s)(b := put_block 0 data (pp_bufs s b)), pp_in := pp_in s @ data\<rparr>"

definition write_done :: "bool \<Rightarrow> nat \<Rightarrow> 'a pp_session_scheme \<Rightarrow> 'a pp_session_scheme" where
  "write_done b n s = s\<lparr>pp_writing := None, pp_out := pp_out s @ take n (pp_bufs s b)\<rparr>"

fun pp_svr_step :: "pp_event \<Rightarrow> pp_session \<Rightarrow> pp_session" where
  "pp_svr_step (Read_data data) s = (case pp_reading s of None \<Rightarrow> s | Some b \<Rightarrow> pp_svr_handle_read False (length data) (read_done b data s))"
| "pp_svr_step Read_error s = (case pp_reading s of None \<Rightarrow> s | Some b \<Rightarrow> pp_svr_handle_read True 0 (s\<lparr>pp_reading := None\<rparr>))"
| "pp_svr_step Write_done s = (case pp_writing s of None \<Rightarrow> s | Some (b, n) \<Rightarrow> pp_svr_handle_write False (write_done b n s))"
| "pp_svr_step Write_error s = (case pp_writing s of None \<Rightarrow> s | Some (b, n) \<Rightarrow> pp_svr_handle_write True (s\<lparr>pp_writing := None\<rparr>))"

fun pp_cli_step :: "pp_event \<Rightarrow> pp_client \<Rightarrow> pp_client" where
  "pp_cli_step (Read_data data) s = (case pp_reading s of None \<Rightarrow> s | Some b \<Rightarrow> pp_cli_handle_read False (length data) (read_done b data s))"
| "pp_cli_step Read_error s = (case pp_reading s of None \<Rightarrow> s | Some b \<Rightarrow> pp_cli_handle_read True 0 (s\<lparr>pp_reading := None\<rparr>))"
| "pp_cli_step Write_done s = (case pp_writing s of None \<Rightarrow> s | Some (b, n) \<Rightarrow> pp_cli_handle_write False n (write_done b n s))"
| "pp_cli_step Write_error s = (case pp_writing s of None \<Rightarrow> s | Some (b, n) \<Rightarrow> pp_cli_handle_write True 0 (s\<lparr>pp_writing := None\<rparr>))"

section \<open>The invariant\<close>

text \<open>
  Which operations are under way for which count, whose buffers they use, and what is received but not yet sent. \<open>alive\<close>: no operation has failed. \<open>base\<close> is what is sent before
  the first echo.
\<close>

definition pending_out :: "'a pp_session_scheme \<Rightarrow> bytes" where
  "pending_out s = (case pp_writing s of None \<Rightarrow> [] | Some (b, n) \<Rightarrow> take n (pp_bufs s b))"

definition pp_full :: "bytes \<Rightarrow> 'a pp_session_scheme \<Rightarrow> bool" where
  "pp_full base s \<longleftrightarrow>
     pp_unsent s = 0 \<and> pp_reading s = Some (pp_rd s) \<and> pp_writing s = None \<and> base @ pp_in s = pp_out s \<or>
     pp_unsent s = 1 \<and> pp_reading s = Some (pp_rd s) \<and> (\<exists>k>0. pp_writing s = Some (\<not> pp_rd s, k)) \<and> base @ pp_in s = pp_out s @ pending_out s \<or>
     pp_unsent s = 2 \<and> pp_reading s = None \<and> (\<exists>k>0. pp_writing s = Some (\<not> pp_rd s, k)) \<and> 0 < pp_len s \<and>
       base @ pp_in s = pp_out s @ pending_out s @ take (pp_len s) (pp_bufs s (pp_rd s))"

text \<open>After a failure the session winds down: no new operation is started, and what is sent is still the start of what came in.\<close>

definition pp_failed :: "bytes \<Rightarrow> 'a pp_session_scheme \<Rightarrow> bool" where
  "pp_failed base s \<longleftrightarrow> prefix (pp_out s @ pending_out s) (base @ pp_in s) \<and>
     (pp_reading s = None \<and> pp_writing s = None \<or>
      pp_unsent s = 1 \<and> pp_reading s = None \<and> (\<exists>k. pp_writing s = Some (\<not> pp_rd s, k)) \<or>
      pp_unsent s = 1 \<and> pp_reading s = Some (pp_rd s) \<and> pp_writing s = None)"

definition pp_inv :: "nat \<Rightarrow> bytes \<Rightarrow> 'a pp_session_scheme \<Rightarrow> bool" where
  "pp_inv n base s \<longleftrightarrow> (\<forall>b. length (pp_bufs s b) = n) \<and> (pp_full base s \<or> pp_failed base s)"

definition op_number :: "'a pp_session_scheme \<Rightarrow> int" where
  "op_number s = (if pp_reading s = None then 0 else 1) + (if pp_writing s = None then 0 else 1)"

definition fits :: "nat \<Rightarrow> pp_event \<Rightarrow> bool" where
  "fits n e = (case e of Read_data data \<Rightarrow> length data \<le> n \<and> data \<noteq> [] | _ \<Rightarrow> True)"

lemmas pp_handlers = pp_svr_handle_read_def pp_svr_handle_write_def pp_cli_handle_read_def pp_cli_handle_write_def pp_finish_def pp_swap_start_def pp_swap_client_def
  read_done_def write_done_def

lemma put_block_front: "length data \<le> length b \<Longrightarrow> length (put_block 0 data b) = length b \<and> take (length data) (put_block 0 data b) = data"
  by (simp add: put_block_def)

lemma prefix_more: "prefix xs (base @ ins) \<Longrightarrow> prefix xs (base @ ins @ data)"
  by (metis append_assoc prefix_prefix)

lemma pp_inv_cases:
  assumes "pp_inv n base s"
  obtains (idle) "pp_unsent s = 0" "pp_reading s = Some (pp_rd s)" "pp_writing s = None" "base @ pp_in s = pp_out s"
  | (echo) k where "pp_unsent s = 1" "pp_reading s = Some (pp_rd s)" "pp_writing s = Some (\<not> pp_rd s, k)" "0 < k"
      "base @ pp_in s = pp_out s @ take k (pp_bufs s (\<not> pp_rd s))"
  | (full) k where "pp_unsent s = 2" "pp_reading s = None" "pp_writing s = Some (\<not> pp_rd s, k)" "0 < k" "0 < pp_len s"
      "base @ pp_in s = pp_out s @ take k (pp_bufs s (\<not> pp_rd s)) @ take (pp_len s) (pp_bufs s (pp_rd s))"
  | (over) "pp_reading s = None" "pp_writing s = None" "prefix (pp_out s) (base @ pp_in s)"
  | (last_write) k where "pp_unsent s = 1" "pp_reading s = None" "pp_writing s = Some (\<not> pp_rd s, k)" "prefix (pp_out s @ take k (pp_bufs s (\<not> pp_rd s))) (base @ pp_in s)"
  | (last_read) "pp_unsent s = 1" "pp_reading s = Some (pp_rd s)" "pp_writing s = None" "prefix (pp_out s) (base @ pp_in s)"
  using assms unfolding pp_inv_def pp_full_def pp_failed_def pending_out_def by (elim conjE disjE exE) auto

lemmas pp_inv_defs = pp_inv_def pp_full_def pp_failed_def pending_out_def

text \<open>In the server \<open>op_count_\<close> is the number of operations under way, and the session is destroyed once, when there are none.\<close>

definition svr_inv :: "nat \<Rightarrow> pp_session \<Rightarrow> bool" where
  "svr_inv n s \<longleftrightarrow> pp_inv n [] s \<and> pp_ops s = op_number s \<and> pp_destroy s = (if op_number s = 0 then 1 else 0)"

lemma put_fits:
  assumes "fits n (Read_data data)" "\<forall>b. length (pp_bufs s b) = n"
  shows "length (put_block 0 data (pp_bufs s b)) = n \<and> take (length data) (put_block 0 data (pp_bufs s b)) = data \<and> 0 < length data"
  using put_block_front [of data "pp_bufs s b"] assms by (simp add: fits_def)

lemma svr_step_inv:
  assumes "svr_inv n s" and fits: "fits n e"
  shows "svr_inv n (pp_svr_step e s)"
proof -
  have inv: "pp_inv n [] s" and len: "\<forall>b. length (pp_bufs s b) = n" and ops: "pp_ops s = op_number s" "pp_destroy s = (if op_number s = 0 then 1 else 0)"
    using assms(1) by (simp_all add: svr_inv_def pp_inv_def)
  from inv show ?thesis
  proof (cases rule: pp_inv_cases)
    case idle
    then show ?thesis using ops len put_fits [of n _ s "pp_rd s"] fits
      by (cases e) (simp_all add: svr_inv_def op_number_def pp_inv_defs pp_handlers Let_def prefix_more)
  next
    case (echo k)
    then show ?thesis using ops len put_fits [of n _ s "pp_rd s"] fits
      by (cases e) (simp_all add: svr_inv_def op_number_def pp_inv_defs pp_handlers Let_def prefix_more)
  next
    case (full k)
    then show ?thesis using ops len by (cases e) (simp_all add: svr_inv_def op_number_def pp_inv_defs pp_handlers Let_def)
  next
    case over
    then show ?thesis using ops len by (cases e) (simp_all add: svr_inv_def op_number_def pp_inv_defs)
  next
    case (last_write k)
    then show ?thesis using ops len by (cases e) (auto simp: svr_inv_def op_number_def pp_inv_defs pp_handlers Let_def dest: append_prefixD)
  next
    case last_read
    then show ?thesis using ops len put_fits [of n _ s "pp_rd s"] fits
      by (cases e) (simp_all add: svr_inv_def op_number_def pp_inv_defs pp_handlers Let_def prefix_more)
  qed
qed

lemma svr_run_inv: "svr_inv n s \<Longrightarrow> list_all (fits n) es \<Longrightarrow> svr_inv n (fold pp_svr_step es s)"
  by (induction es arbitrary: s) (simp_all add: svr_step_inv)

lemma cli_step_inv:
  assumes inv: "pp_inv n base s" and fits: "fits n e"
  shows "pp_inv n base (pp_cli_step e s)"
proof -
  have len: "\<forall>b. length (pp_bufs s b) = n" using inv by (simp add: pp_inv_def)
  from inv show ?thesis
  proof (cases rule: pp_inv_cases)
    case idle
    then show ?thesis using len put_fits [of n _ s "pp_rd s"] fits
      by (cases e) (simp_all add: pp_inv_defs pp_handlers Let_def)
  next
    case (echo k)
    then show ?thesis using len put_fits [of n _ s "pp_rd s"] fits
      by (cases e) (simp_all add: pp_inv_defs pp_handlers Let_def)
  next
    case (full k)
    then show ?thesis using len by (cases e) (simp_all add: pp_inv_defs pp_handlers Let_def)
  next
    case over
    then show ?thesis using len by (cases e) (simp_all add: pp_inv_defs)
  next
    case (last_write k)
    then show ?thesis using len by (cases e) (auto simp: pp_inv_defs pp_handlers Let_def dest: append_prefixD)
  next
    case last_read
    then show ?thesis using len put_fits [of n _ s "pp_rd s"] fits
      by (cases e) (simp_all add: pp_inv_defs pp_handlers Let_def prefix_more)
  qed
qed

lemma cli_run_inv: "pp_inv n base s \<Longrightarrow> list_all (fits n) es \<Longrightarrow> pp_inv n base (fold pp_cli_step es s)"
  by (induction es arbitrary: s) (simp_all add: cli_step_inv)

text \<open>The statistics count the bytes that came in, modulo 2 to the 32.\<close>

lemma cli_counts:
  "pp_bytes_read s = of_nat (length (pp_in s)) \<Longrightarrow> pp_bytes_read (fold pp_cli_step es s) = of_nat (length (pp_in (fold pp_cli_step es s)))"
proof (induction es arbitrary: s)
  case (Cons e es)
  have "pp_bytes_read (pp_cli_step e s) = of_nat (length (pp_in (pp_cli_step e s)))"
    using Cons.prems by (cases e) (auto simp: pp_handlers Let_def split: option.splits)
  then show ?case using Cons.IH by simp
qed simp

section \<open>Properties\<close>

text \<open>
  C9. The full-duplex session of the ping-pong server: whatever completions come, a read and a write under way never use the same buffer, what the session has sent and is sending is the
  start of what it has received (nothing is lost, repeated or overwritten), the operations are counted right, and the session is destroyed exactly once, when no operation is
  under way any more.
\<close>

theorem pp_server_echoes:
  assumes "list_all (fits n) es" "s = fold pp_svr_step es (pp_svr_start False (pp_new n bufs))"
  shows "(\<forall>b b' k. pp_reading s = Some b \<and> pp_writing s = Some (b', k) \<longrightarrow> b \<noteq> b') \<and> prefix (pp_out s @ pending_out s) (pp_in s) \<and>
    pp_ops s = op_number s \<and> pp_destroy s = (if op_number s = 0 then 1 else 0)"
proof -
  have "svr_inv n (pp_svr_start False (pp_new n bufs))"
    by (auto simp: pp_svr_start_def pp_new_def svr_inv_def op_number_def pp_inv_defs)
  then have inv: "svr_inv n s" using svr_run_inv assms by blast
  then have "pp_inv n [] s" by (simp add: svr_inv_def)
  then have "(\<forall>b b' k. pp_reading s = Some b \<and> pp_writing s = Some (b', k) \<longrightarrow> b \<noteq> b') \<and> prefix (pp_out s @ pending_out s) (pp_in s)"
    by (cases rule: pp_inv_cases) (auto simp: pending_out_def simp flip: append_assoc)
  then show ?thesis using inv by (simp add: svr_inv_def)
qed

theorem pp_server_echoes_witness:
  "\<exists>s. s = fold pp_svr_step [Read_data [1, 2], Read_data [3], Write_done, Read_error, Write_done] (pp_svr_start False (pp_new 4 (\<lambda>b. []))) \<and>
     prefix (pp_out s @ pending_out s) (pp_in s) \<and> pp_out s = [1, 2, 3] \<and> pp_destroy s = 1"
proof -
  let ?es = "[Read_data [1, 2], Read_data [3], Write_done, Read_error, Write_done]"
  define s where "s = fold pp_svr_step ?es (pp_svr_start False (pp_new 4 (\<lambda>b. [])))"
  have out: "pp_out s = [1, 2, 3] \<and> op_number s = 0"
    by (simp add: s_def pp_svr_start_def pp_new_def pp_handlers Let_def op_number_def put_block_def)
  have "(\<forall>b b' k. pp_reading s = Some b \<and> pp_writing s = Some (b', k) \<longrightarrow> b \<noteq> b') \<and> prefix (pp_out s @ pending_out s) (pp_in s) \<and>
    pp_ops s = op_number s \<and> pp_destroy s = (if op_number s = 0 then 1 else 0)"
    by (rule pp_server_echoes [OF _ s_def]) (simp add: fits_def)
  then show ?thesis using out s_def by auto
qed

text \<open>The client likewise; it sends one block first.\<close>

theorem pp_client_echoes:
  assumes "list_all (fits n) es" "0 < n" "s = fold pp_cli_step es (pp_cli_connected False n (pp_cli_new n))"
  shows "pp_bytes_read s = of_nat (length (pp_in s)) \<and>
    prefix (pp_out s @ pending_out s) (map (\<lambda>i. of_nat (i mod 128)) [0..<n] @ pp_in s) \<and> (\<forall>b b' k. pp_reading s = Some b \<and> pp_writing s = Some (b', k) \<longrightarrow> b \<noteq> b')"
proof -
  let ?block = "map (\<lambda>i. of_nat (i mod 128)) [0..<n] :: bytes"
  let ?s = "pp_cli_connected False n (pp_cli_new n)"
  have "pp_inv n ?block ?s" using assms(2)
    by (simp add: pp_cli_connected_def pp_cli_new_def pp_new_def pp_session.defs pp_inv_defs)
  then have "pp_inv n ?block s" using cli_run_inv assms by blast
  then have "prefix (pp_out s @ pending_out s) (?block @ pp_in s) \<and> (\<forall>b b' k. pp_reading s = Some b \<and> pp_writing s = Some (b', k) \<longrightarrow> b \<noteq> b')"
    by (cases rule: pp_inv_cases) (auto simp: pending_out_def simp flip: append_assoc)
  moreover have "pp_bytes_read ?s = of_nat (length (pp_in ?s))" by (simp add: pp_cli_connected_def pp_cli_new_def pp_new_def pp_session.defs)
  ultimately show ?thesis using cli_counts [of ?s es] assms(3) by simp
qed

section \<open>The client of the framework\<close>

text \<open>
  \<open>session_t\<close> of \<open>pingping_cli.cpp\<close>: a read completes and starts a write, a write completes and starts a read. \<open>pg_reads\<close> and \<open>pg_writes\<close> are the operations under way, by
  the buffer they use: \<open>pg_rd\<close> is the one of \<open>read_buf_\<close>.
\<close>

record ping_session =
  pg_rd :: bool
  pg_reads :: "bool list"
  pg_writes :: "bool list"
  pg_msgs :: u32
  pg_read_bytes :: u32
  pg_write_bytes :: u32

definition ping_new :: ping_session where
  "ping_new = \<lparr>pg_rd = False, pg_reads = [], pg_writes = [], pg_msgs = 0, pg_read_bytes = 0, pg_write_bytes = 0\<rparr>"

definition ping_read :: "ping_session \<Rightarrow> ping_session" where
  "ping_read s = s\<lparr>pg_reads := pg_reads s @ [pg_rd s]\<rparr>"

definition ping_write :: "ping_session \<Rightarrow> ping_session" where
  "ping_write s = s\<lparr>pg_writes := pg_writes s @ [\<not> pg_rd s]\<rparr>"

definition ping_on_connect :: "bool \<Rightarrow> ping_session \<Rightarrow> ping_session" where
  "ping_on_connect suc s = (if \<not> suc then s else ping_read (ping_write s))"

definition ping_on_read :: "u32 \<Rightarrow> ping_session \<Rightarrow> ping_session" where
  "ping_on_read len s = ping_write (s\<lparr>pg_msgs := pg_msgs s + 1, pg_read_bytes := pg_read_bytes s + len, pg_rd := \<not> pg_rd s\<rparr>)"

definition ping_on_write :: "u32 \<Rightarrow> ping_session \<Rightarrow> ping_session" where
  "ping_on_write len s = ping_read (s\<lparr>pg_write_bytes := pg_write_bytes s + len\<rparr>)"

text \<open>The operation that was started first among the reads, or among the writes, completes.\<close>

datatype ping_event = Ping_read u32 | Ping_write u32

fun ping_step :: "ping_event \<Rightarrow> ping_session \<Rightarrow> ping_session" where
  "ping_step (Ping_read len) s = (case pg_reads s of [] \<Rightarrow> s | b # bs \<Rightarrow> ping_on_read len (s\<lparr>pg_reads := bs\<rparr>))"
| "ping_step (Ping_write len) s = (case pg_writes s of [] \<Rightarrow> s | b # bs \<Rightarrow> ping_on_write len (s\<lparr>pg_writes := bs\<rparr>))"

text \<open>There are always two operations under way, but when the first write completes before the first read, two reads fill the same buffer.\<close>

lemma ping_two_ops: "length (pg_reads s) + length (pg_writes s) = k \<Longrightarrow> length (pg_reads (ping_step e s)) + length (pg_writes (ping_step e s)) = k"
  by (cases e) (auto simp: ping_on_read_def ping_on_write_def ping_read_def ping_write_def split: list.splits)

lemma ping_reads_collide: "pg_reads (ping_step (Ping_write len) (ping_on_connect True ping_new)) = [False, False]"
  by (simp add: ping_on_connect_def ping_new_def ping_on_write_def ping_read_def ping_write_def)

section \<open>Memory for handlers\<close>

text \<open>
  \<open>handler_allocator\<close> (\<open>performance/pingpong/pingpong/handler_allocator.hpp\<close>): one block inside the object, for one request of less than 1024 bytes at a time; every other
  request goes to \<open>operator new\<close>, which gives a block that is not in use.
\<close>

datatype h_ptr = Storage | Heap nat

definition h_allocate :: "nat \<Rightarrow> nat \<Rightarrow> bool \<Rightarrow> h_ptr \<times> bool" where
  "h_allocate heap n in_use = (if \<not> in_use \<and> n < 1024 then (Storage, True) else (Heap heap, in_use))"

definition h_deallocate :: "h_ptr \<Rightarrow> bool \<Rightarrow> bool" where
  "h_deallocate p in_use = (if p = Storage then False else in_use)"

text \<open>A run of requests, each with what \<open>operator new\<close> would give, and of releases of the block at a position of the list of live ones.\<close>

datatype h_event = H_alloc nat nat | H_free nat

fun h_step :: "h_event \<Rightarrow> h_ptr list \<times> bool \<Rightarrow> h_ptr list \<times> bool" where
  "h_step (H_alloc heap n) (live, u) = (let (p, u') = h_allocate heap n u in (p # live, u'))"
| "h_step (H_free i) (live, u) = (if i < length live then (take i live @ drop (Suc i) live, h_deallocate (live ! i) u) else (live, u))"

definition h_inv :: "h_ptr list \<times> bool \<Rightarrow> bool" where
  "h_inv = (\<lambda>(live, u). distinct live \<and> (u \<longleftrightarrow> Storage \<in> set live))"

text \<open>No two live blocks are the same, and the block inside is marked exactly while it is handed out.\<close>

theorem handler_allocator_blocks_distinct:
  assumes "h_inv (live, u)" "\<forall>heap n. e = H_alloc heap n \<longrightarrow> Heap heap \<notin> set live"
  shows "h_inv (h_step e (live, u))"
proof (cases e)
  case (H_alloc heap n)
  then show ?thesis using assms by (auto simp: h_inv_def h_allocate_def)
next
  case (H_free i)
  show ?thesis
  proof (cases "i < length live")
    case True
    have d: "distinct live" and u: "u \<longleftrightarrow> Storage \<in> set live" using assms(1) by (auto simp: h_inv_def)
    have split: "live = take i live @ live ! i # drop (Suc i) live" using True by (rule id_take_nth_drop)
    have rest: "set (take i live @ drop (Suc i) live) = set live - {live ! i} \<and> distinct (take i live @ drop (Suc i) live)"
      using d by (subst (asm) split, subst split) auto
    show ?thesis using H_free True rest u by (auto simp: h_inv_def h_deallocate_def)
  qed (use H_free assms in simp)
qed

end
