(* ===== verification/Ex_Programs.thy ===== *)
theory Ex_Programs
  imports Prelude "HOL-Library.Sublist"
begin

unbundle bit_operations_syntax

text \<open>
  Two more programs of the examples: the file copy of \<open>Example/File/File/Impl/FileImpl.h\<close>, which reads and writes blocks in turn, and the server of
  \<open>Example/Network/MaxConnection/MaxConnection/MaxConnection.cpp\<close>, which limits its connections.
\<close>

section \<open>Copying a file\<close>

text \<open>\<open>round\<close>: up to a multiple of the sector size, on a \<open>size_t\<close>.\<close>

definition round_up :: "u32 \<Rightarrow> u32" where
  "round_up m = (m + 512 - 1) AND NOT (512 - 1)"

text \<open>A read asks for \<open>r_size\<close> bytes and completes with at least \<open>r_least\<close>; a write has its bytes. \<open>fc_dst\<close> is the file that is written.\<close>

datatype file_op = F_read nat nat nat | F_write nat bytes

record file_copier =
  fc_buf :: bytes
  fc_offset :: nat
  fc_size :: nat
  fc_open :: bool
  fc_pending :: "file_op option"
  fc_dst :: bytes

definition fc_new :: "bytes \<Rightarrow> file_copier" where
  "fc_new src = \<lparr>fc_buf = replicate 8192 0, fc_offset = 0, fc_size = length src, fc_open = True, fc_pending = None, fc_dst = []\<rparr>"

definition fc_stop :: "file_copier \<Rightarrow> file_copier" where
  "fc_stop c = c\<lparr>fc_open := False\<rparr>"

definition fc_start :: "bool \<Rightarrow> file_copier \<Rightarrow> file_copier" where
  "fc_start throws c = (let left = min (fc_size c - fc_offset c) 8192 in
     if left = 0 then fc_stop c
     else if throws then c
     else c\<lparr>fc_pending := Some (F_read (fc_offset c) (unat (round_up (of_nat left))) left)\<rparr>)"

definition fc_on_read :: "nat \<Rightarrow> nat \<Rightarrow> bool \<Rightarrow> file_copier \<Rightarrow> file_copier" where
  "fc_on_read error sz throws c = (if error \<noteq> 0 then c else if throws then c
     else c\<lparr>fc_pending := Some (F_write (fc_offset c) (take sz (fc_buf c)))\<rparr>)"

definition fc_on_write :: "nat \<Rightarrow> nat \<Rightarrow> bool \<Rightarrow> file_copier \<Rightarrow> file_copier" where
  "fc_on_write error sz throws c = (if error \<noteq> 0 then c else fc_start throws (c\<lparr>fc_offset := fc_offset c + sz\<rparr>))"

text \<open>
  What the system does is a parameter: the operation under way completes with an error code after \<open>fe_moved\<close> bytes, and starting the next operation may throw. A completed read has brought the bytes
  of the file at its offset into the buffer, a completed write has put the first of its bytes at its offset.
\<close>

record file_event =
  fe_err :: nat
  fe_moved :: nat
  fe_throws :: bool

definition fc_complete :: "bytes \<Rightarrow> file_event \<Rightarrow> file_copier \<Rightarrow> file_copier" where
  "fc_complete src e c = (case fc_pending c of None \<Rightarrow> c
     | Some (F_read pos n least) \<Rightarrow>
         fc_on_read (fe_err e) (fe_moved e) (fe_throws e) (c\<lparr>fc_pending := None, fc_buf := put_block 0 (get_block pos (fe_moved e) src) (fc_buf c)\<rparr>)
     | Some (F_write pos data) \<Rightarrow>
         fc_on_write (fe_err e) (fe_moved e) (fe_throws e) (c\<lparr>fc_pending := None, fc_dst := put_block pos (take (fe_moved e) data) (fc_dst c)\<rparr>))"

text \<open>
  No operation moves more bytes than it was asked for or, reading, than the file has; and one that reports no error has moved what its condition asks for: at least \<open>least\<close> bytes, all
  bytes of a write.
\<close>

definition fc_legal :: "bytes \<Rightarrow> file_event \<Rightarrow> file_copier \<Rightarrow> bool" where
  "fc_legal src e c \<longleftrightarrow> (case fc_pending c of None \<Rightarrow> True
     | Some (F_read pos n least) \<Rightarrow> fe_moved e \<le> n \<and> fe_moved e \<le> length src - pos \<and> (fe_err e = 0 \<longrightarrow> least \<le> fe_moved e)
     | Some (F_write pos data) \<Rightarrow> fe_moved e \<le> length data \<and> (fe_err e = 0 \<longrightarrow> fe_moved e = length data))"

fun fc_legal_run :: "bytes \<Rightarrow> file_event list \<Rightarrow> file_copier \<Rightarrow> bool" where
  "fc_legal_run src [] c = True"
| "fc_legal_run src (e # es) c = (fc_legal src e c \<and> fc_legal_run src es (fc_complete src e c))"

definition fc_succeeds :: "file_event \<Rightarrow> bool" where
  "fc_succeeds e \<longleftrightarrow> fe_err e = 0 \<and> \<not> fe_throws e"

subsection \<open>Correctness\<close>

lemma round_up_le: "m \<le> 8192 \<Longrightarrow> m \<le> unat (round_up (of_nat m)) \<and> unat (round_up (of_nat m)) \<le> 8192"
proof -
  assume m: "m \<le> 8192"
  have "NOT (511 :: u32) = push_bit 9 (mask 23)" by (simp add: mask_eq_exp_minus_1)
  moreover have "(of_nat m + 511 :: u32) AND push_bit 9 (mask 23) = push_bit 9 (drop_bit 9 (of_nat m + 511))"
    by (rule bit_word_eqI) (auto simp: bit_simps)
  ultimately have "round_up (of_nat m) = push_bit 9 (drop_bit 9 (of_nat (m + 511)))" by (simp add: round_up_def add.commute)
  moreover have "unat (of_nat (m + 511) :: u32) = m + 511" using m by (simp add: unat_of_nat_u32 del: of_nat_add)
  ultimately have "unat (round_up (of_nat m)) = (m + 511) div 512 * 512"
    using m by (simp add: push_bit_eq_mult drop_bit_eq_div unat_word_ariths unat_div)
  moreover have "m \<le> (m + 511) div 512 * 512" using div_mult_mod_eq [of "m + 511" 512] mod_less_divisor [of 512 "m + 511"] by linarith
  moreover have "(m + 511) div 512 \<le> 8703 div 512" using m by (intro div_le_mono) simp
  ultimately show ?thesis by simp
qed

text \<open>The next block, and the invariant: what is before the offset has been copied, a write under way has the next block, and the files are closed only at the end.\<close>

definition fc_block :: "bytes \<Rightarrow> nat \<Rightarrow> nat" where
  "fc_block src k = min (length src - k) 8192"

definition fc_inv :: "bytes \<Rightarrow> file_copier \<Rightarrow> bool" where
  "fc_inv src c \<longleftrightarrow> fc_size c = length src \<and> length (fc_buf c) = 8192 \<and> fc_offset c \<le> length src \<and>
     (case fc_pending c of
        None \<Rightarrow> prefix (fc_dst c) src \<and> (\<not> fc_open c \<longrightarrow> fc_dst c = src)
      | Some (F_read pos n least) \<Rightarrow> fc_open c \<and> pos = fc_offset c \<and> fc_dst c = take pos src \<and> pos < length src \<and> least = fc_block src pos \<and>
          least \<le> n \<and> n \<le> 8192
      | Some (F_write pos data) \<Rightarrow> fc_open c \<and> pos = fc_offset c \<and> fc_dst c = take pos src \<and> pos < length src \<and> data = get_block pos (fc_block src pos) src)"

lemma fc_inv_start:
  assumes "fc_size c = length src" "length (fc_buf c) = 8192" "fc_offset c \<le> length src" "fc_dst c = take (fc_offset c) src" "fc_open c" "fc_pending c = None"
  shows "fc_inv src (fc_start throws c)"
  using assms round_up_le [of "fc_block src (fc_offset c)"] take_is_prefix [of "fc_offset c" src]
  by (auto simp: fc_inv_def fc_start_def fc_stop_def fc_block_def Let_def)

lemma block_length: "length (get_block k (fc_block src k) src) = fc_block src k"
  by (simp add: get_block_def fc_block_def)

lemma block_moved:
  assumes "m \<le> 8192" "m \<le> length src - k" "fc_block src k \<le> m"
  shows "m = fc_block src k"
  using assms by (simp add: fc_block_def)

lemma fc_inv_complete:
  assumes "fc_inv src c" "fc_legal src e c"
  shows "fc_inv src (fc_complete src e c)"
proof (cases "fc_pending c")
  case (Some a)
  show ?thesis
  proof (cases a)
    case (F_read pos n least)
    have m: "fe_moved e \<le> 8192" "fe_moved e \<le> length src - pos" "fe_err e = 0 \<longrightarrow> fc_block src pos \<le> fe_moved e"
      using assms Some F_read by (auto simp: fc_inv_def fc_legal_def)
    then have "fe_err e = 0 \<longrightarrow> fe_moved e = fc_block src pos" using block_moved by blast
    moreover have "length (get_block pos (fe_moved e) src) = fe_moved e" using m(2) by (simp add: get_block_def)
    ultimately show ?thesis using assms Some F_read m(1) take_is_prefix [of pos src]
      by (auto simp: fc_inv_def fc_complete_def fc_on_read_def put_block_def)
  next
    case (F_write pos data)
    let ?dst = "put_block pos (take (fe_moved e) data) (fc_dst c)"
    have i: "fc_open c" "pos = fc_offset c" "fc_dst c = take pos src" "pos < length src" "data = get_block pos (fc_block src pos) src"
      "fc_size c = length src" "length (fc_buf c) = 8192" using assms(1) Some F_write by (auto simp: fc_inv_def)
    have m: "fe_moved e \<le> fc_block src pos" "fe_err e = 0 \<longrightarrow> fe_moved e = fc_block src pos"
      using assms(2) Some F_write i(5) block_length [of pos src] by (auto simp: fc_legal_def)
    have "take (fe_moved e) data = get_block pos (fe_moved e) src" using m(1) i(5) by (simp add: get_block_def min_absorb1)
    then have dst: "?dst = take (pos + fe_moved e) src" using i(3,4) by (simp add: put_block_def get_block_def take_add)
    have le: "pos + fc_block src pos \<le> length src" using i(4) by (simp add: fc_block_def)
    let ?c = "c\<lparr>fc_pending := None, fc_dst := ?dst\<rparr>"
    show ?thesis
    proof (cases "fe_err e = 0")
      case True
      then have "fc_complete src e c = fc_start (fe_throws e) (?c\<lparr>fc_offset := fc_offset c + fe_moved e\<rparr>)"
        using Some F_write by (simp add: fc_complete_def fc_on_write_def)
      moreover have "fc_inv src (fc_start (fe_throws e) (?c\<lparr>fc_offset := fc_offset c + fe_moved e\<rparr>))"
        by (rule fc_inv_start) (use True m i dst le in simp_all)
      ultimately show ?thesis by simp
    next
      case False
      then have "fc_complete src e c = ?c" using Some F_write by (simp add: fc_complete_def fc_on_write_def)
      then show ?thesis using i dst take_is_prefix [of "pos + fe_moved e" src] by (simp add: fc_inv_def)
    qed
  qed
qed (use assms in \<open>simp add: fc_complete_def\<close>)

text \<open>The completions still to come when none fails: two for every block.\<close>

definition fc_blocks :: "bytes \<Rightarrow> nat \<Rightarrow> nat" where
  "fc_blocks src k = (length src - k + 8191) div 8192"

definition fc_todo :: "bytes \<Rightarrow> file_copier \<Rightarrow> nat" where
  "fc_todo src c = (case fc_pending c of None \<Rightarrow> 0 | Some (F_read pos n least) \<Rightarrow> 2 * fc_blocks src pos | Some (F_write pos data) \<Rightarrow> 2 * fc_blocks src pos - 1)"

lemma fc_blocks_next: "k < length src \<Longrightarrow> fc_blocks src k = Suc (fc_blocks src (k + fc_block src k))"
  by (cases "k + 8192 \<le> length src") (simp_all add: fc_blocks_def fc_block_def le_div_geq)

lemma fc_todo_start:
  "fc_size c = length src \<Longrightarrow> fc_offset c \<le> length src \<Longrightarrow> fc_pending c = None \<Longrightarrow> fc_todo src (fc_start False c) = 2 * fc_blocks src (fc_offset c)"
  "fc_size c = length src \<Longrightarrow> fc_offset c \<le> length src \<Longrightarrow> fc_pending (fc_start False c) \<noteq> None \<or> \<not> fc_open (fc_start False c)"
  by (auto simp: fc_todo_def fc_start_def fc_stop_def fc_blocks_def Let_def)

lemma fc_succeeds_step:
  assumes "fc_inv src c" "fc_legal src e c" "fc_succeeds e" "fc_pending c \<noteq> None \<or> \<not> fc_open c"
  shows "fc_todo src (fc_complete src e c) = fc_todo src c - 1 \<and> (fc_pending (fc_complete src e c) \<noteq> None \<or> \<not> fc_open (fc_complete src e c))"
proof (cases "fc_pending c")
  case (Some a)
  show ?thesis
  proof (cases a)
    case (F_read pos n least)
    then show ?thesis using assms Some by (auto simp: fc_complete_def fc_on_read_def fc_succeeds_def fc_todo_def fc_inv_def)
  next
    case (F_write pos data)
    have pos: "pos = fc_offset c" "pos < length src" "fc_size c = length src" and m: "fe_moved e = fc_block src pos"
      using assms Some F_write block_length [of pos src] by (auto simp: fc_inv_def fc_legal_def fc_succeeds_def)
    let ?c = "c\<lparr>fc_pending := None, fc_dst := put_block pos (take (fe_moved e) data) (fc_dst c), fc_offset := pos + fc_block src pos\<rparr>"
    have c: "fc_complete src e c = fc_start False ?c" using assms(3) Some F_write pos m by (simp add: fc_complete_def fc_on_write_def fc_succeeds_def)
    have "pos + fc_block src pos \<le> length src" using pos(2) by (simp add: fc_block_def)
    then show ?thesis unfolding c using fc_todo_start [of ?c src] pos fc_blocks_next [OF pos(2)] Some F_write by (simp add: fc_todo_def)
  qed
qed (use assms in \<open>simp add: fc_complete_def fc_todo_def\<close>)

lemma fc_run:
  "fc_inv src c \<Longrightarrow> fc_legal_run src es c \<Longrightarrow> fc_inv src (fold (fc_complete src) es c)"
  "fc_inv src c \<Longrightarrow> fc_legal_run src es c \<Longrightarrow> list_all fc_succeeds es \<Longrightarrow> fc_pending c \<noteq> None \<or> \<not> fc_open c \<Longrightarrow>
     fc_todo src (fold (fc_complete src) es c) = fc_todo src c - length es \<and> (fc_pending (fold (fc_complete src) es c) \<noteq> None \<or> \<not> fc_open (fold (fc_complete src) es c))"
proof (induction es arbitrary: c)
  case (Cons e es)
  { case 1 then show ?case using Cons.IH(1) [of "fc_complete src e c"] fc_inv_complete [of src c e] by simp }
  { case 2
    then have "fc_inv src (fc_complete src e c)" using fc_inv_complete by simp
    then show ?case using 2 Cons.IH(2) [of "fc_complete src e c"] fc_succeeds_step [of src c e] by simp }
qed simp_all

text \<open>
  C10. The file copy, whatever the system does: at any time the written file is the start of the file that is read, and both files are closed only when it is the whole of it and no operation
  is under way. When every operation succeeds, which is when nothing throws and no completion reports an error, two completions for every block of 8192 bytes, the last of which may be
  short, are enough.
\<close>

theorem file_copy_complete:
  assumes "fc_legal_run src es (fc_start throws (fc_new src))" "c = fold (fc_complete src) es (fc_start throws (fc_new src))"
  shows "prefix (fc_dst c) src \<and> (\<not> fc_open c \<longrightarrow> fc_dst c = src \<and> fc_pending c = None) \<and>
    (\<not> throws \<and> list_all fc_succeeds es \<and> 2 * ((length src + 8191) div 8192) \<le> length es \<longrightarrow> \<not> fc_open c)"
proof -
  let ?c = "fc_start throws (fc_new src)"
  have inv: "fc_inv src ?c" by (rule fc_inv_start) (simp_all add: fc_new_def)
  then have "fc_inv src c" using assms fc_run(1) by blast
  then have safe: "prefix (fc_dst c) src \<and> (\<not> fc_open c \<longrightarrow> fc_dst c = src \<and> fc_pending c = None)"
    unfolding fc_inv_def by (auto split: option.splits file_op.splits simp: take_is_prefix)
  have "\<not> fc_open c" if "\<not> throws" "list_all fc_succeeds es" "2 * ((length src + 8191) div 8192) \<le> length es"
  proof -
    have start: "fc_todo src ?c = 2 * fc_blocks src 0" "fc_pending ?c \<noteq> None \<or> \<not> fc_open ?c"
      using that(1) fc_todo_start [of "fc_new src" src] by (simp_all add: fc_new_def)
    have "fc_todo src c = 0" "fc_pending c \<noteq> None \<or> \<not> fc_open c"
      using fc_run(2) [OF inv assms(1) that(2) start(2)] that(3) start(1) assms(2) by (simp_all add: fc_blocks_def)
    moreover have "fc_todo src c \<noteq> 0" if "fc_pending c \<noteq> None"
      using that \<open>fc_inv src c\<close> fc_blocks_next [of _ src] by (auto simp: fc_inv_def fc_todo_def split: option.splits file_op.splits)
    ultimately show ?thesis by blast
  qed
  then show ?thesis using safe by blast
qed

theorem file_copy_complete_witness:
  "\<exists>c. c = fold (fc_complete [1, 2, 3]) [\<lparr>fe_err = 0, fe_moved = 3, fe_throws = False\<rparr>, \<lparr>fe_err = 0, fe_moved = 3, fe_throws = False\<rparr>] (fc_start False (fc_new [1, 2, 3])) \<and>
     fc_dst c = [1, 2, 3] \<and> fc_pending c = None \<and> \<not> fc_open c"
proof -
  let ?src = "[1, 2, 3] :: bytes" and ?e = "\<lparr>fe_err = 0, fe_moved = 3, fe_throws = False\<rparr>"
  let ?c = "fc_start False (fc_new ?src)"
  have r: "fc_pending ?c = Some (F_read 0 512 3)" by (simp add: fc_start_def fc_new_def round_up_def)
  have w: "fc_pending (fc_complete ?src ?e ?c) = Some (F_write 0 (take 3 (put_block 0 ?src (replicate 8192 0))))"
    using r by (simp add: fc_complete_def fc_on_read_def get_block_def) (simp add: fc_start_def fc_new_def)
  have legal: "fc_legal_run ?src [?e, ?e] ?c" using r w by (simp add: fc_legal_def put_block_def)
  show ?thesis using file_copy_complete [OF legal refl] by (simp add: fc_succeeds_def)
qed

section \<open>A limit on connections\<close>

text \<open>
  \<open>mc_count\<close> is \<open>connectCnt_\<close>, a \<open>size_t\<close> that no lock protects; \<open>mc_accepting\<close>: an accept is under way, \<open>mc_reads\<close> the reads under way, one for each connection. The handlers run on
  the threads of the dispatcher, so they are cut where they read and where they assign the counter. \<open>mc_acc\<close> is where \<open>OnAccept\<close> is -- a new accept is started as its last action, so it runs on one thread at
  a time --, \<open>mc_loaded\<close> are the values that running calls of \<open>OnRead\<close> have read and are about to assign less one, \<open>mc_begun\<close> the calls of \<open>OnRead\<close> that have not read it yet.
\<close>

definition MAX_CONNECTION :: u32 where "MAX_CONNECTION = 1024"

datatype accept_pc = Acc_idle | Acc_test | Acc_load | Acc_store u32

record max_server =
  mc_count :: u32
  mc_accepting :: bool
  mc_reads :: nat
  mc_acc :: accept_pc
  mc_begun :: nat
  mc_loaded :: "u32 list"

definition mc_new :: max_server where
  "mc_new = \<lparr>mc_count = 0, mc_accepting = True, mc_reads = 0, mc_acc = Acc_idle, mc_begun = 0, mc_loaded = []\<rparr>"

text \<open>\<open>OnAccept\<close>, from one access to the counter to the next; starting the read and starting the next accept may throw, after the connection was counted.\<close>

definition mc_OnAccept :: "bool \<Rightarrow> bool \<Rightarrow> max_server \<Rightarrow> max_server" where
  "mc_OnAccept read_throws accept_throws s = (case mc_acc s of
       Acc_idle \<Rightarrow> s
     | Acc_test \<Rightarrow> s\<lparr>mc_acc := (if mc_count s > MAX_CONNECTION then Acc_idle else Acc_load)\<rparr>
     | Acc_load \<Rightarrow> s\<lparr>mc_acc := Acc_store (mc_count s)\<rparr>
     | Acc_store v \<Rightarrow> let s = s\<lparr>mc_count := v + 1, mc_acc := Acc_idle\<rparr> in
         if read_throws then s
         else let s = s\<lparr>mc_reads := mc_reads s + 1\<rparr> in
           if accept_throws then s else s\<lparr>mc_accepting := True\<rparr>)"

text \<open>\<open>OnRead\<close>: it begins, reads the counter, assigns it.\<close>

definition mc_OnRead :: "nat \<Rightarrow> nat \<Rightarrow> max_server \<Rightarrow> max_server" where
  "mc_OnRead err sz s = (if err \<noteq> 0 \<or> sz = 0 then s\<lparr>mc_begun := mc_begun s + 1\<rparr> else s)"

definition mc_OnRead_load :: "max_server \<Rightarrow> max_server" where
  "mc_OnRead_load s = (if mc_begun s = 0 then s else s\<lparr>mc_begun := mc_begun s - 1, mc_loaded := mc_loaded s @ [mc_count s]\<rparr>)"

definition mc_OnRead_store :: "nat \<Rightarrow> max_server \<Rightarrow> max_server" where
  "mc_OnRead_store i s = (if i < length (mc_loaded s)
     then s\<lparr>mc_count := mc_loaded s ! i - 1, mc_loaded := take i (mc_loaded s) @ drop (Suc i) (mc_loaded s)\<rparr> else s)"

datatype mc_event = Mc_accept nat | Mc_accept_goes_on bool bool | Mc_read nat nat | Mc_read_load | Mc_read_store nat

fun mc_step :: "mc_event \<Rightarrow> max_server \<Rightarrow> max_server" where
  "mc_step (Mc_accept err) s = (if mc_accepting s then s\<lparr>mc_accepting := False, mc_acc := (if err \<noteq> 0 then Acc_idle else Acc_test)\<rparr> else s)"
| "mc_step (Mc_accept_goes_on rt at) s = mc_OnAccept rt at s"
| "mc_step (Mc_read err sz) s = (if mc_reads s > 0 then mc_OnRead err sz (s\<lparr>mc_reads := mc_reads s - 1\<rparr>) else s)"
| "mc_step Mc_read_load s = mc_OnRead_load s"
| "mc_step (Mc_read_store i) s = mc_OnRead_store i s"

text \<open>
  On one thread, a handler runs to its end before the next begins: then the server never counts more than one connection above its limit, and never fewer than the connections that are
  being read, so the counter does not wrap.
\<close>

fun mc_one_thread :: "mc_event \<Rightarrow> mc_event list" where
  "mc_one_thread (Mc_accept err) = [Mc_accept err, Mc_accept_goes_on False False, Mc_accept_goes_on False False, Mc_accept_goes_on False False]"
| "mc_one_thread (Mc_read err sz) = [Mc_read err sz, Mc_read_load, Mc_read_store 0]"
| "mc_one_thread e = []"

definition mc_quiet :: "max_server \<Rightarrow> bool" where
  "mc_quiet s \<longleftrightarrow> mc_count s \<le> MAX_CONNECTION + 1 \<and> mc_reads s \<le> unat (mc_count s) \<and> mc_acc s = Acc_idle \<and> mc_begun s = 0 \<and> mc_loaded s = []"

lemma mc_quiet_handler:
  assumes "mc_quiet s"
  shows "mc_quiet (fold mc_step (mc_one_thread e) s)"
proof -
  have up: "unat (c + 1) = unat c + 1" if "c \<le> 1024" for c :: u32 using that by (simp add: unat_word_ariths word_le_nat_alt)
  have down: "unat (c - 1) = unat c - 1 \<and> c - 1 \<le> 1025" if "0 < unat c" "c \<le> 1025" for c :: u32
  proof -
    have "1 \<le> c" using that(1) by (simp add: word_le_nat_alt)
    then have "unat (c - 1) = unat c - 1" by (simp add: unat_sub)
    then show ?thesis using that(2) by (simp add: word_le_nat_alt)
  qed
  show ?thesis
  proof (cases e)
    case (Mc_accept err)
    then show ?thesis using assms up [of "mc_count s"] by (auto simp: mc_quiet_def MAX_CONNECTION_def mc_OnAccept_def not_less word_le_nat_alt)
  next
    case (Mc_read err sz)
    then show ?thesis using assms down [of "mc_count s"]
      by (auto simp: mc_quiet_def MAX_CONNECTION_def mc_OnRead_def mc_OnRead_load_def mc_OnRead_store_def)
  qed (use assms in simp_all)
qed

lemma connections_bounded_one_thread: "mc_quiet (fold mc_step (concat (map mc_one_thread es)) mc_new)"
proof -
  have "mc_quiet (fold mc_step (concat (map mc_one_thread es)) s)" if "mc_quiet s" for s
    using that by (induction es arbitrary: s) (simp_all add: mc_quiet_handler)
  then show ?thesis by (simp add: mc_quiet_def mc_new_def)
qed

text \<open>Once no accept is under way and \<open>OnAccept\<close> is not running, none will be, whatever happens.\<close>

lemma mc_closed_for_good: "\<not> mc_accepting s \<Longrightarrow> mc_acc s = Acc_idle \<Longrightarrow> \<not> mc_accepting (fold mc_step es s)"
proof (induction es arbitrary: s)
  case (Cons e es)
  have "\<not> mc_accepting (mc_step e s) \<and> mc_acc (mc_step e s) = Acc_idle"
    using Cons.prems by (cases e) (auto simp: mc_OnAccept_def mc_OnRead_def mc_OnRead_load_def mc_OnRead_store_def)
  then show ?case using Cons.IH by simp
qed simp

text \<open>
  On two threads a count is lost. A connection ends while another is accepted: both handlers read 1, \<open>OnAccept\<close> assigns 2 and \<open>OnRead\<close> then 0, and when the other connection ends the counter
  wraps: the server, without a connection, refuses the next and accepts nothing any more.
\<close>

lemma counter_race_closes_server:
  fixes es'
  defines "s \<equiv> fold mc_step
    [Mc_accept 0, Mc_accept_goes_on False False, Mc_accept_goes_on False False, Mc_accept_goes_on False False,
     Mc_accept 0, Mc_accept_goes_on False False, Mc_read 0 0, Mc_read_load, Mc_accept_goes_on False False, Mc_accept_goes_on False False, Mc_read_store 0,
     Mc_read 0 0, Mc_read_load, Mc_read_store 0,
     Mc_accept 0, Mc_accept_goes_on False False] mc_new"
  shows "mc_count s = - 1 \<and> mc_reads s = 0 \<and> \<not> mc_accepting (fold mc_step es' s)"
proof -
  have "mc_count s = - 1 \<and> mc_reads s = 0 \<and> \<not> mc_accepting s \<and> mc_acc s = Acc_idle"
    by (simp add: s_def mc_new_def mc_OnAccept_def mc_OnRead_def mc_OnRead_load_def mc_OnRead_store_def MAX_CONNECTION_def)
  then show ?thesis using mc_closed_for_good by blast
qed

end
