(* ===== verification/Task_Adaptor.thy ===== *)
theory Task_Adaptor
  imports Prelude
begin

text \<open>
  The task adaptors of the thread pool (\<open>include/multi_thread/thread_pool/task_adaptor.hpp\<close>): tasks with a priority, tasks that run again and again until an event is set, tasks
  that run whenever an object is signalled. The results of the waits are a parameter, the one of the \<open>i\<close>-th wait at \<open>i\<close>; the loops may not end.
\<close>

section \<open>Tasks\<close>

text \<open>A function object is empty or a function on the program's state, which may throw. Calling an empty one throws \<open>bad_function_call\<close>.\<close>

type_synonym 's task_function = "('s \<Rightarrow> 's result) option"

definition call_task :: "'s task_function \<Rightarrow> 's \<Rightarrow> 's result" where
  "call_task func s = (case func of None \<Rightarrow> Inl Bad_function_call | Some f \<Rightarrow> f s)"

record 's prio_task_function =
  priority :: nat
  prio_func :: "'s task_function"

definition prio_call :: "'s prio_task_function \<Rightarrow> 's \<Rightarrow> 's result" where
  "prio_call t s = (if prio_func t \<noteq> None then call_task (prio_func t) s else Inr s)"

definition prio_less :: "'s prio_task_function \<Rightarrow> 's prio_task_function \<Rightarrow> bool" where
  "prio_less lhs rhs \<longleftrightarrow> priority lhs < priority rhs"

section \<open>Loops\<close>

datatype wait_ret = Wait_object nat | Wait_time_out | Wait_fails

partial_function (option) looped_task :: "(nat \<Rightarrow> wait_ret) \<Rightarrow> 's task_function \<Rightarrow> nat \<Rightarrow> 's \<Rightarrow> 's result option" where
  "looped_task waits func i s = (let ret = waits i in
     if ret = Wait_object 0 then Some (Inr s)
     else if ret = Wait_time_out \<and> func \<noteq> None then (case call_task func s of Inl e \<Rightarrow> Some (Inl e) | Inr s' \<Rightarrow> looped_task waits func (Suc i) s')
     else looped_task waits func (Suc i) s)"

partial_function (option) wait_handle_task :: "(nat \<Rightarrow> wait_ret) \<Rightarrow> 's task_function \<Rightarrow> nat \<Rightarrow> 's \<Rightarrow> 's result option" where
  "wait_handle_task waits func i s = (let ret = waits i in
     if ret = Wait_object 1 then Some (Inr s)
     else if ret = Wait_object 0 \<or> ret = Wait_time_out then (case call_task func s of Inl e \<Rightarrow> Some (Inl e) | Inr s' \<Rightarrow> wait_handle_task waits func (Suc i) s')
     else Some (Inr s))"

section \<open>What the loops do\<close>

text \<open>Calling a task \<open>n\<close> times, up to the first exception.\<close>

definition call_times :: "'s task_function \<Rightarrow> nat \<Rightarrow> 's \<Rightarrow> 's result" where
  "call_times func n s = foldR (\<lambda>u. call_task func) (replicate n ()) s"

lemma call_times_0 [simp]: "call_times func 0 s = Inr s"
  by (simp add: call_times_def)

lemma call_times_Suc: "call_times func (Suc n) s = bindR (call_task func s) (call_times func n)"
  by (cases "call_task func s") (simp_all add: call_times_def)

definition time_outs :: "(nat \<Rightarrow> wait_ret) \<Rightarrow> nat \<Rightarrow> nat \<Rightarrow> nat" where
  "time_outs waits i k = length (filter (\<lambda>j. waits j = Wait_time_out) [i..<k])"

lemma time_outs_step: "i < k \<Longrightarrow> time_outs waits i k = (if waits i = Wait_time_out then 1 else 0) + time_outs waits (Suc i) k"
  by (simp add: time_outs_def upt_conv_Cons)

lemma looped_exit:
  assumes "waits k = Wait_object 0"
  shows "i \<le> k \<Longrightarrow> (\<And>j. i \<le> j \<Longrightarrow> j < k \<Longrightarrow> waits j \<noteq> Wait_object 0) \<Longrightarrow>
    looped_task waits func i s = Some (if func = None then Inr s else call_times func (time_outs waits i k) s)"
proof (induction "k - i" arbitrary: i s)
  case 0
  then have "i = k" by simp
  then show ?case using assms by (subst looped_task.simps) (simp add: time_outs_def Let_def)
next
  case (Suc n)
  have i: "i < k" "waits i \<noteq> Wait_object 0" "n = k - Suc i" using Suc.hyps(2) Suc.prems by auto
  have IH: "looped_task waits func (Suc i) s' = Some (if func = None then Inr s' else call_times func (time_outs waits (Suc i) k) s')" for s'
    using Suc.hyps(1) [OF i(3)] i(1) Suc.prems(2) by simp
  show ?case
  proof (cases "waits i = Wait_time_out \<and> func \<noteq> None")
    case True
    then show ?thesis using i IH
      by (subst looped_task.simps) (cases "call_task func s"; auto simp: Let_def time_outs_step call_times_Suc)
  next
    case False
    then show ?thesis using i IH by (subst looped_task.simps) (auto simp: Let_def time_outs_step)
  qed
qed

lemma looped_for_ever:
  assumes "\<And>j. waits j \<noteq> Wait_object 0" "\<And>s. \<exists>s'. call_task func s = Inr s' \<or> func = None"
  shows "looped_task waits func i s = None"
proof -
  have "waits' = waits \<longrightarrow> func' = func \<longrightarrow> False" if "looped_task waits' func' i s = Some r" for waits' func' i s r
  proof (rule looped_task.raw_induct [where P = "\<lambda>waits' func' i s r. waits' = waits \<longrightarrow> func' = func \<longrightarrow> False", OF _ that], intro impI)
    fix loop waits' func' i s r
    assume IH: "\<And>waits' func' i s r. loop waits' func' i s = Some r \<Longrightarrow> waits' = waits \<longrightarrow> func' = func \<longrightarrow> False"
      and ret: "(let ret = waits' i in if ret = Wait_object 0 then Some (Inr s)
        else if ret = Wait_time_out \<and> func' \<noteq> None then (case call_task func' s of Inl e \<Rightarrow> Some (Inl e) | Inr s' \<Rightarrow> loop waits' func' (Suc i) s')
        else loop waits' func' (Suc i) s) = Some r" and eq: "waits' = waits" "func' = func"
    obtain s' where "call_task func s = Inr s' \<or> func = None" using assms(2) by blast
    then show False using ret IH [of waits func "Suc i"] eq assms(1) by (auto simp: Let_def split: if_splits)
  qed
  from this [of waits func i s] show ?thesis by (cases "looped_task waits func i s") auto
qed

text \<open>
  A looped task runs its function once for every time-out before its exit event, and then returns, or stops at the first exception; without the event and without exceptions it never returns.
\<close>

theorem looped_task_runs:
  "(waits k = Wait_object 0 \<and> (\<forall>j<k. waits j \<noteq> Wait_object 0) \<longrightarrow>
      looped_task waits (Some f) 0 s = Some (call_times (Some f) (time_outs waits 0 k) s)) \<and>
   ((\<forall>j. waits j \<noteq> Wait_object 0) \<and> (\<forall>s. \<exists>s'. f s = Inr s') \<longrightarrow> looped_task waits (Some f) 0 s = None)"
  using looped_exit [of waits k 0 "Some f" s] looped_for_ever [of waits "Some f" 0 s] by (auto simp: call_task_def)

text \<open>A task that waits for an object runs its function for every signal and every time-out, until the exit event, and also returns when a wait fails.\<close>

lemma wait_handle_returns:
  assumes "waits k = Wait_object 1 \<or> waits k = Wait_fails"
  shows "i \<le> k \<Longrightarrow> (\<And>j. i \<le> j \<Longrightarrow> j < k \<Longrightarrow> waits j = Wait_object 0 \<or> waits j = Wait_time_out) \<Longrightarrow>
    wait_handle_task waits func i s = Some (call_times func (k - i) s)"
proof (induction "k - i" arbitrary: i s)
  case 0
  then have "i = k" by simp
  then show ?case using assms by (subst wait_handle_task.simps) (auto simp: Let_def)
next
  case (Suc n)
  have i: "i < k" "waits i = Wait_object 0 \<or> waits i = Wait_time_out" "n = k - Suc i" using Suc.hyps(2) Suc.prems by auto
  have IH: "wait_handle_task waits func (Suc i) s' = Some (call_times func (k - Suc i) s')" for s'
    using Suc.hyps(1) [OF i(3)] i(1) Suc.prems(2) by simp
  have "k - i = Suc (k - Suc i)" using i(1) by simp
  then show ?case using i(2) IH
    by (subst wait_handle_task.simps) (cases "call_task func s"; auto simp: Let_def call_times_Suc)
qed

text \<open>An empty function object is skipped by a task with a priority and by a looped one, but a task that waits for an object throws.\<close>

lemma empty_tasks:
  "waits 0 = Wait_time_out \<Longrightarrow> prio_call \<lparr>priority = p, prio_func = None\<rparr> s = Inr s \<and> wait_handle_task waits None 0 s = Some (Inl Bad_function_call)"
  by (simp add: prio_call_def wait_handle_task.simps call_task_def Let_def)

end
