(* ===== verification/Unicode_String.thy ===== *)
theory Unicode_String
  imports Str_Number
begin

text \<open>
  Strings of narrow and wide characters (\<open>include/unicode/string.hpp\<close>) and the exceptions that collect a message (\<open>include/exception/exception_base.hpp\<close>). The conversions
  of a code page, \<open>CA2W\<close> and \<open>CW2A\<close> of the Active Template Library, are parameters; they take a string that ends at its first null character.
\<close>

section \<open>Conversions\<close>

type_synonym wstring = "16 word list"

record conversions =
  CA2W :: "nat \<Rightarrow> string \<Rightarrow> wstring"
  CW2A :: "nat \<Rightarrow> wstring \<Rightarrow> string"

definition CP_ACP :: nat where "CP_ACP = 0"
definition CP_UTF8 :: nat where "CP_UTF8 = 65001"

definition wide_c_str :: "wstring \<Rightarrow> wstring" where
  "wide_c_str s = takeWhile (\<lambda>c. c \<noteq> 0) s"

text \<open>A string of either kind of character; which one a template argument is decides at compile time.\<close>

datatype any_string = Narrow string | Wide wstring

fun select_narrow :: "conversions \<Rightarrow> nat \<Rightarrow> any_string \<Rightarrow> string" where
  "select_narrow cv code (Narrow s) = s"
| "select_narrow cv code (Wide s) = CW2A cv code (wide_c_str s)"

fun select_wide :: "conversions \<Rightarrow> nat \<Rightarrow> any_string \<Rightarrow> wstring" where
  "select_wide cv code (Narrow s) = CA2W cv code (c_string s)"
| "select_wide cv code (Wide s) = s"

text \<open>\<open>to\<close> returns a helper that refers to its argument; its conversion operators do the work.\<close>

record ret_string =
  rs_str :: any_string
  rs_code :: nat

definition unicode_to :: "any_string \<Rightarrow> nat \<Rightarrow> ret_string" where
  "unicode_to str code = \<lparr>rs_str = str, rs_code = code\<rparr>"

definition ret_narrow :: "conversions \<Rightarrow> ret_string \<Rightarrow> string" where
  "ret_narrow cv r = select_narrow cv (rs_code r) (rs_str r)"

definition ret_wide :: "conversions \<Rightarrow> ret_string \<Rightarrow> wstring" where
  "ret_wide cv r = select_wide cv (rs_code r) (rs_str r)"

fun translate_narrow :: "conversions \<Rightarrow> any_string \<Rightarrow> nat \<Rightarrow> string" where
  "translate_narrow cv (Narrow src) code = src"
| "translate_narrow cv (Wide src) code = CW2A cv code (wide_c_str src)"

fun translate_wide :: "conversions \<Rightarrow> any_string \<Rightarrow> nat \<Rightarrow> wstring" where
  "translate_wide cv (Wide src) code = src"
| "translate_wide cv (Narrow src) code = CA2W cv code (c_string src)"

definition to_a :: "conversions \<Rightarrow> any_string \<Rightarrow> nat \<Rightarrow> string" where
  "to_a cv src code = translate_narrow cv src code"

definition to_w :: "conversions \<Rightarrow> any_string \<Rightarrow> nat \<Rightarrow> wstring" where
  "to_w cv src code = translate_wide cv src code"

text \<open>\<open>converter\<close>: narrow strings of the local code page, or wide ones, to UTF-8, and back to wide ones.\<close>

fun converter_utf8 :: "conversions \<Rightarrow> any_string \<Rightarrow> string" where
  "converter_utf8 cv (Narrow str) = CW2A cv CP_UTF8 (wide_c_str (CA2W cv CP_ACP (c_string str)))"
| "converter_utf8 cv (Wide str) = CW2A cv CP_UTF8 (wide_c_str str)"

fun converter_utf16 :: "conversions \<Rightarrow> any_string \<Rightarrow> wstring" where
  "converter_utf16 cv (Narrow str) = CA2W cv CP_UTF8 (c_string str)"
| "converter_utf16 cv (Wide str) = wide_c_str str"

text \<open>
  What is asked of a code page that has all the characters of a string: converting to wide characters and back gives the string, and no null characters appear.
\<close>

definition lossless :: "conversions \<Rightarrow> nat \<Rightarrow> string \<Rightarrow> bool" where
  "lossless cv code s \<longleftrightarrow> CW2A cv code (CA2W cv code (c_string s)) = c_string s \<and> 0 \<notin> set (CA2W cv code (c_string s))"

lemma wide_c_str_id: "0 \<notin> set s \<Longrightarrow> wide_c_str s = s"
  by (auto simp: wide_c_str_def takeWhile_eq_all_conv)

text \<open>
  Both ways to convert agree; a string that the code page can represent comes back from its wide form up to its first null character; and UTF-8 made of a wide string is read as that
  string again.
\<close>

theorem conversions_agree:
  "ret_narrow cv (unicode_to s code) = to_a cv s code \<and> ret_wide cv (unicode_to s code) = to_w cv s code"
  by (cases s) (simp_all add: ret_narrow_def ret_wide_def unicode_to_def to_a_def to_w_def)

theorem narrow_round_trip:
  assumes "lossless cv code s"
  shows "to_a cv (Wide (to_w cv (Narrow s) code)) code = c_string s"
  using assms by (simp add: to_a_def to_w_def lossless_def wide_c_str_id)

lemma utf8_round_trip:
  assumes "lossless cv CP_ACP s" "CA2W cv CP_UTF8 (c_string (CW2A cv CP_UTF8 (CA2W cv CP_ACP (c_string s)))) = CA2W cv CP_ACP (c_string s)"
  shows "to_a cv (Wide (converter_utf16 cv (Narrow (converter_utf8 cv (Narrow s))))) CP_ACP = c_string s"
  using assms by (simp add: to_a_def lossless_def wide_c_str_id)

section \<open>Exceptions with a message\<close>

text \<open>
  \<open>exception_base_t\<close>: an error code and a message to which values are appended. The copy constructor takes the message out of its argument and leaves the code at its
  default.
\<close>

record exception_base =
  exc_code :: nat
  exc_msg :: string

definition exc_make :: "nat \<Rightarrow> string \<Rightarrow> exception_base" where
  "exc_make code msg = \<lparr>exc_code = code, exc_msg = msg\<rparr>"

definition exc_copy :: "exception_base \<Rightarrow> exception_base \<times> exception_base" where
  "exc_copy rhs = (\<lparr>exc_code = 0, exc_msg = exc_msg rhs\<rparr>, rhs\<lparr>exc_msg := []\<rparr>)"

definition exc_append_number :: "int \<Rightarrow> exception_base \<Rightarrow> exception_base" where
  "exc_append_number val e = e\<lparr>exc_msg := exc_msg e @ to_string val\<rparr>"

definition exc_append_chars :: "string \<Rightarrow> exception_base \<Rightarrow> exception_base" where
  "exc_append_chars val e = e\<lparr>exc_msg := exc_msg e @ c_string val\<rparr>"

definition exc_append_string :: "string \<Rightarrow> exception_base \<Rightarrow> exception_base" where
  "exc_append_string val e = e\<lparr>exc_msg := exc_msg e @ val\<rparr>"

definition exc_what :: "exception_base \<Rightarrow> string" where
  "exc_what e = c_string (exc_msg e)"

text \<open>A number appended last can be read back from the end of the message; a copy has the message, but not the error code, and leaves the original without its message.\<close>

lemma exc_number_readable:
  "- (2 ^ 31) \<le> i \<Longrightarrow> i < 2 ^ 31 \<Longrightarrow> to_int (drop (length (exc_msg e)) (exc_msg (exc_append_number i e))) = i"
  using to_number_to_string [of "- (2 ^ 31)" "2 ^ 31 - 1" i] by (simp add: exc_append_number_def)

lemma exc_copy_loses: "exc_copy (exc_make code msg) = (copied, left_over) \<Longrightarrow> exc_what copied = c_string msg \<and> exc_code copied = 0 \<and> exc_what left_over = []"
  by (auto simp: exc_copy_def exc_make_def exc_what_def c_string_def)

text \<open>
  \<open>win32_exception_t\<close> (\<open>include/async_io/service/exception.cpp\<close>) and \<open>error_msg\<close> (\<open>include/async_io/network.cpp\<close>) ask the system for the text of a code; \<open>format\<close> is
  \<open>FormatMessageA\<close>, \<open>None\<close> when the code has no text. Only \<open>error_msg\<close> looks at the result; printing the null pointer has no defined result. An error code is printed with its category.
\<close>

definition win32_exception :: "(nat \<Rightarrow> string option) \<Rightarrow> string \<Rightarrow> nat \<Rightarrow> exception_base result" where
  "win32_exception format msg error =
     (case format error of
        None \<Rightarrow> Inl Access_violation
      | Some buffer \<Rightarrow> Inr \<lparr>exc_code = error, exc_msg = ''Win32 Error('' @ to_string (int error) @ '') at '' @ msg @ '': '' @ buffer\<rparr>)"

definition IO_ERROR :: nat where "IO_ERROR = 5"

definition network_exception :: "string \<Rightarrow> exception_base" where
  "network_exception msg = exc_make IO_ERROR msg"

definition error_text :: "(nat \<Rightarrow> string option) \<Rightarrow> nat \<Rightarrow> string" where
  "error_text format err =
     (case format err of None \<Rightarrow> [] | Some buffer \<Rightarrow> ''Win32 Error(generic:'' @ to_string (int err) @ '') : '' @ buffer)"

text \<open>Both name the code: the number after the opening text is the code. An unknown code gives an empty message in one case and a fault in the other.\<close>

lemma error_code_named:
  "win32_exception format msg error = Inr e \<Longrightarrow> exc_code e = error \<and> (\<exists>rest. exc_msg e = ''Win32 Error('' @ to_string (int error) @ rest)"
  by (auto simp: win32_exception_def split: option.splits)

lemma unknown_code: "format n = None \<Longrightarrow> win32_exception format msg n = Inl Access_violation \<and> error_text format n = []"
  by (simp add: win32_exception_def error_text_def)

end
