(* ===== verification/Obj_Pool.thy ===== *)
theory Obj_Pool
  imports Net_Server
begin

text \<open>
  The object pool over a plain list (\<open>include/utility/object_pool.hpp\<close>) and its \<open>get\<close>: the pointer it returns puts the object back into the pool when the last copy of it is
  gone. \<open>raw_acquire\<close> and \<open>raw_release\<close> are those of \<open>Net_Server\<close>.
\<close>

section \<open>Operations\<close>

text \<open>The traits of lists: \<open>pop\<close> gives a null pointer when the list is empty.\<close>

definition list_pop :: "'a list \<Rightarrow> 'a option \<times> 'a list" where
  "list_pop l = (case l of [] \<Rightarrow> (None, []) | x # xs \<Rightarrow> (Some x, xs))"

definition list_push :: "'a \<Rightarrow> 'a list \<Rightarrow> 'a list" where
  "list_push val l = l @ [val]"

text \<open>The pool, the next object \<open>create_handler_\<close> would create, and the pointers that are out with the number of their copies.\<close>

record object_pool =
  op_queue :: "nat list"
  op_next :: nat
  op_out :: "(nat \<times> nat) list"

definition op_new :: object_pool where
  "op_new = \<lparr>op_queue = [], op_next = 0, op_out = []\<rparr>"

definition op_get :: "object_pool \<Rightarrow> nat \<times> object_pool" where
  "op_get p = (case list_pop (op_queue p) of
     (Some obj, q) \<Rightarrow> (obj, p\<lparr>op_queue := q, op_out := (obj, 1) # op_out p\<rparr>)
   | (None, q) \<Rightarrow> (op_next p, p\<lparr>op_queue := q, op_next := Suc (op_next p), op_out := (op_next p, 1) # op_out p\<rparr>))"

definition op_copy :: "nat \<Rightarrow> object_pool \<Rightarrow> object_pool" where
  "op_copy obj p = p\<lparr>op_out := map (\<lambda>(x, n). (x, if x = obj then Suc n else n)) (op_out p)\<rparr>"

text \<open>A copy is destroyed; with the last one the deleter runs.\<close>

definition op_drop :: "nat \<Rightarrow> object_pool \<Rightarrow> object_pool" where
  "op_drop obj p = (case map_of (op_out p) obj of None \<Rightarrow> p
     | Some n \<Rightarrow> if n \<le> 1 then p\<lparr>op_out := filter (\<lambda>e. fst e \<noteq> obj) (op_out p), op_queue := list_push obj (op_queue p)\<rparr>
                 else p\<lparr>op_out := map (\<lambda>(x, n). (x, if x = obj then n - 1 else n)) (op_out p)\<rparr>)"

definition op_for_each :: "(nat \<Rightarrow> 'e \<Rightarrow> 'e) \<Rightarrow> object_pool \<Rightarrow> 'e \<Rightarrow> 'e" where
  "op_for_each handler p e = fold handler (op_queue p) e"

datatype pool_event = Get | Copy nat | Drop nat

fun op_step :: "pool_event \<Rightarrow> object_pool \<Rightarrow> object_pool" where
  "op_step Get p = snd (op_get p)"
| "op_step (Copy obj) p = op_copy obj p"
| "op_step (Drop obj) p = op_drop obj p"

section \<open>Objects are in one place\<close>

definition op_inv :: "object_pool \<Rightarrow> bool" where
  "op_inv p \<longleftrightarrow> distinct (op_queue p @ map fst (op_out p)) \<and> set (op_queue p @ map fst (op_out p)) = {..<op_next p}"

lemma map_fst_counts: "map fst (map (\<lambda>(x, n). (x, f x n)) xs) = map fst xs"
  by (induction xs) auto

lemma op_drop_last:
  assumes "distinct (q @ map fst out)" "obj \<in> fst ` set out"
  shows "distinct ((q @ [obj]) @ map fst (filter (\<lambda>e. fst e \<noteq> obj) out)) \<and>
    set ((q @ [obj]) @ map fst (filter (\<lambda>e. fst e \<noteq> obj) out)) = set (q @ map fst out)"
  using assms by (auto simp: distinct_map inj_on_def image_iff)

lemma op_step_inv: "op_inv p \<Longrightarrow> op_inv (op_step e p)"
proof (cases e)
  case Get
  assume "op_inv p"
  then show ?thesis using Get by (cases "op_queue p") (simp_all add: op_inv_def op_get_def list_pop_def lessThan_Suc)
next
  case (Copy obj)
  assume "op_inv p"
  then show ?thesis using Copy by (simp add: op_inv_def op_copy_def map_fst_counts del: map_map)
next
  case (Drop obj)
  assume inv: "op_inv p"
  show ?thesis
  proof (cases "map_of (op_out p) obj")
    case None
    then show ?thesis using Drop inv by (simp add: op_drop_def)
  next
    case (Some n)
    then have "obj \<in> fst ` set (op_out p)" by (metis map_of_eq_None_iff option.distinct(1))
    then have last: "distinct ((op_queue p @ [obj]) @ map fst (filter (\<lambda>e. fst e \<noteq> obj) (op_out p)))"
        "set ((op_queue p @ [obj]) @ map fst (filter (\<lambda>e. fst e \<noteq> obj) (op_out p))) = {..<op_next p}"
      using inv op_drop_last [of "op_queue p" "op_out p" obj] unfolding op_inv_def by blast+
    show ?thesis
    proof (cases "n \<le> 1")
      case True
      then show ?thesis using Drop Some last by (simp add: op_inv_def op_drop_def list_push_def)
    next
      case False
      then have "op_queue (op_drop obj p) = op_queue p" "op_next (op_drop obj p) = op_next p" "map fst (op_out (op_drop obj p)) = map fst (op_out p)"
        using Some by (simp_all add: op_drop_def map_fst_counts del: map_map)
      then show ?thesis using Drop inv unfolding op_inv_def by (simp only: op_step.simps)
    qed
  qed
qed

text \<open>
  Whatever sequence of \<open>get\<close>, copies and releases of its pointers: \<open>get\<close> never gives an object that someone still holds, and every object ever created is either in the pool
  or out, never both, so none is lost.
\<close>

theorem object_pool_exclusive:
  "\<exists>p. p = fold op_step es op_new \<and> fst (op_get p) \<notin> fst ` set (op_out p) \<and> distinct (op_queue p @ map fst (op_out p)) \<and>
     set (op_queue p @ map fst (op_out p)) = {..<op_next p}"
proof -
  let ?p = "fold op_step es op_new"
  have "op_inv (fold op_step es p)" if "op_inv p" for p using that by (induction es arbitrary: p) (simp_all add: op_step_inv)
  then have inv: "op_inv ?p" by (simp add: op_inv_def op_new_def)
  moreover have "fst (op_get ?p) \<notin> fst ` set (op_out ?p)" using inv
    by (cases "op_queue ?p") (simp_all add: op_inv_def op_get_def list_pop_def)
  ultimately show ?thesis by (simp add: op_inv_def)
qed

text \<open>On a list the pool's \<open>pop\<close> and \<open>push\<close> are those of the synchronised list.\<close>

lemma list_traits_agree: "traits_pop l = Inr (list_pop l) \<and> traits_push x l = list_push x l"
  by (cases l) (simp_all add: traits_pop_def list_pop_def seq_empty_def seq_top_def seq_pop_top_def traits_push_def list_push_def seq_push_back_def)

end
