(* ===== verification/Net_Tcp.thy ===== *)
theory Net_Tcp
  imports Net_Socket Net_Session
begin

text \<open>
  The layer between the socket handle and the client: \<open>tcp\<close> (\<open>include/async_io/network/tcp.hpp\<close>), the stream socket (\<open>basic_stream_socket.hpp\<close>) and the acceptor
  (\<open>basic_acceptor.hpp\<close>), the start-up of Winsock (\<open>sock_init.hpp\<close>) and its extension functions (\<open>socket_provider.cpp\<close>), and \<open>client::send\<close> and \<open>client::recv\<close>
  of \<open>network.cpp\<close>, which run the composed synchronous transfers of \<open>service/read.hpp\<close> and \<open>write.hpp\<close> on a stream socket under the protection of \<open>_run_impl\<close>.
\<close>

section \<open>Protocols\<close>

definition AF_INET :: int where "AF_INET = 2"
definition SOCK_STREAM :: int where "SOCK_STREAM = 1"
definition IPPROTO_TCP :: int where "IPPROTO_TCP = 6"
definition SD_BOTH :: int where "SD_BOTH = 2"
definition SOMAXCONN :: int where "SOMAXCONN = 0x7fffffff"

record tcp =
  tcp_family :: int

definition tcp_type :: "tcp \<Rightarrow> int" where "tcp_type p = SOCK_STREAM"
definition tcp_protocol :: "tcp \<Rightarrow> int" where "tcp_protocol p = IPPROTO_TCP"
definition tcp_v4 :: tcp where "tcp_v4 = \<lparr>tcp_family = AF_INET\<rparr>"

definition tcp_eq :: "tcp \<Rightarrow> tcp \<Rightarrow> bool" where
  "tcp_eq lhs rhs \<longleftrightarrow> tcp_family lhs = tcp_family rhs"

section \<open>Stream sockets\<close>

definition stream_construct :: "'w winsock \<Rightarrow> tcp \<Rightarrow> 'w \<Rightarrow> socket_handle result \<times> 'w" where
  "stream_construct os p = construct_socket os (tcp_family p) (tcp_type p) (tcp_protocol p)"

definition stream_open :: "'w winsock \<Rightarrow> tcp \<Rightarrow> ('w, unit) sock_op" where
  "stream_open os p = socket_open os (tcp_family p) (tcp_type p) (tcp_protocol p)"

definition stream_close :: "'w winsock \<Rightarrow> ('w, unit) sock_op" where
  "stream_close os hw = socket_close os (snd (shutdown_socket os SD_BOTH hw))"

definition stream_bind :: "'w winsock \<Rightarrow> 16 word \<Rightarrow> ip_address \<Rightarrow> ('w, unit) sock_op" where
  "stream_bind os port addr = bind_socket os (tcp_family tcp_v4) port addr"

definition stream_connect :: "'w winsock \<Rightarrow> 16 word \<Rightarrow> ip_address \<Rightarrow> ('w, unit) sock_op" where
  "stream_connect os port addr = connect_socket os (tcp_family tcp_v4) addr port"

definition stream_dis_connect :: "'w winsock \<Rightarrow> int \<Rightarrow> ('w, unit) sock_op" where
  "stream_dis_connect os shut = dis_connect os shut True"

section \<open>Acceptors\<close>

text \<open>
  The constructor that listens. When binding or listening throws, the member \<open>impl_\<close> is complete and its destructor closes the socket.
\<close>

definition acceptor_construct ::
  "'w winsock \<Rightarrow> tcp \<Rightarrow> 16 word \<Rightarrow> ip_address \<Rightarrow> bool \<Rightarrow> 'w \<Rightarrow> socket_handle result \<times> 'w" where
  "acceptor_construct os p port addr reuseAddr w =
     (case construct_socket os (tcp_family p) (tcp_type p) (tcp_protocol p) w of
        (Inl e, w) \<Rightarrow> (Inl e, w)
      | (Inr h, w) \<Rightarrow>
          let hw = (if reuseAddr then snd (set_option os (boolean_option SOL_SOCKET SO_REUSEADDR True) (h, w)) else (h, w)) in
          (case bind_socket os (tcp_family p) port addr hw of
             (Inl e, hw) \<Rightarrow> (Inl e, snd (snd (socket_close os hw)))
           | (Inr _, hw) \<Rightarrow>
               (case listen_socket os SOMAXCONN hw of
                  (Inl e, hw) \<Rightarrow> (Inl e, snd (snd (socket_close os hw)))
                | (Inr _, hw) \<Rightarrow> (Inr (fst hw), snd hw))))"

section \<open>Winsock's start-up and extension functions\<close>

text \<open>
  \<open>sock_init_t\<close>: the shared object is made by the first construction and holds the result of \<open>WSAStartup\<close>. The static instance does not throw, whatever that result is.
  \<open>startup\<close> is \<open>WSAStartup\<close>.
\<close>

record 'w sock_init =
  si_result :: "int option"
  si_world :: 'w

definition sock_init_instance :: "('w \<Rightarrow> int \<times> 'w) \<Rightarrow> 'w sock_init \<Rightarrow> int \<times> 'w sock_init" where
  "sock_init_instance startup st =
     (case si_result st of
        Some r \<Rightarrow> (r, st)
      | None \<Rightarrow> (case startup (si_world st) of (r, w) \<Rightarrow> (r, \<lparr>si_result = Some r, si_world = w\<rparr>)))"

definition sock_init_construct :: "('w \<Rightarrow> int \<times> 'w) \<Rightarrow> bool \<Rightarrow> 'w sock_init \<Rightarrow> unit result \<times> 'w sock_init" where
  "sock_init_construct startup is_static st =
     (case sock_init_instance startup st of (r, st) \<Rightarrow>
        (if \<not> is_static \<and> r \<noteq> 0 then Inl Win32_exception else Inr (), st))"

text \<open>
  \<open>socket_provider\<close>: the extension functions are asked for one after the other on a temporary socket, which the deleter of \<open>val\<close> closes on every way out.
  \<open>::socket\<close> is not checked: on failure the calls are made on \<open>INVALID_SOCKET\<close>. The cell of \<open>call_once\<close> is set only when the constructor has returned.
\<close>

definition get_extension_function ::
  "(SOCKET option \<Rightarrow> nat \<Rightarrow> 'w \<Rightarrow> nat option \<times> 'w) \<Rightarrow> SOCKET option \<Rightarrow> nat \<Rightarrow> 'w \<Rightarrow> nat result \<times> 'w" where
  "get_extension_function ioctl sock guid w =
     (case ioctl sock guid w of (None, w) \<Rightarrow> (Inl Win32_exception, w) | (Some f, w) \<Rightarrow> (Inr f, w))"

fun get_extension_functions ::
  "(SOCKET option \<Rightarrow> nat \<Rightarrow> 'w \<Rightarrow> nat option \<times> 'w) \<Rightarrow> SOCKET option \<Rightarrow> nat list \<Rightarrow> 'w \<Rightarrow> nat list result \<times> 'w" where
  "get_extension_functions ioctl sock [] w = (Inr [], w)"
| "get_extension_functions ioctl sock (guid # guids) w =
     (case get_extension_function ioctl sock guid w of
        (Inl e, w) \<Rightarrow> (Inl e, w)
      | (Inr f, w) \<Rightarrow>
          (case get_extension_functions ioctl sock guids w of
             (Inl e, w) \<Rightarrow> (Inl e, w)
           | (Inr fs, w) \<Rightarrow> (Inr (f # fs), w)))"

definition provider_guids :: "nat list" where
  "provider_guids = [0..<7]"

definition socket_provider ::
  "('w \<Rightarrow> SOCKET option \<times> 'w) \<Rightarrow> (SOCKET option \<Rightarrow> nat \<Rightarrow> 'w \<Rightarrow> nat option \<times> 'w) \<Rightarrow>
   (SOCKET option \<Rightarrow> 'w \<Rightarrow> 'w) \<Rightarrow> 'w \<Rightarrow> nat list result \<times> 'w" where
  "socket_provider sys_socket ioctl close w =
     (case sys_socket w of (sck, w) \<Rightarrow>
        (case get_extension_functions ioctl sck provider_guids w of (r, w) \<Rightarrow> (r, close sck w)))"

definition provider_singleton ::
  "('w \<Rightarrow> nat list result \<times> 'w) \<Rightarrow> nat list option \<times> 'w \<Rightarrow> nat list result \<times> (nat list option \<times> 'w)" where
  "provider_singleton construct st =
     (case fst st of
        Some p \<Rightarrow> (Inr p, st)
      | None \<Rightarrow> (case construct (snd st) of
          (Inl e, w) \<Rightarrow> (Inl e, (None, w))
        | (Inr p, w) \<Rightarrow> (Inr p, (Some p, w))))"

section \<open>The client's synchronous calls\<close>

text \<open>
  The state below a client: its handle and Winsock's state, and the memory the buffers are in. One operation of the stream socket on a buffer is a stream operation of
  the composed transfers.
\<close>

type_synonym 'w conn = "(socket_handle \<times> 'w) \<times> (nat \<Rightarrow> byte)"

definition store :: "nat \<Rightarrow> bytes \<Rightarrow> (nat \<Rightarrow> byte) \<Rightarrow> nat \<Rightarrow> byte" where
  "store p bs m = (\<lambda>a. if p \<le> a \<and> a < p + length bs then bs ! (a - p) else m a)"

definition load :: "(nat \<Rightarrow> byte) \<Rightarrow> nat \<Rightarrow> nat \<Rightarrow> bytes" where
  "load m p n = map m [p..<p + n]"

definition stream_read :: "'w winsock \<Rightarrow> 'w conn stream_op" where
  "stream_read os s b =
     (case read_socket os (unat (buf_size b)) (fst s) of
        (Inl e, hw) \<Rightarrow> (Inl e, (hw, snd s))
      | (Inr bs, hw) \<Rightarrow> (Inr (of_nat (length bs)), (hw, store (data_ptr b) bs (snd s))))"

definition stream_write :: "'w winsock \<Rightarrow> 'w conn stream_op" where
  "stream_write os s b =
     (case write_socket os (load (snd s) (data_ptr b) (unat (buf_size b))) (fst s) of
        (Inl e, hw) \<Rightarrow> (Inl e, (hw, snd s))
      | (Inr n, hw) \<Rightarrow> (Inr (of_nat n), (hw, snd s)))"

definition conn_close :: "'w winsock \<Rightarrow> 'w conn \<Rightarrow> 'w conn" where
  "conn_close os s = (snd (stream_close os (fst s)), snd s)"

definition conn_open :: "'w conn \<Rightarrow> bool" where
  "conn_open s \<longleftrightarrow> is_open (fst (fst s))"

text \<open>
  The transfer inside \<open>_run_impl\<close>: \<open>t\<close> is what the composed transfer did from the state \<open>s\<close>, \<open>None\<close> when it never returns. \<open>client_run_impl\<close> keeps track of whether the
  socket is open; when it has been closed the handle is closed.
\<close>

definition client_transfer ::
  "net_client \<Rightarrow> 'w winsock \<Rightarrow> 'w conn sync_result \<Rightarrow> 'w conn \<Rightarrow> (net_call list \<times> bool result \<times> 'w conn) option" where
  "client_transfer c os t s =
     (case t of
        None \<Rightarrow> None
      | Some (r, s', log) \<Rightarrow>
          (case client_run_impl c (\<lambda>op. ([], bindR r (\<lambda>_. Inr ()), conn_open s')) (conn_open s) of
             (calls, res, op) \<Rightarrow> Some (calls, res, if op then s' else conn_close os s')))"

definition client_send ::
  "net_client \<Rightarrow> 'w winsock \<Rightarrow> nat \<Rightarrow> u32 \<Rightarrow> 'w conn \<Rightarrow> (net_call list \<times> bool result \<times> 'w conn) option" where
  "client_send c os buf len s =
     client_transfer c os (sync_write (stream_write os) (conn_close os) Transfer_all (buffer_make buf len) s) s"

definition client_recv ::
  "net_client \<Rightarrow> 'w winsock \<Rightarrow> nat \<Rightarrow> u32 \<Rightarrow> 'w conn \<Rightarrow> (net_call list \<times> bool result \<times> 'w conn) option" where
  "client_recv c os buf len s =
     client_transfer c os (sync_read (stream_read os) (conn_close os) Transfer_all (buffer_make buf len) s) s"

section \<open>Sockets of acceptors and streams are not leaked\<close>

lemma stream_close_closes: "fst (stream_close os hw) = Inr () \<and> fst (snd (stream_close os hw)) = None"
  by (auto simp: stream_close_def socket_close_def shutdown_socket_def split: option.splits)

lemma stream_close_protocol:
  "protocol h0 (snd (snd hw)) = Some (fst hw) \<Longrightarrow> protocol h0 (snd (snd (snd (stream_close (recorded os) hw)))) = Some None"
  using exec_cmd_protocol [of h0 "exec_cmd (recorded os) (Shutdown SD_BOTH) hw" os Close]
    exec_cmd_protocol [of h0 hw os "Shutdown SD_BOTH"] stream_close_closes [of "recorded os" hw]
  by (simp add: stream_close_def)

text \<open>A socket object that closes twice does nothing the second time.\<close>

lemma conn_close_closed: "\<not> conn_open s \<Longrightarrow> conn_close os s = s"
  by (cases s) (auto simp: conn_open_def is_open_def conn_close_def stream_close_def shutdown_socket_def socket_close_def split: option.splits)

lemma conn_close_not_open: "\<not> conn_open (conn_close os s)"
  using stream_close_closes [of os "fst s"] by (simp add: conn_open_def is_open_def conn_close_def)


text \<open>
  The acceptor's constructor. Either it returns a listening socket, the only one that was opened, or it throws and the socket it opened has been closed, unless opening the
  handle itself threw after \<open>WSASocket\<close>.
\<close>

theorem acceptor_construct_closes:
  assumes "acceptor_construct (recorded os) p port addr reuseAddr (w, []) = (r, (w', tr))"
  shows "(\<forall>h. r = Inr h \<longrightarrow> protocol None tr = Some h) \<and>
    (\<forall>e. r = Inl e \<longrightarrow> protocol None tr = Some None \<or>
       fst (construct_socket os (tcp_family p) (tcp_type p) (tcp_protocol p) w) = Inl e)"
proof -
  let ?os = "recorded os"
  let ?open = "Open (tcp_family p) (tcp_type p) (tcp_protocol p)"
  have same: "fst (construct_socket ?os f t n (w, [])) = fst (construct_socket os f t n w)" for f t n
    by (auto simp: construct_socket_def socket_open_def recorded_def record_call_def Let_def split: prod.splits option.splits bool.splits)
  obtain ro h w1 where o: "socket_open ?os (tcp_family p) (tcp_type p) (tcp_protocol p) (None, (w, [])) = (ro, (h, w1))"
    by (metis prod.exhaust)
  then have po: "protocol None (snd w1) = Some h" using exec_cmd_protocol [of None "(None, (w, []))" os ?open] by simp
  define hw where "hw = (if reuseAddr then snd (set_option ?os (boolean_option SOL_SOCKET SO_REUSEADDR True) (h, w1)) else (h, w1))"
  have ps: "protocol None (snd (snd hw)) = Some (fst hw)"
    using po exec_cmd_protocol [of None "(h, w1)" os "Set_Option (boolean_option SOL_SOCKET SO_REUSEADDR True)"] by (simp add: hw_def)
  obtain rb hb where b: "bind_socket ?os (tcp_family p) port addr hw = (rb, hb)" by (metis prod.exhaust)
  with ps have pb: "protocol None (snd (snd hb)) = Some (fst hb)"
    using exec_cmd_protocol [of None hw os "Bind (tcp_family p) port addr"] by simp
  obtain rl hl where l: "listen_socket ?os SOMAXCONN hb = (rl, hl)" by (metis prod.exhaust)
  with pb have pl: "protocol None (snd (snd hl)) = Some (fst hl)" using exec_cmd_protocol [of None hb os "Listen SOMAXCONN"] by simp
  have cl: "protocol None (snd (snd x)) = Some (fst x) \<Longrightarrow> protocol None (snd (snd (snd (socket_close ?os x)))) = Some None" for x
    using exec_cmd_protocol [of None x os Close] by (auto simp: socket_close_def split: option.splits)
  have c: "construct_socket ?os (tcp_family p) (tcp_type p) (tcp_protocol p) (w, []) = (bindR ro (\<lambda>_. Inr h), w1)"
    using o by (cases ro) (simp_all add: construct_socket_def)
  show ?thesis using assms same [of "tcp_family p" "tcp_type p" "tcp_protocol p"] pl cl [OF pb] cl [OF pl] b l
    by (cases ro) (auto simp: acceptor_construct_def c Let_def hw_def [symmetric] split: sum.splits)
qed

text \<open>
  However many objects are constructed, \<open>WSAStartup\<close> is called once; when it has failed, every construction but that of the static instance throws.
\<close>

lemma sock_init_once:
  assumes "startup w = (r, w')" and "constructed \<noteq> []"
  shows "fold (\<lambda>k st. snd (sock_init_construct startup k st)) constructed \<lparr>si_result = None, si_world = w\<rparr> = \<lparr>si_result = Some r, si_world = w'\<rparr>"
proof -
  have again: "snd (sock_init_construct startup k \<lparr>si_result = Some r, si_world = w'\<rparr>) = \<lparr>si_result = Some r, si_world = w'\<rparr>" for k
    by (simp add: sock_init_construct_def sock_init_instance_def)
  have rest: "fold (\<lambda>k st. snd (sock_init_construct startup k st)) ks \<lparr>si_result = Some r, si_world = w'\<rparr> = \<lparr>si_result = Some r, si_world = w'\<rparr>" for ks
    by (induction ks) (simp_all add: again)
  show ?thesis using assms rest
    by (cases constructed) (simp_all add: sock_init_construct_def sock_init_instance_def)
qed

lemma sock_init_failure:
  "si_result st = Some r \<Longrightarrow> r \<noteq> 0 \<Longrightarrow> fst (sock_init_construct startup is_static st) = (if is_static then Inr () else Inl Win32_exception)"
  by (simp add: sock_init_construct_def sock_init_instance_def)

text \<open>The provider: on every way out the temporary socket is closed last; a failed construction leaves the cell empty, so the next call tries again.\<close>

lemma provider_closes:
  "\<exists>w1. snd (socket_provider sys_socket ioctl close w) = close (fst (sys_socket w)) w1"
  by (auto simp: socket_provider_def split: prod.splits)

lemma provider_singleton_retries:
  "provider_singleton construct st = (r, st') \<Longrightarrow> (case r of Inl e \<Rightarrow> fst st' = None | Inr p \<Rightarrow> fst st' = Some p \<and> provider_singleton construct st' = (Inr p, st'))"
  by (auto simp: provider_singleton_def split: option.splits prod.splits sum.splits)

section \<open>The client's transfers\<close>

text \<open>
  What Winsock documents of a connected stream socket. A receive of \<open>n > 0\<close> bytes fails, or returns the next bytes the peer has sent, at least one and at most \<open>n\<close>, or
  nothing when the peer has closed and everything was received; \<open>inbox\<close> is what the peer sends that has not been received. A send fails without having sent, or takes
  at least one of the bytes; \<open>outbox\<close> is everything sent so far.
\<close>

definition recv_law :: "'w winsock \<Rightarrow> SOCKET \<Rightarrow> ('w \<Rightarrow> bytes) \<Rightarrow> bool" where
  "recv_law os sk inbox \<longleftrightarrow> (\<forall>n w. 0 < n \<longrightarrow>
     (\<exists>w'. WSARecv os sk n w = (None, w')) \<or>
     (\<exists>k w'. WSARecv os sk n w = (Some (take k (inbox w)), w') \<and> k \<le> n \<and> k \<le> length (inbox w) \<and>
        (0 < k \<or> inbox w = []) \<and> inbox w' = drop k (inbox w)))"

definition recv_reliable :: "'w winsock \<Rightarrow> SOCKET \<Rightarrow> bool" where
  "recv_reliable os sk \<longleftrightarrow> (\<forall>n w. fst (WSARecv os sk n w) \<noteq> None)"

definition send_law :: "'w winsock \<Rightarrow> SOCKET \<Rightarrow> ('w \<Rightarrow> bytes) \<Rightarrow> bool" where
  "send_law os sk outbox \<longleftrightarrow> (\<forall>bs w. bs \<noteq> [] \<longrightarrow>
     (\<exists>w'. WSASend os sk bs w = (None, w') \<and> outbox w' = outbox w) \<or>
     (\<exists>k w'. WSASend os sk bs w = (Some k, w') \<and> 0 < k \<and> k \<le> length bs \<and> outbox w' = outbox w @ take k bs)) \<and>
   (\<forall>n w. outbox (sys_shutdown os sk n w) = outbox w) \<and> (\<forall>w. outbox (closesocket os sk w) = outbox w)"

lemma store_store: "k = length xs \<Longrightarrow> store (p + k) ys (store p xs m) = store p (xs @ ys) m"
  by (rule ext) (auto simp: store_def nth_append)

lemma store_empty [simp]: "store p [] m = m"
  by (rule ext) (auto simp: store_def)

lemma length_load [simp]: "length (load m p n) = n"
  by (simp add: load_def)

lemma take_load: "k \<le> n \<Longrightarrow> take k (load m p n) = load m p k"
  by (simp add: load_def take_map)

lemma load_append: "load m p k @ load m (p + k) n = load m p (k + n)"
  using upt_add_eq_append [of p "p + k" n] by (simp add: load_def add.assoc)

text \<open>
  The loop of \<open>read\<close> over a stream socket that has \<open>n\<close> bytes to go: it returns, with all of them; or with the exception of a receive that failed; or, when the peer closed
  before, with that of a read on the closed socket.
\<close>

inductive recv_ends :: "'w winsock \<Rightarrow> SOCKET \<Rightarrow> ('w \<Rightarrow> bytes) \<Rightarrow> buffer_t \<Rightarrow> nat \<Rightarrow> bytes \<Rightarrow> (nat \<Rightarrow> byte) \<Rightarrow> u32 result \<Rightarrow> 'w conn \<Rightarrow> bool"
  for os sk inbox b where
  all: "n \<le> length xs \<Longrightarrow> inbox w = drop n xs \<Longrightarrow> p + n = buffer_end b \<Longrightarrow>
    recv_ends os sk inbox b n xs m (Inr (buf_size b)) ((Some sk, w), store p (take n xs) m)"
| failed: "\<not> recv_reliable os sk \<Longrightarrow> k < n \<Longrightarrow> k \<le> length xs \<Longrightarrow> p + n = buffer_end b \<Longrightarrow>
    recv_ends os sk inbox b n xs m (Inl Win32_exception) ((Some sk, w), store p (take k xs) m)"
| eof: "length xs < n \<Longrightarrow> p + n = buffer_end b \<Longrightarrow>
    recv_ends os sk inbox b n xs m (Inl Network_exception) ((None, w), store p xs m)"

lemma recv_ends_step:
  assumes "recv_ends os sk inbox b (n - k) (drop k xs) (store p (take k xs) m) r s"
    and "k \<le> n" "k \<le> length xs" "p + n = buffer_end b"
  shows "recv_ends os sk inbox b n xs m r s"
  using assms(1)
proof cases
  case (all w q)
  then have q: "q = p + k" using assms(2,4) by simp
  have "take k xs @ take (n - k) (drop k xs) = take n xs" using assms(2) take_add [of k "n - k" xs] by simp
  moreover have "drop (n - k) (drop k xs) = drop n xs" using assms(2) by (simp add: drop_drop)
  ultimately show ?thesis using all assms q by (auto simp: store_store intro: recv_ends.all)
next
  case (failed j q w)
  then have q: "q = p + k" using assms(2,4) by simp
  have "take k xs @ take j (drop k xs) = take (k + j) xs" by (simp add: take_add)
  then show ?thesis using failed assms q recv_ends.failed [of os sk "k + j" n xs p b inbox m w] by (auto simp: store_store)
next
  case (eof q w)
  then have "q = p + k" using assms(2,4) by simp
  then show ?thesis using eof assms by (auto simp: store_store intro: recv_ends.eof)
qed

lemma stream_read_open:
  "0 < buf_size r \<Longrightarrow> stream_read os ((Some sk, w), m) r =
    (case WSARecv os sk (unat (buf_size r)) w of
       (None, w') \<Rightarrow> (Inl Win32_exception, ((Some sk, w'), m))
     | (Some bs, w') \<Rightarrow> (Inr (of_nat (length bs)), ((Some sk, w'), store (data_ptr r) bs m)))"
  by (auto simp: stream_read_def read_socket_def with_socket_def or_throw_def Let_def unat_gt_0 word_neq_0_conv split: prod.split option.split)

lemma stream_read_closed: "\<not> conn_open s \<Longrightarrow> stream_read os s b = (Inl Network_exception, s)"
  by (cases s) (auto simp: conn_open_def is_open_def stream_read_def read_socket_def with_socket_def)

lemma conn_close_memory: "\<exists>w'. conn_close os (hw, m) = ((None, w'), m)"
  using stream_close_closes [of os hw] by (cases "snd (stream_close os hw)") (simp add: conn_close_def)

lemma recv_loop:
  assumes law: "recv_law os sk inbox" and "t \<le> buf_size b"
  shows "\<exists>r s' log'. transfer_loop (stream_read os) (conn_close os) (\<lambda>t. True) b t ((Some sk, w), m) log = Some (r, s', log') \<and>
    recv_ends os sk inbox b (unat (buf_size b) - unat t) (inbox w) m r s'"
  using assms(2)
proof (induction "unat (buf_size b) - unat t" arbitrary: t w m log rule: less_induct)
  case less
  let ?n = "unat (buf_size b) - unat t" and ?s = "((Some sk, w), m)"
  show ?case
  proof (cases "t = buf_size b")
    case True
    then show ?thesis using recv_ends.all [of 0 "inbox w" inbox w "buffer_end b" b os sk m] by (subst transfer_loop.simps) auto
  next
    case False
    then have lt: "t < buf_size b" and nle: "\<not> buf_size b \<le> t" using less.prems by simp_all
    obtain r where r: "buffer_plus b t = Inr r" "data_ptr r = data_ptr b + unat t" "unat (buf_size r) = ?n" "buffer_end r = buffer_end b"
      using buffer_plus_ok [OF less.prems] by blast
    have n: "0 < ?n" using lt by (simp add: word_less_nat_alt)
    then have pos: "0 < buf_size r" using r(3) by (simp add: word_less_nat_alt)
    have pe: "data_ptr r + ?n = buffer_end b" using r(3,4) by (simp add: buffer_end_def)
    from law n consider (fail) w' where "WSARecv os sk ?n w = (None, w')"
      | (some) k w' where "WSARecv os sk ?n w = (Some (take k (inbox w)), w')" "k \<le> ?n" "k \<le> length (inbox w)" "0 < k" "inbox w' = drop k (inbox w)"
      | (eof) w' where "WSARecv os sk ?n w = (Some [], w')" "inbox w = []"
      unfolding recv_law_def by (metis (no_types, lifting) bot_nat_0.not_eq_extremum le_zero_eq list.size(3) take_eq_Nil)
    then show ?thesis
    proof cases
      case fail
      then have "\<not> recv_reliable os sk" by (auto simp: recv_reliable_def) (metis fst_conv)
      then have "recv_ends os sk inbox b ?n (inbox w) m (Inl Win32_exception) ((Some sk, w'), m)"
        using n pe recv_ends.failed [of os sk 0 ?n "inbox w" "data_ptr r" b inbox m w'] by simp
      then show ?thesis using nle r fail by (subst transfer_loop.simps) (simp add: stream_read_open [OF pos])
    next
      case some
      let ?k = "of_nat k :: u32"
      have uk: "unat ?k = k" using some(2) unat_u32_lt [of "buf_size b"] by (intro unat_of_nat_u32) linarith
      then have u: "unat (t + ?k) = unat t + k" using some(2) n unat_u32_lt [of "buf_size b"] by (subst unat_add_u32) simp_all
      have le: "t + ?k \<le> buf_size b" and dec: "unat (buf_size b) - unat (t + ?k) < ?n"
        using u some(2,4) n by (simp_all add: word_le_nat_alt)
      have "?k \<noteq> 0" using uk some(4) by (metis unat_0 less_numeral_extra(3))
      then have step: "transfer_loop (stream_read os) (conn_close os) (\<lambda>t. True) b t ?s log =
        transfer_loop (stream_read os) (conn_close os) (\<lambda>t. True) b (t + ?k) ((Some sk, w'), store (data_ptr r) (take k (inbox w)) m) (log @ [t + ?k])"
        using nle r some by (subst transfer_loop.simps) (simp add: stream_read_open [OF pos] min_def)
      obtain q s' log' where IH:
        "transfer_loop (stream_read os) (conn_close os) (\<lambda>t. True) b (t + ?k) ((Some sk, w'), store (data_ptr r) (take k (inbox w)) m) (log @ [t + ?k]) = Some (q, s', log')"
        "recv_ends os sk inbox b (unat (buf_size b) - unat (t + ?k)) (inbox w') (store (data_ptr r) (take k (inbox w)) m) q s'"
        using less.hyps [OF dec le] by blast
      have "unat (buf_size b) - unat (t + ?k) = ?n - k" using u by simp
      with IH(2) some(5) have "recv_ends os sk inbox b (?n - k) (drop k (inbox w)) (store (data_ptr r) (take k (inbox w)) m) q s'" by simp
      from recv_ends_step [OF this some(2,3) pe] show ?thesis unfolding step IH(1) by blast
    next
      case eof
      obtain w2 where c: "conn_close os ((Some sk, w'), m) = ((None, w2), m)" using conn_close_memory [of os "(Some sk, w')" m] by blast
      have step: "transfer_loop (stream_read os) (conn_close os) (\<lambda>t. True) b t ?s log =
        transfer_loop (stream_read os) (conn_close os) (\<lambda>t. True) b t ((None, w2), m) (log @ [t])"
        using nle r eof c by (subst transfer_loop.simps) (simp add: stream_read_open [OF pos])
      have "transfer_loop (stream_read os) (conn_close os) (\<lambda>t. True) b t ((None, w2), m) (log @ [t]) =
        Some (Inl Network_exception, ((None, w2), m), log @ [t])"
        using nle r by (subst transfer_loop.simps) (simp add: stream_read_closed conn_open_def is_open_def)
      then show ?thesis unfolding step using n pe eof recv_ends.eof [of "[]" ?n "data_ptr r" b os sk inbox m w2] by simp
    qed
  qed
qed

text \<open>The loop of \<open>write\<close>: the bytes of the buffer are sent in order, all of them or those before the send that failed.\<close>

lemma stream_write_open:
  "0 < buf_size r \<Longrightarrow> stream_write os ((Some sk, w), m) r =
    (case WSASend os sk (load m (data_ptr r) (unat (buf_size r))) w of
       (None, w') \<Rightarrow> (Inl Win32_exception, ((Some sk, w'), m))
     | (Some k, w') \<Rightarrow> (Inr (of_nat k), ((Some sk, w'), m)))"
  by (auto simp: stream_write_def write_socket_def with_socket_def or_throw_def Let_def load_def word_less_nat_alt split: prod.split option.split)

lemma send_loop:
  assumes law: "send_law os sk outbox" and go: "\<And>t. t < buf_size b \<Longrightarrow> go t" and "t \<le> buf_size b"
  shows "\<exists>r w' log' k. transfer_loop (stream_write os) (conn_close os) go b t ((Some sk, w), m) log = Some (r, ((Some sk, w'), m), log') \<and>
    outbox w' = outbox w @ load m (data_ptr b + unat t) k \<and>
    (r = Inr (buf_size b) \<and> k = unat (buf_size b) - unat t \<or> r = Inl Win32_exception \<and> k < unat (buf_size b) - unat t)"
  using assms(3)
proof (induction "unat (buf_size b) - unat t" arbitrary: t w log rule: less_induct)
  case less
  let ?n = "unat (buf_size b) - unat t" and ?p = "data_ptr b + unat t"
  let ?loop = "transfer_loop (stream_write os) (conn_close os) go b"
  show ?case
  proof (cases "t = buf_size b")
    case True
    then show ?thesis by (subst transfer_loop.simps) (auto simp: load_def)
  next
    case False
    then have lt: "t < buf_size b" and nle: "\<not> buf_size b \<le> t" using less.prems by simp_all
    obtain r where r: "buffer_plus b t = Inr r" "data_ptr r = ?p" "unat (buf_size r) = ?n"
      using buffer_plus_ok [OF less.prems] by blast
    have n: "0 < ?n" using lt by (simp add: word_less_nat_alt)
    then have pos: "0 < buf_size r" using r(3) by (simp add: word_less_nat_alt)
    have "load m ?p ?n \<noteq> []" using n by (metis length_load length_greater_0_conv)
    with law consider (fail) w' where "WSASend os sk (load m ?p ?n) w = (None, w')" "outbox w' = outbox w"
      | (some) k w' where "WSASend os sk (load m ?p ?n) w = (Some k, w')" "0 < k" "k \<le> ?n" "outbox w' = outbox w @ load m ?p k"
      unfolding send_law_def by (metis take_load length_load)
    then show ?thesis
    proof cases
      case fail
      then have "?loop t ((Some sk, w), m) log = Some (Inl Win32_exception, ((Some sk, w'), m), log)"
        using go [OF lt] nle r by (subst transfer_loop.simps) (simp add: stream_write_open [OF pos])
      then show ?thesis using fail(2) n by (auto simp: load_def)
    next
      case some
      let ?k = "of_nat k :: u32"
      have uk: "unat ?k = k" using some(3) unat_u32_lt [of "buf_size b"] by (intro unat_of_nat_u32) linarith
      then have u: "unat (t + ?k) = unat t + k" using some(3) n unat_u32_lt [of "buf_size b"] by (subst unat_add_u32) simp_all
      have le: "t + ?k \<le> buf_size b" and dec: "unat (buf_size b) - unat (t + ?k) < ?n"
        using u some(2,3) n by (simp_all add: word_le_nat_alt)
      have "?k \<noteq> 0" using uk some(2) by (metis unat_0 less_numeral_extra(3))
      then have step: "?loop t ((Some sk, w), m) log = ?loop (t + ?k) ((Some sk, w'), m) (log @ [t + ?k])"
        using go [OF lt] nle r some by (subst transfer_loop.simps) (simp add: stream_write_open [OF pos])
      obtain q w2 log' j where IH: "?loop (t + ?k) ((Some sk, w'), m) (log @ [t + ?k]) = Some (q, ((Some sk, w2), m), log')"
        "outbox w2 = outbox w' @ load m (?p + k) j"
        "q = Inr (buf_size b) \<and> j = ?n - k \<or> q = Inl Win32_exception \<and> j < ?n - k"
        using less.hyps [OF dec le, of w' "log @ [t + ?k]"] unfolding u by (auto simp: add.assoc)
      have "outbox w2 = outbox w @ load m ?p (k + j)" unfolding IH(2) some(4) by (simp add: load_append)
      moreover have "q = Inr (buf_size b) \<and> k + j = ?n \<or> q = Inl Win32_exception \<and> k + j < ?n" using IH(3) some(3) by auto
      ultimately show ?thesis unfolding step using IH(1) by blast
    qed
  qed
qed

section \<open>Correctness\<close>

lemma client_transfer_returns:
  assumes "client_quiet c"
  shows "client_transfer c os (Some (Inr n, s', log)) s = Some ([], Inr True, s')"
    and "client_transfer c os (Some (Inl e, s', log)) s =
      Some (client_error_calls c (cli_what c e) @ client_disconnect_calls c (conn_open s'), Inr False, conn_close os s')"
  by (simp_all add: client_transfer_def client_run_impl_def act_defs client_error_quiet [OF assms] client_disconnect_closes conn_close_closed)

text \<open>
  C18. \<open>client::recv\<close> on a connected socket whose error handler does not throw. It returns, however the peer's bytes are cut. When it returns true, the buffer holds exactly the next
  bytes the peer sent, no other memory has changed, the rest of the stream is left to be received and no handler has been called. When it returns false the error has
  been reported, the disconnect handler called and the socket closed, and a proper prefix of the bytes is in the buffer. If no receive fails, it returns true exactly when the peer sends enough.
\<close>

theorem client_recv_delivers:
  assumes "recv_law os sk inbox" and "client_quiet c"
  shows "\<exists>calls ok s'. client_recv c os buf len ((Some sk, w), m) = Some (calls, Inr ok, s') \<and>
    (ok \<longrightarrow> calls = [] \<and> (\<exists>w'. s' = ((Some sk, w'), store buf (take (unat len) (inbox w)) m) \<and> inbox w' = drop (unat len) (inbox w))) \<and>
    (\<not> ok \<longrightarrow> \<not> conn_open s' \<and> (\<exists>k < unat len. snd s' = store buf (take k (inbox w)) m) \<and>
       (\<exists>e closing. calls = client_error_calls c (cli_what c e) @ client_disconnect_calls c closing)) \<and>
    (unat len > length (inbox w) \<longrightarrow> \<not> ok) \<and> (recv_reliable os sk \<and> unat len \<le> length (inbox w) \<longrightarrow> ok)"
proof -
  let ?b = "buffer_make buf len" and ?s = "((Some sk, w), m)"
  have b: "buf_size ?b = len" "data_ptr ?b = buf" "buffer_end ?b = buf + unat len" by (simp_all add: buffer_make_def buffer_end_def)
  have "(\<lambda>t. t \<le> condition_value Transfer_all t) = (\<lambda>t. True)" by (rule ext) (simp only: condition_value.simps le_u32_max)
  with recv_loop [OF assms(1), of 0 ?b w m "[]"] obtain r s' log where
    rd: "sync_read (stream_read os) (conn_close os) Transfer_all ?b ?s = Some (r, s', log)" and
    ends: "recv_ends os sk inbox ?b (unat len) (inbox w) m r s'"
    by (auto simp: sync_read_def b)
  from ends show ?thesis
  proof cases
    case (all w' p)
    then have "client_recv c os buf len ?s = Some ([], Inr True, s')" by (simp add: client_recv_def rd client_transfer_returns(1) [OF assms(2)])
    then show ?thesis using all b by auto
  next
    case (failed k p w')
    then have "client_recv c os buf len ?s = Some (client_error_calls c (cli_what c Win32_exception) @ client_disconnect_calls c True, Inr False, conn_close os s')"
      by (simp add: client_recv_def rd client_transfer_returns(2) [OF assms(2)] conn_open_def is_open_def)
    moreover have "snd (conn_close os s') = store buf (take k (inbox w)) m" using failed b by (simp add: conn_close_def)
    ultimately show ?thesis using failed(3,4) conn_close_not_open [of os s'] by blast
  next
    case (eof p w')
    then have "client_recv c os buf len ?s = Some (client_error_calls c (cli_what c Network_exception) @ client_disconnect_calls c False, Inr False, conn_close os s')"
      by (simp add: client_recv_def rd client_transfer_returns(2) [OF assms(2)] conn_open_def is_open_def)
    moreover have "snd (conn_close os s') = store buf (take (length (inbox w)) (inbox w)) m" using eof b by (simp add: conn_close_def)
    ultimately show ?thesis using eof(3) conn_close_not_open [of os s'] by (auto simp del: take_all)
  qed
qed

text \<open>A connection for examples: what is to be received, at most two bytes at a time, and what has been sent, one byte at a time.\<close>

definition sample_wire :: "(bytes \<times> bytes) winsock" where
  "sample_wire = \<lparr>
     WSASocket = \<lambda>f t p w. (Some 7, w), associate = \<lambda>s w. (True, w), set_modes = \<lambda>s w. (True, w),
     closesocket = \<lambda>s w. w, sys_shutdown = \<lambda>s n w. w, cancel_io = \<lambda>s w. w,
     sys_bind = \<lambda>s a w. (True, w), sys_listen = \<lambda>s n w. (True, w), sys_connect = \<lambda>s a w. (True, w),
     WSARecv = \<lambda>s n w. (Some (take (min n 2) (fst w)), (drop (min n 2) (fst w), snd w)),
     WSASend = \<lambda>s bs w. (Some (min 1 (length bs)), (fst w, snd w @ take 1 bs)),
     WSARecvFrom = \<lambda>s n w. (None, w), WSASendTo = \<lambda>s bs a w. (None, w),
     setsockopt = \<lambda>s l n bs w. (True, w), getsockopt = \<lambda>s l n k w. (None, w), WSAIoctl = \<lambda>s c bs n w. (None, w),
     overlapped = \<lambda>h c w. (Ov_failed, w)\<rparr>"

lemma sample_wire_recv: "recv_law sample_wire sk fst"
  unfolding recv_law_def
proof (intro allI impI disjI2)
  fix n :: nat and w :: "bytes \<times> bytes"
  assume "0 < n"
  then show "\<exists>k w'. WSARecv sample_wire sk n w = (Some (take k (fst w)), w') \<and> k \<le> n \<and> k \<le> length (fst w) \<and>
      (0 < k \<or> fst w = []) \<and> fst w' = drop k (fst w)"
    by (intro exI [of _ "min (length (fst w)) (min n 2)"] exI [of _ "(drop (min n 2) (fst w), snd w)"])
      (auto simp: sample_wire_def min_def)
qed

lemma sample_wire_reliable: "recv_reliable sample_wire sk"
  by (simp add: recv_reliable_def sample_wire_def)

lemma sample_wire_send: "send_law sample_wire sk snd"
  by (auto simp: send_law_def sample_wire_def Suc_le_eq)

lemma sample_client_quiet: "client_quiet sample_client"
  by (simp add: client_quiet_def sample_client_def)

theorem client_recv_delivers_witness:
  "(\<exists>w'. client_recv sample_client sample_wire 256 4 ((Some 7, ([1, 2, 3, 4, 5], [])), \<lambda>a. 0) =
      Some ([], Inr True, ((Some 7, w'), store 256 [1, 2, 3, 4] (\<lambda>a. 0))) \<and> fst w' = [5]) \<and>
   (\<exists>calls s'. client_recv sample_client sample_wire 256 8 ((Some 7, ([1, 2, 3, 4, 5], [])), \<lambda>a. 0) = Some (calls, Inr False, s') \<and> \<not> conn_open s')"
proof -
  note recv = client_recv_delivers [OF sample_wire_recv [of 7] sample_client_quiet, of 256 _ "([1, 2, 3, 4, 5], [])" "\<lambda>a. 0"]
  have n: "unat (4 :: u32) = 4" "unat (8 :: u32) = 8" by simp_all
  show ?thesis using recv [of 4] recv [of 8] sample_wire_reliable [of 7] unfolding n by (auto simp: numeral_eq_Suc)
qed

text \<open>
  \<open>client::send\<close> likewise: it returns, and true means that exactly the bytes of the buffer have been sent, in order; false that a proper prefix has been sent, the error
  reported, the disconnect handler called and the socket closed.
\<close>

theorem client_send_delivers:
  assumes "send_law os sk outbox" and "client_quiet c"
  shows "\<exists>calls ok s'. client_send c os buf len ((Some sk, w), m) = Some (calls, Inr ok, s') \<and> snd s' = m \<and>
    (ok \<longrightarrow> calls = [] \<and> conn_open s' \<and> outbox (snd (fst s')) = outbox w @ load m buf (unat len)) \<and>
    (\<not> ok \<longrightarrow> \<not> conn_open s' \<and> (\<exists>k < unat len. outbox (snd (fst s')) = outbox w @ load m buf k) \<and>
       calls = client_error_calls c (cli_what c Win32_exception) @ client_disconnect_calls c True)"
proof -
  let ?b = "buffer_make buf len" and ?s = "((Some sk, w), m)"
  have b: "buf_size ?b = len" "data_ptr ?b = buf" by (simp_all add: buffer_make_def)
  have go: "t < condition_value Transfer_all t" if "t < buf_size ?b" for t
    using that le_u32_max [of "buf_size ?b"] by (simp only: condition_value.simps)
  from send_loop [OF assms(1), of ?b "\<lambda>t. t < condition_value Transfer_all t" 0 w m "[]", OF go] obtain r w' log k where
    wr: "sync_write (stream_write os) (conn_close os) Transfer_all ?b ?s = Some (r, ((Some sk, w'), m), log)"
    and out: "outbox w' = outbox w @ load m buf k" "r = Inr len \<and> k = unat len \<or> r = Inl Win32_exception \<and> k < unat len"
    by (auto simp: sync_write_def b)
  have closed: "outbox (snd (fst (conn_close os ((Some sk, w'), m)))) = outbox w'"
    using assms(1) by (simp add: send_law_def conn_close_def stream_close_def shutdown_socket_def socket_close_def)
  from out(2) show ?thesis
  proof
    assume ok: "r = Inr len \<and> k = unat len"
    then have "client_send c os buf len ?s = Some ([], Inr True, ((Some sk, w'), m))"
      by (simp add: client_send_def wr client_transfer_returns(1) [OF assms(2)])
    then show ?thesis using ok out(1) by (auto simp: conn_open_def is_open_def)
  next
    assume fail: "r = Inl Win32_exception \<and> k < unat len"
    let ?s' = "((Some sk, w'), m)"
    have "client_send c os buf len ?s = Some (client_error_calls c (cli_what c Win32_exception) @ client_disconnect_calls c True, Inr False, conn_close os ?s')"
      using fail by (simp add: client_send_def wr client_transfer_returns(2) [OF assms(2)] conn_open_def is_open_def)
    moreover have "snd (conn_close os ?s') = m" by (simp add: conn_close_def)
    ultimately show ?thesis using fail out(1) closed conn_close_not_open [of os ?s'] by auto
  qed
qed

end
