(* ===== verification/Net_Lifecycle.thy ===== *)
theory Net_Lifecycle
  imports Net_Session Net_Server Net_Socket Net_Helper
begin

text \<open>
  The rest of \<open>include/async_io/network.hpp\<close> and \<open>network.cpp\<close>: the asynchronous calls of a client, the free functions on sessions, a session's address, cancellation and
  additional data; the accept thread as a whole, and starting and stopping the server.

  \<open>stop\<close> ends the accept thread by queueing an asynchronous procedure call and joins it. Windows delivers such a call when the thread waits alertably, and the wait then
  returns \<open>WAIT_IO_COMPLETION\<close>; a call that was queued before the thread began to run is delivered as it begins, before the thread's function.
\<close>

section \<open>The client's asynchronous calls\<close>

text \<open>
  \<open>async_read_some\<close> and \<open>async_send\<close> with several buffers start one operation of the socket. \<open>async_recv\<close> and \<open>async_send\<close> of one buffer start a composed transfer, which throws or
  waits; \<open>client_completes\<close> is what the completions \<open>cs\<close> of its operations lead to, \<open>None\<close> while it still waits.
\<close>

definition client_read_some :: "net_client \<Rightarrow> (u32 \<Rightarrow> cxx_error option) \<Rightarrow> op_start \<Rightarrow> bool act" where
  "client_read_some c handler r = client_run_impl c (start_op (cli_handler c handler) r)"

definition client_async_send_all :: "net_client \<Rightarrow> (u32 \<Rightarrow> cxx_error option) \<Rightarrow> op_start \<Rightarrow> bool act" where
  "client_async_send_all c handler r = client_run_impl c (start_op (cli_handler c handler) r)"

definition client_start_transfer :: "net_client \<Rightarrow> cxx_error option \<Rightarrow> bool act" where
  "client_start_transfer c e = client_run_impl c (does Start_operation e)"

definition client_completes ::
  "(nat \<Rightarrow> nat option \<Rightarrow> xfer_handler) \<Rightarrow> net_client \<Rightarrow> (u32 \<Rightarrow> cxx_error option) \<Rightarrow> nat \<Rightarrow> buffer_t \<Rightarrow> (nat \<times> u32) list \<Rightarrow> unit act option" where
  "client_completes step c handler last_error b cs =
     (case xfer_run (step last_error None) (snd (async_start b Transfer_all)) cs of
        (reqs, Some (Callback err n)) \<Rightarrow> Some (cli_handler c handler err n)
      | _ \<Rightarrow> None)"

definition client_async_recv ::
  "net_client \<Rightarrow> (u32 \<Rightarrow> cxx_error option) \<Rightarrow> nat \<Rightarrow> nat \<Rightarrow> u32 \<Rightarrow> (nat \<times> u32) list \<Rightarrow> unit act option" where
  "client_async_recv c handler last_error buf len cs =
     client_completes Async_Transfer.read_handler c handler last_error (buffer_make buf len) cs"

definition client_async_send ::
  "net_client \<Rightarrow> (u32 \<Rightarrow> cxx_error option) \<Rightarrow> nat \<Rightarrow> buffer_t \<Rightarrow> (nat \<times> u32) list \<Rightarrow> unit act option" where
  "client_async_send c handler last_error b cs = client_completes Async_Transfer.write_handler c handler last_error b cs"

definition client_register_error :: "(string \<Rightarrow> cxx_error option) option \<Rightarrow> net_client \<Rightarrow> net_client" where
  "client_register_error h c = c\<lparr>error_handle := h\<rparr>"

definition client_register_connect :: "(bool \<Rightarrow> cxx_error option) option \<Rightarrow> net_client \<Rightarrow> net_client" where
  "client_register_connect h c = c\<lparr>connect_handle := h\<rparr>"

definition client_register_disconnect :: "cxx_error option option \<Rightarrow> net_client \<Rightarrow> net_client" where
  "client_register_disconnect h c = c\<lparr>disconnect_handle := h\<rparr>"

section \<open>Sessions\<close>

text \<open>The free function on a session that may be null.\<close>

definition net_async_write :: "session option \<Rightarrow> (u32 \<Rightarrow> cxx_error option) \<Rightarrow> op_start \<Rightarrow> bool act" where
  "net_async_write val wr r = (case val of None \<Rightarrow> retA False | Some s \<Rightarrow> async_write s wr r)"

text \<open>
  The socket of a session: null after it was moved out. \<open>peer\<close> is what \<open>getpeername\<close> gives for a socket.
\<close>

definition session_get_ip :: "(u32 \<Rightarrow> string) \<Rightarrow> (SOCKET \<Rightarrow> u32 option) \<Rightarrow> socket_handle option \<Rightarrow> string" where
  "session_get_ip inet_ntoa peer sck =
     (case sck of
        None \<Rightarrow> ''socket was closed''
      | Some h \<Rightarrow>
          (case h of
             None \<Rightarrow> ''unknown ip, socket was closed''
           | Some s \<Rightarrow> ip_2_string inet_ntoa (get_sck_ip (peer s))))"

definition session_shutdown :: "'w winsock \<Rightarrow> socket_handle option \<times> 'w \<Rightarrow> unit result \<times> (socket_handle option \<times> 'w)" where
  "session_shutdown os st =
     (case fst st of
        None \<Rightarrow> (Inl Access_violation, st)
      | Some h \<Rightarrow> (case cancel_socket os (h, snd st) of (r, hw) \<Rightarrow> (r, (Some (fst hw), snd hw))))"

text \<open>
  \<open>additional_data\<close> keeps a copy of a value of any type, and hands it out as a value of the type it is asked for, without a check: \<open>'t\<close> names the types. Asking when nothing is kept,
  or for another type, has no defined result.
\<close>

definition set_additional_data :: "'t \<Rightarrow> 'v \<Rightarrow> ('t \<times> 'v) option \<Rightarrow> ('t \<times> 'v) option" where
  "set_additional_data ty val data = Some (ty, val)"

definition get_additional_data :: "'t \<Rightarrow> ('t \<times> 'v) option \<Rightarrow> 'v result" where
  "get_additional_data ty data =
     (case data of None \<Rightarrow> Inl Access_violation | Some (ty', val) \<Rightarrow> if ty = ty' then Inr val else Inl Access_violation)"

section \<open>The accept thread\<close>

text \<open>
  \<open>_thread_impl\<close> on the results its waits give one after the other: whether it has left its loop, and the server. \<open>env\<close> says for each round whether sockets can be created and accepts
  started.
\<close>

datatype accept_wait = Wait_object_0 | Wait_io_completion | Wait_failed | Wait_timeout

fun accept_thread :: "(nat \<Rightarrow> nat \<Rightarrow> bool \<times> bool) \<Rightarrow> accept_wait list \<Rightarrow> server_impl \<Rightarrow> (bool \<times> server_impl) result" where
  "accept_thread env [] s = Inr (False, s)"
| "accept_thread env (ret # rets) s =
     (if ret = Wait_failed \<or> ret = Wait_io_completion then Inr (True, s)
      else if ret \<noteq> Wait_object_0 then accept_thread env rets s
      else bindR (accept_round (env 0) s) (accept_thread (\<lambda>i. env (Suc i)) rets))"

section \<open>Starting and stopping\<close>

text \<open>
  The accept thread: created but not begun, in its loop, or ended. \<open>lf_apc\<close>: a procedure call is queued to it. \<open>lf_stopping\<close>: the program is inside \<open>stop\<close>, in \<open>join\<close>.
  Then the dispatcher's threads, the listening socket and which handlers are registered.
\<close>

datatype thread_phase = Thread_created | Thread_loops | Thread_ended

record server_life =
  lf_thread :: "thread_phase option"
  lf_apc :: bool
  lf_stopping :: bool
  lf_io :: bool
  lf_acceptor :: bool
  lf_error :: bool
  lf_accept :: bool
  lf_disconnect :: bool

definition server_constructed :: server_life where
  "server_constructed = \<lparr>lf_thread = None, lf_apc = False, lf_stopping = False, lf_io = True, lf_acceptor = True,
     lf_error = False, lf_accept = False, lf_disconnect = False\<rparr>"

definition register_error_handler :: "bool \<Rightarrow> server_life \<Rightarrow> server_life" where
  "register_error_handler h s = s\<lparr>lf_error := h\<rparr>"

definition register_accept_handler :: "bool \<Rightarrow> server_life \<Rightarrow> server_life" where
  "register_accept_handler h s = s\<lparr>lf_accept := h\<rparr>"

definition register_disconnect_handler :: "bool \<Rightarrow> server_life \<Rightarrow> server_life" where
  "register_disconnect_handler h s = s\<lparr>lf_disconnect := h\<rparr>"

text \<open>
  \<open>start\<close> assigns a new thread to \<open>thread_\<close>; the one that is there is destroyed while it can be joined, which ends the process: \<open>None\<close>. The destructor of the server does the same
  to a thread that was not stopped.
\<close>

definition server_start :: "server_life \<Rightarrow> server_life option" where
  "server_start s = (if lf_thread s = None then Some (s\<lparr>lf_thread := Some Thread_created, lf_apc := False\<rparr>) else None)"

definition server_destroy :: "server_life \<Rightarrow> server_life option" where
  "server_destroy s = (if lf_thread s = None then Some (s\<lparr>lf_io := False, lf_acceptor := False\<rparr>) else None)"

text \<open>\<open>stop\<close>: up to \<open>join\<close>, and from there on.\<close>

definition stop_rest :: "server_life \<Rightarrow> server_life" where
  "stop_rest s = s\<lparr>lf_stopping := False, lf_io := False, lf_acceptor := False, lf_error := False, lf_accept := False\<rparr>"

definition server_stop :: "server_life \<Rightarrow> server_life" where
  "server_stop s = (if lf_thread s \<noteq> None then s\<lparr>lf_apc := True, lf_stopping := True\<rparr> else stop_rest s)"

definition stop_joined :: "server_life \<Rightarrow> server_life" where
  "stop_joined s = stop_rest (s\<lparr>lf_thread := None\<rparr>)"

text \<open>What can happen: the thread begins, a wait of its loop returns, and the program calls the server or gets back from \<open>join\<close>.\<close>

inductive life_step :: "server_life \<Rightarrow> server_life \<Rightarrow> bool" where
  begins: "lf_thread s = Some Thread_created \<Longrightarrow> life_step s (s\<lparr>lf_thread := Some Thread_loops, lf_apc := False\<rparr>)"
| event: "lf_thread s = Some Thread_loops \<Longrightarrow> life_step s s"
| apc: "lf_thread s = Some Thread_loops \<Longrightarrow> lf_apc s \<Longrightarrow> life_step s (s\<lparr>lf_thread := Some Thread_ended, lf_apc := False\<rparr>)"
| joined: "lf_stopping s \<Longrightarrow> lf_thread s = Some Thread_ended \<Longrightarrow> life_step s (stop_joined s)"
| start: "\<not> lf_stopping s \<Longrightarrow> server_start s = Some s' \<Longrightarrow> life_step s s'"
| stop: "\<not> lf_stopping s \<Longrightarrow> life_step s (server_stop s)"
| reg_error: "\<not> lf_stopping s \<Longrightarrow> life_step s (register_error_handler h s)"
| reg_accept: "\<not> lf_stopping s \<Longrightarrow> life_step s (register_accept_handler h s)"
| reg_disconnect: "\<not> lf_stopping s \<Longrightarrow> life_step s (register_disconnect_handler h s)"

inductive_cases life_stepE: "life_step s s'"

section \<open>The calls of clients and sessions\<close>

lemma net_async_write_null: "net_async_write None wr r op = ([], Inr False, op)"
  by (simp add: net_async_write_def retA_def)

text \<open>
  Reading a message with \<open>async_recv\<close>: when the completions cover the buffer, however the bytes are split over them, the user's handler is called once, with the whole size; when the stream
  ends before, the client disconnects and the handler is not called.
\<close>

theorem client_recv_message:
  assumes "0 < len" "async_start (buffer_make buf len) Transfer_all = (req, h)"
    and "\<forall>c \<in> set cs. fst c = 0 \<and> snd c \<noteq> 0" "handler len = None" "client_quiet cl"
  shows "legal (Async_Transfer.read_handler e None) h req cs \<Longrightarrow> unat len \<le> length cs \<Longrightarrow>
      \<exists>run. client_async_recv cl handler e buf len cs = Some run \<and> run op = ([Read_handler len], Inr (), op)"
    and "moved cs < unat len \<Longrightarrow>
      \<exists>run. client_async_recv cl handler e buf len (cs @ [(err, 0)]) = Some run \<and> run op = (client_disconnect_calls cl op, Inr (), False)"
proof -
  have b: "buf_size (buffer_make buf len) = len" by (simp add: buffer_make_def)
  have h: "h = snd (async_start (buffer_make buf len) Transfer_all)" using assms(2) by simp
  show "\<exists>run. client_async_recv cl handler e buf len cs = Some run \<and> run op = ([Read_handler len], Inr (), op)"
    if full: "legal (Async_Transfer.read_handler e None) h req cs" "unat len \<le> length cs"
  proof -
    obtain reqs where "xfer_run (Async_Transfer.read_handler e None) h cs = (reqs, Some (Callback 0 len))"
      using xfer_run_whole [OF _ assms(2) full(1) assms(3)] assms(1) full(2) b by auto
    then show ?thesis using assms(1,4)
      by (auto simp: client_async_recv_def client_completes_def h [symmetric] cli_handler_def act_defs word_gt_0)
  qed
  show "\<exists>run. client_async_recv cl handler e buf len (cs @ [(err, 0)]) = Some run \<and> run op = (client_disconnect_calls cl op, Inr (), False)"
    if partial: "moved cs < unat len"
  proof -
    have "waiting (buffer_make buf len) Transfer_all h" "x_transfers h = 0"
      using assms(1,2) b by (auto simp: async_start_def waiting_def)
    then obtain reqs where "xfer_run (Async_Transfer.read_handler e None) h (cs @ [(err, 0)]) = (reqs, Some (Callback err 0))"
      using xfer_run_closed [of "buffer_make buf len" h cs e err] assms(3) partial b by auto
    then show ?thesis
      by (auto simp: client_async_recv_def client_completes_def h [symmetric] cli_handler_def act_defs client_disconnect_closes)
  qed
qed

text \<open>A call whose operation cannot be started returns false, reports and disconnects; else it returns true and, unless the operation completed at once, calls nothing.\<close>

lemma client_start_transfer_outcome:
  "client_quiet c \<Longrightarrow> client_start_transfer c e op =
     (case e of
        None \<Rightarrow> ([Start_operation], Inr True, op)
      | Some x \<Rightarrow> (Start_operation # client_error_calls c (cli_what c x) @ client_disconnect_calls c op, Inr False, False))"
  by (auto simp: client_start_transfer_def client_run_impl_def act_defs client_error_quiet client_disconnect_closes split: option.split)

lemma additional_data_kept: "get_additional_data ty (set_additional_data ty' val data) = (if ty = ty' then Inr val else Inl Access_violation)"
  by (simp add: get_additional_data_def set_additional_data_def)

lemma session_shutdown_outcome:
  "session_shutdown os (Some (Some s), w) = (Inr (), (Some (Some s), cancel_io os s w))"
  "fst (session_shutdown os (Some None, w)) = Inl Network_exception"
  by (simp_all add: session_shutdown_def cancel_socket_def with_socket_def)

section \<open>The accept thread and the server\<close>

text \<open>
  The thread leaves its loop exactly when one of its waits fails or is ended by a procedure call, and whatever it has done by then to the sockets are steps of the server, so the sockets are
  still where they belong.
\<close>

theorem accept_thread_steps:
  "accept_thread env rets s = Inr (ended, s') \<Longrightarrow>
     rtranclp server_step s s' \<and> (ended \<longleftrightarrow> Wait_failed \<in> set rets \<or> Wait_io_completion \<in> set rets) \<and> (server_inv s \<longrightarrow> server_inv s')"
proof (induction env rets s arbitrary: ended s' rule: accept_thread.induct)
  case (2 env ret rets s)
  show ?case
  proof (cases "ret = Wait_object_0")
    case True
    then obtain s1 where r: "accept_round (env 0) s = Inr s1" "accept_thread (\<lambda>i. env (Suc i)) rets s1 = Inr (ended, s')"
      using "2.prems" by (cases "accept_round (env 0) s") auto
    have st: "server_step s s1" using r(1) by (rule server_step.accepts)
    have "rtranclp server_step s1 s' \<and> (ended \<longleftrightarrow> Wait_failed \<in> set rets \<or> Wait_io_completion \<in> set rets) \<and> (server_inv s1 \<longrightarrow> server_inv s')"
      using "2.IH"(2) [OF _ _ r(2)] True by simp
    then show ?thesis using st server_step_inv [OF st] True by (auto intro: converse_rtranclp_into_rtranclp)
  next
    case False
    then show ?thesis using "2.prems" "2.IH"(1) by (cases ret) (auto split: if_splits)
  qed
qed simp

section \<open>Stopping the server\<close>

definition stopping_step :: "server_life \<Rightarrow> server_life \<Rightarrow> bool" where
  "stopping_step s s' \<longleftrightarrow> lf_stopping s \<and> life_step s s'"

definition stopped :: "server_life \<Rightarrow> server_life" where
  "stopped s = (stop_joined s)\<lparr>lf_apc := False\<rparr>"

lemma stopping_states:
  assumes "lf_thread s = Some Thread_loops" and "rtranclp stopping_step (server_stop s) u"
  shows "u = server_stop s \<or> u = (server_stop s)\<lparr>lf_thread := Some Thread_ended, lf_apc := False\<rparr> \<or> u = stopped s"
  using assms(2)
proof (induction rule: rtranclp_induct)
  case (step u v)
  from step.hyps(2) have "lf_stopping u" "life_step u v" by (simp_all add: stopping_step_def)
  then show ?case using step.IH assms(1)
    by (elim life_stepE) (auto simp: server_stop_def stopped_def stop_joined_def stop_rest_def)
qed simp

lemma stopping_ends:
  assumes "lf_thread s = Some Thread_loops"
  shows "stopping_step (server_stop s) ((server_stop s)\<lparr>lf_thread := Some Thread_ended, lf_apc := False\<rparr>)"
    and "stopping_step ((server_stop s)\<lparr>lf_thread := Some Thread_ended, lf_apc := False\<rparr>) (stopped s)"
proof -
  let ?t = "server_stop s"
  let ?e = "?t\<lparr>lf_thread := Some Thread_ended, lf_apc := False\<rparr>"
  have t: "lf_stopping ?t" "lf_thread ?t = Some Thread_loops" "lf_apc ?t" using assms by (simp_all add: server_stop_def)
  then show "stopping_step ?t ?e" using life_step.apc [of ?t] by (simp add: stopping_step_def)
  have "life_step ?e (stop_joined ?e)" using assms by (intro life_step.joined) (simp_all add: server_stop_def)
  moreover have "stop_joined ?e = stopped s" using assms by (simp add: stop_joined_def stop_rest_def server_stop_def stopped_def)
  ultimately show "stopping_step ?e (stopped s)" using assms by (simp add: stopping_step_def server_stop_def)
qed

text \<open>
  \<open>stop\<close> called when the accept thread is in its loop: in whatever state the system is before \<open>stop\<close> has returned, it can still return; and when it returns, the thread is gone, the dispatcher
  stopped, the listening socket closed and the error and accept handlers are cleared, but the disconnect handler is not.
\<close>

theorem stop_returns:
  assumes "lf_thread s = Some Thread_loops" and "rtranclp stopping_step (server_stop s) u"
  shows "rtranclp stopping_step u (stopped s) \<and> (lf_stopping u \<or> u = stopped s) \<and>
    stopped s = s\<lparr>lf_thread := None, lf_apc := False, lf_stopping := False, lf_io := False, lf_acceptor := False, lf_error := False, lf_accept := False\<rparr>"
proof -
  have "rtranclp stopping_step u (stopped s)"
    using stopping_states [OF assms] stopping_ends [OF assms(1)]
    by (auto intro: converse_rtranclp_into_rtranclp)
  moreover have "lf_stopping u \<or> u = stopped s"
    using stopping_states [OF assms] assms(1) by (auto simp: server_stop_def)
  ultimately show ?thesis by (simp add: stopped_def stop_joined_def stop_rest_def)
qed

text \<open>
  \<open>stop\<close> called right after \<open>start\<close>, before the thread has begun: the procedure call is spent when the thread begins, its loop then waits for ever and \<open>stop\<close> never returns.
\<close>

lemma early_stop_hangs:
  assumes "server_start s = Some s1"
  shows "\<exists>u. life_step (server_stop s1) u \<and> lf_stopping u \<and> (\<forall>v. rtranclp life_step u v \<longrightarrow> v = u)"
proof -
  let ?u = "(server_stop s1)\<lparr>lf_thread := Some Thread_loops, lf_apc := False\<rparr>"
  have s1: "lf_thread s1 = Some Thread_created" using assms by (auto simp: server_start_def split: if_splits)
  then have "life_step (server_stop s1) ?u" by (intro life_step.begins) (simp add: server_stop_def)
  moreover have st: "lf_stopping ?u" using s1 by (simp add: server_stop_def)
  moreover have "v = ?u" if "rtranclp life_step ?u v" for v
    using that by (induction rule: rtranclp_induct) (use st in \<open>auto elim!: life_stepE\<close>)
  ultimately show ?thesis by blast
qed

text \<open>A second \<open>start\<close> ends the process; and once the server has been stopped its listening socket stays closed, also when it is started again.\<close>

lemma start_twice: "server_start s = Some s1 \<Longrightarrow> server_start s1 = None \<and> server_destroy s1 = None"
  by (auto simp: server_start_def server_destroy_def split: if_splits)

lemma acceptor_stays_closed: "rtranclp life_step s u \<Longrightarrow> \<not> lf_acceptor s \<Longrightarrow> \<not> lf_acceptor u"
proof (induction rule: rtranclp_induct)
  case (step u v)
  then show ?case
    by (auto elim!: life_stepE simp: stop_joined_def stop_rest_def server_start_def server_stop_def register_error_handler_def
        register_accept_handler_def register_disconnect_handler_def split: if_splits)
qed

end
