(* ===== verification/Ser_File.thy ===== *)
theory Ser_File
  imports Ser_Roundtrip
begin

text \<open>
  Two more ways to serialise: pointers to null-terminated strings (\<open>select_traits_t<char *>\<close> and \<open><wchar_t *>\<close> of \<open>include/serialize/detail/dispatch.hpp\<close>), and streams
  that go to a file, \<open>file_t\<close> of \<open>detail/buffer.hpp\<close> below \<open>binary_in_t\<close> and \<open>binary_out_t\<close> (\<open>file_serialize\<close>).

  A file is its bytes and whether the \<open>fstream\<close> is good. A read that meets the end of the file stores what there is, leaves the rest of the object alone and makes the
  stream bad; a write behind the end fills the gap with zeros. Reading and writing share one file position, which every call sets first.
\<close>

section \<open>Null-terminated strings\<close>

text \<open>\<open>w\<close> is \<open>sizeof(CharT)\<close>, \<open>ptr\<close> the object the pointer addresses; \<open>pop\<close> writes to the object \<open>dst\<close>.\<close>

definition push_cstr :: "nat \<Rightarrow> bytes \<Rightarrow> serialize_t \<Rightarrow> serialize_t result" where
  "push_cstr w ptr s =
     (case str_length w (length ptr div w) ptr of
        None \<Rightarrow> Inl Access_violation
      | Some n \<Rightarrow>
          (let len = of_nat n in bindR (push_length_impl len s) (binary_in_push_pointer (of_nat w) ptr len)))"

definition pop_cstr :: "nat \<Rightarrow> bytes \<Rightarrow> serialize_t \<Rightarrow> (bytes \<times> serialize_t) result" where
  "pop_cstr w dst s = bindR (pop_length s) (\<lambda>(bufLen, s1). binary_out_pop_pointer (of_nat w) dst bufLen s1)"

section \<open>Files\<close>

record file_t =
  file_bytes :: bytes
  file_good :: bool

text \<open>\<open>existing\<close> are the bytes of the file when it can be opened; else it is created, when that is possible.\<close>

definition file_t_open :: "bytes option \<Rightarrow> bool \<Rightarrow> file_t" where
  "file_t_open existing can_create =
     (case existing of
        Some bs \<Rightarrow> \<lparr>file_bytes = bs, file_good = True\<rparr>
      | None \<Rightarrow> \<lparr>file_bytes = [], file_good = can_create\<rparr>)"

definition file_buffer_length :: "file_t \<Rightarrow> u32" where
  "file_buffer_length f = 2 ^ 32 - 1"

definition file_t_read :: "bytes \<Rightarrow> u32 \<Rightarrow> u32 \<Rightarrow> file_t \<Rightarrow> (bytes \<times> file_t) result" where
  "file_t_read obj len pos f =
     (if \<not> file_good f then Inl Runtime_error
      else if length obj < unat len then Inl Access_violation
      else let got = get_block (unat pos) (unat len) (file_bytes f) in
        Inr (got @ drop (length got) obj, f\<lparr>file_good := (length got = unat len)\<rparr>))"

definition file_t_write :: "bytes \<Rightarrow> u32 \<Rightarrow> u32 \<Rightarrow> file_t \<Rightarrow> file_t result" where
  "file_t_write obj len pos f =
     (if \<not> file_good f then Inl Runtime_error
      else if length obj < unat len then Inl Access_violation
      else Inr (f\<lparr>file_bytes := put_block (unat pos) (take (unat len) obj)
             (file_bytes f @ replicate (unat pos - length (file_bytes f)) 0)\<rparr>))"

text \<open>\<open>file_serialize\<close>: the writer and the reader with their positions.\<close>

record file_stream =
  fs_file :: file_t
  fs_in :: u32
  fs_out :: u32

definition file_serialize :: "file_t \<Rightarrow> file_stream" where
  "file_serialize f = \<lparr>fs_file = f, fs_in = 0, fs_out = 0\<rparr>"

definition file_push_pointer :: "u32 \<Rightarrow> bytes \<Rightarrow> u32 \<Rightarrow> file_stream \<Rightarrow> file_stream result" where
  "file_push_pointer sizeof_T ptr cnt s =
     (let len = sizeof_T * cnt in
      if len + fs_in s > file_buffer_length (fs_file s) then Inl Out_of_range
      else bindR (file_t_write ptr len (fs_in s) (fs_file s)) (\<lambda>f. Inr (s\<lparr>fs_file := f, fs_in := fs_in s + len\<rparr>)))"

definition file_push :: "bytes \<Rightarrow> file_stream \<Rightarrow> file_stream result" where
  "file_push rep s =
     (let sizeof_T = of_nat (length rep) in
      if sizeof_T + fs_in s > file_buffer_length (fs_file s) then Inl Out_of_range
      else bindR (file_t_write rep sizeof_T (fs_in s) (fs_file s)) (\<lambda>f. Inr (s\<lparr>fs_file := f, fs_in := fs_in s + sizeof_T\<rparr>)))"

definition file_pop_pointer :: "u32 \<Rightarrow> bytes \<Rightarrow> u32 \<Rightarrow> file_stream \<Rightarrow> (bytes \<times> file_stream) result" where
  "file_pop_pointer sizeof_T ptr cnt s =
     (let len = sizeof_T * cnt in
      if len + fs_out s > file_buffer_length (fs_file s) then Inl Out_of_range
      else bindR (file_t_read ptr len (fs_out s) (fs_file s)) (\<lambda>(bs, f). Inr (bs, s\<lparr>fs_file := f, fs_out := fs_out s + len\<rparr>)))"

definition file_pop :: "bytes \<Rightarrow> file_stream \<Rightarrow> (bytes \<times> file_stream) result" where
  "file_pop val s =
     (let sizeof_T = of_nat (length val) in
      if sizeof_T + fs_out s > file_buffer_length (fs_file s) then Inl Out_of_range
      else bindR (file_t_read val sizeof_T (fs_out s) (fs_file s)) (\<lambda>(bs, f). Inr (bs, s\<lparr>fs_file := f, fs_out := fs_out s + sizeof_T\<rparr>)))"

text \<open>Several values one after the other.\<close>

fun file_pops :: "bytes list \<Rightarrow> file_stream \<Rightarrow> (bytes list \<times> file_stream) result" where
  "file_pops [] s = Inr ([], s)"
| "file_pops (v # vs) s = bindR (file_pop v s) (\<lambda>(x, s1). bindR (file_pops vs s1) (\<lambda>(xs, s2). Inr (x # xs, s2)))"

section \<open>Null-terminated strings: lemmas\<close>

text \<open>\<open>cstring w n ptr\<close>: the object holds a string of \<open>n\<close> characters.\<close>

definition cstring :: "nat \<Rightarrow> nat \<Rightarrow> bytes \<Rightarrow> bool" where
  "cstring w n ptr \<longleftrightarrow> str_length w (length ptr div w) ptr = Some n"

lemma push_pointer_prefix:
  assumes "wf_stream s" "unat (sizeof_T * cnt) = n" "n \<le> length ptr" "n < 2 ^ 31"
  shows "binary_in_push_pointer sizeof_T ptr cnt s = emit (take n ptr) s"
proof -
  have "binary_in_push_pointer sizeof_T ptr cnt s = binary_in_push_pointer sizeof_T (take n ptr) cnt s"
    using assms(2,3) by (simp add: binary_in_push_pointer_def write_at_in_def memory_write_def Let_def)
  then show ?thesis using binary_in_push_pointer_emit [OF assms(1), of sizeof_T cnt "take n ptr"] assms by simp
qed

lemma cstring_length:
  assumes "0 < w" "cstring w n ptr"
  shows "w * n + w \<le> length ptr"
proof -
  have "n < length ptr div w" using str_length_le assms(2) by (simp add: cstring_def)
  then have "Suc n * w \<le> length ptr" by (meson Suc_le_eq assms(1) less_eq_div_iff_mult_less_eq)
  then show ?thesis by (simp add: algebra_simps)
qed

lemma push_cstr_appends:
  assumes "0 < w" "cstring w n ptr" "length ptr < 2 ^ 31"
  shows "appends (push_cstr w ptr) (u32_rep (of_nat n) @ take (w * n) ptr)"
proof -
  have len: "w * n \<le> length ptr" using cstring_length [OF assms(1,2)] by simp
  then have "unat (of_nat w * of_nat n :: u32) = w * n"
    using assms(3) by (simp flip: of_nat_mult add: unat_of_nat_u32)
  then have "appends (binary_in_push_pointer (of_nat w) ptr (of_nat n)) (take (w * n) ptr)"
    using len assms(3) by (auto simp: appends_def intro!: push_pointer_prefix)
  from appends_bind [OF appends_length this] show ?thesis
    using assms(2) by (simp add: push_cstr_def [abs_def] cstring_def Let_def)
qed

lemma reads_pop_prefix:
  assumes "unat (sizeof_T * cnt) = length bs" "length bs < 2 ^ 31" "length bs \<le> length dst"
  shows "reads (binary_out_pop_pointer sizeof_T dst cnt) (bs @ drop (length bs) dst) bs"
proof (rule readsI)
  fix s rest assume wf: "wf_stream s" and u: "unread s = bs @ rest"
  have "fetch (length bs) s = Inr (bs, advance (length bs) s)"
    using fetch_emitted [OF wf] u by (simp add: unread_def advance_def)
  then show "binary_out_pop_pointer sizeof_T dst cnt s = Inr (bs @ drop (length bs) dst, advance (length bs) s)"
    using binary_out_pop_pointer_fetch [OF wf, of sizeof_T cnt dst] assms by (simp add: overwrite_def)
qed

text \<open>
  A string pushed by its pointer and popped to an object that is large enough: the characters come back at the start of the object and the rest of it is as before. The
  null character is not written, so the object holds the same string only if it had a null character there.
\<close>

theorem cstr_roundtrip:
  assumes "0 < w" "cstring w n ptr" "length ptr < 2 ^ 31" "w * n \<le> length dst"
    and "wf_stream s" "in_pos s = out_pos s" "push_cstr w ptr s = Inr s'"
  shows "\<exists>s''. pop_cstr w dst s' = Inr (take (w * n) ptr @ drop (w * n) dst, s'') \<and> out_pos s'' = in_pos s'"
proof -
  let ?bs = "take (w * n) ptr" and ?len = "u32_rep (of_nat n)"
  have len: "w * n \<le> length ptr" using cstring_length [OF assms(1,2)] by simp
  then have "unat (of_nat w * of_nat n :: u32) = length ?bs" using assms(3) by (simp flip: of_nat_mult add: unat_of_nat_u32)
  then have "reads (binary_out_pop_pointer (of_nat w) dst (of_nat n)) (?bs @ drop (length ?bs) dst) ?bs"
    using len assms(3,4) by (intro reads_pop_prefix) auto
  from reads_bind [where g = "\<lambda>n s1. binary_out_pop_pointer (of_nat w) dst n s1", OF reads_pop_length this]
  have rd: "reads (pop_cstr w dst) (?bs @ drop (w * n) dst) (?len @ ?bs)" using len by (simp add: pop_cstr_def [abs_def] min.absorb2)
  have e: "emit (?len @ ?bs) s = Inr s'" using appendsD [OF push_cstr_appends [OF assms(1-3)] assms(5)] assms(7) by simp
  have "unread s' = (?len @ ?bs) @ drop (unat (in_pos s) + length (?len @ ?bs)) (buf (buffer s))"
    using e assms(5,6) by (auto simp: emit_def unread_def wf_stream_def drop_put_block split: if_splits)
  from readsD [OF rd wf_stream_emit [OF assms(5) e] this] show ?thesis
    using emit_in_pos_word [OF e] emit_out_pos [OF e] assms(6) by (simp add: advance_def)
qed

section \<open>Files: lemmas\<close>

lemma file_guard: "\<not> n > file_buffer_length f"
  using le_u32_max [of n] by (simp add: file_buffer_length_def not_less)

lemma file_push_appends:
  assumes "file_good (fs_file s)" "unat (fs_in s) = length (file_bytes (fs_file s))" "length (file_bytes (fs_file s)) + length rep < 2 ^ 32"
  shows "file_push rep s = Inr (s\<lparr>fs_file := (fs_file s)\<lparr>file_bytes := file_bytes (fs_file s) @ rep\<rparr>, fs_in := fs_in s + of_nat (length rep)\<rparr>)"
  using assms file_guard by (simp add: file_push_def file_t_write_def Let_def unat_of_nat_u32 put_block_def)

lemma file_pushes_append:
  assumes "file_good (fs_file s)" "unat (fs_in s) = length (file_bytes (fs_file s))" "length (file_bytes (fs_file s)) + length (concat reps) < 2 ^ 32"
  shows "foldR file_push reps s = Inr (s\<lparr>fs_file := (fs_file s)\<lparr>file_bytes := file_bytes (fs_file s) @ concat reps\<rparr>, fs_in := fs_in s + of_nat (length (concat reps))\<rparr>)"
  using assms
proof (induction reps arbitrary: s)
  case (Cons rep reps)
  have u: "unat (fs_in s + of_nat (length rep)) = length (file_bytes (fs_file s)) + length rep"
    using Cons.prems by (simp add: unat_add_u32 unat_of_nat_u32)
  show ?case using Cons.prems u by (simp add: file_push_appends Cons.IH add.assoc)
qed simp

lemma file_pop_next:
  assumes "file_good (fs_file s)" "drop (unat (fs_out s)) (file_bytes (fs_file s)) = bs @ rest" "length bs = length val" "length val < 2 ^ 32"
  shows "file_pop val s = Inr (bs, s\<lparr>fs_out := fs_out s + of_nat (length val)\<rparr>)"
  using assms file_guard by (simp add: file_pop_def file_t_read_def Let_def unat_of_nat_u32 get_block_def)

lemma file_pops_next:
  assumes "file_good (fs_file s)" "drop (unat (fs_out s)) (file_bytes (fs_file s)) = concat reps @ rest"
    and "map length vals = map length reps" "unat (fs_out s) + length (concat reps) < 2 ^ 32"
  shows "file_pops vals s = Inr (reps, s\<lparr>fs_out := fs_out s + of_nat (length (concat reps))\<rparr>)"
  using assms
proof (induction reps arbitrary: vals s)
  case (Cons rep reps)
  then obtain v vs where vals: "vals = v # vs" "length v = length rep" "map length vs = map length reps" by (cases vals) auto
  let ?s = "s\<lparr>fs_out := fs_out s + of_nat (length rep)\<rparr>"
  have u: "unat (fs_out s + of_nat (length rep)) = unat (fs_out s) + length rep" using Cons.prems(4) by (simp add: unat_add_u32 unat_of_nat_u32)
  have "drop (unat (fs_out ?s)) (file_bytes (fs_file ?s)) = drop (length rep) (drop (unat (fs_out s)) (file_bytes (fs_file s)))"
    using u by (simp add: add.commute)
  then have "drop (unat (fs_out ?s)) (file_bytes (fs_file ?s)) = concat reps @ rest" unfolding Cons.prems(2) by simp
  then have "file_pops vs ?s = Inr (reps, ?s\<lparr>fs_out := fs_out ?s + of_nat (length (concat reps))\<rparr>)"
    using Cons.IH [of ?s vs] Cons.prems(1,4) vals(3) u by simp
  moreover have "file_pop v s = Inr (rep, ?s)" using file_pop_next [of s rep "concat reps @ rest" v] Cons.prems vals(2) by simp
  ultimately show ?case by (simp add: vals(1) add.assoc)
qed simp

section \<open>Files: correctness\<close>

text \<open>
  Values written to a new file of less than 4 GB are the bytes of the file one after the other, and objects of the same sizes read from it get the same values. A read past
  the end does not throw: it leaves the object, or the end of it, as it was; the read after it throws.
\<close>

theorem file_roundtrip:
  assumes "length (concat reps) < 2 ^ 32" "map length vals = map length reps"
  shows "\<exists>s s'. foldR file_push reps (file_serialize (file_t_open None True)) = Inr s \<and>
    file_bytes (fs_file s) = concat reps \<and> file_pops vals s = Inr (reps, s') \<and>
    (\<forall>v. v \<noteq> [] \<and> length (concat reps) + length v < 2 ^ 32 \<longrightarrow>
      (\<exists>s''. file_pop v s' = Inr (v, s'') \<and> file_pop v s'' = Inl Runtime_error))"
proof -
  let ?f = "\<lparr>file_bytes = concat reps, file_good = True\<rparr>" and ?n = "of_nat (length (concat reps)) :: u32"
  let ?s = "\<lparr>fs_file = ?f, fs_in = ?n, fs_out = 0\<rparr>"
  let ?s' = "?s\<lparr>fs_out := ?n\<rparr>"
  have push: "foldR file_push reps (file_serialize (file_t_open None True)) = Inr ?s"
    using file_pushes_append [of "file_serialize (file_t_open None True)" reps] assms(1) by (simp add: file_serialize_def file_t_open_def)
  have pop: "file_pops vals ?s = Inr (reps, ?s')" using file_pops_next [of ?s reps "[]" vals] assms by simp
  have "\<exists>s''. file_pop v ?s' = Inr (v, s'') \<and> file_pop v s'' = Inl Runtime_error"
    if v: "v \<noteq> []" "length (concat reps) + length v < 2 ^ 32" for v
    using v file_guard assms(1) by (simp add: file_pop_def file_t_read_def Let_def unat_of_nat_u32 get_block_def)
  then show ?thesis using push pop by (intro exI [of _ ?s] exI [of _ ?s']) simp
qed

text \<open>The guard of the writer never fails, so behind 4 GB it goes on at the start of the file and overwrites it.\<close>

lemma file_push_wraps:
  assumes "file_good (fs_file s)" "fs_in s = 2 ^ 32 - 1" "length (file_bytes (fs_file s)) = 2 ^ 32 - 1"
  shows "\<exists>s'. file_push [b] s = Inr s' \<and> fs_in s' = 0"
  using assms file_guard by (simp add: file_push_def file_t_write_def Let_def)

end
