(* ===== verification/Io_Lifecycle.thy ===== *)
theory Io_Lifecycle
  imports Io_Dispatcher
begin

text \<open>
  The life of a dispatcher: its port (\<open>iocp_handle\<close> of \<open>include/async_io/service/iocp.hpp\<close>), its construction, \<open>stop\<close> and its destruction (\<open>dispatcher.cpp\<close>), around the threads of
  \<open>Io_Dispatcher\<close>. \<open>stop\<close> queues a procedure call to every thread and joins them one after the other; a thread gets its call when it next waits at
  the port. A call that is queued to a thread that has not begun to run yet is made when the thread begins, before \<open>_thread_io\<close>, and is then spent. Neither the handlers nor \<open>init_handler_\<close> wait alertably, so no
  other wait takes a call.
\<close>

section \<open>The port\<close>

type_synonym iocp_handle = "nat option"

definition iocp_is_open :: "iocp_handle \<Rightarrow> bool" where
  "iocp_is_open h \<longleftrightarrow> h \<noteq> None"

text \<open>\<open>create\<close> with the handle the system gives, \<open>close\<close> with the handles closed, \<open>associate_device\<close> with the port the system answers with.\<close>

definition iocp_create :: "nat option \<Rightarrow> iocp_handle \<Rightarrow> bool \<times> iocp_handle" where
  "iocp_create given h = (given \<noteq> None, given)"

definition iocp_close :: "iocp_handle \<Rightarrow> nat list \<times> iocp_handle" where
  "iocp_close h = (case h of None \<Rightarrow> ([], None) | Some p \<Rightarrow> ([p], None))"

definition associate_device :: "nat option \<Rightarrow> iocp_handle \<Rightarrow> bool" where
  "associate_device answer h \<longleftrightarrow> answer = h"

definition dispatcher_bind :: "nat option \<Rightarrow> iocp_handle \<Rightarrow> unit result" where
  "dispatcher_bind answer h = (if associate_device answer h then Inr () else Inl Win32_exception)"

section \<open>The dispatcher\<close>

text \<open>Where \<open>stop\<close> is: not called, in the \<open>join\<close> of the thread with the given index.\<close>

datatype stop_pc = Not_stopping | Joining nat

record dispatcher =
  dp_io :: io_state
  dp_port :: iocp_handle
  dp_apc :: "bool list"
  dp_stop :: stop_pc

text \<open>
  The constructor, with the handle the system gives for the port and how many threads can be created: the vector of threads destroyed with running threads in it ends the process,
  \<open>None\<close>.
\<close>

definition dispatcher_construct :: "nat option \<Rightarrow> nat \<Rightarrow> nat \<Rightarrow> dispatcher result option" where
  "dispatcher_construct given creatable numThreads =
     (case iocp_create given None of (ok, h) \<Rightarrow>
        if \<not> ok then Some (Inl Win32_exception)
        else if numThreads \<le> creatable
        then Some (Inr \<lparr>dp_io = io_dispatcher numThreads, dp_port = h, dp_apc = replicate numThreads False, dp_stop = Not_stopping\<rparr>)
        else if creatable = 0 then Some (Inl Runtime_error) else None)"

definition dispatcher_stop :: "dispatcher \<Rightarrow> dispatcher" where
  "dispatcher_stop d = d\<lparr>dp_apc := map (\<lambda>_. True) (io_threads (dp_io d)), dp_stop := Joining 0\<rparr>"

text \<open>A thread has been joined; after the last one \<open>threads_.clear()\<close> and \<open>stop\<close> returns.\<close>

definition stop_join :: "nat \<Rightarrow> dispatcher \<Rightarrow> dispatcher" where
  "stop_join k d = d\<lparr>dp_stop := Joining (Suc k)\<rparr>"

definition stop_clear :: "dispatcher \<Rightarrow> dispatcher" where
  "stop_clear d = d\<lparr>dp_io := (dp_io d)\<lparr>io_threads := []\<rparr>, dp_apc := [], dp_stop := Not_stopping\<rparr>"

text \<open>The two events at which a thread takes the procedure calls queued to it: when it begins, and in its alertable wait.\<close>

fun takes_apc :: "io_event \<Rightarrow> bool" where
  "takes_apc (Ev_begin t) = True"
| "takes_apc (Ev_apc t) = True"
| "takes_apc ev = False"

inductive dispatcher_step :: "dispatcher \<Rightarrow> dispatcher \<Rightarrow> bool" where
  io: "io_step (dp_io d) ev s \<Longrightarrow> \<not> takes_apc ev \<Longrightarrow> dispatcher_step d (d\<lparr>dp_io := s\<rparr>)"
| begin_thread: "io_step (dp_io d) (Ev_begin t) s \<Longrightarrow> dispatcher_step d (d\<lparr>dp_io := s, dp_apc := (dp_apc d)[t := False]\<rparr>)"
| apc: "io_step (dp_io d) (Ev_apc t) s \<Longrightarrow> dp_apc d ! t \<Longrightarrow> dispatcher_step d (d\<lparr>dp_io := s, dp_apc := (dp_apc d)[t := False]\<rparr>)"
| stop: "dp_stop d = Not_stopping \<Longrightarrow> dispatcher_step d (dispatcher_stop d)"
| join: "dp_stop d = Joining k \<Longrightarrow> k < length (io_threads (dp_io d)) \<Longrightarrow> io_threads (dp_io d) ! k = T_exited \<Longrightarrow> dispatcher_step d (stop_join k d)"
| clear: "dp_stop d = Joining (length (io_threads (dp_io d))) \<Longrightarrow> dispatcher_step d (stop_clear d)"

text \<open>The destructors: \<open>stop\<close>, and once more from \<open>~impl\<close>, which then closes the port; \<open>None\<close> while a thread is left, for which \<open>join\<close> waits.\<close>

definition dispatcher_destroy :: "dispatcher \<Rightarrow> (nat list \<times> dispatcher) option" where
  "dispatcher_destroy d =
     (if io_threads (dp_io d) = [] then (case iocp_close (dp_port d) of (closed, h) \<Rightarrow> Some (closed, (stop_clear d)\<lparr>dp_port := h\<rparr>)) else None)"

section \<open>A thread that is asked to stop can stop\<close>

fun thread_left :: "io_thread \<Rightarrow> nat" where
  "thread_left (T_batch es) = 2 * length es + 1"
| "thread_left (T_running x es) = 2 * length es + 2"
| "thread_left th = 0"

definition only_thread :: "nat \<Rightarrow> io_thread \<Rightarrow> dispatcher \<Rightarrow> dispatcher \<Rightarrow> bool" where
  "only_thread t th d d' \<longleftrightarrow> io_threads (dp_io d') = (io_threads (dp_io d))[t := th] \<and> dp_stop d' = dp_stop d \<and>
     length (dp_apc d') = length (dp_apc d) \<and> (\<forall>u. u \<noteq> t \<longrightarrow> dp_apc d' ! u = dp_apc d ! u)"

lemma only_thread_trans: "only_thread t th d d' \<Longrightarrow> only_thread t th' d' d'' \<Longrightarrow> only_thread t th' d d''"
  by (simp add: only_thread_def)

lemma thread_advances:
  assumes "t < length (io_threads (dp_io d))" "io_threads (dp_io d) ! t = th" "0 < thread_left th"
  shows "\<exists>d' th'. dispatcher_step d d' \<and> only_thread t th' d d' \<and> thread_left th' < thread_left th \<and> th' \<notin> {T_created, T_exited} \<and> dp_apc d' = dp_apc d"
proof -
  have io: "\<exists>d' th'. dispatcher_step d d' \<and> only_thread t th' d d' \<and> thread_left th' < thread_left th \<and> th' \<notin> {T_created, T_exited} \<and> dp_apc d' = dp_apc d"
    if "io_step (dp_io d) ev s" "\<not> takes_apc ev" "io_threads s = (io_threads (dp_io d))[t := th']" "thread_left th' < thread_left th" "th' \<notin> {T_created, T_exited}" for ev s th'
    using dispatcher_step.io [OF that(1,2)] that(3-5) by (intro exI [of _ "d\<lparr>dp_io := s\<rparr>"] exI [of _ th']) (simp add: only_thread_def)
  show ?thesis
  proof (cases th)
    case (T_batch es)
    show ?thesis
    proof (cases es)
      case Nil
      then show ?thesis using io [OF io_step.batch_done [of t], where th' = T_waiting] assms T_batch by (simp add: set_thread_def)
    next
      case (Cons x xs)
      then show ?thesis using io [OF io_step.call [of t _ x xs], where th' = "T_running x xs"] assms T_batch
        by (simp add: call_begin_def invoke_def set_thread_def)
    qed
  next
    case (T_running x xs)
    then show ?thesis using io [OF io_step.return [of t _ x xs False], where th' = "T_batch xs"] assms
      by (simp add: call_end_def deallocate_def set_thread_def)
  qed (use assms in simp_all)
qed

lemma thread_exits:
  assumes "t < length (io_threads (dp_io d))" "io_threads (dp_io d) ! t = T_exited \<or> dp_apc d ! t" "t < length (dp_apc d)" "io_threads (dp_io d) ! t \<noteq> T_created"
  shows "\<exists>d'. rtranclp dispatcher_step d d' \<and> only_thread t T_exited d d'"
  using assms
proof (induction "thread_left (io_threads (dp_io d) ! t)" arbitrary: d rule: less_induct)
  case less
  let ?th = "io_threads (dp_io d) ! t"
  show ?case
  proof (cases "0 < thread_left ?th")
    case True
    obtain d' th' where d': "dispatcher_step d d'" "only_thread t th' d d'" "thread_left th' < thread_left ?th" "th' \<notin> {T_created, T_exited}" "dp_apc d' = dp_apc d"
      using thread_advances [OF less.prems(1) HOL.refl True] by blast
    then have t: "io_threads (dp_io d') ! t = th'" "t < length (io_threads (dp_io d'))" using less.prems(1) by (simp_all add: only_thread_def)
    moreover have "dp_apc d' ! t" using d'(5) less.prems True by auto
    ultimately obtain d'' where "rtranclp dispatcher_step d' d''" "only_thread t T_exited d' d''"
      using less.hyps [of d'] d'(3-5) less.prems(3) by auto
    then show ?thesis using d'(1,2) only_thread_trans converse_rtranclp_into_rtranclp by metis
  next
    case False
    show ?thesis
    proof (cases "?th = T_exited")
      case True
      then have "only_thread t T_exited d d" by (metis only_thread_def list_update_id)
      then show ?thesis by blast
    next
      case other: False
      then have "?th = T_waiting" using False less.prems(4) by (cases ?th) simp_all
      then have "dispatcher_step d (d\<lparr>dp_io := set_thread t T_exited (dp_io d), dp_apc := (dp_apc d)[t := False]\<rparr>)"
        using less.prems other by (intro dispatcher_step.apc io_step.apc) simp_all
      moreover have "only_thread t T_exited d (d\<lparr>dp_io := set_thread t T_exited (dp_io d), dp_apc := (dp_apc d)[t := False]\<rparr>)"
        by (simp add: only_thread_def set_thread_def)
      ultimately show ?thesis by blast
    qed
  qed
qed

section \<open>Stopping\<close>

definition threads_of :: "dispatcher \<Rightarrow> io_thread list" where
  "threads_of d = io_threads (dp_io d)"

text \<open>Inside \<open>stop\<close> every thread has begun, has ended or has its procedure call before it, and the threads joined have ended.\<close>

definition stopping :: "dispatcher \<Rightarrow> bool" where
  "stopping d \<longleftrightarrow> (\<exists>k \<le> length (threads_of d). dp_stop d = Joining k \<and> (\<forall>t < k. threads_of d ! t = T_exited)) \<and>
     length (dp_apc d) = length (threads_of d) \<and>
     (\<forall>t < length (threads_of d). threads_of d ! t \<noteq> T_created \<and> (threads_of d ! t = T_exited \<or> dp_apc d ! t))"

text \<open>The thread that \<open>stop\<close> waits for in vain: not begun, or running with its procedure call spent.\<close>

definition hanging :: "nat \<Rightarrow> dispatcher \<Rightarrow> bool" where
  "hanging t d \<longleftrightarrow> (\<exists>k \<le> t. dp_stop d = Joining k) \<and> t < length (threads_of d) \<and> length (dp_apc d) = length (threads_of d) \<and>
     threads_of d ! t \<noteq> T_exited \<and> (threads_of d ! t = T_created \<or> \<not> dp_apc d ! t)"

lemma stop_stopping: "T_created \<notin> set (threads_of d) \<Longrightarrow> stopping (dispatcher_stop d)"
  by (auto simp: stopping_def dispatcher_stop_def threads_of_def in_set_conv_nth)

lemma stop_hanging: "t < length (threads_of d) \<Longrightarrow> threads_of d ! t = T_created \<Longrightarrow> hanging t (dispatcher_stop d)"
  by (simp add: hanging_def dispatcher_stop_def threads_of_def)

lemma io_step_threads:
  "io_step s ev s' \<Longrightarrow> length (io_threads s') = length (io_threads s) \<and>
     (\<not> takes_apc ev \<longrightarrow> (\<forall>t < length (io_threads s). (io_threads s' ! t = T_exited \<longleftrightarrow> io_threads s ! t = T_exited) \<and> (io_threads s' ! t = T_created \<longleftrightarrow> io_threads s ! t = T_created)))"
  by (induction rule: io_step.induct) (auto simp: io_fields nth_list_update split: kernel_result.splits)

inductive_cases io_step_beginE: "io_step s (Ev_begin t) s'"
inductive_cases io_step_apcE: "io_step s (Ev_apc t) s'"

lemma stopping_step: "dispatcher_step d d' \<Longrightarrow> stopping d \<Longrightarrow> stopping d' \<or> d' = stop_clear d"
proof (induction rule: dispatcher_step.induct)
  case (io d ev s)
  then show ?case using io_step_threads [OF io(1)] by (auto simp: stopping_def threads_of_def)
next
  case (begin_thread d t s)
  then show ?case by (auto simp: stopping_def threads_of_def elim: io_step_beginE)
next
  case (apc d t s)
  have s: "s = set_thread t T_exited (dp_io d)" and t: "t < length (io_threads (dp_io d))" using apc(1) by (auto elim: io_step_apcE)
  have "(io_threads (dp_io d))[t := T_exited] ! u \<noteq> T_created \<and> ((io_threads (dp_io d))[t := T_exited] ! u = T_exited \<or> (dp_apc d)[t := False] ! u)"
    if "io_threads (dp_io d) ! u \<noteq> T_created \<and> (io_threads (dp_io d) ! u = T_exited \<or> dp_apc d ! u)" for u
    using that t by (cases "u = t") simp_all
  moreover have "(io_threads (dp_io d))[t := T_exited] ! u = T_exited" if "io_threads (dp_io d) ! u = T_exited" for u
    using that t by (cases "u = t") simp_all
  ultimately show ?case using apc(3) s by (auto simp: stopping_def threads_of_def set_thread_def)
next
  case (join d k)
  then show ?case by (auto simp: stopping_def threads_of_def stop_join_def less_Suc_eq intro!: exI [of _ "Suc k"])
qed (auto simp: stopping_def)

lemma hanging_step: "dispatcher_step d d' \<Longrightarrow> hanging t d \<Longrightarrow> hanging t d'"
proof (induction rule: dispatcher_step.induct)
  case (io d ev s)
  then show ?case using io_step_threads [OF io(1)] by (auto simp: hanging_def threads_of_def)
next
  case (begin_thread d u s)
  have "s = set_thread u T_waiting (dp_io d)" "u < length (io_threads (dp_io d))" using begin_thread(1) by (auto elim: io_step_beginE)
  then show ?case using begin_thread(2) by (auto simp: hanging_def threads_of_def set_thread_def nth_list_update split: if_splits)
next
  case (apc d u s)
  have "s = set_thread u T_exited (dp_io d)" "io_threads (dp_io d) ! u = T_waiting" "u < length (io_threads (dp_io d))" using apc(1) by (auto elim: io_step_apcE)
  then show ?case using apc(2,3) by (auto simp: hanging_def threads_of_def set_thread_def nth_list_update split: if_splits)
next
  case (join d k)
  then have "k \<noteq> t" by (auto simp: hanging_def threads_of_def)
  then show ?case using join by (auto simp: hanging_def threads_of_def stop_join_def)
qed (auto simp: hanging_def threads_of_def)

lemma stopping_can_end:
  assumes "stopping d"
  shows "\<exists>v. rtranclp dispatcher_step d v \<and> dp_stop v = Not_stopping \<and> io_threads (dp_io v) = []"
proof -
  obtain k where k: "dp_stop d = Joining k" "k \<le> length (threads_of d)" using assms by (auto simp: stopping_def)
  from k assms show ?thesis
  proof (induction "length (threads_of d) - k" arbitrary: d k)
    case 0
    then have "dispatcher_step d (stop_clear d)" by (intro dispatcher_step.clear) (simp add: threads_of_def)
    then show ?case by (intro exI [of _ "stop_clear d"]) (simp add: stop_clear_def r_into_rtranclp)
  next
    case (Suc n)
    then have lt: "k < length (threads_of d)" by simp
    have "\<exists>d'. rtranclp dispatcher_step d d' \<and> only_thread k T_exited d d'"
      using Suc.prems(3) lt by (intro thread_exits) (auto simp: stopping_def threads_of_def)
    then obtain d' where d': "rtranclp dispatcher_step d d'" "only_thread k T_exited d d'" by blast
    have st: "dispatcher_step d' (stop_join k d')"
      using d'(2) lt Suc.prems(1) by (intro dispatcher_step.join) (simp_all add: only_thread_def threads_of_def)
    let ?e = "stop_join k d'"
    have th: "threads_of ?e = (threads_of d)[k := T_exited]" "dp_stop ?e = Joining (Suc k)"
      using d'(2) by (simp_all add: only_thread_def threads_of_def stop_join_def)
    have "stopping ?e" using Suc.prems(1,3) d'(2) th lt
      by (auto simp: stopping_def only_thread_def threads_of_def stop_join_def nth_list_update less_Suc_eq intro!: exI [of _ "Suc k"])
    moreover have "n = length (threads_of ?e) - Suc k" using Suc.hyps(2) th(1) by simp
    ultimately obtain v where "rtranclp dispatcher_step ?e v" "dp_stop v = Not_stopping \<and> io_threads (dp_io v) = []"
      using Suc.hyps(1) [of ?e "Suc k"] th lt by auto
    then show ?case using d'(1) st by (meson rtranclp.rtrancl_into_rtrancl rtranclp_trans)
  qed
qed

text \<open>
  C13. When \<open>stop\<close> of the dispatcher returns. When every thread has begun to run, \<open>stop\<close> never gets stuck: in whatever state the dispatcher is before it has returned, whatever handlers are running and
  whatever has been started and completed since, it can still return, with all threads joined. When a thread has been created but has not begun, its procedure call is spent at its beginning, and \<open>stop\<close> never
  returns.
\<close>

theorem dispatcher_stop_returns:
  assumes "rtranclp (\<lambda>a b. dispatcher_step a b \<and> dp_stop a \<noteq> Not_stopping) (dispatcher_stop d) u"
  shows "if T_created \<in> set (threads_of d) then dp_stop u \<noteq> Not_stopping
    else \<exists>v. rtranclp dispatcher_step u v \<and> dp_stop v = Not_stopping \<and> io_threads (dp_io v) = []"
proof (cases "T_created \<in> set (threads_of d)")
  case True
  then obtain t where t: "t < length (threads_of d)" "threads_of d ! t = T_created" by (auto simp: in_set_conv_nth)
  have "hanging t u" using assms by (induction rule: rtranclp_induct) (auto simp: stop_hanging [OF t] hanging_step)
  then show ?thesis using True by (auto simp: hanging_def)
next
  case False
  have "stopping u \<or> dp_stop u = Not_stopping \<and> io_threads (dp_io u) = []"
    using assms
  proof (induction rule: rtranclp_induct)
    case (step u v)
    then have "stopping u" by blast
    then show ?case using stopping_step [of u v] step.hyps(2) by (auto simp: stop_clear_def)
  qed (simp add: stop_stopping [OF False])
  then show ?thesis using stopping_can_end [of u] False by auto
qed

text \<open>A dispatcher with two threads, as constructed, and when both have begun.\<close>

definition two_threads :: "io_thread \<Rightarrow> dispatcher" where
  "two_threads th = \<lparr>dp_io = (io_dispatcher 2)\<lparr>io_threads := [th, th]\<rparr>, dp_port = Some 7, dp_apc = [False, False], dp_stop = Not_stopping\<rparr>"

lemma two_threads_construct: "dispatcher_construct (Some 7) 2 2 = Some (Inr (two_threads T_created))"
  by (simp add: dispatcher_construct_def iocp_create_def two_threads_def io_dispatcher_def numeral_2_eq_2)

lemma two_threads_begin: "rtranclp dispatcher_step (two_threads T_created) (two_threads T_waiting)"
proof -
  let ?d = "two_threads T_created" and ?b = "\<lambda>t d. d\<lparr>dp_io := set_thread t T_waiting (dp_io d), dp_apc := (dp_apc d)[t := False]\<rparr>"
  have "dispatcher_step ?d (?b 0 ?d)"
    by (intro dispatcher_step.begin_thread io_step.begin_thread) (simp_all add: two_threads_def)
  moreover have "dispatcher_step (?b 0 ?d) (?b 1 (?b 0 ?d))"
    by (intro dispatcher_step.begin_thread io_step.begin_thread) (simp_all add: two_threads_def set_thread_def)
  moreover have "?b 1 (?b 0 ?d) = two_threads T_waiting" by (simp add: two_threads_def set_thread_def)
  ultimately show ?thesis by (metis converse_rtranclp_into_rtranclp r_into_rtranclp)
qed

theorem dispatcher_stop_returns_witness:
  "dispatcher_construct (Some 7) 2 2 = Some (Inr (two_threads T_created)) \<and> rtranclp dispatcher_step (two_threads T_created) (two_threads T_waiting) \<and>
   (\<exists>v. rtranclp dispatcher_step (dispatcher_stop (two_threads T_waiting)) v \<and> dp_stop v = Not_stopping \<and> io_threads (dp_io v) = []) \<and>
   dp_stop (dispatcher_stop (two_threads T_created)) \<noteq> Not_stopping"
proof -
  have "T_created \<in> set (threads_of (two_threads T_created))" "T_created \<notin> set (threads_of (two_threads T_waiting))"
    by (simp_all add: threads_of_def two_threads_def)
  then show ?thesis
    using dispatcher_stop_returns [OF rtranclp.rtrancl_refl, of "two_threads T_waiting"] dispatcher_stop_returns [OF rtranclp.rtrancl_refl, of "two_threads T_created"]
      two_threads_construct two_threads_begin by simp
qed

section \<open>What stopping leaves behind\<close>

lemma no_threads_step: "io_step s ev s' \<Longrightarrow> io_threads s = [] \<Longrightarrow> io_threads s' = [] \<and>
    (c \<in> set (io_pending s) \<or> c \<in> fst ` set (io_port s) \<longrightarrow> c \<in> set (io_pending s') \<or> c \<in> fst ` set (io_port s'))"
proof (induction rule: io_step.induct)
  case (kernel d s n e)
  then show ?case by (cases "c = d") (auto simp: kernel_completes_def in_set_remove1)
qed (auto simp: io_fields image_iff split: kernel_result.splits)

text \<open>
  A callback that the kernel or the port holds when the threads are gone is never called: from a state of a dispatcher without threads, whatever is started and completed, it stays allocated and
  is neither called nor freed.
\<close>

theorem stopped_strands:
  assumes "io_run (io_dispatcher n) evs0 s0" "s = s0\<lparr>io_threads := []\<rparr>" "list_all (\<lambda>th. th \<in> {T_created, T_waiting, T_exited}) (io_threads s0)"
    and "io_run s evs s'" "c \<in> set (io_pending s) \<or> c \<in> fst ` set (io_port s)"
  shows "life c (io_log s') = Allocated \<and> c \<in> set (io_heap s')"
proof -
  have inv: "io_inv s0" using io_run_inv [OF assms(1) io_inv_initial] .
  then have "io_inv s" using held_idle [OF assms(3)] assms(2) by (simp add: io_places held_def)
  then have "io_inv s'" using io_run_inv [OF assms(4)] by blast
  moreover have "io_threads s' = [] \<and> (c \<in> set (io_pending s') \<or> c \<in> fst ` set (io_port s'))"
    using assms(4,5) assms(2)
  proof (induction rule: io_run.induct)
    case (step s evs s' ev s'')
    then show ?case using no_threads_step [OF step(2), of c] by blast
  qed simp
  ultimately have "c \<in># in_flight s'" "io_inv s'" by (auto simp: in_flight_def)
  moreover from this have "life c (io_log s') = Allocated" using waiting_allocated by blast
  ultimately show ?thesis by (auto simp: io_inv_def cb_inv_def)
qed

end
