(* ===== verification/Ex_Clients.thy ===== *)
theory Ex_Clients
  imports Ex_Echo
begin

text \<open>
  More of the example programs: the session of \<open>Example/Network/ReactorNetwork/ReactorNetwork/SvrImpl.h\<close>, a third echo server; the clients \<open>Netty/Discard/DiscardCli/DiscardCli.cpp\<close> and
  \<open>Tcp/NetworkCli/ClientImpl/ClientImpl.hpp\<close>, which take turns writing and reading; the round-trip timer \<open>Roudtrip/Roudtrip/Roudtrip.cpp\<close>; and the datagram server \<open>Udp/Udp/Udp.cpp\<close>. As
  in \<open>Ex_Echo\<close>, whether starting an operation throws, and what an operation has moved, are arguments of the handlers.
\<close>

section \<open>The session of the reactor example\<close>

definition REACTOR_BUF :: nat where "REACTOR_BUF = 32"

definition re_start_op :: "bool \<Rightarrow> echo_op \<Rightarrow> echo_session \<Rightarrow> echo_session" where
  "re_start_op throws a s = (if throws then s else s\<lparr>e_pending := Some a\<rparr>)"

definition re_Stop :: "echo_session \<Rightarrow> echo_session" where
  "re_Stop s = s\<lparr>e_open := False, e_callbacks := False\<rparr>"

definition re_Start :: "bool \<Rightarrow> echo_session \<Rightarrow> echo_session" where
  "re_Start throws s = re_start_op throws E_read (s\<lparr>e_callbacks := True\<rparr>)"

definition re_HandleRead :: "nat \<Rightarrow> bool \<Rightarrow> echo_session \<Rightarrow> echo_session" where
  "re_HandleRead bytes throws s =
     (if bytes = 0 then re_start_op throws E_disconnect s else re_start_op throws (E_write (take bytes (e_buf s))) s)"

definition re_HandleWrite :: "bool \<Rightarrow> echo_session \<Rightarrow> echo_session" where
  "re_HandleWrite throws s = re_start_op throws E_read s"

definition re_DisConnect :: "echo_session \<Rightarrow> echo_session" where
  "re_DisConnect s = re_Stop s"

text \<open>\<open>g_ClientNum\<close>: counted up by the constructor of a session and down by its destructor.\<close>

definition re_clients :: "echo_session list \<Rightarrow> nat" where
  "re_clients ss = length (filter session_exists ss)"

definition re_OnAccept :: "accept_event \<Rightarrow> echo_acceptor \<Rightarrow> echo_acceptor" where
  "re_OnAccept e a = (if acc_error e \<noteq> 0 then a else if create_throws e then a
     else svr_StartAccept (accept_throws e) (a\<lparr>acc_sessions := acc_sessions a @ [re_Start (read_throws e) (new_session REACTOR_BUF)]\<rparr>))"

definition re_complete :: "bytes \<times> nat \<times> bool \<Rightarrow> echo_session \<Rightarrow> echo_session" where
  "re_complete = echo_complete re_HandleRead re_HandleWrite re_DisConnect"

interpretation reactor: echo_server n "\<lambda>k. k \<le> n" re_HandleRead re_HandleWrite re_DisConnect for n
  by unfold_locales (auto simp: re_HandleRead_def re_HandleWrite_def re_DisConnect_def re_start_op_def re_Stop_def same_traffic_def)

section \<open>Clients that take turns\<close>

datatype turn_op = H_connect | H_write bytes | H_read | H_disconnect

text \<open>\<open>hc_sent\<close> are the messages whose writes have completed, \<open>hc_reads\<close> counts the completed reads.\<close>

record turn_client =
  hc_open :: bool
  hc_pending :: "turn_op option"
  hc_buf :: bytes
  hc_sent :: "bytes list"
  hc_reads :: nat

definition hc_start_op :: "bool \<Rightarrow> turn_op \<Rightarrow> turn_client \<Rightarrow> turn_client" where
  "hc_start_op throws a c = (if throws then c else c\<lparr>hc_pending := Some a\<rparr>)"

definition new_client :: "bytes \<Rightarrow> turn_client" where
  "new_client b = \<lparr>hc_open = True, hc_pending = None, hc_buf = b, hc_sent = [], hc_reads = 0\<rparr>"

subsection \<open>DiscardCli.cpp\<close>

definition dc_new :: "nat \<Rightarrow> turn_client" where
  "dc_new sz = new_client (replicate sz 0)"

definition dc_Start :: "bool \<Rightarrow> turn_client \<Rightarrow> turn_client" where
  "dc_Start throws c = hc_start_op throws H_connect c"

definition dc_OnConnect :: "nat \<Rightarrow> bool \<Rightarrow> turn_client \<Rightarrow> turn_client" where
  "dc_OnConnect err throws c = (if err \<noteq> 0 then c else hc_start_op throws (H_write (hc_buf c)) c)"

definition dc_OnWrite :: "nat \<Rightarrow> nat \<Rightarrow> bool \<Rightarrow> turn_client \<Rightarrow> turn_client" where
  "dc_OnWrite err sz throws c = (if err \<noteq> 0 then c else hc_start_op throws H_read c)"

definition dc_OnRead :: "nat \<Rightarrow> nat \<Rightarrow> bool \<Rightarrow> turn_client \<Rightarrow> turn_client" where
  "dc_OnRead err sz throws c = (if err \<noteq> 0 then c else hc_start_op throws (H_write (hc_buf c)) c)"

subsection \<open>ClientImpl.hpp\<close>

text \<open>
  The message: a length, a command and 124 bytes of value 10 behind the structure, whose two bytes of padding, \<open>pad\<close>, are sent as they are. A copy outside the buffer is an access violation.
\<close>

definition nc_message :: "byte \<times> byte \<Rightarrow> bytes result" where
  "nc_message pad =
     (let b = replicate (4 + 128) 0;
          msg = u32_rep 128 @ [1, 0] @ [fst pad, snd pad]
      in if length msg \<le> length b \<and> length msg + (128 - 4) \<le> length b
         then Inr (put_block (length msg) (replicate (128 - 4) 10) (put_block 0 msg b))
         else Inl Access_violation)"

text \<open>A handler whose operation cannot be started tries to disconnect; \<open>again\<close> says that this throws, too.\<close>

definition nc_disconnect :: "bool \<Rightarrow> turn_client \<Rightarrow> turn_client" where
  "nc_disconnect again c = hc_start_op again H_disconnect c"

definition nc_OnConnect :: "nat \<Rightarrow> bool \<Rightarrow> turn_client \<Rightarrow> turn_client" where
  "nc_OnConnect err throws c = (if err \<noteq> 0 then c else hc_start_op throws (H_write (hc_buf c)) c)"

definition nc_HandleRead :: "bool \<Rightarrow> nat \<Rightarrow> nat \<Rightarrow> bool \<Rightarrow> turn_client \<Rightarrow> turn_client" where
  "nc_HandleRead again err bytes throws c =
     (let a = (if bytes = 0 \<or> err \<noteq> 0 then H_disconnect else H_write (hc_buf c))
      in if throws then nc_disconnect again c else hc_start_op False a c)"

definition nc_HandleWrite :: "bool \<Rightarrow> nat \<Rightarrow> nat \<Rightarrow> bool \<Rightarrow> turn_client \<Rightarrow> turn_client" where
  "nc_HandleWrite again err bytes throws c =
     (let a = (if bytes = 0 \<or> err \<noteq> 0 then H_disconnect else H_read)
      in if throws then nc_disconnect again c else hc_start_op False a c)"

definition nc_DisConnect :: "turn_client \<Rightarrow> turn_client" where
  "nc_DisConnect c = c\<lparr>hc_open := False\<rparr>"

section \<open>Runs of a client\<close>

text \<open>
  The operation under way completes, with an error code and the bytes it has moved; those of a read are at the front of the buffer. A write that reports no error has moved all its bytes
  (\<open>transfer_all\<close>). \<open>throws\<close> is whether the operation the handler starts throws.
\<close>

fun turn_complete ::
  "(nat \<Rightarrow> bool \<Rightarrow> turn_client \<Rightarrow> turn_client) \<Rightarrow> (nat \<Rightarrow> nat \<Rightarrow> bool \<Rightarrow> turn_client \<Rightarrow> turn_client) \<Rightarrow>
   (nat \<Rightarrow> nat \<Rightarrow> bool \<Rightarrow> turn_client \<Rightarrow> turn_client) \<Rightarrow> (turn_client \<Rightarrow> turn_client) \<Rightarrow>
   nat \<times> bytes \<times> bool \<Rightarrow> turn_client \<Rightarrow> turn_client" where
  "turn_complete on_connect on_write on_read on_disconnect (err, data, throws) c =
     (case hc_pending c of
        None \<Rightarrow> c
      | Some H_connect \<Rightarrow> on_connect err throws (c\<lparr>hc_pending := None\<rparr>)
      | Some (H_write bs) \<Rightarrow>
          if err = 0 then on_write 0 (length bs) throws (c\<lparr>hc_pending := None, hc_sent := hc_sent c @ [bs]\<rparr>)
          else on_write err (length data) throws (c\<lparr>hc_pending := None\<rparr>)
      | Some H_read \<Rightarrow>
          (let c = c\<lparr>hc_pending := None, hc_buf := put_block 0 data (hc_buf c)\<rparr>
           in on_read err (length data) throws (if err = 0 then c\<lparr>hc_reads := Suc (hc_reads c)\<rparr> else c))
      | Some H_disconnect \<Rightarrow> on_disconnect (c\<lparr>hc_pending := None\<rparr>))"

definition dc_complete :: "nat \<times> bytes \<times> bool \<Rightarrow> turn_client \<Rightarrow> turn_client" where
  "dc_complete = turn_complete dc_OnConnect dc_OnWrite dc_OnRead (\<lambda>c. c)"

definition nc_complete :: "bool \<Rightarrow> nat \<times> bytes \<times> bool \<Rightarrow> turn_client \<Rightarrow> turn_client" where
  "nc_complete again = turn_complete nc_OnConnect (nc_HandleWrite again) (nc_HandleRead again) nc_DisConnect"

definition same_exchange :: "turn_client \<Rightarrow> turn_client \<Rightarrow> bool" where
  "same_exchange c c' \<longleftrightarrow> hc_buf c' = hc_buf c \<and> hc_sent c' = hc_sent c \<and> hc_reads c' = hc_reads c"

text \<open>Messages and answers alternate, and every message has the length of the buffer.\<close>

definition turn_inv :: "nat \<Rightarrow> turn_client \<Rightarrow> bool" where
  "turn_inv n c \<longleftrightarrow> length (hc_buf c) = n \<and> (\<forall>bs \<in> set (hc_sent c). length bs = n) \<and>
     hc_reads c \<le> length (hc_sent c) \<and> length (hc_sent c) \<le> Suc (hc_reads c) \<and>
     (case hc_pending c of
        Some H_connect \<Rightarrow> hc_sent c = []
      | Some (H_write bs) \<Rightarrow> length (hc_sent c) = hc_reads c \<and> length bs = n
      | Some H_read \<Rightarrow> length (hc_sent c) = Suc (hc_reads c)
      | _ \<Rightarrow> True)"

locale turn_handlers =
  fixes on_connect :: "nat \<Rightarrow> bool \<Rightarrow> turn_client \<Rightarrow> turn_client"
    and on_write :: "nat \<Rightarrow> nat \<Rightarrow> bool \<Rightarrow> turn_client \<Rightarrow> turn_client"
    and on_read :: "nat \<Rightarrow> nat \<Rightarrow> bool \<Rightarrow> turn_client \<Rightarrow> turn_client"
    and on_disconnect :: "turn_client \<Rightarrow> turn_client"
  assumes exchange: "same_exchange c (on_connect e t c)" "same_exchange c (on_write e k t c)" "same_exchange c (on_read e k t c)" "same_exchange c (on_disconnect c)"
    and after_connect: "hc_pending c = None \<Longrightarrow> hc_pending (on_connect e t c) \<in> {None, Some (H_write (hc_buf c))}"
    and after_write: "hc_pending c = None \<Longrightarrow> hc_pending (on_write e k t c) \<in> {None, Some H_disconnect} \<union> (if e = 0 then {Some H_read} else {})"
    and after_read: "hc_pending c = None \<Longrightarrow> hc_pending (on_read e k t c) \<in> {None, Some H_disconnect} \<union> (if e = 0 then {Some (H_write (hc_buf c))} else {})"
    and after_disconnect: "hc_pending c = None \<Longrightarrow> hc_pending (on_disconnect c) = None"
begin

lemma complete_inv:
  assumes "turn_inv n c" "length data \<le> n"
  shows "turn_inv n (turn_complete on_connect on_write on_read on_disconnect (err, data, t) c)"
proof (cases "hc_pending c")
  case (Some a)
  show ?thesis
  proof (cases a)
    case H_connect
    let ?c = "c\<lparr>hc_pending := None\<rparr>"
    show ?thesis using exchange(1) [of ?c err t] after_connect [of ?c err t] assms Some H_connect
      by (auto simp: turn_inv_def same_exchange_def)
  next
    case (H_write bs)
    let ?c = "if err = 0 then c\<lparr>hc_pending := None, hc_sent := hc_sent c @ [bs]\<rparr> else c\<lparr>hc_pending := None\<rparr>" and ?k = "if err = 0 then length bs else length data"
    show ?thesis using exchange(2) [of ?c err ?k t] after_write [of ?c err ?k t] assms Some H_write
      by (cases "err = 0") (auto simp: turn_inv_def same_exchange_def)
  next
    case H_read
    let ?c = "let c = c\<lparr>hc_pending := None, hc_buf := put_block 0 data (hc_buf c)\<rparr> in if err = 0 then c\<lparr>hc_reads := Suc (hc_reads c)\<rparr> else c"
    show ?thesis using exchange(3) [of ?c err "length data" t] after_read [of ?c err "length data" t] assms Some H_read
      by (cases "err = 0") (auto simp: turn_inv_def same_exchange_def Let_def)
  next
    case H_disconnect
    let ?c = "c\<lparr>hc_pending := None\<rparr>"
    show ?thesis using exchange(4) [of ?c] after_disconnect [of ?c] assms Some H_disconnect
      by (auto simp: turn_inv_def same_exchange_def)
  qed
qed (use assms in simp)

lemma run_inv:
  "turn_inv n c \<Longrightarrow> \<forall>x \<in> set xs. length (fst (snd x)) \<le> n \<Longrightarrow> turn_inv n (fold (turn_complete on_connect on_write on_read on_disconnect) xs c)"
proof (induction xs arbitrary: c)
  case (Cons x xs)
  then show ?case using complete_inv [of n c "fst (snd x)" "fst x" "snd (snd x)"] by simp
qed simp

end

lemmas turn_ops = dc_OnConnect_def dc_OnWrite_def dc_OnRead_def nc_OnConnect_def nc_HandleRead_def nc_HandleWrite_def nc_DisConnect_def nc_disconnect_def
  hc_start_op_def same_exchange_def

interpretation discard: turn_handlers dc_OnConnect dc_OnWrite dc_OnRead "\<lambda>c. c"
  by unfold_locales (auto simp: turn_ops)

interpretation network: turn_handlers nc_OnConnect "nc_HandleWrite again" "nc_HandleRead again" nc_DisConnect for again
  by unfold_locales (auto simp: turn_ops Let_def)

section \<open>Properties\<close>

text \<open>
  The session of \<open>SvrImpl.h\<close> sends back what it receives, in order, whatever its reads bring -- the first one, of \<open>Buffer(buf_, 0)\<close>, included -- and whichever operations throw.
\<close>

theorem re_echoes:
  assumes "fitting_reads REACTOR_BUF cs" "s = fold re_complete cs (re_Start throws (new_session REACTOR_BUF))"
  shows "prefix (e_sent s) (e_received s) \<and> (e_pending s \<noteq> None \<longrightarrow> e_received s = e_sent s @ owed s)"
proof -
  let ?s = "re_Start throws (new_session REACTOR_BUF)"
  have "echo_inv REACTOR_BUF ?s" by (auto simp: re_Start_def re_start_op_def new_session_def echo_inv_def owed_def)
  then have "echo_inv REACTOR_BUF s" using reactor.run_inv [of REACTOR_BUF ?s cs] assms by (simp add: re_complete_def fitting_reads_def)
  then show ?thesis by (simp add: echo_inv_def)
qed

text \<open>
  A session is counted in \<open>g_ClientNum\<close> until its disconnect has completed: while its two callbacks hold it, it exists. So a session whose operation could not be started is counted for ever.
\<close>

lemma re_session_leaks:
  "let s = re_complete (data, k, True) (re_Start False (new_session REACTOR_BUF)) in
     re_clients [s] = 1 \<and> e_open s \<and> e_pending s = None \<and> re_complete c s = s"
  by (cases c) (simp add: re_complete_def re_HandleRead_def re_start_op_def re_Start_def new_session_def re_clients_def session_exists_def Let_def)

lemma re_session_ends:
  "let s = re_complete (d, k, t) (re_complete ([], k, False) (re_Start False (new_session REACTOR_BUF))) in
     re_clients [s] = 0 \<and> \<not> e_open s \<and> e_sent s = []"
  by (simp add: re_complete_def re_HandleRead_def re_start_op_def re_Start_def re_DisConnect_def re_Stop_def new_session_def re_clients_def session_exists_def Let_def)

text \<open>
  Both clients take turns: they never have two messages without an answer between them, and each message has the size of the buffer, whatever the answers bring and whichever operations fail.
\<close>

lemma turn_inv_start: "turn_inv (length b) (hc_start_op throws H_connect (new_client b))"
  by (simp add: turn_inv_def hc_start_op_def new_client_def)

theorem clients_take_turns:
  assumes "\<forall>x \<in> set xs. length (fst (snd x)) \<le> n"
  shows "turn_inv n (fold dc_complete xs (dc_Start throws (dc_new n)))"
    and "nc_message pad = Inr b \<Longrightarrow> n = 132 \<Longrightarrow> turn_inv n (fold (nc_complete again) xs (hc_start_op throws H_connect (new_client b)))"
proof -
  show "turn_inv n (fold dc_complete xs (dc_Start throws (dc_new n)))"
    using discard.run_inv [OF _ assms, of "dc_Start throws (dc_new n)"] turn_inv_start [of "replicate n 0" throws]
    by (simp add: dc_complete_def dc_Start_def dc_new_def)
  assume "nc_message pad = Inr b" "n = 132"
  then have "length b = n" by (auto simp: nc_message_def Let_def split: if_splits)
  then show "turn_inv n (fold (nc_complete again) xs (hc_start_op throws H_connect (new_client b)))"
    using network.run_inv [OF _ assms, of "hc_start_op throws H_connect (new_client b)" again] turn_inv_start [of b throws]
    by (simp add: nc_complete_def)
qed

text \<open>The message of \<open>ClientImpl.hpp\<close> is built inside its buffer, fills it, and says in its first four bytes how many follow them.\<close>

lemma nc_message_fills: "\<exists>b. nc_message pad = Inr b \<and> length b = 132 \<and> rep_u32 (take 4 b) = of_nat (length b - 4) \<and> drop 8 b = replicate 124 10"
  by (simp add: nc_message_def Let_def put_block_def)

text \<open>
  \<open>_OnRead\<close> of \<open>DiscardCli.cpp\<close> does not look at the size: when the peer has closed, which is a read of no bytes without error, it writes again. And it writes its whole buffer after a read of any part
  of the answer: with an echoing peer, after \<open>k\<close> reads of one byte each \<open>(k + 1) * n - k\<close> bytes of answers are still to come, or in the peer's hands.
\<close>

lemma dc_ignores_eof: "hc_pending c = Some H_read \<Longrightarrow> hc_pending (dc_complete (0, [], False) c) = Some (H_write (hc_buf c))"
  by (simp add: dc_complete_def dc_OnRead_def hc_start_op_def put_block_def Let_def)

definition dc_unanswered :: "nat \<Rightarrow> turn_client \<Rightarrow> int" where
  "dc_unanswered answered c = int (length (concat (hc_sent c))) - int answered"

fun dc_single_bytes :: "nat \<Rightarrow> turn_client \<Rightarrow> turn_client" where
  "dc_single_bytes 0 c = c"
| "dc_single_bytes (Suc k) c = dc_complete (0, [], False) (dc_complete (0, [0], False) (dc_single_bytes k c))"

lemma dc_backlog_grows:
  assumes "0 < n"
  defines "c \<equiv> dc_complete (0, [], False) (dc_complete (0, [], False) (dc_Start False (dc_new n)))"
  shows "hc_pending (dc_single_bytes k c) = Some H_read \<and> length (hc_buf (dc_single_bytes k c)) = n \<and>
    dc_unanswered k (dc_single_bytes k c) = (int k + 1) * int n - int k"
proof (induction k)
  case 0
  show ?case by (simp add: c_def dc_complete_def dc_Start_def dc_new_def new_client_def hc_start_op_def dc_OnConnect_def dc_OnWrite_def dc_unanswered_def)
next
  case (Suc k)
  let ?c = "dc_single_bytes k c"
  have p: "hc_pending ?c = Some H_read" and l: "length (hc_buf ?c) = n" using Suc by simp_all
  have w: "hc_pending (dc_complete (0, [0], False) ?c) = Some (H_write (put_block 0 [0] (hc_buf ?c)))" "hc_sent (dc_complete (0, [0], False) ?c) = hc_sent ?c"
    "hc_buf (dc_complete (0, [0], False) ?c) = put_block 0 [0] (hc_buf ?c)"
    using p by (simp_all add: dc_complete_def dc_OnRead_def hc_start_op_def Let_def)
  have "length (put_block 0 [0] (hc_buf ?c)) = n" using l assms by simp
  then show ?case using w Suc by (simp add: dc_complete_def dc_OnWrite_def hc_start_op_def dc_unanswered_def algebra_simps)
qed

end
