(* ===== verification/Ex_Roundtrip.thy ===== *)
theory Ex_Roundtrip
  imports Prelude
begin

text \<open>
  \<open>Example/Network/Roudtrip/Roudtrip/Roudtrip.cpp\<close>: a client that sends the time of \<open>GetTickCount\<close> at the front of a block of 512 KB, a server that sends the block back, and the
  difference the client prints when it has returned. Times are 32-bit words, as the tick count is. Whether an operation throws, and what a read has brought, are arguments of the handlers.
\<close>

definition RT_BUF :: nat where "RT_BUF = 1024 * 512"

section \<open>The server\<close>

text \<open>\<open>rs_reading\<close> says that a read is under way, \<open>rs_accepting\<close> that an accept is; \<open>rs_wrote\<close> are the blocks written.\<close>

record rt_server =
  rs_buf :: bytes
  rs_accepting :: bool
  rs_reading :: bool
  rs_wrote :: "bytes list"

definition rs_Start :: "bytes \<Rightarrow> rt_server" where
  "rs_Start b = \<lparr>rs_buf = b, rs_accepting = True, rs_reading = False, rs_wrote = []\<rparr>"

definition rs_OnAccept :: "nat \<Rightarrow> bool \<Rightarrow> rt_server \<Rightarrow> rt_server" where
  "rs_OnAccept err throws s = (if err \<noteq> 0 \<or> throws then s else s\<lparr>rs_reading := True\<rparr>)"

definition rs_OnRead :: "nat \<Rightarrow> nat \<Rightarrow> bool \<Rightarrow> bool \<Rightarrow> rt_server \<Rightarrow> rt_server" where
  "rs_OnRead err n write_throws read_throws s =
     (if err \<noteq> 0 \<or> write_throws then s
      else let s = s\<lparr>rs_wrote := rs_wrote s @ [take n (rs_buf s)]\<rparr> in
        if read_throws then s else s\<lparr>rs_reading := True\<rparr>)"

text \<open>Completions of the accept and of a read.\<close>

definition rs_accepted :: "nat \<Rightarrow> bool \<Rightarrow> rt_server \<Rightarrow> rt_server" where
  "rs_accepted err throws s = (if rs_accepting s then rs_OnAccept err throws (s\<lparr>rs_accepting := False\<rparr>) else s)"

definition rs_receive :: "nat \<Rightarrow> bytes \<Rightarrow> bool \<Rightarrow> bool \<Rightarrow> rt_server \<Rightarrow> rt_server" where
  "rs_receive err data write_throws read_throws s =
     (if rs_reading s then rs_OnRead err (length data) write_throws read_throws (s\<lparr>rs_reading := False, rs_buf := put_block 0 data (rs_buf s)\<rparr>) else s)"

section \<open>The client\<close>

text \<open>\<open>rc_printed\<close> are the round trips printed.\<close>

record rt_client =
  rc_buf :: bytes
  rc_reading :: bool
  rc_wrote :: "bytes list"
  rc_printed :: "u32 list"

definition rc_new :: "bytes \<Rightarrow> rt_client" where
  "rc_new b = \<lparr>rc_buf = b, rc_reading = False, rc_wrote = [], rc_printed = []\<rparr>"

definition rc_Send :: "u32 \<Rightarrow> bool \<Rightarrow> bool \<Rightarrow> rt_client \<Rightarrow> rt_client" where
  "rc_Send curTime write_throws read_throws c =
     (let c = c\<lparr>rc_buf := put_block 0 (u32_rep curTime) (rc_buf c)\<rparr> in
      if write_throws then c
      else let c = c\<lparr>rc_wrote := rc_wrote c @ [rc_buf c]\<rparr> in
        if read_throws then c else c\<lparr>rc_reading := True\<rparr>)"

definition rc_OnConnect :: "nat \<Rightarrow> u32 \<Rightarrow> bool \<Rightarrow> bool \<Rightarrow> rt_client \<Rightarrow> rt_client" where
  "rc_OnConnect err curTime write_throws read_throws c = (if err \<noteq> 0 then c else rc_Send curTime write_throws read_throws c)"

text \<open>\<open>back\<close> is the time when the block has returned, \<open>curTime\<close> that of the next block, after the pause.\<close>

definition rc_OnRead :: "nat \<Rightarrow> u32 \<Rightarrow> u32 \<Rightarrow> bool \<Rightarrow> bool \<Rightarrow> rt_client \<Rightarrow> rt_client" where
  "rc_OnRead err back curTime write_throws read_throws c =
     (if err \<noteq> 0 then c
      else let sent = rep_u32 (get_block 0 4 (rc_buf c)) in
        rc_Send curTime write_throws read_throws (c\<lparr>rc_printed := rc_printed c @ [back - sent]\<rparr>))"

definition rc_receive :: "nat \<Rightarrow> bytes \<Rightarrow> u32 \<Rightarrow> u32 \<Rightarrow> bool \<Rightarrow> bool \<Rightarrow> rt_client \<Rightarrow> rt_client" where
  "rc_receive err data back curTime write_throws read_throws c =
     (if rc_reading c then rc_OnRead err back curTime write_throws read_throws (c\<lparr>rc_reading := False, rc_buf := put_block 0 data (rc_buf c)\<rparr>) else c)"

section \<open>The two together\<close>

text \<open>One round: the server receives the block the client wrote last, and the client the block the server wrote last.\<close>

definition rt_round :: "u32 \<times> u32 \<Rightarrow> rt_client \<times> rt_server \<Rightarrow> rt_client \<times> rt_server" where
  "rt_round = (\<lambda>(back, curTime) (c, s).
     let s = rs_receive 0 (last (rc_wrote c)) False False s
     in (rc_receive 0 (last (rs_wrote s)) back curTime False False c, s))"

text \<open>A block that begins with the time \<open>t\<close> is on its way and both sides read.\<close>

definition rt_ready :: "u32 \<Rightarrow> rt_client \<times> rt_server \<Rightarrow> bool" where
  "rt_ready t = (\<lambda>(c, s). rc_reading c \<and> rs_reading s \<and> length (rs_buf s) = RT_BUF \<and> length (rc_buf c) = RT_BUF \<and>
     rc_wrote c \<noteq> [] \<and> length (last (rc_wrote c)) = RT_BUF \<and> take 4 (last (rc_wrote c)) = u32_rep t)"

lemma rt_buf_large: "4 \<le> RT_BUF"
  by (simp add: RT_BUF_def)

lemma put_block_all: "length data = length b \<Longrightarrow> put_block 0 data b = data"
  by (simp add: put_block_def)

lemma take_put_front: "length data \<le> length b \<Longrightarrow> take (length data) (put_block 0 data b) = data"
  by (simp add: put_block_def)

lemma rt_round_ready:
  assumes "rt_ready t (c, s)"
  shows "rt_ready curTime (rt_round (back, curTime) (c, s)) \<and> rc_printed (fst (rt_round (back, curTime) (c, s))) = rc_printed c @ [back - t]"
proof -
  let ?b = "last (rc_wrote c)"
  have b: "length ?b = RT_BUF" "take 4 ?b = u32_rep t" "put_block 0 ?b (rs_buf s) = ?b" "put_block 0 ?b (rc_buf c) = ?b"
    using assms by (simp_all add: rt_ready_def put_block_all)
  have s: "rs_receive 0 ?b False False s = s\<lparr>rs_reading := True, rs_buf := ?b, rs_wrote := rs_wrote s @ [?b]\<rparr>"
    using assms b by (simp add: rt_ready_def rs_receive_def rs_OnRead_def)
  have f: "length (put_block 0 (u32_rep curTime) ?b) = RT_BUF" "take 4 (put_block 0 (u32_rep curTime) ?b) = u32_rep curTime"
    using b(1) rt_buf_large take_put_front [of "u32_rep curTime" ?b] by simp_all
  show ?thesis using assms b f by (simp add: rt_round_def s Let_def rc_receive_def rc_OnRead_def rc_Send_def rt_ready_def get_block_def)
qed

section \<open>Properties\<close>

text \<open>The times between which the round trips lie: a block sent at \<open>t\<close> is back at the first time of the next pair, whose second time is that of the next block.\<close>

fun rt_elapsed :: "u32 \<Rightarrow> (u32 \<times> u32) list \<Rightarrow> u32 list" where
  "rt_elapsed t [] = []"
| "rt_elapsed t ((back, curTime) # ts) = (back - t) # rt_elapsed curTime ts"

lemma rt_rounds: "rt_ready t cs \<Longrightarrow> rc_printed (fst (fold rt_round ts cs)) = rc_printed (fst cs) @ rt_elapsed t ts"
proof (induction ts arbitrary: t cs)
  case (Cons x ts)
  obtain b curTime where x: "x = (b, curTime)" by (cases x)
  have "rt_ready curTime (rt_round x cs)" "rc_printed (fst (rt_round x cs)) = rc_printed (fst cs) @ [b - t]"
    using rt_round_ready [of t "fst cs" "snd cs" curTime b] Cons.prems x by simp_all
  then show ?case using Cons.IH [of curTime "rt_round x cs"] x by simp
qed simp

text \<open>
  Every round prints the ticks between the sending of its block and its return, whatever the blocks held before.
\<close>

theorem round_trips_printed:
  assumes "length b = RT_BUF" "length b' = RT_BUF"
  shows "rc_printed (fst (fold rt_round ts (rc_OnConnect 0 t False False (rc_new b), rs_accepted 0 False (rs_Start b')))) = rt_elapsed t ts"
proof -
  have "rt_ready t (rc_OnConnect 0 t False False (rc_new b), rs_accepted 0 False (rs_Start b'))"
    using assms rt_buf_large take_put_front [of "u32_rep t" b]
    by (simp add: rt_ready_def rc_OnConnect_def rc_Send_def rc_new_def rs_accepted_def rs_Start_def rs_OnAccept_def)
  then show ?thesis by (simp add: rt_rounds rc_OnConnect_def rc_Send_def rc_new_def)
qed

text \<open>
  The difference of the words is the time that has passed, across a wrap of the tick count too, as long as it is below \<open>2 ^ 32\<close> milliseconds.
\<close>

lemma ticks_difference:
  assumes "t \<le> t'" "t' - t < 2 ^ 32"
  shows "unat (of_nat t' - of_nat t :: u32) = t' - t"
proof -
  have "(of_nat t' - of_nat t :: u32) = of_nat (t' - t)" using assms(1) by (simp add: of_nat_diff)
  then show ?thesis using assms(2) by (simp add: unat_of_nat take_bit_eq_mod)
qed

text \<open>The server accepts once: whatever the accept brings, no other is started.\<close>

lemma rs_accepts_once: "rs_accepted err' throws' (rs_accepted err throws (rs_Start b)) = rs_accepted err throws (rs_Start b)"
  by (simp add: rs_accepted_def rs_OnAccept_def rs_Start_def)

text \<open>
  When the server has closed the connection, the read ends with no bytes and no error: the client finds its own time in the buffer and prints the time since it was sent as a round trip.
\<close>

lemma rc_eof_prints:
  assumes "4 \<le> length (rc_buf c)"
  shows "rc_printed (rc_receive 0 [] back curTime True r (rc_Send t False False c)) = rc_printed c @ [back - t]"
  using assms take_put_front [of "u32_rep t" "rc_buf c"]
  by (simp add: rc_receive_def rc_OnRead_def rc_Send_def get_block_def put_block_Nil)

end
