(* ===== verification/Net_Udp.thy ===== *)
theory Net_Udp
  imports Net_Tcp "HOL-Library.Sublist"
begin

text \<open>
  Datagram sockets: \<open>udp\<close> (\<open>include/async_io/network/udp.hpp\<close>), the members of \<open>basic_datagram_socket_t\<close> (\<open>basic_datagram_socket.hpp\<close>), which forward to the socket handle of
  \<open>Net_Socket\<close>, and the echo server \<open>Example/Network/Udp/Udp/Udp.cpp\<close> on them. As for the other servers, whether starting an operation throws and what it brings are arguments.
\<close>

section \<open>The protocol\<close>

definition SOCK_DGRAM :: int where "SOCK_DGRAM = 2"
definition IPPROTO_UDP :: int where "IPPROTO_UDP = 17"

record udp =
  udp_family :: int

definition udp_type :: "udp \<Rightarrow> int" where "udp_type p = SOCK_DGRAM"
definition udp_protocol :: "udp \<Rightarrow> int" where "udp_protocol p = IPPROTO_UDP"
definition udp_v4 :: udp where "udp_v4 = \<lparr>udp_family = AF_INET\<rparr>"

definition udp_eq :: "udp \<Rightarrow> udp \<Rightarrow> bool" where
  "udp_eq lhs rhs \<longleftrightarrow> udp_family lhs = udp_family rhs"

section \<open>Datagram sockets\<close>

definition dgram_construct :: "'w winsock \<Rightarrow> udp \<Rightarrow> 'w \<Rightarrow> socket_handle result \<times> 'w" where
  "dgram_construct os p = construct_socket os (udp_family p) (udp_type p) (udp_protocol p)"

definition dgram_open :: "'w winsock \<Rightarrow> udp \<Rightarrow> ('w, unit) sock_op" where
  "dgram_open os p = socket_open os (udp_family p) (udp_type p) (udp_protocol p)"

definition dgram_close :: "'w winsock \<Rightarrow> ('w, unit) sock_op" where
  "dgram_close os = socket_close os"

definition dgram_cancel :: "'w winsock \<Rightarrow> ('w, unit) sock_op" where
  "dgram_cancel os = cancel_socket os"

definition dgram_connect :: "'w winsock \<Rightarrow> 16 word \<Rightarrow> ip_address \<Rightarrow> ('w, unit) sock_op" where
  "dgram_connect os port addr = connect_socket os (udp_family udp_v4) addr port"

definition dgram_dis_connect :: "'w winsock \<Rightarrow> int \<Rightarrow> ('w, unit) sock_op" where
  "dgram_dis_connect os shut = dis_connect os shut True"

definition dgram_send_to :: "'w winsock \<Rightarrow> bytes \<Rightarrow> sockaddr_in option \<Rightarrow> ('w, nat) sock_op" where
  "dgram_send_to os b addr = send_to os b addr"

definition dgram_recv_from :: "'w winsock \<Rightarrow> nat \<Rightarrow> ('w, bytes \<times> sockaddr_in) sock_op" where
  "dgram_recv_from os len = recv_from os len"

section \<open>The datagram echo server\<close>

definition max_length :: nat where "max_length = 1024"

datatype udp_op = U_recv | U_send bytes sockaddr_in

text \<open>\<open>us_addr\<close> is the one address the server has: of the last sender, once something was received. \<open>us_received\<close> and \<open>us_sent\<close> are the datagrams with bytes that were received and those sent.\<close>

record udp_server =
  us_socket :: socket_handle
  us_addr :: sockaddr_in
  us_data :: bytes
  us_pending :: "udp_op option"
  us_received :: "(bytes \<times> sockaddr_in) list"
  us_sent :: "(bytes \<times> sockaddr_in) list"

definition us_start_op :: "bool \<Rightarrow> udp_op \<Rightarrow> udp_server \<Rightarrow> udp_server" where
  "us_start_op throws a s = (if throws then s else s\<lparr>us_pending := Some a\<rparr>)"

definition us_construct :: "'w winsock \<Rightarrow> ip_address \<Rightarrow> 16 word \<Rightarrow> bool \<Rightarrow> bytes \<Rightarrow> 'w \<Rightarrow> udp_server result \<times> 'w" where
  "us_construct os ip port throws data w =
     (case dgram_construct os udp_v4 w of
        (Inl e, w) \<Rightarrow> (Inl e, w)
      | (Inr h, w) \<Rightarrow> (Inr (us_start_op throws U_recv
          \<lparr>us_socket = h, us_addr = sockaddr_of (udp_family udp_v4) ip port, us_data = data, us_pending = None, us_received = [], us_sent = []\<rparr>), w))"

definition us_handle_receive_from :: "nat \<Rightarrow> nat \<Rightarrow> bool \<Rightarrow> udp_server \<Rightarrow> udp_server" where
  "us_handle_receive_from err bytes_recvd throws s =
     (if err \<noteq> 0 then s
      else if 0 < bytes_recvd then us_start_op throws (U_send (take bytes_recvd (us_data s)) (us_addr s)) s
      else us_start_op throws U_recv s)"

definition us_handle_send_to :: "nat \<Rightarrow> nat \<Rightarrow> bool \<Rightarrow> udp_server \<Rightarrow> udp_server" where
  "us_handle_send_to err bytes_sent throws s = us_start_op throws U_recv s"

definition us_Close :: "'w winsock \<Rightarrow> udp_server \<times> 'w \<Rightarrow> unit result \<times> (udp_server \<times> 'w)" where
  "us_Close os sw =
     (case dgram_cancel os (us_socket (fst sw), snd sw) of
        (Inl e, hw) \<Rightarrow> (Inl e, ((fst sw)\<lparr>us_socket := fst hw\<rparr>, snd hw))
      | (Inr _, hw) \<Rightarrow> (case dgram_close os hw of (r, hw) \<Rightarrow> (r, ((fst sw)\<lparr>us_socket := fst hw\<rparr>, snd hw))))"

text \<open>The operation under way completes: with an error code, for a receive the datagram and its sender, and whether the next operation throws. A failed send has sent nothing.\<close>

record udp_event =
  ue_err :: nat
  ue_data :: bytes
  ue_from :: sockaddr_in
  ue_throws :: bool

definition us_step :: "udp_event \<Rightarrow> udp_server \<Rightarrow> udp_server" where
  "us_step e s =
     (case us_pending s of
        None \<Rightarrow> s
      | Some U_recv \<Rightarrow>
          if ue_err e \<noteq> 0 then us_handle_receive_from (ue_err e) 0 (ue_throws e) (s\<lparr>us_pending := None\<rparr>)
          else us_handle_receive_from 0 (length (ue_data e)) (ue_throws e)
            (s\<lparr>us_pending := None, us_data := put_block 0 (ue_data e) (us_data s), us_addr := ue_from e,
               us_received := us_received s @ (if ue_data e = [] then [] else [(ue_data e, ue_from e)])\<rparr>)
      | Some (U_send bs a) \<Rightarrow>
          us_handle_send_to (ue_err e) (length bs) (ue_throws e)
            (s\<lparr>us_pending := None, us_sent := us_sent s @ (if ue_err e = 0 then [(bs, a)] else [])\<rparr>))"

definition us_inv :: "udp_server \<Rightarrow> bool" where
  "us_inv s \<longleftrightarrow> length (us_data s) = max_length \<and>
     (case us_pending s of
        Some (U_send bs a) \<Rightarrow> us_received s \<noteq> [] \<and> last (us_received s) = (bs, a) \<and> subseq (us_sent s) (butlast (us_received s))
      | _ \<Rightarrow> subseq (us_sent s) (us_received s))"

lemma us_inv_step:
  assumes "us_inv s" "length (ue_data e) \<le> max_length"
  shows "us_inv (us_step e s)"
proof (cases "us_pending s")
  case (Some a)
  show ?thesis
  proof (cases a)
    case U_recv
    then show ?thesis using assms Some
      by (auto simp: us_inv_def us_step_def us_handle_receive_from_def us_start_op_def put_block_def)
  next
    case (U_send bs b)
    then have r: "us_received s = butlast (us_received s) @ [(bs, b)]" and sub: "subseq (us_sent s) (butlast (us_received s))"
      using assms(1) Some by (auto simp: us_inv_def dest: append_butlast_last_id)
    have "subseq (us_sent s @ [(bs, b)]) (us_received s)" by (subst r) (use sub in simp)
    moreover have "subseq (us_sent s) (us_received s)" by (subst r) (use sub in \<open>simp add: subseq_rev_drop_many\<close>)
    ultimately show ?thesis using assms Some U_send
      by (auto simp: us_inv_def us_step_def us_handle_send_to_def us_start_op_def)
  qed
qed (use assms in \<open>simp add: us_step_def\<close>)

lemma us_inv_run: "us_inv s \<Longrightarrow> \<forall>e \<in> set es. length (ue_data e) \<le> max_length \<Longrightarrow> us_inv (fold us_step es s)"
  by (induction es arbitrary: s) (simp_all add: us_inv_step)

section \<open>Properties\<close>

text \<open>
  Every datagram the server has sent is one it received, whole and to its sender, in the order of their arrival and none of them twice.
\<close>

theorem udp_echoes:
  assumes "us_construct os ip port throws data w = (Inr s, w')" "length data = max_length" "\<forall>e \<in> set es. length (ue_data e) \<le> max_length"
  shows "subseq (us_sent (fold us_step es s)) (us_received (fold us_step es s))"
proof -
  have "us_inv s" using assms(1,2) by (auto simp: us_construct_def us_start_op_def us_inv_def split: prod.splits sum.splits)
  then have "us_inv (fold us_step es s)" using assms(3) by (rule us_inv_run)
  then show ?thesis unfolding us_inv_def
    by (auto split: option.splits udp_op.splits intro: subseq_order.order_trans simp: butlast_conv_take sublist_imp_subseq)
qed

text \<open>And when no operation fails it has sent all of them but the one being sent.\<close>

definition us_owed :: "udp_server \<Rightarrow> (bytes \<times> sockaddr_in) list" where
  "us_owed s = (case us_pending s of Some (U_send bs a) \<Rightarrow> [(bs, a)] | _ \<Rightarrow> [])"

lemma udp_echoes_all:
  assumes "us_pending s \<noteq> None" "us_received s = us_sent s @ us_owed s" "length (us_data s) = max_length"
    "\<forall>e \<in> set es. length (ue_data e) \<le> max_length \<and> ue_err e = 0 \<and> \<not> ue_throws e"
  shows "us_pending (fold us_step es s) \<noteq> None \<and> us_received (fold us_step es s) = us_sent (fold us_step es s) @ us_owed (fold us_step es s)"
  using assms
proof (induction es arbitrary: s)
  case (Cons e es)
  have "us_pending (us_step e s) \<noteq> None \<and> us_received (us_step e s) = us_sent (us_step e s) @ us_owed (us_step e s) \<and> length (us_data (us_step e s)) = max_length"
    using Cons.prems by (auto simp: us_owed_def us_step_def us_handle_receive_from_def us_handle_send_to_def us_start_op_def put_block_def split: udp_op.splits)
  then show ?case using Cons.IH [of "us_step e s"] Cons.prems(4) by simp
qed simp

text \<open>A failed receive, or one that cannot be started, ends the service: nothing is under way any more, and the socket stays open.\<close>

lemma us_step_stays: "us_pending s = None \<Longrightarrow> fold us_step es s = s"
  by (induction es) (simp_all add: us_step_def)

lemma udp_server_dies:
  assumes "us_pending s = Some U_recv" "ue_err e \<noteq> 0"
  shows "fold us_step (e # es) s = s\<lparr>us_pending := None\<rparr>"
proof -
  have "us_step e s = s\<lparr>us_pending := None\<rparr>" using assms by (simp add: us_step_def us_handle_receive_from_def)
  then show ?thesis by (simp add: us_step_stays)
qed

text \<open>\<open>Close\<close> on an open socket closes it; called again it throws, because \<open>cancel\<close> does on a closed handle.\<close>

lemma us_Close_twice:
  assumes "us_socket s = Some h"
  shows "\<exists>s' w'. us_Close os (s, w) = (Inr (), (s', w')) \<and> us_socket s' = None \<and> (\<exists>e. fst (us_Close os (s', w')) = Inl e)"
  using assms by (simp add: us_Close_def dgram_cancel_def dgram_close_def cancel_socket_def socket_close_def with_socket_def)

end
