(* ===== verification/Perf_Asio.thy ===== *)
theory Perf_Asio
  imports Perf_Pingpong
begin

text \<open>
  The programs around the sessions of \<open>Perf_Pingpong\<close>: the statistics and the client of \<open>performance/pingpong/asio_pingpong/client.hpp\<close> and the server of
  \<open>server.hpp\<close>. asio is a library the sources only call: the completions of its operations are the events.
\<close>

section \<open>Statistics\<close>

record stats_t =
  total_msgs_read :: u32
  total_bytes_read :: u32

definition stats_new :: stats_t where
  "stats_new = \<lparr>total_msgs_read = 0, total_bytes_read = 0\<rparr>"

definition stats_add :: "u32 \<Rightarrow> u32 \<Rightarrow> stats_t \<Rightarrow> stats_t" where
  "stats_add msgs bytes_read s = s\<lparr>total_msgs_read := total_msgs_read s + msgs, total_bytes_read := total_bytes_read s + bytes_read\<rparr>"

text \<open>\<open>print\<close>: the two totals, and numerator and denominator of the two quotients. The product \<open>timeout * 1024 * 1024\<close> is of 32 bits.\<close>

definition stats_print :: "u32 \<Rightarrow> stats_t \<Rightarrow> u32 \<times> u32 \<times> (u32 \<times> u32) \<times> (u32 \<times> u32)" where
  "stats_print timeout s = (total_msgs_read s, total_bytes_read s, (total_bytes_read s, total_msgs_read s), (total_bytes_read s, timeout * 1024 * 1024))"

section \<open>The client\<close>

text \<open>\<open>ac_open\<close> says of each session whether its socket is open.\<close>

record asio_client =
  ac_sessions :: "pp_client list"
  ac_open :: "bool list"
  ac_stats :: stats_t
  ac_timeout :: u32

definition ac_new :: "nat \<Rightarrow> nat \<Rightarrow> u32 \<Rightarrow> asio_client" where
  "ac_new block_size session_count timeout =
     \<lparr>ac_sessions = replicate session_count (pp_cli_new block_size), ac_open = replicate session_count True, ac_stats = stats_new, ac_timeout = timeout\<rparr>"

definition ac_handle_timeout :: "asio_client \<Rightarrow> asio_client" where
  "ac_handle_timeout c = c\<lparr>ac_open := map (\<lambda>b. False) (ac_open c)\<rparr>"

definition session_destroy :: "pp_client \<Rightarrow> stats_t \<Rightarrow> stats_t" where
  "session_destroy s = stats_add (pp_msgs s) (pp_bytes_read s)"

fun ac_delete :: "pp_client list \<Rightarrow> stats_t \<Rightarrow> stats_t" where
  "ac_delete [] st = st"
| "ac_delete (s # ss) st = ac_delete ss (session_destroy s st)"

definition ac_destroy :: "asio_client \<Rightarrow> u32 \<times> u32 \<times> (u32 \<times> u32) \<times> (u32 \<times> u32)" where
  "ac_destroy c = stats_print (ac_timeout c) (ac_delete (ac_sessions c) (ac_stats c))"

text \<open>
  The events of a client: a session's connect completes, with its error and that of setting the option; a completion of a session's read or write; the time is over. A session whose socket is
  closed gets no more data.
\<close>

datatype ac_event = AC_connected nat bool | AC_completes nat pp_event | AC_timeout

definition ac_update :: "nat \<Rightarrow> (pp_client \<Rightarrow> pp_client) \<Rightarrow> asio_client \<Rightarrow> asio_client" where
  "ac_update i f c = (if i < length (ac_sessions c) then c\<lparr>ac_sessions := (ac_sessions c)[i := f (ac_sessions c ! i)]\<rparr> else c)"

fun ac_step :: "nat \<Rightarrow> ac_event \<Rightarrow> asio_client \<Rightarrow> asio_client" where
  "ac_step n (AC_connected i set_option_err) c = ac_update i (pp_cli_connected set_option_err n) c"
| "ac_step n (AC_completes i e) c =
     (if i < length (ac_open c) \<and> ac_open c ! i \<or> e = Read_error \<or> e = Write_error then ac_update i (pp_cli_step e) c else c)"
| "ac_step n AC_timeout c = ac_handle_timeout c"

section \<open>The server\<close>

text \<open>\<open>as_waiting\<close> is the session given to the accept under way; \<open>as_sessions\<close> are those that were started, and \<open>as_deleted\<close> counts the deleted ones.\<close>

record asio_server =
  as_waiting :: "pp_session option"
  as_sessions :: "pp_session list"
  as_deleted :: nat

definition as_new :: "pp_session \<Rightarrow> asio_server" where
  "as_new s = \<lparr>as_waiting = Some s, as_sessions = [], as_deleted = 0\<rparr>"

text \<open>The accept under way completes; \<open>fresh\<close> is the session made for the next one.\<close>

definition as_handle_accept :: "bool \<Rightarrow> bool \<Rightarrow> pp_session \<Rightarrow> asio_server \<Rightarrow> asio_server" where
  "as_handle_accept err set_option_err fresh a =
     (case as_waiting a of
        None \<Rightarrow> a
      | Some s \<Rightarrow>
          if \<not> err then a\<lparr>as_waiting := Some fresh, as_sessions := as_sessions a @ [pp_svr_start set_option_err s]\<rparr>
          else a\<lparr>as_waiting := None, as_deleted := Suc (as_deleted a)\<rparr>)"

section \<open>Properties\<close>

lemma ac_delete_totals:
  "ac_delete ss st = \<lparr>total_msgs_read = total_msgs_read st + sum_list (map pp_msgs ss), total_bytes_read = total_bytes_read st + sum_list (map pp_bytes_read ss)\<rparr>"
  by (induction ss arbitrary: st) (simp_all add: session_destroy_def stats_add_def add.assoc)

definition counted :: "asio_client \<Rightarrow> bool" where
  "counted c \<longleftrightarrow> ac_stats c = stats_new \<and> list_all (\<lambda>s. pp_bytes_read s = of_nat (length (pp_in s))) (ac_sessions c)"

lemma connected_counts: "pp_bytes_read s = of_nat (length (pp_in s)) \<Longrightarrow> pp_bytes_read (pp_cli_connected e n s) = of_nat (length (pp_in (pp_cli_connected e n s)))"
  by (simp add: pp_cli_connected_def)

lemma counted_update:
  assumes "counted c" "\<And>s. pp_bytes_read s = of_nat (length (pp_in s)) \<Longrightarrow> pp_bytes_read (f s) = of_nat (length (pp_in (f s)))"
  shows "counted (ac_update i f c)"
  using assms by (auto simp: counted_def ac_update_def list_all_length nth_list_update)

lemma counted_step: "counted c \<Longrightarrow> counted (ac_step n e c)"
proof (cases e)
  case (AC_connected i b)
  assume "counted c"
  then show ?thesis using AC_connected by (simp add: counted_update connected_counts)
next
  case (AC_completes i x)
  assume c: "counted c"
  have "counted (ac_update i (pp_cli_step x) c)"
    by (rule counted_update [OF c]) (use cli_counts [of _ "[x]"] in simp)
  then show ?thesis using AC_completes c by simp
next
  case AC_timeout
  assume "counted c"
  then show ?thesis using AC_timeout by (simp add: counted_def ac_handle_timeout_def)
qed

lemma counted_run: "counted c \<Longrightarrow> counted (fold (ac_step n) es c)"
  by (induction es arbitrary: c) (simp_all add: counted_step)

lemma sum_list_of_nat: "sum_list (map (\<lambda>x. of_nat (f x)) xs) = (of_nat (sum_list (map f xs)) :: u32)"
  by (induction xs) simp_all

text \<open>
  Whatever happens in the sessions of a client, the total of bytes its destructor prints is the number of bytes all of them have received, modulo \<open>2 ^ 32\<close>.
\<close>

theorem client_prints_bytes:
  "fst (snd (ac_destroy (fold (ac_step n) es (ac_new n k timeout)))) =
     of_nat (sum_list (map (length \<circ> pp_in) (ac_sessions (fold (ac_step n) es (ac_new n k timeout)))))"
proof -
  let ?c = "fold (ac_step n) es (ac_new n k timeout)"
  have "counted (ac_new n k timeout)"
    by (auto simp: counted_def ac_new_def list_all_iff pp_cli_new_def pp_new_def pp_session.defs)
  then have c: "counted ?c" by (rule counted_run)
  have "map pp_bytes_read (ac_sessions ?c) = map (\<lambda>s. of_nat (length (pp_in s))) (ac_sessions ?c)"
    using c by (simp add: counted_def list_all_iff)
  moreover have "fst (snd (ac_destroy ?c)) = sum_list (map pp_bytes_read (ac_sessions ?c))"
    using c by (simp add: ac_destroy_def stats_print_def ac_delete_totals counted_def stats_new_def)
  ultimately show ?thesis by (simp only: sum_list_of_nat comp_def)
qed

text \<open>
  The divisor of the throughput is 0 for a time of 4096 seconds, and that of the average is 0 when no message was read.
\<close>

lemma throughput_divisor_wraps: "snd (snd (snd (stats_print 4096 s))) = (total_bytes_read s, 0)"
  by (simp add: stats_print_def)

text \<open>
  The server always has a session waiting, until an accept fails: then it accepts no more. Every session made is waiting, started or deleted.
\<close>

theorem server_accepts_until_error:
  "as_waiting (fold (\<lambda>(err, opt, s). as_handle_accept err opt s) es (as_new s0)) \<noteq> None \<longleftrightarrow> list_all (\<lambda>(err, opt, s). \<not> err) es"
  "length (as_sessions (fold (\<lambda>(err, opt, s). as_handle_accept err opt s) es (as_new s0))) = length (takeWhile (\<lambda>(err, opt, s). \<not> err) es)"
proof -
  have stays: "as_waiting a = None \<Longrightarrow> fold (\<lambda>(err, opt, s). as_handle_accept err opt s) es a = a" for es a
    by (induction es) (auto simp: as_handle_accept_def)
  have run: "as_waiting a \<noteq> None \<Longrightarrow>
      (as_waiting (fold (\<lambda>(err, opt, s). as_handle_accept err opt s) es a) \<noteq> None \<longleftrightarrow> list_all (\<lambda>(err, opt, s). \<not> err) es) \<and>
      length (as_sessions (fold (\<lambda>(err, opt, s). as_handle_accept err opt s) es a)) = length (as_sessions a) + length (takeWhile (\<lambda>(err, opt, s). \<not> err) es)" for a
  proof (induction es arbitrary: a)
    case (Cons e es)
    obtain err opt s where e: "e = (err, opt, s)" by (cases e)
    obtain w where w: "as_waiting a = Some w" using Cons.prems by auto
    show ?case
    proof (cases err)
      case True
      have h: "as_handle_accept True opt s a = a\<lparr>as_waiting := None, as_deleted := Suc (as_deleted a)\<rparr>" using w by (simp add: as_handle_accept_def)
      show ?thesis using True stays [of "a\<lparr>as_waiting := None, as_deleted := Suc (as_deleted a)\<rparr>"] by (simp add: e h)
    next
      case False
      have h: "as_handle_accept False opt s a = a\<lparr>as_waiting := Some s, as_sessions := as_sessions a @ [pp_svr_start opt w]\<rparr>" using w by (simp add: as_handle_accept_def)
      show ?thesis using False Cons.IH [of "a\<lparr>as_waiting := Some s, as_sessions := as_sessions a @ [pp_svr_start opt w]\<rparr>"] by (simp add: e h)
    qed
  qed simp
  show "as_waiting (fold (\<lambda>(err, opt, s). as_handle_accept err opt s) es (as_new s0)) \<noteq> None \<longleftrightarrow> list_all (\<lambda>(err, opt, s). \<not> err) es"
    "length (as_sessions (fold (\<lambda>(err, opt, s). as_handle_accept err opt s) es (as_new s0))) = length (takeWhile (\<lambda>(err, opt, s). \<not> err) es)"
    using run [of "as_new s0"] by (simp_all add: as_new_def)
qed

end
