(* ===== verification/Spec2Isabelle.thy ===== *)
theory Spec2Isabelle
  imports Ser_Roundtrip Http_Server Mem_Fixed Async_Transfer Assoc_Vector Str_Algorithm Net_Session Net_Server Timer_Service Thread_Pool Sock_Tunnel
    File_Monitor Std_Utility Net_Helper Msg_Decoder Win_Thread Sys_Pool Ser_Safety Str_Number Sync_Container Win_Event Test_Mock Test_Vdisk Ex_Echo Perf_Pingpong
    Ex_Programs Task_Adaptor Unicode_String Obj_Pool Net_Tcp Net_Lifecycle
    Ser_File Io_Lifecycle Ex_Clients Ex_Roundtrip Net_Udp Perf_Asio
begin

text \<open>
  A verification development for \<^bold>\<open>iocpframework\<close>, a C++ framework for asynchronous input and
  output on Windows completion ports. The library is header-based (\<open>include/\<close>, a few \<open>.cpp\<close>
  files among them); \<open>Example/\<close> holds programs that use it.

  \<^bold>\<open>The program.\<close> At the bottom stands the dispatcher (\<open>async_io/service\<close>): threads wait on one
  completion port, and each completed operation hands a heap-allocated callback back to one of
  them. Sockets, files and timers start operations on it. The composed operations
  (\<open>read.hpp\<close>, \<open>write.hpp\<close>) loop over a stream's single operations until a condition on
  the number of bytes holds. Sessions, clients and the server (\<open>network.hpp\<close>) are built from
  these: the server's thread takes sockets from a pool, accepts, and a session then reads and
  writes; on an error it is disconnected and its socket goes back to the pool. The rest are
  libraries of their own: serialisation of C++ values into a byte buffer (\<open>serialize/\<close>), memory
  pools (\<open>memory_pool/\<close>), a sorted vector with the interface of a map, thread-safe containers
  and string algorithms (\<open>extend_stl/\<close>). The largest example is an HTTP server
  (\<open>Example/Network/Http\<close>): a parser driven byte by byte, a handler that maps a request to a
  file, and connections that read, parse and write a reply.

  \<^bold>\<open>Conventions.\<close> Theory \<open>Prelude\<close> fixes them. The target is Win32 as in the project files:
  \<open>size_t\<close> and \<open>DWORD\<close> are 32 bits wide and wrap; sums and products the code forms in \<open>size_t\<close> before it has
  checked them (lengths in a stream, the sizes the memory pools ask for) are words or written out modulo 2 to the 32; a \<open>nat\<close> stands for a number that the size of an
  object that exists bounds, or for an auxiliary count. Failures are values: \<open>'a result\<close> is a value or an error, and the errors are
  the exceptions the code throws and \<open>Access_violation\<close> for undefined behaviour of C++ (an access outside a buffer,
  \<open>back()\<close> of an empty vector), so that a theorem saying that a function returns excludes
  both. An \<open>assert\<close> is not evaluated, as in the release build. Loops are structural recursion
  or have a termination proof; the loops of the program that may run for ever are
  functions into \<open>option\<close> (\<open>transfer_loop\<close>, \<open>out_of_malloc\<close> with \<open>out_of_realloc\<close>,
  \<open>replace_all\<close>, \<open>dns_loop\<close>, \<open>message_loop\<close> and \<open>looped_task\<close>), where \<^term>\<open>None\<close> means that the code does not return, and for each both the cases in
  which it returns and the cases in which it does not are theorems; \<open>contains_from\<close> and \<open>wait_handle_task\<close> are shown to return, and
  \<open>chunk_alloc\<close> and \<open>fixed_chunk_alloc\<close> in a program without an out-of-memory handler. No fuel is used anywhere.

  What lies outside the repository is a parameter: \<open>malloc\<close> and \<open>realloc\<close> (hypothesis
  \<open>malloc_law\<close>: a returned block is fresh and in range), the functions a program installs as out-of-memory handler, the growth of \<open>std::vector\<close>, the file system of the HTTP server, the
  filling bytes of \<open>vector::resize\<close>, the stream of a composed operation (\<open>read_law\<close>:
  an operation moves between one byte and what it was asked for), the completions of the
  kernel (a list of events or the steps of a relation, in any order), \<open>WaitForMultipleObjectsEx\<close>
  (\<open>wait_law\<close>), Winsock and the functions of Win32 on files (\<open>file_law\<close>), threads and events (\<open>event_law\<close>, \<open>event_os_law\<close>), each a record of functions on a
  state of any type, the tables of the network helper, \<open>inet_addr\<close>
  (\<open>inet_law\<close>), critical sections, mutexes and thread-local slots (\<open>cs_law\<close>, \<open>mutex_law\<close>, \<open>tls_law\<close>), code pages (\<open>lossless\<close>), and the user's handlers. Each property with such a hypothesis has a witness
  with a concrete parameter.

  \<^bold>\<open>Serialisation\<close> (\<open>serialize/serialize.hpp\<close>, \<open>serialize/detail/*.hpp\<close>). \<open>Ser_Stream\<close> has
  \<open>memory_t\<close> and the binary and text readers and writers with their 32-bit positions and
  guards: writers append exactly the object's bytes or throw and never leave the buffer,
  readers return the next bytes (lengths below 2 to the 31; beyond, the guard wraps, theorem
  \<open>pop_pointer_guard_wraps\<close>). \<open>Ser_Dispatch\<close> has the overloads of \<open>operator<<\<close> and
  \<open>operator>>\<close> over a universe of C++ types: which handler a type reaches, containers with
  their counts, tuples, pairs, pointers; dispatch ends for every supported type but the unordered containers.
  \<open>Ser_Roundtrip\<close> defines the wire format \<open>encode\<close>, shows that \<open>push\<close> refines it and that
  any message read back with the types it was written with is unchanged; the locale \<open>codec\<close>
  lifts this from values to messages. \<open>Ser_Safety\<close>: on any bytes at all, reading a type throws or gives a well-typed value; it never leaves the buffer. The exceptions are those of
  the code, \<open>std::length_error\<close> of a container too long for its type among them.
  \<open>Ser_File\<close>: streams over files, whose values are read back and whose position wraps at 4 GB, and strings given as pointers.

  \<^bold>\<open>HTTP server\<close> (\<open>Example/Network/Http/Http\<close>). \<open>Http_Parser\<close>: the parser's states, one
  equation per state; it never faults, and it accepts exactly a declarative grammar of
  requests. \<open>Http_Reply\<close>: status lines, stock replies, mime types. \<open>Http_Handler\<close>:
  percent decoding, the checks on the path, the block-wise reading of the file; the reply
  depends only on files below the document root, and an existing file is served whole.
  \<open>Http_Server\<close>: connections, their manager and the accept loop as a step relation, in which \<open>StopAll\<close> walks the connections without the lock and
  clears them in a step of its own;
  the locale \<open>incremental\<close> shows that a request may be cut anywhere, the invariant
  bounds the outstanding operations of a connection, says which connections a race with \<open>StopAll\<close> leaves behind, and every connection makes progress.

  \<^bold>\<open>Memory pools\<close> (\<open>memory_pool/*.hpp\<close>). \<open>Mem_Malloc\<close>: the byte heap, \<open>malloc_pool\<close>
  with its out-of-memory handler, read anew in each round, which may throw or install another or none. \<open>Mem_Blocks\<close>: free lists threaded through the heap,
  the buffer and its invariant for any system of size classes (locale \<open>size_classes\<close>).
  \<open>Mem_Pool\<close> and \<open>Mem_Fixed\<close>: the two pools, interpretations of it: allocation,
  deallocation, reallocation and clearing, with the heap contents. A pool keeps its invariant unless the vector of its buffers
  cannot grow, after which its free space is torn (\<open>pool_torn\<close>, \<open>fixed_torn\<close>); the fixed pool is correct for block sizes whose products do not wrap (\<open>round_ok\<close>). \<open>Mem_Client\<close>: the locale \<open>block_allocator\<close>, in which
  any client run is safe, interpreted on both pools.

  \<^bold>\<open>Composed transfers\<close> (\<open>async_io/service/read.hpp\<close>, \<open>write.hpp\<close>, \<open>condition.hpp\<close>,
  \<open>read_write_buffer.hpp\<close>, \<open>multi_buffer.hpp\<close>). \<open>Async_Transfer\<close>: buffers, the
  synchronous loops on any stream, the completion handlers; every transfer moves the bytes of the buffer in order, each operation asks for exactly the
  size the code computes (all of the buffer first, then at most 64 KB), and its handler is called once.

  \<^bold>\<open>Dispatcher\<close> (\<open>async_result.hpp\<close>, \<open>dispatcher.*\<close>, \<open>iocp.hpp\<close>, \<open>socket.hpp\<close>).
  \<open>Io_Dispatcher\<close>: the life of a callback under any interleaving of starts, kernel
  completions and threads, batches of completions, throwing handlers. \<open>Io_Lifecycle\<close>: the port, construction, \<open>stop\<close> and destruction around them: \<open>stop\<close> can
  always return when every thread has begun to wait, and hangs when it comes before one has; what it leaves in the port is stranded.

  \<^bold>\<open>Sessions, clients, server\<close> (\<open>network.hpp\<close>, \<open>network.cpp\<close>, \<open>sync_container.hpp\<close>,
  \<open>object_pool.hpp\<close>). \<open>Net_Session\<close> composes the two previous theories: the calls a completion
  leads to, messages delivered once, however they are split, and which completions of a batch are served when handlers throw. \<open>Net_Server\<close>:
  the thread-safe container step by step, the object pool with concurrent threads, the
  accept round and the place of each socket. \<open>Obj_Pool\<close>: the pool with pointers that return their objects by themselves. \<open>Net_Tcp\<close>: stream sockets and acceptors over the socket handle, Winsock's start-up, and
  \<open>client::send\<close> and \<open>recv\<close> from the call down to \<open>WSASend\<close> and \<open>WSARecv\<close>: they return, with all bytes or with the error reported and the socket closed. \<open>Net_Lifecycle\<close>: the
  asynchronous calls of a client, the accept thread as a whole and a step relation for starting and stopping the server. \<open>Net_Udp\<close>: datagram sockets and the
  datagram echo server of the examples.

  \<^bold>\<open>Containers, strings, timers.\<close> \<open>Assoc_Vector\<close> (\<open>container/assio_vector.hpp\<close>): every operation, for any
  strict weak order (locale \<open>strict_weak_order\<close>), refines a map. \<open>Str_Algorithm\<close>
  (\<open>string/algorithm.hpp\<close>): replacing, trimming, splitting. \<open>Str_Number\<close>: case, numbers
  and their strings, comparison without case (a strict weak order), and \<open>is_valid_ip\<close> of \<open>win32/network\<close>. \<open>Unicode_String\<close> (\<open>unicode/string.hpp\<close>,
  \<open>exception/exception_base.hpp\<close>): conversions between narrow and wide strings, messages of exceptions. \<open>Timer_Service\<close>
  (\<open>async_io/timer\<close>, whose table is a \<open>std::map\<close>): the table, the timer thread and its
  copy of the handles under any interleaving.

  \<^bold>\<open>Threads and queues\<close> (\<open>multi_thread/\<close>, \<open>container/blocking_queue.hpp\<close>). \<open>Sync_Lock\<close>: critical sections, mutexes and the other locks; in the locale
  \<open>exclusive_lock\<close> threads run nested blocks under \<open>auto_lock_t\<close>, whose steps may be interleaved in any way, and the blocks take effect one after the other.
  \<open>Sync_Container\<close> uses it: the calls of the synchronised containers are linearizable, a reference being the place it points to; what is read through it after the call is
  not protected (\<open>read_ref\<close>). \<open>Win_Event\<close>: events, thread-local pointers, the call stack. \<open>Sync_Condition\<close>: the semaphore, the condition
  variable built from it and the multiple event, their calls cut into the steps at which other threads may come in between; the locale
  \<open>condition_variable\<close> is what a queue needs of them. \<open>Work_Queue\<close>: the schedulers and the blocking queue on it: elements in order, none lost,
  no consumer blocked for ever (the number of waiting threads stays below the limit \<open>LONG_MAX\<close> of a semaphore). \<open>Thread_Pool\<close>: the workers, the size
  policies, shutdown. \<open>Task_Adaptor\<close>: tasks that run again and again. \<open>Win_Thread\<close>: the thread object, its handle and flags, the stop policies (locale \<open>stop_policy\<close>), \<open>stop\<close> and \<open>join\<close>, the message
  loops. \<open>Sys_Pool\<close>: work items, timers and waits of the system's pool and the life of their callbacks, queued and running, under any interleaving.

  \<^bold>\<open>Sockets and files\<close> (\<open>async_io/network/socket.*\<close>, \<open>socket_option.hpp\<close>, \<open>async_io/file\<close>, \<open>win32/\<close>). \<open>Net_Socket\<close>: every operation of a
  socket handle on any Winsock, the asynchronous ones up to their call, the protocol its calls obey, options, addresses. \<open>File_Monitor\<close>: file handles with their 64-bit offsets
  and the walk over the records of a directory monitor. \<open>Net_Helper\<close>: the functions that collect addresses, name servers and ports. \<open>Sock_Tunnel\<close>
  (\<open>Example/Network/Sock4a\<close>): the tunnel's two relayed directions as a step relation, the formats of the protocol.

  \<^bold>\<open>Utilities and test code.\<close> \<open>Std_Utility\<close>: the stack and pool allocators of \<open>extend_stl/allocator\<close>, the circular buffer, the synchronised
  associative container. \<open>Msg_Decoder\<close> (\<open>test/read_write_test\<close>): the decoder of length-prefixed messages. \<open>Test_Mock\<close>: the mock
  socket of the same test, which writes with the serialiser and is read through the decoder. \<open>Test_Vdisk\<close> (\<open>test/vdisk_svr\<close>): requests, replies and the read loop of a disk
  server. \<open>Ex_Echo\<close>: two echo servers of the examples, interpretations of the locale \<open>echo_server\<close>. \<open>Ex_Programs\<close>: the file copy,
  which ends with the same file when every operation succeeds in full, and a server with a limit on its connections, whose
  unsynchronised counter loses updates (lemma \<open>counter_race_closes_server\<close>). \<open>Perf_Pingpong\<close> (\<open>performance/pingpong\<close>): full-duplex sessions on two
  buffers that change roles, the handler allocator; \<open>Perf_Asio\<close>: the statistics and the programs around them. \<open>Ex_Clients\<close>: a third echo server, again an interpretation, and two clients in the
  locale \<open>turn_handlers\<close>, which never have two messages without an answer between them. \<open>Ex_Roundtrip\<close>: client and server of the round-trip timer, whose printed times are the
  elapsed ticks. This theory closes with the composition of serialisation and decoder.

  \<^bold>\<open>Not modelled.\<close> Protocol Buffers (\<open>third_party\<close>) is vendored. Code without behaviour of its own beyond one call of Windows: performance counters, stack walking; the memory traits over \<open>VirtualAlloc\<close>, \<open>HeapAlloc\<close> and \<open>CoTaskMemAlloc\<close>. Members
  of files that only forward to the handles modelled here, and the members of datagram sockets that name undeclared things.
  Code that cannot be compiled when used, the priority scheduler, the bounded queue, some overloads of the system pool's \<open>call\<close>, the thread function of
  \<open>thread_impl_t\<close>. Two examples over buffer classes that are not in the repository (\<open>BlockEcho\<close>). The main programs of the examples and tests, their argument handling and printing.
\<close>

section \<open>Serialised vectors and the message decoder\<close>

text \<open>The serialisation of a vector of bytes is a frame of the decoder: a count in four bytes, then the bytes.\<close>

lemma encode_bytes_frame: "encode (Vector (Pod 1)) (VRaw bs) = frame bs"
  by (simp add: encode_counted_def frame_def)

lemma vectors_emit:
  assumes "wf_stream s" "\<forall>bs \<in> set vecs. length bs < 2 ^ 31"
  shows "put_all push (map (\<lambda>bs. (Vector (Pod 1), VRaw bs)) vecs) s = emit (concat (map frame vecs)) s"
proof -
  let ?msg = "map (\<lambda>bs. (Vector (Pod 1), VRaw bs)) vecs"
  have "\<forall>m \<in> set ?msg. has_ty demo_sz demo_lt (fst m) (snd m) \<and> char_array_free (fst m)"
    using assms(2) by auto
  from appendsD [OF ser.put_all_appends [OF this] assms(1)] show ?thesis
    by (simp add: comp_def encode_bytes_frame del: encode.simps One_nat_def)
qed

text \<open>
  C5. Writer and decoder agree across the network: the vectors of bytes a program writes into a serialisation buffer, sent as the bytes of that
  buffer and received in pieces of at least four bytes, reach the callback of the decoder one by one, in order and unchanged.
\<close>

theorem serialized_vectors_decoded:
  assumes "wf_stream s" "\<forall>bs \<in> set vecs. length bs < 2 ^ 31"
    and "put_all push (map (\<lambda>bs. (Vector (Pod 1), VRaw bs)) vecs) s = Inr s'"
    and "concat pieces = get_block (unat (in_pos s)) (unat (in_pos s') - unat (in_pos s)) (buf (buffer s'))"
    and "\<forall>b \<in> set pieces. 4 \<le> length b"
  shows "fst (handle_all new_decoder pieces) = vecs"
proof -
  have "emit (concat (map frame vecs)) s = Inr s'" using vectors_emit [OF assms(1,2)] assms(3) by simp
  then have "concat pieces = concat (map frame vecs)" using emit_written [OF assms(1)] assms(4) by simp
  moreover have "\<forall>m \<in> set vecs. length m < 2 ^ 32" using assms(2) by auto
  ultimately show ?thesis using handle_all_frames [OF _ assms(5)] by blast
qed

theorem serialized_vectors_decoded_witness:
  "\<exists>s'. put_all push [(Vector (Pod 1), VRaw [7, 8]), (Vector (Pod 1), VRaw [9])] demo_start = Inr s' \<and>
     concat [[2, 0, 0, 0, 7], [8, 1, 0, 0, 0, 9]] = get_block 0 11 (buf (buffer s')) \<and>
     fst (handle_all new_decoder [[2, 0, 0, 0, 7], [8, 1, 0, 0, 0, 9]]) = [[7, 8], [9]]"
proof -
  let ?bs = "[2, 0, 0, 0, 7, 8, 1, 0, 0, 0, 9] :: bytes"
  have sent: "put_all push [(Vector (Pod 1), VRaw [7, 8]), (Vector (Pod 1), VRaw [9])] demo_start = emit ?bs demo_start"
    using vectors_emit [OF wf_demo_start, of "[[7, 8], [9]]"] by (simp add: frame_def u32_rep_def)
  obtain s' where s': "emit ?bs demo_start = Inr s'"
    by (simp add: emit_def demo_start_def serialize_make_def memory_t_make_def)
  have pos: "unat (in_pos demo_start) = 0" "unat (in_pos s') = 11"
    using emit_in_pos [OF wf_demo_start s'] by (simp_all add: demo_start_def serialize_make_def)
  have wire: "get_block 0 11 (buf (buffer s')) = ?bs" using emit_written [OF wf_demo_start s'] by (simp add: pos)
  have "fst (handle_all new_decoder [[2, 0, 0, 0, 7], [8, 1, 0, 0, 0, 9]]) = [[7, 8], [9]]"
    by (rule serialized_vectors_decoded [OF wf_demo_start, where s' = s']) (use sent s' pos wire in simp_all)
  with sent s' wire show ?thesis by auto
qed

end
